(* ===== verification/Prelude.thy ===== *)
theory Prelude
  imports Main "HOL-Library.Word" "HOL-Library.Signed_Division" "HOL-Library.Sublist"
begin

text \<open>
  Shared vocabulary of the development: the machine types of the C++ code, how a
  \<^verbatim>\<open>char\<close> is read as a number, C's truncating integer division, and generic
  lemmas on lists and characters that several components use.

  A \<^verbatim>\<open>std::string\<close> or a half-open pointer range \<open>[b, e)\<close> of text is a
  \<^typ>\<open>string\<close> (a \<^typ>\<open>char\<close> is exactly one byte, 0 to 255); a buffer of raw bytes is a
  \<^typ>\<open>8 word list\<close>. A pointer that walks through a range is the list of what is left.
\<close>

type_synonym byte = "8 word"
type_synonym u32 = "32 word"
type_synonym u64 = "64 word"

named_theorems char_class "characterisations of the character classes"
named_theorems len_bound "bounds on the number of bytes an operation consumes or produces"

subsection \<open>Characters as numbers\<close>

text \<open>\<^verbatim>\<open>(uint8_t)c\<close> and \<^verbatim>\<open>(int)c\<close> on a target where \<^verbatim>\<open>char\<close> is signed (x86-64).\<close>

definition uchar :: "char \<Rightarrow> nat" where
  "uchar c = of_char c"

definition schar :: "char \<Rightarrow> int" where
  "schar c = (if uchar c < 128 then int (uchar c) else int (uchar c) - 256)"

text \<open>Storing an integer into a \<^verbatim>\<open>char\<close> keeps its low eight bits.\<close>

definition to_char :: "int \<Rightarrow> char" where
  "to_char n = char_of (nat (n mod 256))"

lemma uchar_less [simp]: "uchar c < 256"
  by (simp add: uchar_def)

lemma uchar_inject [simp]: "uchar c = uchar d \<longleftrightarrow> c = d"
  by (simp add: uchar_def)

lemma char_of_uchar [simp]: "char_of (uchar c) = c"
  by (simp add: uchar_def)

lemma uchar_char_of [simp]: "uchar (char_of (n::nat)) = n mod 256"
  by (simp add: uchar_def)

lemma schar_nonneg: "0 \<le> schar c \<longleftrightarrow> uchar c < 128"
  using uchar_less [of c] by (simp add: schar_def del: uchar_less)

lemma uchar_to_char: "0 \<le> n \<Longrightarrow> n < 256 \<Longrightarrow> uchar (to_char n) = nat n"
  by (simp add: to_char_def)

text \<open>A table indexed by \<^verbatim>\<open>(uint8_t)c\<close> that lists the values of a predicate.\<close>

lemma table_lookup:
  assumes "tbl = map f [0..<256]"
  shows "tbl ! uchar c = f (uchar c)"
  using assms by simp

subsection \<open>Signed ranges\<close>

definition int_min :: "nat \<Rightarrow> int" where
  "int_min w = - (2 ^ (w - 1))"

definition int_max :: "nat \<Rightarrow> int" where
  "int_max w = 2 ^ (w - 1) - 1"

definition in_range :: "nat \<Rightarrow> int \<Rightarrow> bool" where
  "in_range w n \<longleftrightarrow> int_min w \<le> n \<and> n \<le> int_max w"

lemma in_range_simps [simp]:
  "in_range 8 n \<longleftrightarrow> - 128 \<le> n \<and> n \<le> 127"
  "in_range 16 n \<longleftrightarrow> - 32768 \<le> n \<and> n \<le> 32767"
  "in_range 32 n \<longleftrightarrow> - 2147483648 \<le> n \<and> n \<le> 2147483647"
  "in_range 64 n \<longleftrightarrow> - 9223372036854775808 \<le> n \<and> n \<le> 9223372036854775807"
  by (simp_all add: in_range_def int_min_def int_max_def)

subsection \<open>Lists\<close>

lemma takeWhile_all: "(\<And>x. x \<in> set xs \<Longrightarrow> P x) \<Longrightarrow> takeWhile P xs = xs"
  by (simp add: takeWhile_eq_all_conv)

lemma takeWhile_stop:
  assumes "\<And>x. x \<in> set xs \<Longrightarrow> P x" and "ys = [] \<or> \<not> P (hd ys)"
  shows "takeWhile P (xs @ ys) = xs"
  using assms by (cases ys) auto

lemma dropWhile_stop:
  assumes "\<And>x. x \<in> set xs \<Longrightarrow> P x" and "ys = [] \<or> \<not> P (hd ys)"
  shows "dropWhile P (xs @ ys) = ys"
  using assms by (cases ys) auto

lemma length_takeWhile_dropWhile:
  "length (takeWhile P xs) + length (dropWhile P xs) = length xs"
  by (metis length_append takeWhile_dropWhile_id)

lemma take_drop_rest [simp]: "take n (drop m xs) @ drop (m + n) xs = drop m xs"
  by (metis append_take_drop_id drop_drop add.commute)

end
