(* ===== verification/Char_Classes.thy ===== *)
theory Char_Classes
  imports Prelude
begin

text \<open>
  The character classes of \<^verbatim>\<open>TextParserUtils\<close> (fma-common/text_parser.h): the 256-entry tables,
  the functions that index them with \<^verbatim>\<open>(uint8_t)c\<close>, and, where the source has two variants
  under \<^verbatim>\<open>#ifdef _WIN32\<close>, both of them (the table variant carries the suffix \<open>_win32\<close>).
  A table entry is 0 or 1 as in the source; C++ reads it as a \<^verbatim>\<open>bool\<close>.
  The lemmas in \<open>char_class\<close> say which bytes each class holds.
\<close>

subsection \<open>The tables\<close>

definition is_control_tbl :: "nat list" where
  "is_control_tbl = [
    1, 1, 1, 1, 1, 1, 1, 1, 1, 1, 1, 1, 1, 1, 1, 1, 1, 1, 1, 1, 1, 1, 1, 1, 1, 1, 1, 1, 1, 1, 1, 1,
    0, 0, 0, 0, 0, 0, 0, 0, 0, 0, 0, 0, 0, 0, 0, 0, 0, 0, 0, 0, 0, 0, 0, 0, 0, 0, 0, 0, 0, 0, 0, 0,
    0, 0, 0, 0, 0, 0, 0, 0, 0, 0, 0, 0, 0, 0, 0, 0, 0, 0, 0, 0, 0, 0, 0, 0, 0, 0, 0, 0, 0, 0, 0, 0,
    0, 0, 0, 0, 0, 0, 0, 0, 0, 0, 0, 0, 0, 0, 0, 0, 0, 0, 0, 0, 0, 0, 0, 0, 0, 0, 0, 0, 0, 0, 0, 1,
    0, 0, 0, 0, 0, 0, 0, 0, 0, 0, 0, 0, 0, 0, 0, 0, 0, 0, 0, 0, 0, 0, 0, 0, 0, 0, 0, 0, 0, 0, 0, 0,
    0, 0, 0, 0, 0, 0, 0, 0, 0, 0, 0, 0, 0, 0, 0, 0, 0, 0, 0, 0, 0, 0, 0, 0, 0, 0, 0, 0, 0, 0, 0, 0,
    0, 0, 0, 0, 0, 0, 0, 0, 0, 0, 0, 0, 0, 0, 0, 0, 0, 0, 0, 0, 0, 0, 0, 0, 0, 0, 0, 0, 0, 0, 0, 0,
    0, 0, 0, 0, 0, 0, 0, 0, 0, 0, 0, 0, 0, 0, 0, 0, 0, 0, 0, 0, 0, 0, 0, 0, 0, 0, 0, 0, 0, 0, 0, 0]"

definition is_digit_tbl :: "nat list" where
  "is_digit_tbl = [
    0, 0, 0, 0, 0, 0, 0, 0, 0, 0, 0, 0, 0, 0, 0, 0, 0, 0, 0, 0, 0, 0, 0, 0, 0, 0, 0, 0, 0, 0, 0, 0,
    0, 0, 0, 0, 0, 0, 0, 0, 0, 0, 0, 0, 0, 0, 0, 0, 1, 1, 1, 1, 1, 1, 1, 1, 1, 1, 0, 0, 0, 0, 0, 0,
    0, 0, 0, 0, 0, 0, 0, 0, 0, 0, 0, 0, 0, 0, 0, 0, 0, 0, 0, 0, 0, 0, 0, 0, 0, 0, 0, 0, 0, 0, 0, 0,
    0, 0, 0, 0, 0, 0, 0, 0, 0, 0, 0, 0, 0, 0, 0, 0, 0, 0, 0, 0, 0, 0, 0, 0, 0, 0, 0, 0, 0, 0, 0, 0,
    0, 0, 0, 0, 0, 0, 0, 0, 0, 0, 0, 0, 0, 0, 0, 0, 0, 0, 0, 0, 0, 0, 0, 0, 0, 0, 0, 0, 0, 0, 0, 0,
    0, 0, 0, 0, 0, 0, 0, 0, 0, 0, 0, 0, 0, 0, 0, 0, 0, 0, 0, 0, 0, 0, 0, 0, 0, 0, 0, 0, 0, 0, 0, 0,
    0, 0, 0, 0, 0, 0, 0, 0, 0, 0, 0, 0, 0, 0, 0, 0, 0, 0, 0, 0, 0, 0, 0, 0, 0, 0, 0, 0, 0, 0, 0, 0,
    0, 0, 0, 0, 0, 0, 0, 0, 0, 0, 0, 0, 0, 0, 0, 0, 0, 0, 0, 0, 0, 0, 0, 0, 0, 0, 0, 0, 0, 0, 0, 0]"

definition is_digital_tbl :: "nat list" where
  "is_digital_tbl = [
    0, 0, 0, 0, 0, 0, 0, 0, 0, 0, 0, 0, 0, 0, 0, 0, 0, 0, 0, 0, 0, 0, 0, 0, 0, 0, 0, 0, 0, 0, 0, 0,
    0, 0, 0, 0, 0, 0, 0, 0, 0, 0, 0, 0, 0, 1, 1, 0, 1, 1, 1, 1, 1, 1, 1, 1, 1, 1, 0, 0, 0, 0, 0, 0,
    0, 0, 0, 0, 0, 1, 0, 0, 0, 0, 0, 0, 0, 0, 0, 0, 0, 0, 0, 0, 0, 0, 0, 0, 0, 0, 0, 0, 0, 0, 0, 0,
    0, 0, 0, 0, 0, 1, 0, 0, 0, 0, 0, 0, 0, 0, 0, 0, 0, 0, 0, 0, 0, 0, 0, 0, 0, 0, 0, 0, 0, 0, 0, 0,
    0, 0, 0, 0, 0, 0, 0, 0, 0, 0, 0, 0, 0, 0, 0, 0, 0, 0, 0, 0, 0, 0, 0, 0, 0, 0, 0, 0, 0, 0, 0, 0,
    0, 0, 0, 0, 0, 0, 0, 0, 0, 0, 0, 0, 0, 0, 0, 0, 0, 0, 0, 0, 0, 0, 0, 0, 0, 0, 0, 0, 0, 0, 0, 0,
    0, 0, 0, 0, 0, 0, 0, 0, 0, 0, 0, 0, 0, 0, 0, 0, 0, 0, 0, 0, 0, 0, 0, 0, 0, 0, 0, 0, 0, 0, 0, 0,
    0, 0, 0, 0, 0, 0, 0, 0, 0, 0, 0, 0, 0, 0, 0, 0, 0, 0, 0, 0, 0, 0, 0, 0, 0, 0, 0, 0, 0, 0, 0, 0]"

definition is_graphical_tbl :: "nat list" where
  "is_graphical_tbl = [
    0, 0, 0, 0, 0, 0, 0, 0, 0, 0, 0, 0, 0, 0, 0, 0, 0, 0, 0, 0, 0, 0, 0, 0, 0, 0, 0, 0, 0, 0, 0, 0,
    0, 1, 1, 1, 1, 1, 1, 1, 1, 1, 1, 1, 1, 1, 1, 1, 1, 1, 1, 1, 1, 1, 1, 1, 1, 1, 1, 1, 1, 1, 1, 1,
    1, 1, 1, 1, 1, 1, 1, 1, 1, 1, 1, 1, 1, 1, 1, 1, 1, 1, 1, 1, 1, 1, 1, 1, 1, 1, 1, 1, 1, 1, 1, 1,
    1, 1, 1, 1, 1, 1, 1, 1, 1, 1, 1, 1, 1, 1, 1, 1, 1, 1, 1, 1, 1, 1, 1, 1, 1, 1, 1, 1, 1, 1, 1, 0,
    0, 0, 0, 0, 0, 0, 0, 0, 0, 0, 0, 0, 0, 0, 0, 0, 0, 0, 0, 0, 0, 0, 0, 0, 0, 0, 0, 0, 0, 0, 0, 0,
    0, 0, 0, 0, 0, 0, 0, 0, 0, 0, 0, 0, 0, 0, 0, 0, 0, 0, 0, 0, 0, 0, 0, 0, 0, 0, 0, 0, 0, 0, 0, 0,
    0, 0, 0, 0, 0, 0, 0, 0, 0, 0, 0, 0, 0, 0, 0, 0, 0, 0, 0, 0, 0, 0, 0, 0, 0, 0, 0, 0, 0, 0, 0, 0,
    0, 0, 0, 0, 0, 0, 0, 0, 0, 0, 0, 0, 0, 0, 0, 0, 0, 0, 0, 0, 0, 0, 0, 0, 0, 0, 0, 0, 0, 0, 0, 0]"

definition is_trimable_tbl :: "nat list" where
  "is_trimable_tbl = [
    1, 1, 1, 1, 1, 1, 1, 1, 1, 1, 0, 1, 1, 0, 1, 1, 1, 1, 1, 1, 1, 1, 1, 1, 1, 1, 1, 1, 1, 1, 1, 1,
    1, 0, 0, 0, 0, 0, 0, 0, 0, 0, 0, 0, 0, 0, 0, 0, 0, 0, 0, 0, 0, 0, 0, 0, 0, 0, 0, 0, 0, 0, 0, 0,
    0, 0, 0, 0, 0, 0, 0, 0, 0, 0, 0, 0, 0, 0, 0, 0, 0, 0, 0, 0, 0, 0, 0, 0, 0, 0, 0, 0, 0, 0, 0, 0,
    0, 0, 0, 0, 0, 0, 0, 0, 0, 0, 0, 0, 0, 0, 0, 0, 0, 0, 0, 0, 0, 0, 0, 0, 0, 0, 0, 0, 0, 0, 0, 1,
    0, 0, 0, 0, 0, 0, 0, 0, 0, 0, 0, 0, 0, 0, 0, 0, 0, 0, 0, 0, 0, 0, 0, 0, 0, 0, 0, 0, 0, 0, 0, 0,
    0, 0, 0, 0, 0, 0, 0, 0, 0, 0, 0, 0, 0, 0, 0, 0, 0, 0, 0, 0, 0, 0, 0, 0, 0, 0, 0, 0, 0, 0, 0, 0,
    0, 0, 0, 0, 0, 0, 0, 0, 0, 0, 0, 0, 0, 0, 0, 0, 0, 0, 0, 0, 0, 0, 0, 0, 0, 0, 0, 0, 0, 0, 0, 0,
    0, 0, 0, 0, 0, 0, 0, 0, 0, 0, 0, 0, 0, 0, 0, 0, 0, 0, 0, 0, 0, 0, 0, 0, 0, 0, 0, 0, 0, 0, 0, 0]"

definition is_newline_tbl :: "nat list" where
  "is_newline_tbl = [
    0, 0, 0, 0, 0, 0, 0, 0, 0, 0, 1, 0, 0, 1, 0, 0, 0, 0, 0, 0, 0, 0, 0, 0, 0, 0, 0, 0, 0, 0, 0, 0,
    0, 0, 0, 0, 0, 0, 0, 0, 0, 0, 0, 0, 0, 0, 0, 0, 0, 0, 0, 0, 0, 0, 0, 0, 0, 0, 0, 0, 0, 0, 0, 0,
    0, 0, 0, 0, 0, 0, 0, 0, 0, 0, 0, 0, 0, 0, 0, 0, 0, 0, 0, 0, 0, 0, 0, 0, 0, 0, 0, 0, 0, 0, 0, 0,
    0, 0, 0, 0, 0, 0, 0, 0, 0, 0, 0, 0, 0, 0, 0, 0, 0, 0, 0, 0, 0, 0, 0, 0, 0, 0, 0, 0, 0, 0, 0, 0,
    0, 0, 0, 0, 0, 0, 0, 0, 0, 0, 0, 0, 0, 0, 0, 0, 0, 0, 0, 0, 0, 0, 0, 0, 0, 0, 0, 0, 0, 0, 0, 0,
    0, 0, 0, 0, 0, 0, 0, 0, 0, 0, 0, 0, 0, 0, 0, 0, 0, 0, 0, 0, 0, 0, 0, 0, 0, 0, 0, 0, 0, 0, 0, 0,
    0, 0, 0, 0, 0, 0, 0, 0, 0, 0, 0, 0, 0, 0, 0, 0, 0, 0, 0, 0, 0, 0, 0, 0, 0, 0, 0, 0, 0, 0, 0, 0,
    0, 0, 0, 0, 0, 0, 0, 0, 0, 0, 0, 0, 0, 0, 0, 0, 0, 0, 0, 0, 0, 0, 0, 0, 0, 0, 0, 0, 0, 0, 0, 0]"

definition is_alpha_numeric_tbl :: "nat list" where
  "is_alpha_numeric_tbl = [
    0, 0, 0, 0, 0, 0, 0, 0, 0, 0, 0, 0, 0, 0, 0, 0, 0, 0, 0, 0, 0, 0, 0, 0, 0, 0, 0, 0, 0, 0, 0, 0,
    0, 0, 0, 0, 0, 0, 0, 0, 0, 0, 0, 0, 0, 0, 0, 0, 1, 1, 1, 1, 1, 1, 1, 1, 1, 1, 0, 0, 0, 0, 0, 0,
    0, 1, 1, 1, 1, 1, 1, 1, 1, 1, 1, 1, 1, 1, 1, 1, 1, 1, 1, 1, 1, 1, 1, 1, 1, 1, 1, 0, 0, 0, 0, 0,
    0, 1, 1, 1, 1, 1, 1, 1, 1, 1, 1, 1, 1, 1, 1, 1, 1, 1, 1, 1, 1, 1, 1, 1, 1, 1, 1, 0, 0, 0, 0, 0,
    0, 0, 0, 0, 0, 0, 0, 0, 0, 0, 0, 0, 0, 0, 0, 0, 0, 0, 0, 0, 0, 0, 0, 0, 0, 0, 0, 0, 0, 0, 0, 0,
    0, 0, 0, 0, 0, 0, 0, 0, 0, 0, 0, 0, 0, 0, 0, 0, 0, 0, 0, 0, 0, 0, 0, 0, 0, 0, 0, 0, 0, 0, 0, 0,
    0, 0, 0, 0, 0, 0, 0, 0, 0, 0, 0, 0, 0, 0, 0, 0, 0, 0, 0, 0, 0, 0, 0, 0, 0, 0, 0, 0, 0, 0, 0, 0,
    0, 0, 0, 0, 0, 0, 0, 0, 0, 0, 0, 0, 0, 0, 0, 0, 0, 0, 0, 0, 0, 0, 0, 0, 0, 0, 0, 0, 0, 0, 0, 0]"

definition is_valid_name_char_tbl :: "nat list" where
  "is_valid_name_char_tbl = [
    0, 0, 0, 0, 0, 0, 0, 0, 0, 0, 0, 0, 0, 0, 0, 0, 0, 0, 0, 0, 0, 0, 0, 0, 0, 0, 0, 0, 0, 0, 0, 0,
    0, 0, 0, 0, 0, 0, 0, 0, 0, 0, 0, 0, 0, 0, 0, 0, 1, 1, 1, 1, 1, 1, 1, 1, 1, 1, 0, 0, 0, 0, 0, 0,
    0, 1, 1, 1, 1, 1, 1, 1, 1, 1, 1, 1, 1, 1, 1, 1, 1, 1, 1, 1, 1, 1, 1, 1, 1, 1, 1, 0, 0, 0, 0, 1,
    0, 1, 1, 1, 1, 1, 1, 1, 1, 1, 1, 1, 1, 1, 1, 1, 1, 1, 1, 1, 1, 1, 1, 1, 1, 1, 1, 0, 0, 0, 0, 0,
    0, 0, 0, 0, 0, 0, 0, 0, 0, 0, 0, 0, 0, 0, 0, 0, 0, 0, 0, 0, 0, 0, 0, 0, 0, 0, 0, 0, 0, 0, 0, 0,
    0, 0, 0, 0, 0, 0, 0, 0, 0, 0, 0, 0, 0, 0, 0, 0, 0, 0, 0, 0, 0, 0, 0, 0, 0, 0, 0, 0, 0, 0, 0, 0,
    0, 0, 0, 0, 0, 0, 0, 0, 0, 0, 0, 0, 0, 0, 0, 0, 0, 0, 0, 0, 0, 0, 0, 0, 0, 0, 0, 0, 0, 0, 0, 0,
    0, 0, 0, 0, 0, 0, 0, 0, 0, 0, 0, 0, 0, 0, 0, 0, 0, 0, 0, 0, 0, 0, 0, 0, 0, 0, 0, 0, 0, 0, 0, 0]"

definition is_blank_tbl :: "nat list" where
  "is_blank_tbl = [
    0, 0, 0, 0, 0, 0, 0, 0, 0, 1, 0, 0, 0, 0, 0, 0, 0, 0, 0, 0, 0, 0, 0, 0, 0, 0, 0, 0, 0, 0, 0, 0,
    1, 0, 0, 0, 0, 0, 0, 0, 0, 0, 0, 0, 0, 0, 0, 0, 0, 0, 0, 0, 0, 0, 0, 0, 0, 0, 0, 0, 0, 0, 0, 0,
    0, 0, 0, 0, 0, 0, 0, 0, 0, 0, 0, 0, 0, 0, 0, 0, 0, 0, 0, 0, 0, 0, 0, 0, 0, 0, 0, 0, 0, 0, 0, 0,
    0, 0, 0, 0, 0, 0, 0, 0, 0, 0, 0, 0, 0, 0, 0, 0, 0, 0, 0, 0, 0, 0, 0, 0, 0, 0, 0, 0, 0, 0, 0, 0,
    0, 0, 0, 0, 0, 0, 0, 0, 0, 0, 0, 0, 0, 0, 0, 0, 0, 0, 0, 0, 0, 0, 0, 0, 0, 0, 0, 0, 0, 0, 0, 0,
    0, 0, 0, 0, 0, 0, 0, 0, 0, 0, 0, 0, 0, 0, 0, 0, 0, 0, 0, 0, 0, 0, 0, 0, 0, 0, 0, 0, 0, 0, 0, 0,
    0, 0, 0, 0, 0, 0, 0, 0, 0, 0, 0, 0, 0, 0, 0, 0, 0, 0, 0, 0, 0, 0, 0, 0, 0, 0, 0, 0, 0, 0, 0, 0,
    0, 0, 0, 0, 0, 0, 0, 0, 0, 0, 0, 0, 0, 0, 0, 0, 0, 0, 0, 0, 0, 0, 0, 0, 0, 0, 0, 0, 0, 0, 0, 0]"

definition to_lower_tbl :: "nat list" where
  "to_lower_tbl = [
    0, 1, 2, 3, 4, 5, 6, 7, 8, 9, 10, 11, 12, 13, 14, 15,
    16, 17, 18, 19, 20, 21, 22, 23, 24, 25, 26, 27, 28, 29, 30, 31,
    32, 33, 34, 35, 36, 37, 38, 39, 40, 41, 42, 43, 44, 45, 46, 47,
    48, 49, 50, 51, 52, 53, 54, 55, 56, 57, 58, 59, 60, 61, 62, 63,
    64, 97, 98, 99, 100, 101, 102, 103, 104, 105, 106, 107, 108, 109, 110, 111,
    112, 113, 114, 115, 116, 117, 118, 119, 120, 121, 122, 91, 92, 93, 94, 95,
    96, 97, 98, 99, 100, 101, 102, 103, 104, 105, 106, 107, 108, 109, 110, 111,
    112, 113, 114, 115, 116, 117, 118, 119, 120, 121, 122, 123, 124, 125, 126, 127,
    128, 129, 130, 131, 132, 133, 134, 135, 136, 137, 138, 139, 140, 141, 142, 143,
    144, 145, 146, 147, 148, 149, 150, 151, 152, 153, 154, 155, 156, 157, 158, 159,
    160, 161, 162, 163, 164, 165, 166, 167, 168, 169, 170, 171, 172, 173, 174, 175,
    176, 177, 178, 179, 180, 181, 182, 183, 184, 185, 186, 187, 188, 189, 190, 191,
    192, 193, 194, 195, 196, 197, 198, 199, 200, 201, 202, 203, 204, 205, 206, 207,
    208, 209, 210, 211, 212, 213, 214, 215, 216, 217, 218, 219, 220, 221, 222, 223,
    224, 225, 226, 227, 228, 229, 230, 231, 232, 233, 234, 235, 236, 237, 238, 239,
    240, 241, 242, 243, 244, 245, 246, 247, 248, 249, 250, 251, 252, 253, 254, 255]"

definition is_csv_ignorable_tbl :: "nat list" where
  "is_csv_ignorable_tbl = [
    1, 1, 1, 1, 1, 1, 1, 1, 1, 0, 0, 1, 1, 0, 1, 1, 1, 1, 1, 1, 1, 1, 1, 1, 1, 1, 1, 1, 1, 1, 1, 1,
    0, 0, 0, 0, 0, 0, 0, 0, 0, 0, 0, 0, 0, 0, 0, 0, 0, 0, 0, 0, 0, 0, 0, 0, 0, 0, 0, 0, 0, 0, 0, 0,
    0, 0, 0, 0, 0, 0, 0, 0, 0, 0, 0, 0, 0, 0, 0, 0, 0, 0, 0, 0, 0, 0, 0, 0, 0, 0, 0, 0, 0, 0, 0, 0,
    0, 0, 0, 0, 0, 0, 0, 0, 0, 0, 0, 0, 0, 0, 0, 0, 0, 0, 0, 0, 0, 0, 0, 0, 0, 0, 0, 0, 0, 0, 0, 1,
    0, 0, 0, 0, 0, 0, 0, 0, 0, 0, 0, 0, 0, 0, 0, 0, 0, 0, 0, 0, 0, 0, 0, 0, 0, 0, 0, 0, 0, 0, 0, 0,
    0, 0, 0, 0, 0, 0, 0, 0, 0, 0, 0, 0, 0, 0, 0, 0, 0, 0, 0, 0, 0, 0, 0, 0, 0, 0, 0, 0, 0, 0, 0, 0,
    0, 0, 0, 0, 0, 0, 0, 0, 0, 0, 0, 0, 0, 0, 0, 0, 0, 0, 0, 0, 0, 0, 0, 0, 0, 0, 0, 0, 0, 0, 0, 0,
    0, 0, 0, 0, 0, 0, 0, 0, 0, 0, 0, 0, 0, 0, 0, 0, 0, 0, 0, 0, 0, 0, 0, 0, 0, 0, 0, 0, 0, 0, 0, 0]"

subsection \<open>The class functions\<close>

definition IsControl :: "char \<Rightarrow> bool" where
  "IsControl c \<longleftrightarrow> (0 \<le> schar c \<and> schar c < 32) \<or> schar c = 127"

definition IsControl_win32 :: "char \<Rightarrow> bool" where
  "IsControl_win32 c \<longleftrightarrow> is_control_tbl ! uchar c \<noteq> 0"

definition IsDigits :: "char \<Rightarrow> bool" where
  "IsDigits c \<longleftrightarrow> schar (CHR ''0'') \<le> schar c \<and> schar c \<le> schar (CHR ''9'')"

definition IsDigits_win32 :: "char \<Rightarrow> bool" where
  "IsDigits_win32 c \<longleftrightarrow> is_digit_tbl ! uchar c \<noteq> 0"

definition IsDigital :: "char \<Rightarrow> bool" where
  "IsDigital c \<longleftrightarrow> is_digital_tbl ! uchar c \<noteq> 0"

definition IsGraphical :: "char \<Rightarrow> bool" where
  "IsGraphical c \<longleftrightarrow> 32 < schar c \<and> schar c < 127"

definition IsGraphical_win32 :: "char \<Rightarrow> bool" where
  "IsGraphical_win32 c \<longleftrightarrow> is_graphical_tbl ! uchar c \<noteq> 0"

definition IsTrimable :: "char \<Rightarrow> bool" where
  "IsTrimable c \<longleftrightarrow> is_trimable_tbl ! uchar c \<noteq> 0"

definition IsNewLine :: "char \<Rightarrow> bool" where
  "IsNewLine c \<longleftrightarrow> c = CHR 0x0D \<or> c = CHR 0x0A"

definition IsNewLine_win32 :: "char \<Rightarrow> bool" where
  "IsNewLine_win32 c \<longleftrightarrow> is_newline_tbl ! uchar c \<noteq> 0"

definition IsAlphabetNumberic :: "char \<Rightarrow> bool" where
  "IsAlphabetNumberic c \<longleftrightarrow> is_alpha_numeric_tbl ! uchar c \<noteq> 0"

definition IsValidNameCharacter :: "char \<Rightarrow> bool" where
  "IsValidNameCharacter c \<longleftrightarrow> is_valid_name_char_tbl ! uchar c \<noteq> 0"

definition IsBlank :: "char \<Rightarrow> bool" where
  "IsBlank c \<longleftrightarrow> c = CHR 0x09 \<or> c = CHR '' ''"

definition IsBlank_win32 :: "char \<Rightarrow> bool" where
  "IsBlank_win32 c \<longleftrightarrow> is_blank_tbl ! uchar c \<noteq> 0"

definition IsCsvIgnoreable :: "char \<Rightarrow> bool" where
  "IsCsvIgnoreable c \<longleftrightarrow> is_csv_ignorable_tbl ! uchar c \<noteq> 0"

definition ToLower :: "char \<Rightarrow> char" where
  "ToLower c = char_of (to_lower_tbl ! uchar c)"

subsection \<open>What the tables hold\<close>

lemma is_control_tbl_map: "is_control_tbl = map (\<lambda>n. if n < 32 \<or> n = 127 then 1 else 0) [0..<256]"
  by code_simp

lemma is_digit_tbl_map: "is_digit_tbl = map (\<lambda>n. if 48 \<le> n \<and> n \<le> 57 then 1 else 0) [0..<256]"
  by code_simp

lemma is_digital_tbl_map: "is_digital_tbl = map (\<lambda>n. if n = 45 \<or> n = 46 \<or> (48 \<le> n \<and> n \<le> 57) \<or> n = 69 \<or> n = 101 then 1 else 0) [0..<256]"
  by code_simp

lemma is_graphical_tbl_map: "is_graphical_tbl = map (\<lambda>n. if 32 < n \<and> n < 127 then 1 else 0) [0..<256]"
  by code_simp

lemma is_trimable_tbl_map: "is_trimable_tbl = map (\<lambda>n. if (n \<le> 32 \<or> n = 127) \<and> n \<noteq> 10 \<and> n \<noteq> 13 then 1 else 0) [0..<256]"
  by code_simp

lemma is_newline_tbl_map: "is_newline_tbl = map (\<lambda>n. if n = 10 \<or> n = 13 then 1 else 0) [0..<256]"
  by code_simp

lemma is_alpha_numeric_tbl_map: "is_alpha_numeric_tbl = map (\<lambda>n. if (48 \<le> n \<and> n \<le> 57) \<or> (65 \<le> n \<and> n \<le> 90) \<or> (97 \<le> n \<and> n \<le> 122) then 1 else 0) [0..<256]"
  by code_simp

lemma is_valid_name_char_tbl_map: "is_valid_name_char_tbl = map (\<lambda>n. if (48 \<le> n \<and> n \<le> 57) \<or> (65 \<le> n \<and> n \<le> 90) \<or> n = 95 \<or> (97 \<le> n \<and> n \<le> 122) then 1 else 0) [0..<256]"
  by code_simp

lemma is_blank_tbl_map: "is_blank_tbl = map (\<lambda>n. if n = 9 \<or> n = 32 then 1 else 0) [0..<256]"
  by code_simp

lemma is_csv_ignorable_tbl_map: "is_csv_ignorable_tbl = map (\<lambda>n. if (n < 32 \<or> n = 127) \<and> n \<noteq> 9 \<and> n \<noteq> 10 \<and> n \<noteq> 13 then 1 else 0) [0..<256]"
  by code_simp

lemma to_lower_tbl_map:
  "to_lower_tbl = map (\<lambda>n. if 65 \<le> n \<and> n \<le> 90 then n + 32 else n) [0..<256]"
  by code_simp

lemma char_eq_uchar: "c = char_of (n::nat) \<longleftrightarrow> uchar c = n mod 256"
  by (metis uchar_char_of uchar_inject)

lemma uchar_literals [simp]:
  "uchar (CHR 0x09) = 9" "uchar (CHR 0x0A) = 10" "uchar (CHR 0x0D) = 13"
  "uchar (CHR '' '') = 32" "uchar (CHR ''0'') = 48" "uchar (CHR ''9'') = 57"
  "uchar (CHR ''+'') = 43" "uchar (CHR '','') = 44" "uchar (CHR ''-'') = 45"
  "uchar (CHR 0x22) = 34"
  by (simp_all add: uchar_def)

lemma uchar_eq_iff: "c = d \<longleftrightarrow> uchar c = uchar d"
  by simp

lemma IsDigital_uchar [char_class]:
  "IsDigital c \<longleftrightarrow> uchar c = 45 \<or> uchar c = 46 \<or> (48 \<le> uchar c \<and> uchar c \<le> 57) \<or> uchar c = 69 \<or> uchar c = 101"
  unfolding IsDigital_def table_lookup [OF is_digital_tbl_map] by simp

lemma IsTrimable_uchar [char_class]:
  "IsTrimable c \<longleftrightarrow> (uchar c \<le> 32 \<or> uchar c = 127) \<and> uchar c \<noteq> 10 \<and> uchar c \<noteq> 13"
  unfolding IsTrimable_def table_lookup [OF is_trimable_tbl_map] by simp

lemma IsAlphabetNumberic_uchar [char_class]:
  "IsAlphabetNumberic c \<longleftrightarrow> (48 \<le> uchar c \<and> uchar c \<le> 57) \<or> (65 \<le> uchar c \<and> uchar c \<le> 90) \<or> (97 \<le> uchar c \<and> uchar c \<le> 122)"
  unfolding IsAlphabetNumberic_def table_lookup [OF is_alpha_numeric_tbl_map] by simp

lemma IsValidNameCharacter_uchar [char_class]:
  "IsValidNameCharacter c \<longleftrightarrow> (48 \<le> uchar c \<and> uchar c \<le> 57) \<or> (65 \<le> uchar c \<and> uchar c \<le> 90) \<or> uchar c = 95 \<or> (97 \<le> uchar c \<and> uchar c \<le> 122)"
  unfolding IsValidNameCharacter_def table_lookup [OF is_valid_name_char_tbl_map] by simp

lemma IsCsvIgnoreable_uchar [char_class]:
  "IsCsvIgnoreable c \<longleftrightarrow> (uchar c < 32 \<or> uchar c = 127) \<and> uchar c \<noteq> 9 \<and> uchar c \<noteq> 10 \<and> uchar c \<noteq> 13"
  unfolding IsCsvIgnoreable_def table_lookup [OF is_csv_ignorable_tbl_map] by simp

lemma IsControl_win32_uchar [char_class]:
  "IsControl_win32 c \<longleftrightarrow> uchar c < 32 \<or> uchar c = 127"
  unfolding IsControl_win32_def table_lookup [OF is_control_tbl_map] by simp

lemma IsDigits_win32_uchar [char_class]:
  "IsDigits_win32 c \<longleftrightarrow> 48 \<le> uchar c \<and> uchar c \<le> 57"
  unfolding IsDigits_win32_def table_lookup [OF is_digit_tbl_map] by simp

lemma IsGraphical_win32_uchar [char_class]:
  "IsGraphical_win32 c \<longleftrightarrow> 32 < uchar c \<and> uchar c < 127"
  unfolding IsGraphical_win32_def table_lookup [OF is_graphical_tbl_map] by simp

lemma IsNewLine_win32_uchar [char_class]:
  "IsNewLine_win32 c \<longleftrightarrow> uchar c = 10 \<or> uchar c = 13"
  unfolding IsNewLine_win32_def table_lookup [OF is_newline_tbl_map] by simp

lemma IsBlank_win32_uchar [char_class]:
  "IsBlank_win32 c \<longleftrightarrow> uchar c = 9 \<or> uchar c = 32"
  unfolding IsBlank_win32_def table_lookup [OF is_blank_tbl_map] by simp

lemma IsControl_uchar [char_class]:
  "IsControl c \<longleftrightarrow> uchar c < 32 \<or> uchar c = 127"
  using uchar_less [of c] by (auto simp: IsControl_def schar_def simp del: uchar_less)

lemma IsDigits_uchar [char_class]:
  "IsDigits c \<longleftrightarrow> 48 \<le> uchar c \<and> uchar c \<le> 57"
  using uchar_less [of c] by (auto simp: IsDigits_def schar_def simp del: uchar_less)

lemma IsGraphical_uchar [char_class]:
  "IsGraphical c \<longleftrightarrow> 32 < uchar c \<and> uchar c < 127"
  using uchar_less [of c] by (auto simp: IsGraphical_def schar_def simp del: uchar_less)

lemma IsNewLine_uchar [char_class]:
  "IsNewLine c \<longleftrightarrow> uchar c = 10 \<or> uchar c = 13"
  unfolding IsNewLine_def uchar_eq_iff by auto

lemma IsBlank_uchar [char_class]:
  "IsBlank c \<longleftrightarrow> uchar c = 9 \<or> uchar c = 32"
  unfolding IsBlank_def uchar_eq_iff by auto

lemma uchar_ToLower [char_class]:
  "uchar (ToLower c) = (if 65 \<le> uchar c \<and> uchar c \<le> 90 then uchar c + 32 else uchar c)"
  unfolding ToLower_def table_lookup [OF to_lower_tbl_map] by simp

lemma ToLower_idem: "ToLower (ToLower c) = ToLower c"
  by (simp add: uchar_eq_iff uchar_ToLower del: uchar_inject)

text \<open>How the classes relate, for the parsers.\<close>

lemma IsDigits_not_newline: "IsDigits c \<Longrightarrow> \<not> IsNewLine c"
  by (auto simp: char_class)

lemma IsGraphical_not_blank: "IsGraphical c \<Longrightarrow> \<not> IsBlank c \<and> \<not> IsNewLine c \<and> \<not> IsCsvIgnoreable c"
  by (auto simp: char_class)

subsection \<open>Properties\<close>

text \<open>
  The two variants of each class function that the source selects with
  \<^verbatim>\<open>#ifdef _WIN32\<close> (a 256-entry table against a comparison on a signed \<^verbatim>\<open>char\<close>) agree on every
  byte, so the parsers below behave alike on both platforms.
\<close>

lemma ifdef_variants_agree:
  "(IsControl_win32 c \<longleftrightarrow> IsControl c) \<and> (IsDigits_win32 c \<longleftrightarrow> IsDigits c) \<and>
   (IsGraphical_win32 c \<longleftrightarrow> IsGraphical c) \<and> (IsNewLine_win32 c \<longleftrightarrow> IsNewLine c) \<and>
   (IsBlank_win32 c \<longleftrightarrow> IsBlank c)"
  by (simp add: char_class)

end
