(* ===== verification/Int_Text.thy ===== *)
theory Int_Text
  imports Char_Classes
begin

text \<open>
  Integers as text: the readers of fma-common/text_parser.h (\<^verbatim>\<open>ParseInt64\<close>, \<^verbatim>\<open>ParseBool\<close>,
  \<^verbatim>\<open>ParseDigit\<close> with its bound check) and the printers of fma-common/string_util.h
  (\<^verbatim>\<open>PrintUintToBuffer\<close>, \<^verbatim>\<open>PrintIntToBuffer\<close>, \<^verbatim>\<open>PrintUnsigned\<close>, \<^verbatim>\<open>PrintSigned\<close>, the integer overloads of
  \<^verbatim>\<open>ToString\<close>, \<^verbatim>\<open>PrintIntReversed\<close>).

  A reader takes the rest of the range and the old value of its out-parameter, and returns the
  number of bytes consumed (0 means failure) with the new value of the out-parameter. Signed
  overflow is undefined behaviour in C++: the result \<^const>\<open>None\<close> stands for it, never for a
  parse failure. Division and remainder are C's, truncating towards zero (\<open>sdiv\<close>, \<open>smod\<close>).
\<close>

subsection \<open>Reading\<close>

fun parse_digits :: "string \<Rightarrow> int \<Rightarrow> (string \<times> int) option" where
  "parse_digits [] d = Some ([], d)"
| "parse_digits (c # cs) d =
     (if IsDigits c then
        (if in_range 64 (d * 10) \<and> in_range 64 (d * 10 + (schar c - schar (CHR ''0'')))
         then parse_digits cs (d * 10 + (schar c - schar (CHR ''0'')))
         else None)
      else Some (c # cs, d))"

definition parse_sign :: "string \<Rightarrow> bool \<times> string" where
  "parse_sign b = (if hd b = CHR ''-'' then (True, tl b)
                   else if hd b = CHR ''+'' then (False, tl b) else (False, b))"

definition ParseInt64 :: "string \<Rightarrow> int \<Rightarrow> (nat \<times> int) option" where
  "ParseInt64 orig d0 =
     (if orig = [] then Some (0, d0)
      else (case parse_sign orig of (neg, b) \<Rightarrow>
        if b = [] \<or> \<not> IsDigits (hd b) then Some (0, 0)
        else (case parse_digits b 0 of
                None \<Rightarrow> None
              | Some (rest, d) \<Rightarrow>
                  (if neg then (if in_range 64 (- d) then Some (length orig - length rest, - d) else None)
                   else Some (length orig - length rest, d)))))"

text \<open>
  The loops of \<^verbatim>\<open>ParseBool\<close> that compare with \<^verbatim>\<open>"false"\<close> and \<^verbatim>\<open>"true"\<close>: \<^const>\<open>None\<close> at the first
  mismatch, else what is left of the word when the input or the word runs out.
\<close>

fun match_word :: "string \<Rightarrow> string \<Rightarrow> string option" where
  "match_word (c # cs) (p # ps) = (if ToLower c = p then match_word cs ps else None)"
| "match_word [] ps = Some ps"
| "match_word cs [] = Some []"

definition ParseBool :: "string \<Rightarrow> bool \<Rightarrow> (nat \<times> bool) option" where
  "ParseBool b d =
     (if b = [] then Some (0, d)
      else (case ParseInt64 b 0 of
        None \<Rightarrow> None
      | Some (s, i) \<Rightarrow>
          (if s \<noteq> 0 then Some (s, i \<noteq> 0)
           else if hd b = CHR ''f'' \<or> hd b = CHR ''F'' then
             (if match_word b ''false'' = Some [] then Some (5, False) else Some (0, d))
           else if hd b = CHR ''t'' \<or> hd b = CHR ''T'' then
             (if match_word b ''true'' = Some [] then Some (4, True) else Some (0, d))
           else Some (0, d))))"

text \<open>The integral types the template \<^verbatim>\<open>ParseDigit\<close> is used at, with their limits.\<close>

datatype int_type = Int8 | UInt8 | Int16 | UInt16 | Int32 | UInt32 | Int64

fun type_min :: "int_type \<Rightarrow> int" where
  "type_min Int8 = - 128"
| "type_min UInt8 = 0"
| "type_min Int16 = - 32768"
| "type_min UInt16 = 0"
| "type_min Int32 = - 2147483648"
| "type_min UInt32 = 0"
| "type_min Int64 = - 9223372036854775808"

fun type_max :: "int_type \<Rightarrow> int" where
  "type_max Int8 = 127"
| "type_max UInt8 = 255"
| "type_max Int16 = 32767"
| "type_max UInt16 = 65535"
| "type_max Int32 = 2147483647"
| "type_max UInt32 = 4294967295"
| "type_max Int64 = 9223372036854775807"

fun CheckValueBound :: "int_type \<Rightarrow> int \<Rightarrow> bool" where
  "CheckValueBound Int64 d = True"
| "CheckValueBound t d = (\<not> (d < type_min t \<or> d > type_max t))"

definition ParseDigit :: "int_type \<Rightarrow> string \<Rightarrow> int \<Rightarrow> (nat \<times> int) option" where
  "ParseDigit t b d =
     (case ParseInt64 b 0 of
        None \<Rightarrow> None
      | Some (r, i) \<Rightarrow>
          (if r = 0 then Some (0, d)
           else if \<not> CheckValueBound t i then Some (0, d)
           else Some (r, i)))"

subsection \<open>Printing\<close>

lemma abs_sdiv_less: "n \<noteq> 0 \<Longrightarrow> \<bar>n sdiv 10\<bar> < \<bar>n\<bar>" for n :: int
  by (auto simp: signed_divide_int_def abs_mult)

text \<open>
  The loop \<^verbatim>\<open>while (number != 0) { *p++ = '0' + number % 10; number /= 10; }\<close>. The printers
  are templates over the integer type; all values stay within it, so the model is over
  \<^typ>\<open>int\<close>. The argument can be negative where the negation below has wrapped.
\<close>

function print_loop :: "int \<Rightarrow> string" where
  "print_loop number =
     (if number \<noteq> 0
      then to_char (schar (CHR ''0'') + number smod 10) # print_loop (number sdiv 10) else [])"
  by pat_completeness auto
termination
  by (relation "measure (\<lambda>n. nat \<bar>n\<bar>)") (auto simp: abs_sdiv_less)

declare print_loop.simps [simp del]

definition PrintUintToBuffer :: "int \<Rightarrow> string" where
  "PrintUintToBuffer number =
     (if number = 0 then [CHR ''0''] else rev (print_loop number))"

text \<open>
  \<^verbatim>\<open>number = -number\<close> at a signed type of \<open>w\<close> bits: the 8 and 16 bit types are promoted to
  \<^verbatim>\<open>int\<close> and the result is converted back modulo \<open>2 ^ w\<close>; at 32 and 64 bits the negation of the
  least value overflows.
\<close>

definition c_negate :: "nat \<Rightarrow> int \<Rightarrow> int option" where
  "c_negate w n =
     (if n = int_min w then (if w < 32 then Some n else None) else Some (- n))"

definition PrintIntToBuffer :: "nat \<Rightarrow> int \<Rightarrow> string option" where
  "PrintIntToBuffer w number =
     (if number < 0
      then (case c_negate w number of None \<Rightarrow> None
            | Some n \<Rightarrow> Some (CHR ''-'' # PrintUintToBuffer n))
      else Some (PrintUintToBuffer number))"

definition PrintUnsigned :: "int \<Rightarrow> string" where
  "PrintUnsigned number = PrintUintToBuffer number"

definition PrintSigned :: "nat \<Rightarrow> int \<Rightarrow> string option" where
  "PrintSigned w number = PrintIntToBuffer w number"

fun ToString_int :: "int_type \<Rightarrow> int \<Rightarrow> string option" where
  "ToString_int UInt8 n = Some (PrintUnsigned n)"
| "ToString_int Int8 n = PrintSigned 8 n"
| "ToString_int UInt16 n = Some (PrintUnsigned n)"
| "ToString_int Int16 n = PrintSigned 16 n"
| "ToString_int UInt32 n = Some (PrintUnsigned n)"
| "ToString_int Int32 n = PrintSigned 32 n"
| "ToString_int Int64 n = PrintSigned 64 n"

definition ToString_uint64 :: "int \<Rightarrow> string" where
  "ToString_uint64 n = PrintUnsigned n"

text \<open>
  \<^verbatim>\<open>PrintIntReversed\<close>: the digits least significant first, optionally without the trailing
  zeros of the number; the second component is \<^verbatim>\<open>*ndigits\<close>.
\<close>

function strip_end_zeros :: "int \<Rightarrow> nat \<Rightarrow> int \<times> nat" where
  "strip_end_zeros number nd =
     (if number \<noteq> 0 \<and> number smod 10 = 0 then strip_end_zeros (number sdiv 10) (Suc nd)
      else (number, nd))"
  by pat_completeness auto
termination
  by (relation "measure (\<lambda>(n, _). nat \<bar>n\<bar>)") (auto simp: abs_sdiv_less)

declare strip_end_zeros.simps [simp del]

definition PrintIntReversed :: "int \<Rightarrow> bool \<Rightarrow> (string \<times> nat) option" where
  "PrintIntReversed number no_end_zero =
     (case (if number < 0 then c_negate 64 number else Some number) of
        None \<Rightarrow> None
      | Some n \<Rightarrow>
          (let sign = (if number < 0 then ''-'' else []);
               (body, nd) = (if n = 0 then (''0'', 0)
                             else let (m, k) = (if no_end_zero then strip_end_zeros n 0 else (n, 0))
                                  in (print_loop m, k))
           in Some (sign @ body, nd + length body)))"

subsection \<open>Lemmas: the reader\<close>

definition dec_from :: "int \<Rightarrow> string \<Rightarrow> int" where
  "dec_from d cs = foldl (\<lambda>d c. d * 10 + (int (uchar c) - 48)) d cs"

lemma dec_from_simps [simp]:
  "dec_from d [] = d"
  "dec_from d (c # cs) = dec_from (d * 10 + (int (uchar c) - 48)) cs"
  "dec_from d (xs @ [c]) = dec_from d xs * 10 + (int (uchar c) - 48)"
  by (simp_all add: dec_from_def)

lemma IsDigits_value: "IsDigits c \<Longrightarrow> schar c - schar (CHR ''0'') = int (uchar c) - 48"
  by (auto simp: IsDigits_uchar schar_def)

lemma dec_from_ge:
  assumes "0 \<le> d" and "\<forall>c \<in> set cs. IsDigits c"
  shows "d \<le> dec_from d cs"
  using assms
proof (induction cs arbitrary: d)
  case Nil
  then show ?case by simp
next
  case (Cons c cs)
  then have le: "d \<le> d * 10 + (int (uchar c) - 48)"
    by (auto simp: IsDigits_uchar)
  with Cons have "d * 10 + (int (uchar c) - 48) \<le> dec_from (d * 10 + (int (uchar c) - 48)) cs"
    by simp
  with le show ?case by (simp only: dec_from_simps)
qed

text \<open>
  The loop stops at the first byte that is not a digit. An intermediate value is never larger
  than the final one, so overflow happens in some iteration exactly if the final value is out
  of range.
\<close>

lemma parse_digits_eq:
  assumes "0 \<le> d" and "in_range 64 d"
  shows "parse_digits b d =
    (if in_range 64 (dec_from d (takeWhile IsDigits b))
     then Some (dropWhile IsDigits b, dec_from d (takeWhile IsDigits b)) else None)"
  using assms
proof (induction b arbitrary: d)
  case Nil
  then show ?case by simp
next
  case (Cons c cs)
  show ?case
  proof (cases "IsDigits c")
    case False
    with Cons.prems show ?thesis by simp
  next
    case True
    define d' where "d' = d * 10 + (int (uchar c) - 48)"
    have step: "0 \<le> d'" "d * 10 \<le> d'" "0 \<le> d * 10"
      using Cons.prems(1) True by (auto simp: d'_def IsDigits_uchar)
    have ge: "d' \<le> dec_from d' (takeWhile IsDigits cs)"
      by (rule dec_from_ge) (auto simp: step(1) dest: set_takeWhileD)
    show ?thesis
    proof (cases "in_range 64 d'")
      case True
      then have "in_range 64 (d * 10)"
        using step by simp
      then show ?thesis
        using Cons.IH [OF step(1) True] True \<open>IsDigits c\<close>
        by (simp add: IsDigits_value d'_def del: in_range_simps)
    next
      case False
      then have "\<not> in_range 64 (dec_from d' (takeWhile IsDigits cs))"
        using ge step(1) by simp
      then show ?thesis
        using False \<open>IsDigits c\<close>
        by (simp add: IsDigits_value d'_def del: in_range_simps)
    qed
  qed
qed

subsection \<open>Lemmas: the printers\<close>

lemma sdiv_smod_nonneg: "0 \<le> n \<Longrightarrow> n sdiv 10 = n div 10 \<and> n smod 10 = n mod 10" for n :: int
  by (cases "n = 0") (auto simp: signed_divide_int_def signed_modulo_int_def minus_div_mult_eq_mod)

lemma print_loop_pos:
  "0 < n \<Longrightarrow> print_loop n = to_char (48 + n mod 10) # print_loop (n div 10)"
  by (subst print_loop.simps) (simp add: sdiv_smod_nonneg schar_def)

lemma print_loop_0 [simp]: "print_loop 0 = []"
  by (simp add: print_loop.simps)

lemma digit_char: "0 \<le> r \<Longrightarrow> r < 10 \<Longrightarrow> uchar (to_char (48 + r)) = nat (48 + r)"
  by (rule uchar_to_char) auto

lemma print_loop_props:
  assumes "0 \<le> n"
  shows "(\<forall>c \<in> set (print_loop n). IsDigits c) \<and> dec_from 0 (rev (print_loop n)) = n"
  using assms
proof (induction "nat n" arbitrary: n rule: less_induct)
  case less
  show ?case
  proof (cases "n = 0")
    case True
    then show ?thesis by simp
  next
    case False
    with less.prems have pos: "0 < n" by simp
    then have "nat (n div 10) < nat n" and "0 \<le> n div 10" by auto
    note IH = less.hyps [OF this]
    have "uchar (to_char (48 + n mod 10)) = nat (48 + n mod 10)"
      by (rule digit_char) auto
    then show ?thesis
      using IH by (auto simp: print_loop_pos [OF pos] IsDigits_uchar)
  qed
qed

lemma print_loop_length: "0 \<le> n \<Longrightarrow> n < 10 ^ k \<Longrightarrow> length (print_loop n) \<le> k"
proof (induction k arbitrary: n)
  case 0
  then have "n = 0" by simp
  then show ?case by simp
next
  case (Suc k)
  show ?case
  proof (cases "n = 0")
    case False
    with Suc.prems have pos: "0 < n" by simp
    have "n div 10 < 10 ^ k" using Suc.prems by (simp add: div_less_iff_less_mult mult.commute)
    then have "length (print_loop (n div 10)) \<le> k" using Suc.IH pos by simp
    then show ?thesis by (simp add: print_loop_pos [OF pos])
  qed simp
qed

lemma print_loop_nonempty: "0 < n \<Longrightarrow> print_loop n \<noteq> []"
  by (simp add: print_loop_pos)

lemma PrintUint_digits: "0 \<le> n \<Longrightarrow> \<forall>c \<in> set (PrintUintToBuffer n). IsDigits c"
  using print_loop_props [of n] by (auto simp: PrintUintToBuffer_def IsDigits_uchar)

lemma PrintUint_value: "0 \<le> n \<Longrightarrow> dec_from 0 (PrintUintToBuffer n) = n"
  using print_loop_props [of n] by (auto simp: PrintUintToBuffer_def)

lemma PrintUint_nonempty: "PrintUintToBuffer n \<noteq> []" if "0 \<le> n"
  using that print_loop_nonempty [of n] by (auto simp: PrintUintToBuffer_def)

lemma PrintUint_hd: "0 \<le> n \<Longrightarrow> IsDigits (hd (PrintUintToBuffer n))"
  using PrintUint_digits PrintUint_nonempty by (meson list.set_sel(1))

lemma PrintUint_length [len_bound]:
  "0 \<le> n \<Longrightarrow> n < 10 ^ k \<Longrightarrow> 0 < k \<Longrightarrow> length (PrintUintToBuffer n) \<le> k"
  using print_loop_length [of n k] by (auto simp: PrintUintToBuffer_def)

lemma type_range_64: "type_min t \<le> n \<Longrightarrow> n \<le> type_max t \<Longrightarrow> in_range 64 n"
  by (cases t) auto

lemma CheckValueBound_iff:
  "in_range 64 n \<Longrightarrow> CheckValueBound t n \<longleftrightarrow> type_min t \<le> n \<and> n \<le> type_max t"
  by (cases t) auto

text \<open>What the printer produces for a value that is not the least of a signed type.\<close>

lemma ToString_int_eq:
  assumes "type_min t \<le> n" "n \<le> type_max t" "n = type_min t \<longrightarrow> 0 \<le> n"
  shows "ToString_int t n =
    Some ((if n < 0 then ''-'' else []) @ PrintUintToBuffer \<bar>n\<bar>)"
  using assms
  by (cases t) (auto simp: PrintSigned_def PrintUnsigned_def PrintIntToBuffer_def c_negate_def int_min_def)

lemma ParseInt64_eq:
  "ParseInt64 b d =
    (if b = [] then Some (0, d)
     else let neg = fst (parse_sign b); r = snd (parse_sign b);
              ds = takeWhile IsDigits r; v = dec_from 0 ds
          in if ds = [] then Some (0, 0)
             else if v \<le> int_max 64
             then Some (length b - length r + length ds, if neg then - v else v)
             else None)"
proof -
  let ?r = "snd (parse_sign b)"
  let ?ds = "takeWhile IsDigits ?r"
  have nodigit: "?ds = [] \<longleftrightarrow> ?r = [] \<or> \<not> IsDigits (hd ?r)"
    by (cases ?r) auto
  have ge: "0 \<le> dec_from 0 ?ds"
    by (rule dec_from_ge) (auto dest: set_takeWhileD)
  have shorter: "length ?r \<le> length b"
    by (simp add: parse_sign_def)
  have len: "length b - length (dropWhile IsDigits ?r) = length b - length ?r + length ?ds"
    using length_takeWhile_dropWhile [of IsDigits ?r] shorter by simp
  show ?thesis
    using nodigit ge len
    by (auto simp: ParseInt64_def parse_digits_eq int_max_def Let_def split: prod.splits)
qed

lemma ParseInt64_signed_digits:
  assumes "u \<noteq> []" "\<forall>c \<in> set u. IsDigits c" "rest = [] \<or> \<not> IsDigits (hd rest)"
  shows "ParseInt64 ((if neg then ''-'' else []) @ u @ rest) d =
    (if dec_from 0 u \<le> int_max 64
     then Some (length ((if neg then ''-'' else []) @ u), if neg then - dec_from 0 u else dec_from 0 u)
     else None)"
proof -
  have take: "takeWhile IsDigits (u @ rest) = u"
    using assms by (intro takeWhile_stop) auto
  have "IsDigits (hd u)" using assms(1,2) by simp
  then have "parse_sign ((if neg then ''-'' else []) @ u @ rest) = (neg, u @ rest)"
    using assms(1) by (auto simp: parse_sign_def IsDigits_uchar)
  with take assms(1) show ?thesis
    by (simp add: ParseInt64_eq Let_def)
qed

lemma ParseInt64_bounds:
  assumes "ParseInt64 b d = Some (r, v)"
  shows "r \<le> length b" and "r \<noteq> 0 \<Longrightarrow> in_range 64 v"
proof -
  let ?r = "snd (parse_sign b)"
  have "length (takeWhile IsDigits ?r) \<le> length ?r"
    by (rule length_takeWhile_le)
  moreover have "length ?r \<le> length b"
    by (simp add: parse_sign_def)
  ultimately show "r \<le> length b"
    using assms by (auto simp: ParseInt64_eq Let_def split: if_splits)
  have "0 \<le> dec_from 0 (takeWhile IsDigits ?r)"
    by (rule dec_from_ge) (auto dest: set_takeWhileD)
  then show "r \<noteq> 0 \<Longrightarrow> in_range 64 v"
    using assms by (auto simp: ParseInt64_eq Let_def int_max_def split: if_splits)
qed

lemma ToString_ParseDigit:
  assumes "type_min t \<le> n" "n \<le> type_max t" "n = type_min t \<longrightarrow> 0 \<le> n"
    and rest: "rest = [] \<or> \<not> IsDigits (hd rest)"
  shows "\<exists>s. ToString_int t n = Some s \<and> length s \<le> 20 \<and> s \<noteq> [] \<and> set s \<subseteq> {c. IsDigits c \<or> c = CHR ''-''} \<and>
           ParseDigit t (s @ rest) d = Some (length s, n)"
proof -
  define u where "u = PrintUintToBuffer \<bar>n\<bar>"
  define s where "s = (if n < 0 then ''-'' else []) @ u"
  have range: "CheckValueBound t n"
    using type_range_64 [OF assms(1,2)] assms(1,2) by (simp add: CheckValueBound_iff)
  have small: "\<bar>n\<bar> \<le> int_max 64"
    using assms(1-3) by (cases t) (auto simp: int_max_def)
  have u: "u \<noteq> []" "\<forall>c \<in> set u. IsDigits c" "dec_from 0 u = \<bar>n\<bar>"
    using PrintUint_digits [of "\<bar>n\<bar>"]
    by (simp_all add: u_def PrintUint_nonempty PrintUint_value)
  have "length u \<le> 19"
    unfolding u_def using small by (intro PrintUint_length) (auto simp: int_max_def)
  then have len: "length s \<le> 20" by (simp add: s_def)
  have "ParseInt64 (s @ rest) 0 = Some (length s, n)"
    using ParseInt64_signed_digits [OF u(1,2) rest, of "n < 0" 0] u(3) small by (simp add: s_def)
  then have "ParseDigit t (s @ rest) d = Some (length s, n)"
    using range u(1) by (simp add: ParseDigit_def s_def)
  moreover have "s \<noteq> []" "set s \<subseteq> {c. IsDigits c \<or> c = CHR ''-''}"
    using u(1,2) by (auto simp: s_def)
  ultimately show ?thesis
    using len ToString_int_eq [OF assms(1-3)] unfolding s_def u_def by blast
qed

subsection \<open>Properties\<close>


text \<open>
  Round trip of integers through text, at every width: for each value of an integer type but
  the least value of a signed one, \<^verbatim>\<open>ToString\<close> yields a text of at most 20 bytes (its buffer has
  32), and \<^verbatim>\<open>ParseDigit\<close> at that type, on the text followed by anything that does not start with
  a digit, consumes exactly that text and gives the value back.
\<close>

lemma int_text_roundtrip:
  assumes "type_min t \<le> n" "n \<le> type_max t" "n = type_min t \<longrightarrow> 0 \<le> n"
    and rest: "rest = [] \<or> \<not> IsDigits (hd rest)"
  shows "\<exists>s. ToString_int t n = Some s \<and> length s \<le> 20 \<and>
           ParseDigit t (s @ rest) d = Some (length s, n)"
  using ToString_ParseDigit [OF assms] by blast

theorem int_text_roundtrip_witness:
  "ParseDigit Int16 (''-305'' @ '',x'') 7 = Some (4, - 305)"
proof -
  have "ToString_int Int16 (- 305) = Some ''-305''"
    by code_simp
  then show ?thesis
    using int_text_roundtrip [of Int16 "- 305" "'',x''" 7] by (simp add: IsDigits_uchar)
qed

text \<open>
  \<^verbatim>\<open>ParseDigit\<close> never yields a value outside the type it was asked for: when it succeeds
  the value is within the limits of the type and is what \<^verbatim>\<open>ParseInt64\<close> read, and no more bytes are
  consumed than there are; when it fails the out-parameter is untouched.
\<close>

lemma ParseDigit_in_type:
  assumes "ParseDigit t b d = Some (r, v)"
  shows "(if r = 0 then v = d
          else type_min t \<le> v \<and> v \<le> type_max t \<and> r \<le> length b \<and> ParseInt64 b 0 = Some (r, v))"
proof (cases "ParseInt64 b 0")
  case None
  with assms show ?thesis by (simp add: ParseDigit_def)
next
  case (Some p)
  then obtain k i where p: "ParseInt64 b 0 = Some (k, i)" by (cases p) auto
  then show ?thesis
    using assms ParseInt64_bounds [OF p] CheckValueBound_iff [of i t]
    by (auto simp: ParseDigit_def split: if_splits)
qed

theorem ParseDigit_in_type_witness:
  "ParseDigit UInt8 ''255;'' 0 = Some (3, 255) \<and> type_min UInt8 \<le> 255 \<and> 255 \<le> type_max UInt8"
proof -
  have h: "ParseDigit UInt8 ''255;'' 0 = Some (3, 255)" by code_simp
  show ?thesis using h ParseDigit_in_type [OF h] by simp
qed

text \<open>
  The least value of a signed type does not survive \<^verbatim>\<open>ToString\<close>: at 8 and 16 bits the
  negation wraps back to the same negative number and its "digits" are not digits at all, at
  32 and 64 bits the negation is undefined behaviour.
\<close>

lemma ToString_least_value:
  "ToString_int Int8 (- 128) = Some ''-/.('' \<and>
   ToString_int Int16 (- 32768) = Some ''--.)*('' \<and>
   ToString_int Int32 (type_min Int32) = None \<and> ToString_int Int64 (type_min Int64) = None"
  by code_simp

end
