(* ===== verification/Field_Parsers.thy ===== *)
theory Field_Parsers
  imports Char_Classes
begin

text \<open>
  The readers of text fields of fma-common/text_parser.h: \<^verbatim>\<open>FindNextLine\<close>,
  \<^verbatim>\<open>ParseAlphabetNumeric\<close>, \<^verbatim>\<open>ParseGraphicalString\<close>, \<^verbatim>\<open>DropGraphicalField\<close>, \<^verbatim>\<open>ParsePrintableString\<close>,
  \<^verbatim>\<open>ParseCsvString\<close>, \<^verbatim>\<open>ParseQuotedString\<close> and \<^verbatim>\<open>DropCsvField\<close>. A reader takes the range and
  returns the number of bytes consumed with the string it built; a loop of the source is a
  recursive function that returns what it pushed and the rest of the range.
\<close>

subsection \<open>Lines and runs\<close>

fun FindNextLine :: "string \<Rightarrow> string" where
  "FindNextLine [] = []"
| "FindNextLine (c # cs) =
     (if c = CHR 0x0D then
        (case cs of [] \<Rightarrow> [] | d # ds \<Rightarrow> if d = CHR 0x0A then ds else cs)
      else if c = CHR 0x0A then
        (case cs of [] \<Rightarrow> [] | d # ds \<Rightarrow> if d = CHR 0x0D then ds else cs)
      else FindNextLine cs)"

text \<open>\<^verbatim>\<open>while (b != e && P(*b)) s.push_back(*b++);\<close> returns what was pushed and the rest.\<close>

fun push_while :: "(char \<Rightarrow> bool) \<Rightarrow> string \<Rightarrow> string \<times> string" where
  "push_while P [] = ([], [])"
| "push_while P (c # cs) =
     (if P c then (case push_while P cs of (s, r) \<Rightarrow> (c # s, r)) else ([], c # cs))"

definition ParseAlphabetNumeric :: "string \<Rightarrow> nat \<times> string" where
  "ParseAlphabetNumeric orig =
     (if orig = [] then (0, [])
      else case push_while IsAlphabetNumberic orig of (s, b) \<Rightarrow> (length orig - length b, s))"

definition ParseGraphicalString :: "string \<Rightarrow> nat \<times> string" where
  "ParseGraphicalString orig =
     (if orig = [] then (0, [])
      else case push_while IsGraphical orig of (s, b) \<Rightarrow> (length orig - length b, s))"

definition DropGraphicalField :: "string \<Rightarrow> nat" where
  "DropGraphicalField orig =
     (if orig = [] then 0 else length orig - length (dropWhile IsGraphical orig))"

definition ParsePrintableString :: "string \<Rightarrow> nat \<times> string" where
  "ParsePrintableString orig =
     (let b = dropWhile (\<lambda>c. schar c < 32) orig
      in if b = [] then (0, [])
         else case push_while (\<lambda>c. 31 < schar c \<and> schar c < 127) b of
                (s, b') \<Rightarrow> (length orig - length b', s))"

subsection \<open>CSV fields\<close>

text \<open>The loop over a quoted field, from just after the opening quote.\<close>

fun csv_quoted :: "string \<Rightarrow> string \<times> string" where
  "csv_quoted [] = ([], [])"
| "csv_quoted (c # cs) =
     (if IsNewLine c then ([], c # cs)
      else if IsCsvIgnoreable c then csv_quoted cs
      else if c = CHR 0x22 then
        (case cs of [] \<Rightarrow> ([], [])
         | d # ds \<Rightarrow> (if d \<noteq> CHR 0x22 then ([], d # ds)
                     else case csv_quoted ds of (s, r) \<Rightarrow> (d # s, r)))
      else case csv_quoted cs of (s, r) \<Rightarrow> (c # s, r))"

text \<open>The loop over an unquoted field.\<close>

fun csv_unquoted :: "string \<Rightarrow> string \<times> string" where
  "csv_unquoted [] = ([], [])"
| "csv_unquoted (c # cs) =
     (if \<not> IsNewLine c \<and> c \<noteq> CHR '',''
      then (case csv_unquoted cs of (s, r) \<Rightarrow> (if \<not> IsCsvIgnoreable c then c # s else s, r))
      else ([], c # cs))"

definition ParseCsvString :: "string \<Rightarrow> nat \<times> string" where
  "ParseCsvString orig =
     (let b = dropWhile IsBlank orig
      in if b = [] then (0, [])
         else if hd b = CHR 0x22
         then (case csv_quoted (tl b) of (s, r) \<Rightarrow> (length orig - length r, s))
         else (case csv_unquoted b of (s, r) \<Rightarrow> (length orig - length r, s)))"

text \<open>
  \<^verbatim>\<open>ParseQuotedString\<close> appends to its out-parameter, keeps unprintable bytes, and asserts that
  the range starts with a quote: \<^const>\<open>None\<close> is the failed assertion.
\<close>

fun plain_quoted :: "string \<Rightarrow> string \<times> string" where
  "plain_quoted [] = ([], [])"
| "plain_quoted (c # cs) =
     (if IsNewLine c then ([], c # cs)
      else if c = CHR 0x22 then
        (case cs of [] \<Rightarrow> ([], [])
         | d # ds \<Rightarrow> (if d \<noteq> CHR 0x22 then ([], d # ds)
                     else case plain_quoted ds of (s, r) \<Rightarrow> (d # s, r)))
      else case plain_quoted cs of (s, r) \<Rightarrow> (c # s, r))"

definition ParseQuotedString :: "string \<Rightarrow> string \<Rightarrow> (nat \<times> string) option" where
  "ParseQuotedString orig s0 =
     (if orig = [] \<or> hd orig \<noteq> CHR 0x22 then None
      else case plain_quoted (tl orig) of (s, r) \<Rightarrow> Some (length orig - length r, s0 @ s))"

fun drop_quoted :: "string \<Rightarrow> string" where
  "drop_quoted [] = []"
| "drop_quoted (c # cs) =
     (if IsNewLine c then c # cs
      else if IsCsvIgnoreable c then drop_quoted cs
      else if c = CHR 0x22 then
        (case cs of [] \<Rightarrow> []
         | d # ds \<Rightarrow> (if d \<noteq> CHR 0x22 then d # ds else drop_quoted ds))
      else drop_quoted cs)"

definition DropCsvField :: "string \<Rightarrow> nat" where
  "DropCsvField orig =
     (let b = dropWhile IsBlank orig
      in if b = [] then 0
         else if hd b = CHR 0x22 then length orig - length (drop_quoted (tl b))
         else length orig - length (dropWhile (\<lambda>c. \<not> IsNewLine c \<and> c \<noteq> CHR '','') b))"

subsection \<open>Lemmas\<close>

lemma push_while_eq: "push_while P b = (takeWhile P b, dropWhile P b)"
  by (induction b) auto

lemma FindNextLine_suffix: "suffix (FindNextLine b) b"
  by (induction b rule: FindNextLine.induct) (auto simp: suffix_ConsI split: list.split)

lemma FindNextLine_length: "length (FindNextLine b) \<le> length b"
  by (rule suffix_length_le [OF FindNextLine_suffix])

text \<open>The text up to the first line break is skipped, together with that break.\<close>

lemma FindNextLine_skip:
  assumes "\<forall>c \<in> set line. \<not> IsNewLine c"
  shows "FindNextLine (line @ rest) = FindNextLine rest"
  using assms by (induction line) (auto simp: IsNewLine_def)

lemma csv_unquoted_eq:
  "csv_unquoted b =
    (filter (\<lambda>c. \<not> IsCsvIgnoreable c) (takeWhile (\<lambda>c. \<not> IsNewLine c \<and> c \<noteq> CHR '','') b),
     dropWhile (\<lambda>c. \<not> IsNewLine c \<and> c \<noteq> CHR '','') b)"
  by (induction b) auto

lemma quote_class [simp]:
  "\<not> IsNewLine (CHR 0x22)" "\<not> IsCsvIgnoreable (CHR 0x22)" "\<not> IsBlank (CHR 0x22)"
  by (simp_all add: char_class)

text \<open>The branches of a quoted-field loop at a non-empty rest.\<close>

lemma quoted_cases:
  obtains (newline) "IsNewLine c"
    | (ignored) "\<not> IsNewLine c" "IsCsvIgnoreable c"
    | (last) "c = CHR 0x22" "cs = []"
    | (closing) d ds where "c = CHR 0x22" "cs = d # ds" "d \<noteq> CHR 0x22"
    | (doubled) ds where "c = CHR 0x22" "cs = CHR 0x22 # ds"
    | (kept) "\<not> IsNewLine c" "\<not> IsCsvIgnoreable c" "c \<noteq> CHR 0x22"
  by (metis list.exhaust)

lemma snd_csv_quoted: "snd (csv_quoted b) = drop_quoted b"
proof (induction b rule: csv_quoted.induct)
  case (2 c cs)
  show ?case
    by (cases rule: quoted_cases [where c = c and cs = cs]) (use 2 in \<open>simp_all add: case_prod_beta\<close>)
qed simp

lemma drop_quoted_suffix: "suffix (drop_quoted b) b"
proof (induction b rule: drop_quoted.induct)
  case (2 c cs)
  show ?case
    by (cases rule: quoted_cases [where c = c and cs = cs]) (use 2 in \<open>simp_all add: suffix_ConsI\<close>)
qed simp

lemma csv_quoted_clean:
  "set (fst (csv_quoted b)) \<subseteq> {c. \<not> IsNewLine c \<and> \<not> IsCsvIgnoreable c}"
proof (induction b rule: csv_quoted.induct)
  case (2 c cs)
  show ?case
    by (cases rule: quoted_cases [where c = c and cs = cs]) (use 2 in \<open>simp_all add: case_prod_beta\<close>)
qed simp

text \<open>The quoting a CSV writer uses: quotes are doubled inside the field.\<close>

definition csv_escape :: "string \<Rightarrow> string" where
  "csv_escape v = concat (map (\<lambda>c. if c = CHR 0x22 then [c, c] else [c]) v)"

lemma csv_escape_simps [simp]:
  "csv_escape [] = []"
  "csv_escape (c # cs) = (if c = CHR 0x22 then [c, c] else [c]) @ csv_escape cs"
  by (simp_all add: csv_escape_def)

lemma csv_quoted_escape:
  assumes "\<forall>c \<in> set v. \<not> IsNewLine c \<and> \<not> IsCsvIgnoreable c"
    and "rest = [] \<or> hd rest \<noteq> CHR 0x22"
  shows "csv_quoted (csv_escape v @ CHR 0x22 # rest) = (v, rest)"
  using assms
proof (induction v)
  case Nil
  then show ?case by (cases rest) simp_all
next
  case (Cons c v)
  then show ?case by simp
qed

lemma plain_quoted_escape:
  assumes "\<forall>c \<in> set v. \<not> IsNewLine c" and "rest = [] \<or> hd rest \<noteq> CHR 0x22"
  shows "plain_quoted (csv_escape v @ CHR 0x22 # rest) = (v, rest)"
  using assms
proof (induction v)
  case Nil
  then show ?case by (cases rest) simp_all
next
  case (Cons c v)
  then show ?case by simp
qed

lemma dropWhile_le: "length (dropWhile P b) \<le> length b"
  by (rule length_dropWhile_le)

lemma ParseCsvString_quoted:
  assumes "\<forall>c \<in> set blanks. IsBlank c"
    and "\<forall>c \<in> set v. \<not> IsNewLine c \<and> \<not> IsCsvIgnoreable c"
    and "rest = [] \<or> hd rest \<noteq> CHR 0x22"
  shows "ParseCsvString (blanks @ CHR 0x22 # csv_escape v @ CHR 0x22 # rest)
       = (length blanks + length (csv_escape v) + 2, v)"
proof -
  have "dropWhile IsBlank (blanks @ CHR 0x22 # csv_escape v @ CHR 0x22 # rest)
      = CHR 0x22 # csv_escape v @ CHR 0x22 # rest"
    using assms(1) by (intro dropWhile_stop) (auto simp: IsBlank_def)
  then show ?thesis
    using csv_quoted_escape [OF assms(2,3)] by (simp add: ParseCsvString_def Let_def)
qed

subsection \<open>Properties\<close>

text \<open>
  \<^verbatim>\<open>ParseCsvString\<close> inverts CSV quoting: leading blanks, then a field quoted with doubled
  quotes, are consumed exactly up to and including the closing quote and give the field back,
  provided the field holds no line break and no byte the parser ignores.
\<close>

lemma csv_field_roundtrip:
  assumes "\<forall>c \<in> set blanks. IsBlank c"
    and "\<forall>c \<in> set v. \<not> IsNewLine c \<and> \<not> IsCsvIgnoreable c"
    and "rest = [] \<or> hd rest \<noteq> CHR 0x22"
  shows "ParseCsvString (blanks @ CHR 0x22 # csv_escape v @ CHR 0x22 # rest)
       = (length blanks + length (csv_escape v) + 2, v)"
  using assms by (rule ParseCsvString_quoted)

theorem csv_field_roundtrip_witness:
  "ParseCsvString ('' '' @ CHR 0x22 # csv_escape (''a,'' @ [CHR 0x22]) @ CHR 0x22 # '',b'')
     = (7, ''a,'' @ [CHR 0x22])"
  using csv_field_roundtrip [of "'' ''" "''a,'' @ [CHR 0x22]" "'',b''"]
  by (simp add: IsBlank_def IsNewLine_def IsCsvIgnoreable_uchar uchar_def)

text \<open>
  What \<^verbatim>\<open>ParseCsvString\<close> returns never contains a line break or an ignored byte, an unquoted
  field is the bytes up to the next comma or line break without the ignored ones, and dropping
  a field with \<^verbatim>\<open>DropCsvField\<close> always skips exactly as many bytes as parsing it would.
\<close>

lemma csv_field_parse_and_drop:
  "DropCsvField b = fst (ParseCsvString b) \<and> fst (ParseCsvString b) \<le> length b \<and>
   (\<forall>c \<in> set (snd (ParseCsvString b)). \<not> IsNewLine c \<and> \<not> IsCsvIgnoreable c) \<and>
   (\<forall>c f. dropWhile IsBlank b = c # f \<and> c \<noteq> CHR 0x22 \<longrightarrow>
      snd (ParseCsvString b) =
        filter (\<lambda>c. \<not> IsCsvIgnoreable c)
          (takeWhile (\<lambda>c. \<not> IsNewLine c \<and> c \<noteq> CHR '','') (c # f)))"
proof (intro conjI)
  show "DropCsvField b = fst (ParseCsvString b)"
    by (simp add: DropCsvField_def ParseCsvString_def Let_def csv_unquoted_eq case_prod_beta snd_csv_quoted)
  show "fst (ParseCsvString b) \<le> length b"
    by (simp add: ParseCsvString_def Let_def case_prod_beta)
  show "\<forall>c \<in> set (snd (ParseCsvString b)). \<not> IsNewLine c \<and> \<not> IsCsvIgnoreable c"
    using csv_quoted_clean [of "tl (dropWhile IsBlank b)", THEN subsetD]
    by (auto simp: ParseCsvString_def Let_def csv_unquoted_eq case_prod_beta dest: set_takeWhileD)
  show "\<forall>c f. dropWhile IsBlank b = c # f \<and> c \<noteq> CHR 0x22 \<longrightarrow>
      snd (ParseCsvString b) =
        filter (\<lambda>c. \<not> IsCsvIgnoreable c)
          (takeWhile (\<lambda>c. \<not> IsNewLine c \<and> c \<noteq> CHR '','') (c # f))"
    by (simp add: ParseCsvString_def Let_def csv_unquoted_eq)
qed

theorem csv_field_parse_and_drop_witness:
  "snd (ParseCsvString ''  ab,c'') = ''ab'' \<and> DropCsvField ''  ab,c'' = 4"
proof -
  have d: "dropWhile IsBlank ''  ab,c'' = CHR ''a'' # ''b,c''"
    by (simp add: IsBlank_def)
  have f: "fst (ParseCsvString ''  ab,c'') = 4"
    by (simp add: ParseCsvString_def csv_unquoted_eq IsBlank_def IsNewLine_def)
  from d have "snd (ParseCsvString ''  ab,c'') =
        filter (\<lambda>c. \<not> IsCsvIgnoreable c)
          (takeWhile (\<lambda>c. \<not> IsNewLine c \<and> c \<noteq> CHR '','') (CHR ''a'' # ''b,c''))"
    using csv_field_parse_and_drop [of "''  ab,c''", THEN conjunct2, THEN conjunct2, THEN conjunct2]
    by simp
  moreover have "filter (\<lambda>c. \<not> IsCsvIgnoreable c)
      (takeWhile (\<lambda>c. \<not> IsNewLine c \<and> c \<noteq> CHR '','') (CHR ''a'' # ''b,c'')) = ''ab''"
    by (simp add: IsNewLine_def IsCsvIgnoreable_uchar uchar_def)
  ultimately show ?thesis
    using f csv_field_parse_and_drop [of "''  ab,c''", THEN conjunct1] by simp
qed

end
