(* ===== verification/Byte_Words.thy ===== *)
theory Byte_Words
  imports Prelude
begin

text \<open>
  Memory images of unsigned integers. The code writes and reads integers by casting a
  \<^verbatim>\<open>char*\<close>, so an integer of \<open>k\<close> bytes is the list of its bytes, least significant
  first, as on every platform the build files name.
\<close>

unbundle bit_operations_syntax

fun le_bytes :: "nat \<Rightarrow> int \<Rightarrow> byte list" where
  "le_bytes 0 n = []"
| "le_bytes (Suc k) n = word_of_int n # le_bytes k (n div 256)"

fun le_int :: "byte list \<Rightarrow> int" where
  "le_int [] = 0"
| "le_int (b # bs) = uint b + 256 * le_int bs"

lemma byte_less [simp]: "unat (b :: byte) < 256"
  using unsigned_less [of b] by simp

text \<open>A byte read as a signed \<^verbatim>\<open>char\<close>.\<close>

lemma sint_byte: "sint (w :: byte) = (int (unat w) + 128) mod 256 - 128"
  by (simp add: sint_uint signed_take_bit_eq_take_bit_shift take_bit_eq_mod)

lemma sint_byte_small: "0 < sint (w :: byte) \<Longrightarrow> sint w \<le> 8 \<Longrightarrow> unat w \<le> 8"
proof -
  have "(0::int) < (int n + 128) mod 256 - 128 \<Longrightarrow> (int n + 128) mod 256 - 128 \<le> 8 \<Longrightarrow> n \<le> 8"
    if "n < 256" for n using that by presburger
  from this [OF byte_less, of w] show "0 < sint w \<Longrightarrow> sint w \<le> 8 \<Longrightarrow> unat w \<le> 8"
    by (simp only: sint_byte)
qed

lemma length_le_bytes [simp]: "length (le_bytes k n) = k"
  by (induction k arbitrary: n) auto

lemma byte_uint [simp]: "0 \<le> uint (b :: byte)" "uint b < 256"
  using uint_lt2p [of b] by simp_all

lemma le_int_range: "0 \<le> le_int bs" "le_int bs < 256 ^ length bs"
proof (induction bs)
  case (Cons b bs)
  show "0 \<le> le_int (b # bs)" using Cons by simp
  have "256 * (le_int bs + 1) \<le> 256 * 256 ^ length bs" using Cons(2) by simp
  with byte_uint(2) [of b] show "le_int (b # bs) < 256 ^ length (b # bs)" by (simp del: byte_uint)
qed simp_all

lemma le_int_le_bytes: "le_int (le_bytes k n) = n mod 256 ^ k"
  by (induction k arbitrary: n) (auto simp: unsigned_of_int take_bit_eq_mod zmod_zmult2_eq)

lemma le_bytes_le_int: "length bs = k \<Longrightarrow> le_bytes k (le_int bs) = bs"
proof (induction bs arbitrary: k)
  case (Cons b bs)
  have "(word_of_int (uint b + 256 * le_int bs) :: byte) = b"
    by (simp add: word_uint_eq_iff unsigned_of_int take_bit_eq_mod del: of_int_add of_int_mult)
  with Cons show ?case by (cases k) (auto simp del: of_int_add of_int_mult)
qed auto

lemma le_int_append: "le_int (xs @ ys) = le_int xs + 256 ^ length xs * le_int ys"
  by (induction xs) (auto simp: algebra_simps)

lemma le_bytes_add: "le_bytes (j + k) n = le_bytes j n @ le_bytes k (n div 256 ^ j)"
  by (induction j arbitrary: n) (auto simp: zdiv_zmult2_eq)

lemma le_bytes_mod: "le_bytes k (n mod 256 ^ k) = le_bytes k n"
  by (metis le_bytes_le_int le_int_le_bytes length_le_bytes)

text \<open>The two widths the casts of the code use most.\<close>

definition load32 :: "byte list \<Rightarrow> u32" where
  "load32 bs = word_of_int (le_int (take 4 bs))"

definition store32 :: "u32 \<Rightarrow> byte list" where
  "store32 w = le_bytes 4 (uint w)"

definition load64 :: "byte list \<Rightarrow> u64" where
  "load64 bs = word_of_int (le_int (take 8 bs))"

definition store64 :: "u64 \<Rightarrow> byte list" where
  "store64 w = le_bytes 8 (uint w)"

lemma length_store [simp]: "length (store32 w) = 4" "length (store64 v) = 8"
  by (simp_all add: store32_def store64_def)

lemma load_store [simp]: "load32 (store32 w @ bs) = w" "load64 (store64 v @ bs) = v"
  using uint_lt2p [of w] uint_lt2p [of v]
  by (simp_all add: load32_def store32_def load64_def store64_def le_int_le_bytes)

lemma load_store' [simp]: "load32 (store32 w) = w" "load64 (store64 v) = v"
  using load_store(1) [of w "[]"] load_store(2) [of v "[]"] by simp_all

lemma store_load32: "length bs = 4 \<Longrightarrow> store32 (load32 bs) = bs"
  using le_int_range [of bs]
  by (simp add: store32_def load32_def unsigned_of_int take_bit_int_eq_self le_bytes_le_int)

lemma store_load64: "length bs = 8 \<Longrightarrow> store64 (load64 bs) = bs"
  using le_int_range [of bs]
  by (simp add: store64_def load64_def unsigned_of_int take_bit_int_eq_self le_bytes_le_int)

end
