(* ===== verification/Base_Codecs.thy ===== *)
theory Base_Codecs
  imports Byte_Words
begin

text \<open>
  The two text encodings of \<^verbatim>\<open>fma_common::encrypt\<close>: \<^verbatim>\<open>Base64\<close> and \<^verbatim>\<open>Base16\<close>
  (\<^verbatim>\<open>encrypt.h\<close>). Binary data is a \<^typ>\<open>byte list\<close>, its encoded form a
  \<^typ>\<open>string\<close>. C++ promotes a \<^verbatim>\<open>uint8_t\<close> operand to \<^verbatim>\<open>int\<close>, so the arithmetic on
  groups is done on natural numbers and cut to a byte by the final store.

  The locale \<open>text_codec\<close> states what a client of either class relies on; both
  classes are interpretations of it.
\<close>

unbundle bit_operations_syntax

section \<open>Base64\<close>

definition base64_tbl :: string where
  "base64_tbl = ''ABCDEFGHIJKLMNOPQRSTUVWXYZ'' @ ''abcdefghijklmnopqrstuvwxyz'' @ ''0123456789+/''"

text \<open>A full group of three bytes gives four characters; one or two left-over bytes give
  two or three characters and the \<^verbatim>\<open>'='\<close> signs the result was filled with.\<close>

fun Base64_Encode :: "byte list \<Rightarrow> string" where
  "Base64_Encode (a # b # c # p) =
     (let s0 = unat a; s1 = unat b; s2 = unat c in
      base64_tbl ! drop_bit 2 s0 #
      base64_tbl ! (push_bit 4 (s0 AND 0x3) + drop_bit 4 (s1 AND 0xF0)) #
      base64_tbl ! (push_bit 2 (s1 AND 0x0F) + drop_bit 6 s2) #
      base64_tbl ! (s2 AND 0x3F) # Base64_Encode p)"
| "Base64_Encode [a, b] =
     (let s0 = unat a; s1 = unat b in
      [base64_tbl ! drop_bit 2 s0,
       base64_tbl ! (push_bit 4 (s0 AND 0x3) + drop_bit 4 (s1 AND 0xF0)),
       base64_tbl ! push_bit 2 (s1 AND 0x0F), CHR ''=''])"
| "Base64_Encode [a] =
     (let s0 = unat a in
      [base64_tbl ! drop_bit 2 s0, base64_tbl ! push_bit 4 (s0 AND 0x3), CHR ''='', CHR ''=''])"
| "Base64_Encode [] = []"

definition base64_dec_tbl :: "nat list" where
  "base64_dec_tbl = [
     128, 128, 128, 128, 128, 128, 128, 128, 128, 128, 128, 128, 128, 128, 128, 128,
     128, 128, 128, 128, 128, 128, 128, 128, 128, 128, 128, 128, 128, 128, 128, 128,
     128, 128, 128, 128, 128, 128, 128, 128, 128, 128, 128, 62, 128, 128, 128, 63,
     52, 53, 54, 55, 56, 57, 58, 59, 60, 61, 128, 128, 128, 0, 128, 128,
     128, 0, 1, 2, 3, 4, 5, 6, 7, 8, 9, 10, 11, 12, 13, 14,
     15, 16, 17, 18, 19, 20, 21, 22, 23, 24, 25, 128, 128, 128, 128, 128,
     128, 26, 27, 28, 29, 30, 31, 32, 33, 34, 35, 36, 37, 38, 39, 40,
     41, 42, 43, 44, 45, 46, 47, 48, 49, 50, 51, 128, 128, 128, 128, 128,
     128, 128, 128, 128, 128, 128, 128, 128, 128, 128, 128, 128, 128, 128, 128, 128,
     128, 128, 128, 128, 128, 128, 128, 128, 128, 128, 128, 128, 128, 128, 128, 128,
     128, 128, 128, 128, 128, 128, 128, 128, 128, 128, 128, 128, 128, 128, 128, 128,
     128, 128, 128, 128, 128, 128, 128, 128, 128, 128, 128, 128, 128, 128, 128, 128,
     128, 128, 128, 128, 128, 128, 128, 128, 128, 128, 128, 128, 128, 128, 128, 128,
     128, 128, 128, 128, 128, 128, 128, 128, 128, 128, 128, 128, 128, 128, 128, 128,
     128, 128, 128, 128, 128, 128, 128, 128, 128, 128, 128, 128, 128, 128, 128, 128,
     128, 128, 128, 128, 128, 128, 128, 128, 128, 128, 128, 128, 128, 128, 128, 128]"

text \<open>The decoding loop: the bytes it has written, and whether it ran to the end.\<close>

fun base64_groups :: "string \<Rightarrow> byte list \<times> bool" where
  "base64_groups (c0 # c1 # c2 # c3 # p) =
     (let s0 = base64_dec_tbl ! uchar c0;
          s1 = base64_dec_tbl ! uchar c1;
          s2 = base64_dec_tbl ! uchar c2;
          s3 = base64_dec_tbl ! uchar c3
      in if (s0 OR s1 OR s2 OR s3) \<ge> 128 then ([], False)
         else (case base64_groups p of
                 (dp, ok) \<Rightarrow>
                   (word_of_nat (push_bit 2 s0 + drop_bit 4 (s1 AND 0x30)) #
                    word_of_nat (push_bit 4 (s1 AND 0x0F) + drop_bit 2 (s2 AND 0x3C)) #
                    word_of_nat (push_bit 6 (s2 AND 0x03) + s3) # dp, ok)))"
| "base64_groups _ = ([], True)"

text \<open>\<^verbatim>\<open>std::string::resize\<close>: cut, or fill up with zero bytes.\<close>

definition resize :: "nat \<Rightarrow> byte list \<Rightarrow> byte list" where
  "resize n bs = take n bs @ replicate (n - length bs) 0"

text \<open>\<^verbatim>\<open>ret\<close> is an output argument that keeps its old bytes where the loop did not write.\<close>

definition Base64_TryDecode :: "string \<Rightarrow> byte list \<Rightarrow> bool \<times> byte list" where
  "Base64_TryDecode p ret0 =
     (let s = length p in
      if s mod 4 \<noteq> 0 then (False, ret0)
      else let ret = resize (s div 4 * 3) ret0 in
      if s = 0 then (True, ret)
      else let npad = (if p ! (s - 1) = CHR ''='' then if p ! (s - 2) = CHR ''='' then 2 else 1
                       else 0);
               (dp, ok) = base64_groups p;
               ret = dp @ drop (length dp) ret
      in if \<not> ok then (False, ret) else (True, resize (length ret - npad) ret))"

datatype codec_error = Base64Failed | Base16OddSize | Base16IllegalChars

definition Base64_Decode :: "string \<Rightarrow> codec_error + byte list" where
  "Base64_Decode p =
     (case Base64_TryDecode p [] of
        (ok, ret) \<Rightarrow> if \<not> ok then Inl Base64Failed else Inr ret)"

section \<open>Base16\<close>

definition base16_tbl :: string where
  "base16_tbl = ''0123456789ABCDEF''"

fun Base16_Encode :: "byte list \<Rightarrow> string" where
  "Base16_Encode [] = []"
| "Base16_Encode (b # str) =
     (let c = unat b in
      base16_tbl ! drop_bit 4 (c AND 0xF0) # base16_tbl ! (c AND 0xF) # Base16_Encode str)"

definition base16_dec_tbl :: "nat list" where
  "base16_dec_tbl = [
     255, 255, 255, 255, 255, 255, 255, 255, 255, 255, 255, 255, 255, 255, 255, 255,
     255, 255, 255, 255, 255, 255, 255, 255, 255, 255, 255, 255, 255, 255, 255, 255,
     255, 255, 255, 255, 255, 255, 255, 255, 255, 255, 255, 255, 255, 255, 255, 255,
     0, 1, 2, 3, 4, 5, 6, 7, 8, 9, 255, 255, 255, 255, 255, 255,
     255, 10, 11, 12, 13, 14, 15, 255, 255, 255, 255, 255, 255, 255, 255, 255,
     255, 255, 255, 255, 255, 255, 255, 255, 255, 255, 255, 255, 255, 255, 255, 255,
     255, 10, 11, 12, 13, 14, 15, 255, 255, 255, 255, 255, 255, 255, 255, 255,
     255, 255, 255, 255, 255, 255, 255, 255, 255, 255, 255, 255, 255, 255, 255, 255,
     255, 255, 255, 255, 255, 255, 255, 255, 255, 255, 255, 255, 255, 255, 255, 255,
     255, 255, 255, 255, 255, 255, 255, 255, 255, 255, 255, 255, 255, 255, 255, 255,
     255, 255, 255, 255, 255, 255, 255, 255, 255, 255, 255, 255, 255, 255, 255, 255,
     255, 255, 255, 255, 255, 255, 255, 255, 255, 255, 255, 255, 255, 255, 255, 255,
     255, 255, 255, 255, 255, 255, 255, 255, 255, 255, 255, 255, 255, 255, 255, 255,
     255, 255, 255, 255, 255, 255, 255, 255, 255, 255, 255, 255, 255, 255, 255, 255,
     255, 255, 255, 255, 255, 255, 255, 255, 255, 255, 255, 255, 255, 255, 255, 255,
     255, 255, 255, 255, 255, 255, 255, 255, 255, 255, 255, 255, 255, 255, 255, 255]"

fun base16_pairs :: "string \<Rightarrow> codec_error + byte list" where
  "base16_pairs (c # d # p) =
     (let upper = base16_dec_tbl ! uchar c; lower = base16_dec_tbl ! uchar d in
      if upper = 255 \<or> lower = 255 then Inl Base16IllegalChars
      else map_sum id ((#) (word_of_nat (push_bit 4 upper + lower))) (base16_pairs p))"
| "base16_pairs _ = Inr []"

definition Base16_Decode :: "string \<Rightarrow> codec_error + byte list" where
  "Base16_Decode p =
     (if length p mod 2 \<noteq> 0 then Inl Base16OddSize else base16_pairs p)"

section \<open>The tables\<close>

lemma base64_tbl_length [simp]: "length base64_tbl = 64"
  by (simp add: base64_tbl_def)

definition enc64 :: "nat \<Rightarrow> nat" where
  "enc64 i = (if i < 26 then i + 65 else if i < 52 then i + 71 else if i < 62 then i - 4
              else if i = 62 then 43 else 47)"

definition dec64 :: "nat \<Rightarrow> nat" where
  "dec64 n = (if 65 \<le> n \<and> n \<le> 90 then n - 65 else if 97 \<le> n \<and> n \<le> 122 then n - 71
              else if 48 \<le> n \<and> n \<le> 57 then n + 4 else if n = 43 then 62 else if n = 47 then 63
              else if n = 61 then 0 else 128)"

lemma base64_tbl_eq: "base64_tbl = map (\<lambda>i. char_of (enc64 i)) [0..<64]"
  by code_simp

lemma base64_dec_tbl_eq: "base64_dec_tbl = map dec64 [0..<256]"
  by code_simp

lemma base64_enc: "i < 64 \<Longrightarrow> base64_tbl ! i = char_of (enc64 i)"
  by (simp add: base64_tbl_eq)

lemma base64_dec: "n < 256 \<Longrightarrow> base64_dec_tbl ! n = dec64 n"
  by (simp add: base64_dec_tbl_eq)

lemma base64_dec_enc [simp]: "i < 64 \<Longrightarrow> base64_dec_tbl ! uchar (base64_tbl ! i) = i"
  by (auto simp: base64_enc base64_dec enc64_def dec64_def)

lemma base64_tbl_not_pad [simp]: "i < 64 \<Longrightarrow> base64_tbl ! i \<noteq> CHR ''=''"
  by (auto simp: base64_enc enc64_def uchar_inject [symmetric] simp del: uchar_inject)
     (auto simp: uchar_def)

lemma base64_dec_pad [simp]: "base64_dec_tbl ! uchar (CHR ''='') = 0"
  by (simp add: base64_dec dec64_def uchar_def)

text \<open>A byte is accepted when its table entry is a six-bit value; the padding sign is one.\<close>

definition base64_char :: "char \<Rightarrow> bool" where
  "base64_char c \<longleftrightarrow> dec64 (uchar c) \<noteq> 128"

lemma base64_dec_valid: "base64_char c \<Longrightarrow> base64_dec_tbl ! uchar c < 64"
  by (auto simp: base64_char_def base64_dec dec64_def split: if_splits)

lemma base64_dec_invalid: "\<not> base64_char c \<Longrightarrow> base64_dec_tbl ! uchar c = 128"
  by (simp add: base64_char_def base64_dec)

definition enc16 :: "nat \<Rightarrow> nat" where
  "enc16 i = (if i < 10 then i + 48 else i + 55)"

definition dec16 :: "nat \<Rightarrow> nat" where
  "dec16 n = (if 48 \<le> n \<and> n \<le> 57 then n - 48 else if 65 \<le> n \<and> n \<le> 70 then n - 55
              else if 97 \<le> n \<and> n \<le> 102 then n - 87 else 255)"

lemma base16_tbl_eq: "base16_tbl = map (\<lambda>i. char_of (enc16 i)) [0..<16]"
  by code_simp

lemma base16_dec_tbl_eq: "base16_dec_tbl = map dec16 [0..<256]"
  by code_simp

lemma base16_enc: "i < 16 \<Longrightarrow> base16_tbl ! i = char_of (enc16 i)"
  by (simp add: base16_tbl_eq)

lemma base16_dec: "n < 256 \<Longrightarrow> base16_dec_tbl ! n = dec16 n"
  by (simp add: base16_dec_tbl_eq)

lemma base16_dec_enc [simp]: "i < 16 \<Longrightarrow> base16_dec_tbl ! uchar (base16_tbl ! i) = i"
  by (auto simp: base16_enc base16_dec enc16_def dec16_def)

lemma dec16_cases: "dec16 n < 16 \<or> dec16 n = 255"
  by (auto simp: dec16_def)

section \<open>Groups of bits\<close>

lemmas bit_nat = push_bit_eq_mult drop_bit_eq_div take_bit_eq_mod mask_eq_exp_minus_1

lemma and_high [simp]:
  "drop_bit 4 (n AND 0xF0) = n div 16 mod 16"
  "drop_bit 4 (n AND 0x30) = n div 16 mod 4"
  "drop_bit 2 (n AND 0x3C) = n div 4 mod 16" for n :: nat
  using take_bit_eq_mask [of 4 "drop_bit 4 n"] take_bit_eq_mask [of 2 "drop_bit 4 n"]
    take_bit_eq_mask [of 4 "drop_bit 2 n"]
  by (simp_all add: drop_bit_and mask_eq_exp_minus_1)
     (simp_all add: drop_bit_eq_div take_bit_eq_mod)

lemma and_high_div [simp]:
  "(n AND 0xF0) div 16 = n div 16 mod 16"
  "(n AND 0x30) div 16 = n div 16 mod 4"
  "(n AND 0x3C) div 4 = n div 4 mod 16" for n :: nat
  using and_high [of n] by (simp_all only: drop_bit_eq_div) simp_all

lemma and_low [simp]:
  "n AND 0x3 = n mod 4" "n AND 0x0F = n mod 16" "n AND 0x3F = n mod 64" for n :: nat
  using take_bit_eq_mask [of 2 n] take_bit_eq_mask [of 4 n] take_bit_eq_mask [of 6 n]
  by (simp_all add: mask_eq_exp_minus_1 take_bit_eq_mod)

section \<open>Encoding and decoding\<close>

lemma byte_of_nat: "word_of_nat n = b" if "n = unat b" for b :: byte
  using that by simp

lemma or_less: "s < 2 ^ n \<Longrightarrow> t < 2 ^ n \<Longrightarrow> (s OR t) < 2 ^ n" for s t :: nat
  using OR_upper [of "int s" n "int t"]
  by (metis of_nat_0_le_iff of_nat_less_iff of_nat_numeral of_nat_or_eq of_nat_power)

lemma or_ge: "t \<le> (s OR t)" "t \<le> (t OR s)" for s t :: nat
  using or_greater_eq [of "int s" "int t"]
  by (simp_all add: or.commute flip: of_nat_or_eq)

lemma group_valid:
  fixes s0 :: nat
  assumes "s0 < 64" "s1 < 64" "s2 < 64" "s3 < 64"
  shows "\<not> 128 \<le> (s0 OR s1 OR s2 OR s3)"
  using or_less [of s0 6 "s1 OR s2 OR s3"] or_less [of s1 6 "s2 OR s3"] or_less [of s2 6 s3] assms
  by simp

lemma group_invalid:
  fixes s0 :: nat
  assumes "128 \<le> s0 \<or> 128 \<le> s1 \<or> 128 \<le> s2 \<or> 128 \<le> s3"
  shows "128 \<le> (s0 OR s1 OR s2 OR s3)"
  using assms or_ge [of s0 "s1 OR s2 OR s3"] or_ge [of "s1 OR s2 OR s3" s0]
    or_ge [of s1 "s2 OR s3"] or_ge [of "s2 OR s3" s1] or_ge [of s2 s3] or_ge [of s3 s2] by linarith

text \<open>A group is rejected exactly when one of its characters is outside the alphabet.\<close>

lemma base64_dec_bound: "base64_dec_tbl ! uchar c < 64 \<or> base64_dec_tbl ! uchar c = 128"
  using base64_dec_valid base64_dec_invalid by blast

lemma base64_groups_accept:
  "length p mod 4 = 0 \<Longrightarrow> snd (base64_groups p) \<longleftrightarrow> (\<forall>c \<in> set p. base64_char c)"
proof (induction p rule: base64_groups.induct)
  case (1 c0 c1 c2 c3 p)
  have IH: "snd (base64_groups p) \<longleftrightarrow> (\<forall>c \<in> set p. base64_char c)"
    if "\<not> 128 \<le> (base64_dec_tbl ! uchar c0 OR base64_dec_tbl ! uchar c1 OR
            base64_dec_tbl ! uchar c2 OR base64_dec_tbl ! uchar c3)"
    using 1(1) [OF refl refl refl refl that] 1(2) by (simp add: mod_Suc split: if_splits)
  show ?case
  proof (cases "base64_char c0 \<and> base64_char c1 \<and> base64_char c2 \<and> base64_char c3")
    case True
    then have "\<not> 128 \<le> (base64_dec_tbl ! uchar c0 OR base64_dec_tbl ! uchar c1 OR
            base64_dec_tbl ! uchar c2 OR base64_dec_tbl ! uchar c3)"
      by (intro group_valid base64_dec_valid) auto
    with IH True show ?thesis by (simp add: split_beta Let_def)
  next
    case False
    then have "128 \<le> (base64_dec_tbl ! uchar c0 OR base64_dec_tbl ! uchar c1 OR
            base64_dec_tbl ! uchar c2 OR base64_dec_tbl ! uchar c3)"
      by (intro group_invalid) (auto dest: base64_dec_invalid)
    with False show ?thesis by auto
  qed
qed auto

text \<open>What the encoder produces, group by group, and how many padding signs end it.\<close>

lemma small_index:
  fixes a b :: byte
  shows "unat a div 4 < 64" "4 * (unat b mod 16) + unat a div 64 < 64"
    "16 * (unat b mod 4) + unat a div 16 < 64" "unat a mod 64 < 64"
    "16 * (unat b mod 4) < 64" "4 * (unat b mod 16) < 64"
proof -
  have "unat a div 4 < 64" "unat a div 64 < 4" "unat a div 16 < 16"
    by (rule less_mult_imp_div_less, use byte_less [of a] in simp)+
  moreover have "unat b mod 4 < 4" "unat b mod 16 < 16" "unat a mod 64 < 64" by simp_all
  ultimately show "unat a div 4 < 64" "4 * (unat b mod 16) + unat a div 64 < 64"
    "16 * (unat b mod 4) + unat a div 16 < 64" "unat a mod 64 < 64"
    "16 * (unat b mod 4) < 64" "4 * (unat b mod 16) < 64" by linarith+
qed

lemma high_nibble [simp]:
  fixes b :: byte
  shows "unat b div 16 mod 16 = unat b div 16" "unat b div 64 mod 4 = unat b div 64"
    "unat b div 16 div 16 = 0" "unat b div 64 div 4 = 0"
  using byte_less [of b] by (simp_all add: less_mult_imp_div_less flip: div_mult2_eq)

lemma Base64_Encode_length: "length (Base64_Encode bs) = (length bs + 2) div 3 * 4"
proof (induction bs rule: Base64_Encode.induct)
  case (1 a b c p)
  have "(length (a # b # c # p) + 2) div 3 = Suc ((length p + 2) div 3)"
    by simp
  with 1 show ?case by (simp add: Let_def)
qed (simp_all add: Let_def)

lemma base64_groups_step:
  assumes "base64_dec_tbl ! uchar c0 = s0" "base64_dec_tbl ! uchar c1 = s1"
      "base64_dec_tbl ! uchar c2 = s2" "base64_dec_tbl ! uchar c3 = s3"
    and "s0 < 64" "s1 < 64" "s2 < 64" "s3 < 64"
  shows "base64_groups (c0 # c1 # c2 # c3 # p) =
    (word_of_nat (4 * s0 + s1 div 16 mod 4) # word_of_nat (s1 mod 16 * 16 + s2 div 4 mod 16) #
     word_of_nat (s2 mod 4 * 64 + s3) # fst (base64_groups p), snd (base64_groups p))"
  using group_valid [OF assms(5-8)] assms(1-4)
  by (simp add: Let_def split_beta bit_nat mult.commute)

lemma replicate_two: "replicate 2 x = [x, x]"
  by (simp add: numeral_2_eq_2)

lemma base64_groups_encode:
  "base64_groups (Base64_Encode bs) = (bs @ replicate ((3 - length bs mod 3) mod 3) 0, True)"
proof (induction bs rule: Base64_Encode.induct)
  case (1 a b c p)
  from 1 [OF refl refl refl] show ?case
    by (simp add: Let_def bit_nat mult.commute small_index base64_groups_step byte_of_nat
        del: base64_groups.simps(1) of_nat_add of_nat_mult)
next
  case (2 a b)
  then show ?case
    by (simp add: Let_def bit_nat mult.commute small_index base64_groups_step byte_of_nat
        del: base64_groups.simps(1) of_nat_add of_nat_mult)
next
  case (3 a)
  then show ?case
    by (simp add: Let_def bit_nat mult.commute small_index base64_groups_step byte_of_nat
        replicate_two del: base64_groups.simps(1) of_nat_add of_nat_mult)
qed simp

definition base64_npad :: "string \<Rightarrow> nat" where
  "base64_npad p = (if p ! (length p - 1) = CHR ''=''
     then if p ! (length p - 2) = CHR ''='' then 2 else 1 else 0)"

lemma base64_npad_encode:
  "bs \<noteq> [] \<Longrightarrow> base64_npad (Base64_Encode bs) = (3 - length bs mod 3) mod 3"
proof (induction bs rule: Base64_Encode.induct)
  case (1 a b c p)
  show ?case
  proof (cases "p = []")
    case True
    then show ?thesis by (simp add: base64_npad_def Let_def bit_nat small_index)
  next
    case False
    have "length (Base64_Encode p) = Suc (Suc (length (Base64_Encode p) - 2))"
      using False Base64_Encode_length [of p] by (cases p) auto
    then obtain n where n: "length (Base64_Encode p) = Suc (Suc n)" by blast
    have n2: "length (Base64_Encode p) - 2 = n" using n by simp
    from 1(1) [OF refl refl refl False] show ?thesis
      by (simp add: base64_npad_def Let_def n n2 cong: if_cong)
  qed
qed (simp_all add: base64_npad_def Let_def bit_nat small_index)

lemma resize_take: "n \<le> length bs \<Longrightarrow> resize n bs = take n bs"
  by (simp add: resize_def)

lemma length_resize [simp]: "length (resize n bs) = n"
  by (simp add: resize_def)

lemma base64_groups_length: "length p mod 4 = 0 \<Longrightarrow> snd (base64_groups p) \<Longrightarrow>
    length (fst (base64_groups p)) = length p div 4 * 3"
  by (induction p rule: base64_groups.induct)
     (auto simp: Let_def split_beta mod_Suc split: if_splits)

lemma base64_groups_le [len_bound]: "length (fst (base64_groups p)) \<le> length p div 4 * 3"
proof (induction p rule: base64_groups.induct)
  case (1 c0 c1 c2 c3 p)
  have "length (c0 # c1 # c2 # c3 # p) div 4 = Suc (length p div 4)" by simp
  with 1 show ?case by (auto simp: Let_def split_beta)
qed auto

lemma Base64_TryDecode_eq:
  "Base64_TryDecode p ret0 =
    (if length p mod 4 \<noteq> 0 then (False, ret0)
     else if p = [] then (True, [])
     else let (dp, ok) = base64_groups p in
       if ok then (True, take (length dp - base64_npad p) dp)
       else (False, dp @ drop (length dp) (resize (length p div 4 * 3) ret0)))"
  using base64_groups_length [of p]
  by (auto simp: Base64_TryDecode_def base64_npad_def Let_def split_beta resize_take)

lemma Base64_TryDecode_Encode: "Base64_TryDecode (Base64_Encode bs) ret0 = (True, bs)"
proof (cases "bs = []")
  case False
  then have "Base64_Encode bs \<noteq> []"
    using Base64_Encode_length [of bs] by (cases bs) auto
  then show ?thesis
    using False by (simp add: Base64_TryDecode_eq Base64_Encode_length base64_groups_encode base64_npad_encode)
qed (simp add: Base64_TryDecode_eq)

section \<open>Base16\<close>

lemma nibble_valid: "unat (b :: byte) div 16 \<noteq> 255" "unat b mod 16 \<noteq> 255"
  using byte_less [of b] by presburger+

lemma base16_pairs_encode: "base16_pairs (Base16_Encode bs) = Inr bs"
  by (induction bs) (simp_all add: Let_def bit_nat mult.commute byte_of_nat nibble_valid
      less_mult_imp_div_less del: of_nat_add of_nat_mult)

lemma Base16_Encode_length: "length (Base16_Encode bs) = 2 * length bs"
  by (induction bs) (simp_all add: Let_def)

lemma Base16_Decode_Encode: "Base16_Decode (Base16_Encode bs) = Inr bs"
  by (simp add: Base16_Decode_def Base16_Encode_length base16_pairs_encode)

definition base16_char :: "char \<Rightarrow> bool" where
  "base16_char c \<longleftrightarrow> dec16 (uchar c) \<noteq> 255"

definition base16_upper :: "char \<Rightarrow> char" where
  "base16_upper c = (if 97 \<le> uchar c then char_of (uchar c - 32) else c)"

lemma base16_tbl_length [simp]: "length base16_tbl = 16"
  by (simp add: base16_tbl_def)

lemma base16_upper_enc:
  "base16_char c \<Longrightarrow> base16_tbl ! dec16 (uchar c) = base16_upper c"
  by (auto simp: base16_char_def base16_enc dec16_def enc16_def base16_upper_def split: if_splits)

lemma base16_pairs_canonical:
  "length p mod 2 = 0 \<Longrightarrow>
    (case base16_pairs p of
      Inr bs \<Rightarrow> (\<forall>c \<in> set p. base16_char c) \<and> Base16_Encode bs = map base16_upper p
    | Inl e \<Rightarrow> e = Base16IllegalChars \<and> (\<exists>c \<in> set p. \<not> base16_char c))"
proof (induction p rule: base16_pairs.induct)
  case (1 c d p)
  show ?case
  proof (cases "base16_char c \<and> base16_char d")
    case True
    then have "dec16 (uchar c) < 16" "dec16 (uchar d) < 16"
      using dec16_cases [of "uchar c"] dec16_cases [of "uchar d"] by (auto simp: base16_char_def)
    moreover have "\<not> (base16_dec_tbl ! uchar c = 255 \<or> base16_dec_tbl ! uchar d = 255)"
      using True by (auto simp: base16_dec base16_char_def)
    note 1(1) [OF refl refl this]
    ultimately show ?thesis
      using True 1(2)
      by (cases "base16_pairs p")
         (auto simp: Let_def base16_dec base16_char_def [symmetric] bit_nat base16_upper_enc
          unat_of_nat mod_Suc simp del: of_nat_add of_nat_mult split: if_splits)
  next
    case False
    then show ?thesis by (auto simp: Let_def base16_dec base16_char_def)
  qed
qed auto

text \<open>The accepted characters, as sets.\<close>

lemma uchar_pad: "c = CHR ''='' \<longleftrightarrow> uchar c = 61"
  using uchar_inject [of c "CHR ''=''"] by (simp add: uchar_def)

lemma base64_char_iff: "base64_char c \<longleftrightarrow> c \<in> set base64_tbl \<or> c = CHR ''=''"
proof
  assume "base64_char c"
  then have d: "dec64 (uchar c) < 64" and e: "uchar c \<noteq> 61 \<Longrightarrow> enc64 (dec64 (uchar c)) = uchar c"
    by (auto simp: base64_char_def dec64_def enc64_def split: if_splits)
  have "base64_tbl ! dec64 (uchar c) = c" if "c \<noteq> CHR ''=''"
    using that d e by (simp add: base64_enc uchar_pad)
  with d show "c \<in> set base64_tbl \<or> c = CHR ''=''"
    by (metis base64_tbl_length nth_mem)
next
  assume "c \<in> set base64_tbl \<or> c = CHR ''=''"
  then show "base64_char c"
  proof
    assume "c \<in> set base64_tbl"
    then obtain i where "i < 64" "c = base64_tbl ! i" by (auto simp: in_set_conv_nth)
    then have "base64_dec_tbl ! uchar c = i" by (simp del: uchar_char_of)
    with \<open>i < 64\<close> show ?thesis using base64_dec_invalid by fastforce
  qed (simp add: base64_char_def dec64_def uchar_def)
qed

lemma base16_char_iff: "base16_char c \<longleftrightarrow> uchar c \<in> {48..57} \<union> {65..70} \<union> {97..102}"
  by (auto simp: base16_char_def dec16_def)

section \<open>The contract of a text codec\<close>

text \<open>What a client of either class uses: decoding what was encoded gives the data back. Different
  data then have different encodings, whatever they are embedded in.\<close>

locale text_codec =
  fixes enc :: "byte list \<Rightarrow> string"
    and dec :: "string \<Rightarrow> codec_error + byte list"
  assumes dec_enc: "dec (enc bs) = Inr bs"
begin

lemma enc_inject: "enc bs = enc cs \<longleftrightarrow> bs = cs"
  by (metis dec_enc sum.inject(2))

lemma enc_distinct: "distinct (map enc bss) \<longleftrightarrow> distinct bss"
  by (simp add: distinct_map inj_on_def enc_inject)

end

interpretation base64: text_codec Base64_Encode Base64_Decode
  by unfold_locales (simp add: Base64_Decode_def Base64_TryDecode_Encode)

interpretation base16: text_codec Base16_Encode Base16_Decode
  by unfold_locales (rule Base16_Decode_Encode)

section \<open>Properties\<close>

text \<open>
  \<^verbatim>\<open>Base64\<close> decodes what it encodes, whatever the output string held before,
  and the encoding has four characters for every started group of three bytes. Different data
  have different encodings.\<close>

lemma base64_roundtrip:
  "Base64_Decode (Base64_Encode bs) = Inr bs \<and>
   Base64_TryDecode (Base64_Encode bs) ret0 = (True, bs) \<and>
   length (Base64_Encode bs) = (length bs + 2) div 3 * 4 \<and>
   (Base64_Encode bs = Base64_Encode cs \<longleftrightarrow> bs = cs)"
  by (simp add: base64.dec_enc base64.enc_inject Base64_TryDecode_Encode Base64_Encode_length)

text \<open>
  \<^verbatim>\<open>Base64::TryDecode\<close> accepts exactly the strings whose length is a multiple
  of four and whose characters are all in the alphabet or padding signs, at any position. The
  output then has three bytes for every group less one byte for each of the two last
  characters that end the string as padding; a string of another length leaves the output as it was.\<close>

lemma base64_accepts:
  "(fst (Base64_TryDecode p ret0) \<longleftrightarrow>
      length p mod 4 = 0 \<and> set p \<subseteq> {c. c \<in> set base64_tbl \<or> c = CHR ''=''}) \<and>
   length (snd (Base64_TryDecode p ret0)) =
     (if length p mod 4 \<noteq> 0 then length ret0
      else length p div 4 * 3 - (if p \<noteq> [] \<and> fst (Base64_TryDecode p ret0) then base64_npad p else 0))"
  using base64_groups_accept [of p] base64_groups_length [of p] base64_groups_le [of p]
  by (auto simp: Base64_TryDecode_eq split_beta Let_def base64_char_iff subset_iff)

text \<open>
  A padding sign is accepted anywhere in the input and read as six zero bits, so the
  decoder takes strings that no encoder produces.\<close>

lemma base64_inner_padding:
  "Base64_Decode ''=A=A'' = Inr [0, 0, 0] \<and> Base64_Decode ''===='' = Inr [0] \<and>
   (\<forall>bs. Base64_Encode bs \<noteq> ''=A=A'' \<and> Base64_Encode bs \<noteq> ''===='')"
proof -
  have "Base64_Decode ''=A=A'' = Inr [0, 0, 0]" "Base64_Decode ''===='' = Inr [0]"
    by (simp_all add: Base64_Decode_def Base64_TryDecode_eq base64_dec dec64_def uchar_def base64_npad_def)
  moreover have "Base64_Encode [0, 0, 0] \<noteq> ''=A=A''" "Base64_Encode [0] \<noteq> ''====''"
    by (simp_all add: base64_tbl_def)
  moreover have "bs = cs" if "Base64_Decode p = Inr cs" "Base64_Encode bs = p" for bs cs p
    using that(1) unfolding that(2) [symmetric] base64.dec_enc by (rule sum.inject(2) [THEN iffD1])
  ultimately show ?thesis by blast
qed

text \<open>
  \<^verbatim>\<open>Base16\<close> decodes what it encodes. A string is rejected because of its odd
  length or because of a character that is not a hexadecimal digit, in this order, and an accepted
  string is the encoding of the result up to the case of its letters.\<close>

lemma base16_spec:
  "Base16_Decode (Base16_Encode bs) = Inr bs \<and>
   (case Base16_Decode p of
      Inr cs \<Rightarrow> Base16_Encode cs = map base16_upper p
    | Inl Base16OddSize \<Rightarrow> odd (length p)
    | Inl Base16IllegalChars \<Rightarrow> even (length p) \<and> \<not> set p \<subseteq> {c. uchar c \<in> {48..57} \<union> {65..70} \<union> {97..102}}
    | Inl Base64Failed \<Rightarrow> False)"
proof -
  have D: "Base16_Decode p = (if odd (length p) then Inl Base16OddSize else base16_pairs p)"
    by (simp add: Base16_Decode_def even_iff_mod_2_eq_zero)
  show ?thesis
  proof (cases "even (length p)")
    case True
    then have "length p mod 2 = 0" by simp
    from base16_pairs_canonical [OF this] True show ?thesis
      by (auto simp: D Base16_Decode_Encode base16_char_iff split: sum.splits)
  qed (simp add: D Base16_Decode_Encode)
qed

end
