(* ===== verification/Message_Digest.thy ===== *)
theory Message_Digest
  imports Byte_Words
begin

text \<open>
  The \<^verbatim>\<open>MD5\<close> class of \<^verbatim>\<open>encrypt.h\<close>: the context with its bit counter, the
  block buffer, the update and final operations, and the equivalence of the buffered
  routine with hashing the padded message block by block.
\<close>

unbundle bit_operations_syntax

section \<open>The compression function\<close>

definition md5_F1 :: "u32 \<Rightarrow> u32 \<Rightarrow> u32 \<Rightarrow> u32" where
  "md5_F1 x y z = z XOR (x AND (y XOR z))"

definition md5_F2 :: "u32 \<Rightarrow> u32 \<Rightarrow> u32 \<Rightarrow> u32" where
  "md5_F2 x y z = md5_F1 z x y"

definition md5_F3 :: "u32 \<Rightarrow> u32 \<Rightarrow> u32 \<Rightarrow> u32" where
  "md5_F3 x y z = x XOR y XOR z"

definition md5_F4 :: "u32 \<Rightarrow> u32 \<Rightarrow> u32 \<Rightarrow> u32" where
  "md5_F4 x y z = y XOR (x OR NOT z)"

type_synonym md5_regs = "u32 \<times> u32 \<times> u32 \<times> u32"

text \<open>The macro updates its first register. The calls of a round name the registers in the order
  \<open>abcd\<close>, \<open>dabc\<close>, \<open>cdab\<close>, \<open>bcda\<close>, so the model turns the tuple by one place at each step.\<close>

definition MD5STEP :: "(u32 \<Rightarrow> u32 \<Rightarrow> u32 \<Rightarrow> u32) \<Rightarrow> u32 \<Rightarrow> nat \<Rightarrow> md5_regs \<Rightarrow> md5_regs" where
  "MD5STEP f data s r =
     (case r of (w, x, y, z) \<Rightarrow>
       let w = w + (f x y z + data);
           w = push_bit s w OR drop_bit (32 - s) w;
           w = w + x
       in (z, w, x, y))"

definition md5_steps1 :: "(nat \<times> u32 \<times> nat) list" where
  "md5_steps1 = [
     (0, 0xd76aa478, 7), (1, 0xe8c7b756, 12), (2, 0x242070db, 17), (3, 0xc1bdceee, 22),
     (4, 0xf57c0faf, 7), (5, 0x4787c62a, 12), (6, 0xa8304613, 17), (7, 0xfd469501, 22),
     (8, 0x698098d8, 7), (9, 0x8b44f7af, 12), (10, 0xffff5bb1, 17), (11, 0x895cd7be, 22),
     (12, 0x6b901122, 7), (13, 0xfd987193, 12), (14, 0xa679438e, 17), (15, 0x49b40821, 22)]"

definition md5_steps2 :: "(nat \<times> u32 \<times> nat) list" where
  "md5_steps2 = [
     (1, 0xf61e2562, 5), (6, 0xc040b340, 9), (11, 0x265e5a51, 14), (0, 0xe9b6c7aa, 20),
     (5, 0xd62f105d, 5), (10, 0x02441453, 9), (15, 0xd8a1e681, 14), (4, 0xe7d3fbc8, 20),
     (9, 0x21e1cde6, 5), (14, 0xc33707d6, 9), (3, 0xf4d50d87, 14), (8, 0x455a14ed, 20),
     (13, 0xa9e3e905, 5), (2, 0xfcefa3f8, 9), (7, 0x676f02d9, 14), (12, 0x8d2a4c8a, 20)]"

definition md5_steps3 :: "(nat \<times> u32 \<times> nat) list" where
  "md5_steps3 = [
     (5, 0xfffa3942, 4), (8, 0x8771f681, 11), (11, 0x6d9d6122, 16), (14, 0xfde5380c, 23),
     (1, 0xa4beea44, 4), (4, 0x4bdecfa9, 11), (7, 0xf6bb4b60, 16), (10, 0xbebfbc70, 23),
     (13, 0x289b7ec6, 4), (0, 0xeaa127fa, 11), (3, 0xd4ef3085, 16), (6, 0x04881d05, 23),
     (9, 0xd9d4d039, 4), (12, 0xe6db99e5, 11), (15, 0x1fa27cf8, 16), (2, 0xc4ac5665, 23)]"

definition md5_steps4 :: "(nat \<times> u32 \<times> nat) list" where
  "md5_steps4 = [
     (0, 0xf4292244, 6), (7, 0x432aff97, 10), (14, 0xab9423a7, 15), (5, 0xfc93a039, 21),
     (12, 0x655b59c3, 6), (3, 0x8f0ccc92, 10), (10, 0xffeff47d, 15), (1, 0x85845dd1, 21),
     (8, 0x6fa87e4f, 6), (15, 0xfe2ce6e0, 10), (6, 0xa3014314, 15), (13, 0x4e0811a1, 21),
     (4, 0xf7537e82, 6), (11, 0xbd3af235, 10), (2, 0x2ad7d2bb, 15), (9, 0xeb86d391, 21)]"

definition md5_round :: "(u32 \<Rightarrow> u32 \<Rightarrow> u32 \<Rightarrow> u32) \<Rightarrow> (nat \<times> u32 \<times> nat) list \<Rightarrow> u32 list \<Rightarrow> md5_regs \<Rightarrow> md5_regs" where
  "md5_round f steps x r = fold (\<lambda>(i, k, s). MD5STEP f (x ! i + k) s) steps r"

definition MD5Transform :: "md5_regs \<Rightarrow> byte list \<Rightarrow> md5_regs" where
  "MD5Transform h block =
     (let x = map (\<lambda>i. load32 (drop (4 * i) block)) [0..<16];
          r = md5_round md5_F4 md5_steps4 x (md5_round md5_F3 md5_steps3 x
                (md5_round md5_F2 md5_steps2 x (md5_round md5_F1 md5_steps1 x h)))
      in case h of (a0, b0, c0, d0) \<Rightarrow> case r of (a, b, c, d) \<Rightarrow>
           (a0 + a, b0 + b, c0 + c, d0 + d))"

section \<open>The context\<close>

record md5_context =
  hash :: md5_regs
  bits0 :: u32
  bits1 :: u32
  inbuf :: "byte list"

definition MD5Init :: "byte list \<Rightarrow> md5_context" where
  "MD5Init garbage =
     \<lparr>hash = (0x67452301, 0xefcdab89, 0x98badcfe, 0x10325476), bits0 = 0, bits1 = 0, inbuf = garbage\<rparr>"

text \<open>\<^verbatim>\<open>memcpy(in + t, buf, len)\<close>.\<close>

definition put :: "nat \<Rightarrow> byte list \<Rightarrow> byte list \<Rightarrow> byte list" where
  "put t buf inb = take t inb @ buf @ drop (t + length buf) inb"

definition transform :: "md5_context \<Rightarrow> md5_context" where
  "transform ctx = ctx\<lparr>hash := MD5Transform (hash ctx) (inbuf ctx)\<rparr>"

function md5_blocks :: "byte list \<Rightarrow> md5_context \<Rightarrow> md5_context" where
  "md5_blocks buf ctx =
     (if 64 \<le> length buf
      then md5_blocks (drop 64 buf) (transform (ctx\<lparr>inbuf := put 0 (take 64 buf) (inbuf ctx)\<rparr>))
      else ctx\<lparr>inbuf := put 0 buf (inbuf ctx)\<rparr>)"
  by pat_completeness auto

termination
  by (relation "measure (length \<circ> fst)") auto

declare md5_blocks.simps [simp del]

definition count_bits :: "nat \<Rightarrow> md5_context \<Rightarrow> md5_context" where
  "count_bits n ctx =
     (let len = word_of_nat n :: u32; t = bits0 ctx; t' = t + push_bit 3 len
      in ctx\<lparr>bits0 := t', bits1 := bits1 ctx + (if t' < t then 1 else 0) + drop_bit 29 len\<rparr>)"

definition buffered :: "md5_context \<Rightarrow> nat" where
  "buffered ctx = unat (drop_bit 3 (bits0 ctx) AND 0x3f)"

definition MD5Update :: "byte list \<Rightarrow> md5_context \<Rightarrow> md5_context" where
  "MD5Update buf ctx =
     (let t = buffered ctx; ctx = count_bits (length buf) ctx
      in if t \<noteq> 0
         then let r = 64 - t in
           if length buf < r then ctx\<lparr>inbuf := put t buf (inbuf ctx)\<rparr>
           else md5_blocks (drop r buf)
                  (transform (ctx\<lparr>inbuf := put t (take r buf) (inbuf ctx)\<rparr>))
         else md5_blocks buf ctx)"

definition MD5Final :: "md5_context \<Rightarrow> byte list \<times> md5_context" where
  "MD5Final ctx =
     (let count = buffered ctx;
          ctx = ctx\<lparr>inbuf := put count [0x80] (inbuf ctx)\<rparr>;
          p = count + 1;
          left = 64 - 1 - count;
          ctx = (if left < 8
                 then let ctx = transform (ctx\<lparr>inbuf := put p (replicate left 0) (inbuf ctx)\<rparr>)
                      in ctx\<lparr>inbuf := put 0 (replicate 56 0) (inbuf ctx)\<rparr>
                 else ctx\<lparr>inbuf := put p (replicate (left - 8) 0) (inbuf ctx)\<rparr>);
          ctx = ctx\<lparr>inbuf := put 56 (store32 (bits0 ctx) @ store32 (bits1 ctx)) (inbuf ctx)\<rparr>;
          ctx = transform ctx
      in case hash ctx of (a, b, c, d) \<Rightarrow>
           (store32 a @ store32 b @ store32 c @ store32 d,
            \<lparr>hash = (0, 0, 0, 0), bits0 = 0, bits1 = 0, inbuf = replicate 64 0\<rparr>))"

text \<open>The public operations. A \<^verbatim>\<open>size_t\<close> length is cut to \<^verbatim>\<open>unsigned\<close>; \<open>garbage\<close> is
  what an uninitialised block buffer holds.\<close>

definition cut32 :: "byte list \<Rightarrow> byte list" where
  "cut32 s = take (unat (word_of_nat (length s) :: u32)) s"

definition MD5_new :: "byte list \<Rightarrow> byte list \<Rightarrow> md5_context" where
  "MD5_new garbage salt =
     (let ctx = MD5Init garbage in if salt \<noteq> [] then MD5Update (cut32 salt) ctx else ctx)"

definition MD5_Update :: "byte list \<Rightarrow> md5_context \<Rightarrow> md5_context" where
  "MD5_Update s ctx = MD5Update (cut32 s) ctx"

definition MD5_GetDigest :: "md5_context \<Rightarrow> byte list \<times> md5_context" where
  "MD5_GetDigest ctx = MD5Final ctx"

definition MD5_Encrypt :: "byte list \<Rightarrow> byte list \<Rightarrow> byte list \<Rightarrow> byte list" where
  "MD5_Encrypt garbage str salt =
     (let ctx = MD5Update (cut32 str) (MD5Init garbage);
          ctx = (if salt \<noteq> [] then MD5Update (cut32 salt) ctx else ctx)
      in fst (MD5Final ctx))"

section \<open>The reference: one byte at a time\<close>

text \<open>The bytes of the message are written one after another into the block, which is
  compressed when its last byte has been written. The triple is the hash, the block and the next position.\<close>

definition absorb :: "byte \<Rightarrow> md5_regs \<times> byte list \<times> nat \<Rightarrow> md5_regs \<times> byte list \<times> nat" where
  "absorb b st =
     (case st of (h, blk, pos) \<Rightarrow>
       let blk = blk[pos := b] in
       if pos = 63 then (MD5Transform h blk, blk, 0) else (h, blk, Suc pos))"

definition core :: "md5_context \<Rightarrow> md5_regs \<times> byte list \<times> nat" where
  "core ctx = (hash ctx, inbuf ctx, buffered ctx)"

text \<open>The standard: pad the message to whole blocks and compress them from left to right.\<close>

fun hash_blocks :: "md5_regs \<Rightarrow> byte list list \<Rightarrow> md5_regs" where
  "hash_blocks h [] = h"
| "hash_blocks h (b # bs) = hash_blocks (MD5Transform h b) bs"

definition md5_pad :: "byte list \<Rightarrow> byte list" where
  "md5_pad m =
     m @ [0x80] @ replicate ((119 - length m mod 64) mod 64) 0 @ le_bytes 8 (8 * int (length m))"

definition chunks64 :: "byte list \<Rightarrow> byte list list" where
  "chunks64 m = map (\<lambda>i. take 64 (drop (64 * i) m)) [0..<length m div 64]"

definition md5_reference :: "byte list \<Rightarrow> byte list" where
  "md5_reference m =
     (case hash_blocks (hash (MD5Init [])) (chunks64 (md5_pad m)) of
        (a, b, c, d) \<Rightarrow> store32 a @ store32 b @ store32 c @ store32 d)"

section \<open>The bit counter\<close>

definition bits_val :: "md5_context \<Rightarrow> int" where
  "bits_val ctx = uint (bits0 ctx) + 2 ^ 32 * uint (bits1 ctx)"

lemma uint_range32: "0 \<le> uint (x :: u32)" "uint x < 2 ^ 32"
  using uint_lt2p [of x] by simp_all

lemma bits_val_inject:
  assumes "bits_val c = bits_val d"
  shows "bits0 c = bits0 d \<and> bits1 c = bits1 d"
proof -
  have "uint (bits0 c) = bits_val c mod 2 ^ 32" "uint (bits0 d) = bits_val d mod 2 ^ 32"
    using uint_range32 [of "bits0 c"] uint_range32 [of "bits0 d"] by (simp_all add: bits_val_def)
  moreover have "uint (bits1 c) = bits_val c div 2 ^ 32" "uint (bits1 d) = bits_val d div 2 ^ 32"
    using uint_range32 [of "bits0 c"] uint_range32 [of "bits0 d"] by (simp_all add: bits_val_def)
  ultimately show ?thesis using assms by (simp add: word_uint_eq_iff)
qed

lemma count_bits_fields [simp]:
  "hash (count_bits n ctx) = hash ctx" "inbuf (count_bits n ctx) = inbuf ctx"
  by (simp_all add: count_bits_def Let_def)

lemma split64:
  fixes w z :: int
  assumes "0 \<le> w" "w < 2 ^ 32"
  shows "(w + 2 ^ 32 * z) mod 2 ^ 64 = w + 2 ^ 32 * (z mod 2 ^ 32)"
proof -
  have "(w + 2 ^ 32 * z) div 2 ^ 32 = z" "(w + 2 ^ 32 * z) mod 2 ^ 32 = w"
    using assms by simp_all
  moreover have "(2::int) ^ 64 = 2 ^ 32 * 2 ^ 32" by simp
  ultimately show ?thesis
    using zmod_zmult2_eq [of "2 ^ 32" "w + 2 ^ 32 * z" "2 ^ 32"] by (simp only:) simp
qed

lemma count_bits_val:
  assumes "n < 2 ^ 32"
  shows "bits_val (count_bits n ctx) = (bits_val ctx + 8 * int n) mod 2 ^ 64"
proof -
  define x y where "x = uint (bits0 ctx)" and "y = uint (bits1 ctx)"
  define q r where "q = int n div 2 ^ 29" and "r = 8 * (int n mod 2 ^ 29)"
  define c :: int where "c = (if x + r < 2 ^ 32 then 0 else 1)"
  have n: "8 * int n = r + 2 ^ 32 * q"
  proof -
    have "8 * int n = 8 * (int n mod 536870912) + 4294967296 * (int n div 536870912)"
      using mult_div_mod_eq [of 536870912 "int n"] by linarith
    then show ?thesis by (simp add: q_def r_def)
  qed
  have r: "0 \<le> r" "r < 2 ^ 32" by (auto simp: r_def)
  have x: "0 \<le> x" "x < 2 ^ 32" using uint_range32 by (auto simp: x_def)
  have len: "uint (word_of_nat n :: u32) = int n"
    using assms by (simp add: unsigned_of_nat take_bit_nat_eq_self)
  have r': "uint (push_bit 3 (word_of_nat n :: u32)) = r"
    unfolding push_bit_eq_mult uint_word_ariths
    using mod_mult_mult2 [of "int n" 8 536870912] by (simp add: len r_def mult.commute [of 8])
  have q': "uint (drop_bit 29 (word_of_nat n :: u32)) = q"
    by (simp add: q_def drop_bit_eq_div uint_div len)
  have sum: "(x + r) mod 2 ^ 32 = x + r - 2 ^ 32 * c"
  proof (cases "x + r < 2 ^ 32")
    case False
    have "(x + r) mod 2 ^ 32 = (x + r - 2 ^ 32) mod 2 ^ 32" by (simp only: minus_mod_self2)
    also have "\<dots> = x + r - 2 ^ 32" using False x r by (intro mod_pos_pos_trivial) auto
    finally show ?thesis using False by (simp add: c_def)
  qed (use x r in \<open>simp add: c_def\<close>)
  have t': "uint (bits0 ctx + push_bit 3 (word_of_nat n)) = x + r - 2 ^ 32 * c"
    unfolding uint_word_ariths r' x_def [symmetric] using sum by simp
  have carry: "bits0 ctx + push_bit 3 (word_of_nat n) < bits0 ctx \<longleftrightarrow> c = 1"
    unfolding word_less_def t' x_def [symmetric] using x r by (auto simp: c_def)
  have "uint (bits1 (count_bits n ctx)) = (y + c + q) mod 2 ^ 32"
  proof (cases "c = 1")
    case True
    then show ?thesis
      by (simp add: count_bits_def Let_def carry uint_word_ariths q' y_def mod_simps)
  next
    case False
    then have "c = 0" by (auto simp: c_def split: if_splits)
    with False show ?thesis
      by (simp add: count_bits_def Let_def carry uint_word_ariths q' y_def mod_simps)
  qed
  moreover have "uint (bits0 (count_bits n ctx)) = x + r - 2 ^ 32 * c"
    using t' by (simp add: count_bits_def Let_def)
  ultimately have "bits_val (count_bits n ctx) = x + r - 2 ^ 32 * c + 2 ^ 32 * ((y + c + q) mod 2 ^ 32)"
    by (simp add: bits_val_def)
  also have "\<dots> = (x + r - 2 ^ 32 * c + 2 ^ 32 * (y + c + q)) mod 2 ^ 64"
    using x r by (intro split64 [symmetric]) (auto simp: c_def)
  also have "x + r - 2 ^ 32 * c + 2 ^ 32 * (y + c + q) = bits_val ctx + 8 * int n"
    unfolding bits_val_def x_def [symmetric] y_def [symmetric] using n by (simp add: algebra_simps)
  finally show ?thesis .
qed

lemma buffered_val: "int (buffered ctx) = bits_val ctx div 8 mod 64"
proof -
  have "drop_bit 3 (bits0 ctx) AND 0x3f = take_bit 6 (drop_bit 3 (bits0 ctx))"
    by (simp add: take_bit_eq_mask mask_eq_exp_minus_1)
  then have "int (buffered ctx) = uint (bits0 ctx) div 8 mod 64"
    by (simp add: buffered_def unsigned_take_bit_eq unsigned_drop_bit_eq take_bit_eq_mod
        drop_bit_eq_div of_nat_mod of_nat_div uint_div uint_mod)
  also have "\<dots> = bits_val ctx div 8 mod 64"
  proof -
    have "(x + 4294967296 * y) div 8 mod 64 = x div 8 mod 64" for x y :: int
      using div_mult_self2 [of 8 x "536870912 * y"] mod_mult_self2 [of "x div 8" 64 "8388608 * y"]
      by (simp add: add.commute)
    then show ?thesis by (simp add: bits_val_def)
  qed
  finally show ?thesis .
qed

lemma buffered_less [simp]: "buffered ctx < 64"
proof -
  have "int (buffered ctx) < 64" by (simp add: buffered_val)
  then show ?thesis by simp
qed

lemma buffered_count:
  assumes "n < 2 ^ 32"
  shows "buffered (count_bits n ctx) = (buffered ctx + n) mod 64"
proof -
  have "take_bit 6 (drop_bit 3 (take_bit 64 x)) = take_bit 6 (drop_bit 3 x)" for x :: int
    by (simp add: drop_bit_take_bit)
  then have "(x mod 2 ^ 64) div 8 mod 64 = x div 8 mod 64" for x :: int
    by (simp add: take_bit_eq_mod drop_bit_eq_div)
  then have "((v + 8 * k) mod 2 ^ 64) div 8 mod 64 = (v div 8 mod 64 + k) mod (64::int)" for v k
    by (simp add: mod_simps add.commute)
  then have "int (buffered (count_bits n ctx)) = int ((buffered ctx + n) mod 64)"
    by (simp only: buffered_val count_bits_val [OF assms] of_nat_mod of_nat_add) simp
  then show ?thesis by simp
qed

lemma buffered_cong [simp]:
  "buffered (ctx\<lparr>inbuf := i\<rparr>) = buffered ctx" "buffered (transform ctx) = buffered ctx"
  "bits_val (ctx\<lparr>inbuf := i\<rparr>) = bits_val ctx" "bits_val (transform ctx) = bits_val ctx"
  by (simp_all add: buffered_def bits_val_def transform_def)

section \<open>Buffered absorption\<close>

lemma length_put [simp]: "t + length bs \<le> length blk \<Longrightarrow> length (put t bs blk) = length blk"
  by (simp add: put_def)

lemma put_put:
  "t + length a + length b \<le> length blk \<Longrightarrow> put (t + length a) b (put t a blk) = put t (a @ b) blk"
  by (simp add: put_def ac_simps)

lemma put_Cons: "t < length blk \<Longrightarrow> put (Suc t) bs (blk[t := b]) = put t (b # bs) blk"
  by (simp add: put_def upd_conv_take_nth_drop ac_simps)

lemma put_Nil [simp]: "put t [] blk = blk"
  by (simp add: put_def)

lemma put_all: "length bs = length blk \<Longrightarrow> put 0 bs blk = bs"
  by (simp add: put_def)

lemma absorb_simp:
  "absorb b (h, blk, pos) =
    (if pos = 63 then (MD5Transform h (blk[pos := b]), blk[pos := b], 0)
     else (h, blk[pos := b], Suc pos))"
  by (simp add: absorb_def Let_def)

lemma absorb_part:
  "pos + length bs < 64 \<Longrightarrow> length blk = 64 \<Longrightarrow>
    fold absorb bs (h, blk, pos) = (h, put pos bs blk, pos + length bs)"
  by (induction bs arbitrary: blk pos) (simp_all add: absorb_simp put_Cons)

lemma absorb_fill:
  "pos + length bs = 64 \<Longrightarrow> bs \<noteq> [] \<Longrightarrow> length blk = 64 \<Longrightarrow>
    fold absorb bs (h, blk, pos) = (MD5Transform h (put pos bs blk), put pos bs blk, 0)"
proof (induction bs arbitrary: blk pos)
  case (Cons b bs)
  show ?case
  proof (cases "bs = []")
    case True
    with Cons.prems show ?thesis by (simp add: absorb_simp flip: put_Cons)
  next
    case False
    then have "pos \<noteq> 63" using Cons.prems(1) by (cases bs) auto
    with False Cons show ?thesis by (simp add: absorb_simp put_Cons)
  qed
qed simp

definition image :: "md5_context \<Rightarrow> nat \<Rightarrow> md5_regs \<times> byte list \<times> nat" where
  "image ctx pos = (hash ctx, inbuf ctx, pos)"

lemma md5_blocks_bits [simp]: "bits_val (md5_blocks buf ctx) = bits_val ctx"
  "buffered (md5_blocks buf ctx) = buffered ctx"
proof -
  show "bits_val (md5_blocks buf ctx) = bits_val ctx"
  proof (induction buf ctx rule: md5_blocks.induct)
    case (1 buf ctx)
    then show ?case by (subst md5_blocks.simps) (cases "64 \<le> length buf", simp_all)
  qed
  then show "buffered (md5_blocks buf ctx) = buffered ctx"
    using buffered_val by (metis of_nat_eq_iff)
qed

lemma md5_blocks_absorb:
  "length (inbuf ctx) = 64 \<Longrightarrow>
    image (md5_blocks buf ctx) (length buf mod 64) = fold absorb buf (hash ctx, inbuf ctx, 0) \<and>
    length (inbuf (md5_blocks buf ctx)) = 64"
proof (induction buf ctx rule: md5_blocks.induct)
  case (1 buf ctx)
  show ?case
  proof (cases "64 \<le> length buf")
    case True
    let ?c = "transform (ctx\<lparr>inbuf := put 0 (take 64 buf) (inbuf ctx)\<rparr>)"
    have step: "md5_blocks buf ctx = md5_blocks (drop 64 buf) ?c"
      using True by (subst md5_blocks.simps) simp
    have "fold absorb (take 64 buf) (hash ctx, inbuf ctx, 0) = (hash ?c, inbuf ?c, 0)"
      using True 1(2) by (subst absorb_fill) (auto simp: transform_def)
    then have "fold absorb buf (hash ctx, inbuf ctx, 0) = fold absorb (drop 64 buf) (hash ?c, inbuf ?c, 0)"
      by (metis append_take_drop_id comp_apply fold_append)
    moreover have "length (drop 64 buf) mod 64 = length buf mod 64"
      using le_mod_geq [of 64 "length buf"] True by simp
    moreover have "length (inbuf ?c) = 64" using True 1(2) by (simp add: transform_def)
    ultimately show ?thesis using 1(1) [OF True] by (simp add: step)
  next
    case False
    then show ?thesis
      using 1(2) by (subst md5_blocks.simps, subst absorb_part) (simp_all add: image_def md5_blocks.simps)
  qed
qed

lemma MD5Update_bits: "length bs < 2 ^ 32 \<Longrightarrow>
    bits_val (MD5Update bs ctx) = (bits_val ctx + 8 * int (length bs)) mod 2 ^ 64 \<and>
    buffered (MD5Update bs ctx) = (buffered ctx + length bs) mod 64"
  by (simp add: MD5Update_def Let_def count_bits_val buffered_count)

lemma MD5Update_absorb:
  assumes "length bs < 2 ^ 32" "length (inbuf ctx) = 64"
  shows "core (MD5Update bs ctx) = fold absorb bs (core ctx)"
    and "length (inbuf (MD5Update bs ctx)) = 64"
proof -
  let ?c = "count_bits (length bs) ctx"
  have core: "core ctx = (hash ctx, inbuf ctx, buffered ctx)"
    and pos: "buffered (MD5Update bs ctx) = (buffered ctx + length bs) mod 64"
    using MD5Update_bits [OF assms(1)] by (simp_all add: core_def)
  consider "buffered ctx = 0" | "0 < buffered ctx" "buffered ctx + length bs < 64"
    | "0 < buffered ctx" "64 \<le> buffered ctx + length bs" by linarith
  then have "core (MD5Update bs ctx) = fold absorb bs (core ctx) \<and>
      length (inbuf (MD5Update bs ctx)) = 64"
  proof cases
    case 1
    then have "MD5Update bs ctx = md5_blocks bs ?c" by (simp add: MD5Update_def Let_def)
    with 1 md5_blocks_absorb [of ?c bs] assms(2) pos show ?thesis
      by (simp add: core_def image_def)
  next
    case 2
    then have "MD5Update bs ctx = ?c\<lparr>inbuf := put (buffered ctx) bs (inbuf ctx)\<rparr>"
      by (simp add: MD5Update_def Let_def)
    with 2 assms(2) pos show ?thesis by (simp add: core_def absorb_part)
  next
    case 3
    let ?r = "64 - buffered ctx"
    let ?d = "transform (?c\<lparr>inbuf := put (buffered ctx) (take ?r bs) (inbuf ctx)\<rparr>)"
    have upd: "MD5Update bs ctx = md5_blocks (drop ?r bs) ?d"
      using 3 by (simp add: MD5Update_def Let_def)
    have len: "length (take ?r bs) = ?r" using 3 by simp
    have "take ?r bs \<noteq> []" using 3(2) buffered_less [of ctx] by (auto simp del: buffered_less)
    then have "fold absorb (take ?r bs) (core ctx) = (hash ?d, inbuf ?d, 0)"
      unfolding core using 3 len assms(2) buffered_less [of ctx]
      by (subst absorb_fill) (simp_all add: transform_def del: buffered_less)
    then have "fold absorb bs (core ctx) = fold absorb (drop ?r bs) (hash ?d, inbuf ?d, 0)"
      by (metis append_take_drop_id comp_apply fold_append)
    moreover have "length (inbuf ?d) = 64"
      using assms(2) len less_imp_le [OF buffered_less [of ctx]]
      by (simp add: transform_def del: length_take)
    moreover have "length (drop ?r bs) mod 64 = (buffered ctx + length bs) mod 64"
    proof -
      have "length (drop ?r bs) = buffered ctx + length bs - 64"
        using 3 buffered_less [of ctx] unfolding length_drop by linarith
      with 3 show ?thesis using le_mod_geq [of 64 "buffered ctx + length bs"] by simp
    qed
    ultimately show ?thesis
      using md5_blocks_absorb [of ?d "drop ?r bs"] pos by (simp add: upd core_def image_def)
  qed
  then show "core (MD5Update bs ctx) = fold absorb bs (core ctx)"
    "length (inbuf (MD5Update bs ctx)) = 64" by blast+
qed

section \<open>The final block\<close>

lemma store_bits: "store32 (bits0 ctx) @ store32 (bits1 ctx) = le_bytes 8 (bits_val ctx)"
proof -
  have "bits_val ctx div 256 ^ 4 = uint (bits1 ctx)"
    using uint_range32 [of "bits0 ctx"] by (simp add: bits_val_def)
  moreover have "bits_val ctx mod 256 ^ 4 = uint (bits0 ctx)"
    using uint_range32 [of "bits0 ctx"] by (simp add: bits_val_def)
  ultimately show ?thesis
    using le_bytes_add [of 4 4 "bits_val ctx"] le_bytes_mod [of 4 "bits_val ctx"]
    by (simp add: store32_def)
qed

definition digest_of :: "md5_regs \<Rightarrow> byte list" where
  "digest_of r = (case r of (a, b, c, d) \<Rightarrow> store32 a @ store32 b @ store32 c @ store32 d)"

definition md5_tail :: "nat \<Rightarrow> int \<Rightarrow> byte list" where
  "md5_tail pos bits = [0x80] @ replicate ((119 - pos) mod 64) 0 @ le_bytes 8 bits"

lemma mod119: "p < 56 \<Longrightarrow> (119 - p) mod 64 = 55 - p" for p :: nat
proof -
  assume "p < 56"
  then have "119 - p = (55 - p) + 64" by linarith
  then have "(119 - p) mod 64 = ((55 - p) + 64) mod 64" by (rule arg_cong)
  also have "\<dots> = (55 - p) mod 64" by (rule mod_add_self2)
  also have "\<dots> = 55 - p" by (rule mod_less) linarith
  finally show ?thesis .
qed

lemma absorb_tail:
  assumes "pos < 64" "length blk = 64"
  shows "fst (fold absorb (md5_tail pos bits) (h, blk, pos)) =
    (if 63 - pos < 8
     then let blk' = put (pos + 1) (replicate (63 - pos) 0) (put pos [0x80] blk)
          in MD5Transform (MD5Transform h blk') (put 56 (le_bytes 8 bits) (put 0 (replicate 56 0) blk'))
     else MD5Transform h (put 56 (le_bytes 8 bits)
            (put (pos + 1) (replicate (63 - pos - 8) 0) (put pos [0x80] blk))))"
proof (cases "63 - pos < 8")
  case True
  let ?zs = "0x80 # replicate (63 - pos) (0 :: byte)"
  have "(119 - pos) mod 64 = (63 - pos) + 56" using True assms(1) by simp
  then have tail: "md5_tail pos bits = ?zs @ (replicate 56 0 @ le_bytes 8 bits)"
    by (simp only: md5_tail_def replicate_add) simp
  have "fold absorb ?zs (h, blk, pos) = (MD5Transform h (put pos ?zs blk), put pos ?zs blk, 0)"
    using assms by (intro absorb_fill) simp_all
  moreover have "length (put pos ?zs blk) = 64" using assms by simp
  moreover from calculation(2) have "fold absorb (replicate 56 0 @ le_bytes 8 bits)
      (MD5Transform h (put pos ?zs blk), put pos ?zs blk, 0) =
    (MD5Transform (MD5Transform h (put pos ?zs blk))
       (put 0 (replicate 56 0 @ le_bytes 8 bits) (put pos ?zs blk)),
     put 0 (replicate 56 0 @ le_bytes 8 bits) (put pos ?zs blk), 0)"
    by (intro absorb_fill) simp_all
  ultimately have "fst (fold absorb (md5_tail pos bits) (h, blk, pos)) =
    MD5Transform (MD5Transform h (put pos ?zs blk))
      (put 0 (replicate 56 0 @ le_bytes 8 bits) (put pos ?zs blk))"
    unfolding tail fold_append comp_def by (simp only: fst_conv)
  moreover have "put 0 (replicate 56 0 @ le_bytes 8 bits) (put pos ?zs blk) =
    put 56 (le_bytes 8 bits) (put 0 (replicate 56 0) (put pos ?zs blk))"
    using assms put_put [of 0 "replicate 56 0" "le_bytes 8 bits" "put pos ?zs blk"] by simp
  ultimately show ?thesis
    using True assms put_put [of pos "[0x80]" "replicate (63 - pos) 0" blk] by (simp add: Let_def)
next
  case False
  let ?zs = "0x80 # replicate (55 - pos) (0 :: byte)"
  have "(119 - pos) mod 64 = 55 - pos" using False by (intro mod119) linarith
  then have tail: "md5_tail pos bits = ?zs @ le_bytes 8 bits"
    by (simp add: md5_tail_def)
  have "put 56 (le_bytes 8 bits) (put pos ?zs blk) = put pos (?zs @ le_bytes 8 bits) blk"
    using False assms put_put [of pos ?zs "le_bytes 8 bits" blk] by simp
  moreover have "put (pos + 1) (replicate (63 - pos - 8) 0) (put pos [0x80] blk) = put pos ?zs blk"
    using False assms put_put [of pos "[0x80]" "replicate (55 - pos) 0" blk] by simp
  moreover have "fold absorb (md5_tail pos bits) (h, blk, pos) =
    (MD5Transform h (put pos (md5_tail pos bits) blk), put pos (md5_tail pos bits) blk, 0)"
    using False assms by (intro absorb_fill) (simp_all add: tail)
  ultimately show ?thesis using False by (simp add: tail)
qed

lemma MD5Final_absorb:
  assumes "length (inbuf ctx) = 64"
  shows "fst (MD5Final ctx) =
    digest_of (fst (fold absorb (md5_tail (buffered ctx) (bits_val ctx)) (core ctx)))"
  unfolding core_def absorb_tail [OF buffered_less assms]
  by (simp add: MD5Final_def Let_def digest_of_def split_beta transform_def store_bits [symmetric])

section \<open>Whole messages\<close>

lemma chunks64_step: "64 \<le> length m \<Longrightarrow> chunks64 m = take 64 m # chunks64 (drop 64 m)"
proof -
  assume "64 \<le> length m"
  then have "length m div 64 = Suc (length (drop 64 m) div 64)" by (simp add: le_div_geq)
  then show ?thesis
    by (simp add: chunks64_def upt_conv_Cons map_Suc_upt [symmetric] comp_def add.commute del: upt_Suc)
qed

lemma absorb_chunks:
  "length m = 64 * k \<Longrightarrow> length blk = 64 \<Longrightarrow>
    fst (fold absorb m (h, blk, 0)) = hash_blocks h (chunks64 m)"
proof (induction k arbitrary: m h blk)
  case 0
  then show ?case by (simp add: chunks64_def)
next
  case (Suc k)
  have "fold absorb (take 64 m) (h, blk, 0) = (MD5Transform h (take 64 m), take 64 m, 0)"
    using Suc.prems by (subst absorb_fill) (auto simp: put_all)
  then have "fold absorb m (h, blk, 0) = fold absorb (drop 64 m) (MD5Transform h (take 64 m), take 64 m, 0)"
    by (metis append_take_drop_id comp_apply fold_append)
  then show ?case using Suc by (simp add: chunks64_step)
qed

lemma length_md5_pad: "64 dvd length (md5_pad m)"
proof -
  have "length (md5_pad m) = length m + (119 - length m mod 64) mod 64 + 9" by (simp add: md5_pad_def)
  moreover have "64 dvd n + (119 - n mod 64) mod 64 + 9" for n :: nat
  proof -
    define q r where "q = n div 64" and "r = n mod 64"
    have n: "n = 64 * q + r" and r: "r < 64" by (simp_all add: q_def r_def)
    have "64 dvd n + (119 - r) mod 64 + 9"
    proof (cases "r < 56")
      case True
      with n have "n + (55 - r) + 9 = 64 * (q + 1)" by presburger
      then show ?thesis unfolding mod119 [OF True] by (simp only: dvd_triv_left)
    next
      case False
      with n r have "n + (119 - r) + 9 = 64 * (q + 2)" by presburger
      moreover have "(119 - r) mod 64 = 119 - r" using False by (intro mod_less) linarith
      ultimately show ?thesis by (simp only: dvd_triv_left)
    qed
    then show ?thesis by (simp only: r_def)
  qed
  ultimately show ?thesis by simp
qed

lemma md5_pad_tail: "md5_pad m = m @ md5_tail (length m mod 64) (8 * int (length m))"
  by (simp add: md5_pad_def md5_tail_def)

lemma cut32_short: "length (cut32 s) < 2 ^ 32" "length s < 2 ^ 32 \<Longrightarrow> cut32 s = s"
proof -
  show "length (cut32 s) < 2 ^ 32"
    using unsigned_less [where 'a = nat, of "word_of_nat (length s) :: u32"]
    by (simp add: cut32_def min_less_iff_disj)
  assume "length s < 2 ^ 32"
  then show "cut32 s = s" by (simp add: cut32_def unsigned_of_nat take_bit_nat_eq_self)
qed

text \<open>The state after a message, from a fresh context.\<close>

definition fed :: "byte list \<Rightarrow> byte list \<Rightarrow> md5_context \<Rightarrow> bool" where
  "fed garbage m ctx \<longleftrightarrow>
     core ctx = fold absorb m (hash (MD5Init []), garbage, 0) \<and> length (inbuf ctx) = 64 \<and>
     bits_val ctx = 8 * int (length m) mod 2 ^ 64"

lemma fed_Init: "length garbage = 64 \<Longrightarrow> fed garbage [] (MD5Init garbage)"
  by (simp add: fed_def core_def MD5Init_def bits_val_def buffered_def)

lemma fed_Update:
  "fed garbage m ctx \<Longrightarrow> length bs < 2 ^ 32 \<Longrightarrow> fed garbage (m @ bs) (MD5Update bs ctx)"
  using MD5Update_absorb [of bs ctx] MD5Update_bits [of bs ctx]
  by (simp add: fed_def distrib_left mod_simps)

lemma fed_buffered: "fed garbage m ctx \<Longrightarrow> buffered ctx = length m mod 64"
proof -
  assume "fed garbage m ctx"
  moreover have "take_bit 6 (drop_bit 3 (take_bit 64 x)) = take_bit 6 (drop_bit 3 x)" for x :: int
    by (simp add: drop_bit_take_bit)
  then have "(x mod 2 ^ 64) div 8 mod 64 = x div 8 mod 64" for x :: int
    by (simp add: take_bit_eq_mod drop_bit_eq_div)
  ultimately have "int (buffered ctx) = int (length m mod 64)"
    by (simp only: buffered_val fed_def) (simp add: of_nat_mod)
  then show ?thesis by simp
qed

lemma fed_Final:
  assumes "fed garbage m ctx" "length garbage = 64"
  shows "fst (MD5Final ctx) = md5_reference m"
proof -
  have "le_bytes 8 (bits_val ctx) = le_bytes 8 (8 * int (length m))"
    using assms(1) le_bytes_mod [of 8 "8 * int (length m)"] by (simp add: fed_def)
  then have "md5_tail (buffered ctx) (bits_val ctx) = md5_tail (length m mod 64) (8 * int (length m))"
    by (simp add: md5_tail_def fed_buffered [OF assms(1)])
  then have "fst (MD5Final ctx) =
    digest_of (fst (fold absorb (md5_pad m) (hash (MD5Init []), garbage, 0)))"
    using assms by (simp add: MD5Final_absorb fed_def md5_pad_tail)
  also have "\<dots> = digest_of (hash_blocks (hash (MD5Init [])) (chunks64 (md5_pad m)))"
    using length_md5_pad [of m] assms(2) by (auto simp: absorb_chunks elim!: dvdE)
  finally show ?thesis by (simp add: md5_reference_def digest_of_def)
qed

section \<open>Properties\<close>

text \<open>
  C22. The buffered one-shot routine computes the digest of the padded message, block by
  block: whatever the uninitialised block buffer holds, \<^verbatim>\<open>Encrypt(str, salt)\<close> is the reference digest
  of \<^verbatim>\<open>str\<close> followed by \<^verbatim>\<open>salt\<close>, each cut to the width of \<^verbatim>\<open>unsigned\<close>.\<close>

theorem md5_digest:
  assumes "length garbage = 64"
  shows "MD5_Encrypt garbage str salt = md5_reference (cut32 str @ cut32 salt)"
proof -
  have "fed garbage (cut32 str) (MD5Update (cut32 str) (MD5Init garbage))"
    using fed_Update [OF fed_Init [OF assms] cut32_short(1)] by simp
  moreover from fed_Update [OF this cut32_short(1)]
  have "fed garbage (cut32 str @ cut32 salt)
    (MD5Update (cut32 salt) (MD5Update (cut32 str) (MD5Init garbage)))" .
  ultimately show ?thesis
    using assms by (auto simp: MD5_Encrypt_def Let_def fed_Final) (simp add: cut32_def fed_Final)
qed

theorem md5_digest_witness:
  "MD5_Encrypt (replicate 64 7) [1] [2] = md5_reference (cut32 [1] @ cut32 [2])"
  by (rule md5_digest) simp

text \<open>
  The context may be fed in pieces: two updates have the effect of one update with
  the concatenation, in every field of the context, as long as the whole is shorter than
  \<open>2\<^sup>3\<^sup>2\<close> bytes.\<close>

lemma md5_streaming:
  assumes "length a + length b < 2 ^ 32" and "length (inbuf ctx) = 64"
  shows "MD5_Update b (MD5_Update a ctx) = MD5_Update (a @ b) ctx"
proof -
  have len: "length a < 2 ^ 32" "length b < 2 ^ 32" "length (a @ b) < 2 ^ 32"
    using assms(1) by simp_all
  let ?l = "MD5Update b (MD5Update a ctx)" and ?r = "MD5Update (a @ b) ctx"
  have "core ?l = core ?r"
    using MD5Update_absorb [OF len(1) assms(2)] MD5Update_absorb [OF len(3) assms(2)]
      MD5Update_absorb(1) [OF len(2), of "MD5Update a ctx"] by simp
  moreover have "bits_val ?l = bits_val ?r"
    using MD5Update_bits [OF len(1), of ctx] MD5Update_bits [OF len(2), of "MD5Update a ctx"]
      MD5Update_bits [OF len(3), of ctx] by (simp add: distrib_left mod_simps add.assoc)
  ultimately have "?l = ?r"
    using bits_val_inject [of ?l ?r] by (simp add: core_def)
  then show ?thesis using len by (simp add: MD5_Update_def cut32_short)
qed

theorem md5_streaming_witness:
  "MD5_Update [3] (MD5_Update [1, 2] (MD5Init (replicate 64 0))) =
   MD5_Update [1, 2, 3] (MD5Init (replicate 64 0))"
  using md5_streaming [of "[1, 2]" "[3]" "MD5Init (replicate 64 0)"] by (simp add: MD5Init_def)

text \<open>The two digests that the repository's own test checks.\<close>

lemma md5_test_vectors:
  "MD5_Encrypt (replicate 64 0) (map of_char ''hello, world'') [] =
     [0xe4, 0xd7, 0xf1, 0xb4, 0xed, 0x2e, 0x42, 0xd1, 0x58, 0x98, 0xf4, 0xb2, 0x7b, 0x01, 0x9d, 0xa4] \<and>
   MD5_Encrypt (replicate 64 0) (map of_char ''What does MD5 mean?'') [] =
     [0x99, 0xa5, 0xa4, 0x6c, 0xee, 0x44, 0x4f, 0xaf, 0xac, 0x4a, 0x8f, 0x03, 0xc3, 0xaa, 0xb8, 0xd8]"
  by code_simp

end
