(* ===== verification/Stream_Base.thy ===== *)
theory Stream_Base
  imports Prelude
begin

text \<open>
  \<^verbatim>\<open>stream_base.h\<close>: the input stream interface, the in-memory stream and the line
  reader on top of any stream. The locale \<open>byte_source\<close> is the contract of
  \<^verbatim>\<open>InputStreamBase\<close> that the line reader and the text parser rely on;
  \<^verbatim>\<open>InputMemoryStream\<close> is an instance.
\<close>

section \<open>The in-memory stream\<close>

record memory_stream =
  ms_data :: string
  ms_offset :: nat

definition InputMemoryStream :: "string \<Rightarrow> memory_stream" where
  "InputMemoryStream str = \<lparr>ms_data = str, ms_offset = 0\<rparr>"

definition MemRead :: "nat \<Rightarrow> memory_stream \<Rightarrow> string \<times> memory_stream" where
  "MemRead n st =
     (if ms_offset st \<ge> length (ms_data st) then ([], st)
      else let rs = min (length (ms_data st) - ms_offset st) n
           in (take rs (drop (ms_offset st) (ms_data st)), st\<lparr>ms_offset := ms_offset st + rs\<rparr>))"

definition MemOffset :: "memory_stream \<Rightarrow> nat" where
  "MemOffset st = ms_offset st"

definition MemGood :: "memory_stream \<Rightarrow> bool" where
  "MemGood st \<longleftrightarrow> ms_offset st < length (ms_data st)"

lemma MemRead_take:
  "MemRead n s = (take n (drop (ms_offset s) (ms_data s)),
     s\<lparr>ms_offset := ms_offset s + length (take n (drop (ms_offset s) (ms_data s)))\<rparr>)"
proof -
  have "take (min (length xs) n) xs = take n xs" for xs :: string by (simp add: min_def)
  from this [of "drop (ms_offset s) (ms_data s)"] show ?thesis
    by (auto simp: MemRead_def Let_def min.commute)
qed

definition mem_rest :: "memory_stream \<Rightarrow> string" where
  "mem_rest st = drop (ms_offset st) (ms_data st)"

section \<open>The contract of an input stream\<close>

text \<open>Every read takes a prefix of what is left, at most as long as asked for and not empty before
  the end; a stream that is no longer good has nothing left.\<close>

locale byte_source =
  fixes rd :: "nat \<Rightarrow> 's \<Rightarrow> string \<times> 's"
    and good :: "'s \<Rightarrow> bool"
    and rest :: "'s \<Rightarrow> string"
  assumes rd_data: "fst (rd n s) @ rest (snd (rd n s)) = rest s"
    and rd_max: "length (fst (rd n s)) \<le> n"
    and rd_progress: "fst (rd n s) = [] \<Longrightarrow> n = 0 \<or> rest s = []"
    and not_good: "\<not> good s \<Longrightarrow> rest s = []"

interpretation mem: byte_source MemRead MemGood mem_rest
  by unfold_locales
     (auto simp: MemRead_def MemGood_def mem_rest_def Let_def min_def split: if_splits)

section \<open>StreamLineReader\<close>

text \<open>\<^verbatim>\<open>buf_\<close> always has \<^verbatim>\<open>capacity_\<close> bytes; those from \<^verbatim>\<open>end_\<close> on are left from earlier reads.\<close>

record 's line_reader =
  lr_buf :: string
  lr_begin :: nat
  lr_end :: nat
  lr_cap :: nat
  lr_stream :: 's

definition StreamLineReader :: "'s \<Rightarrow> nat \<Rightarrow> 's line_reader" where
  "StreamLineReader s line_size_hint =
     \<lparr>lr_buf = replicate line_size_hint (CHR 0x00), lr_begin = 0, lr_end = 0,
      lr_cap = line_size_hint, lr_stream = s\<rparr>"

text \<open>\<^verbatim>\<open>buf_.find('\n', from)\<close>; the length of the buffer stands for \<^verbatim>\<open>npos\<close>.\<close>

definition find_newline :: "string \<Rightarrow> nat \<Rightarrow> nat" where
  "find_newline buf from = from + length (takeWhile (\<lambda>c. c \<noteq> CHR 0x0A) (drop from buf))"

definition slice :: "string \<Rightarrow> nat \<Rightarrow> nat \<Rightarrow> string" where
  "slice buf b e = take (e - b) (drop b buf)"

definition refill :: "(nat \<Rightarrow> 's \<Rightarrow> string \<times> 's) \<Rightarrow> 's line_reader \<Rightarrow> 's line_reader" where
  "refill rd r =
     (case rd (lr_cap r) (lr_stream r) of
        (data, s) \<Rightarrow> r\<lparr>lr_buf := data @ drop (length data) (lr_buf r), lr_begin := 0,
                      lr_end := length data, lr_stream := s\<rparr>)"

text \<open>The loop of \<^verbatim>\<open>ReadLine\<close>. The flag tells whether it ended at a line break or returned at the
  end of the stream.\<close>

partial_function (option) line_loop ::
  "(nat \<Rightarrow> 's \<Rightarrow> string \<times> 's) \<Rightarrow> string \<Rightarrow> 's line_reader \<Rightarrow> (string \<times> bool \<times> 's line_reader) option" where
  "line_loop rd line r =
     (let empty = lr_begin r \<ge> lr_end r; r = (if empty then refill rd r else r)
      in if empty \<and> lr_end r = 0 then Some (line, False, r)
         else let e = find_newline (lr_buf r) (lr_begin r) in
           if e \<ge> lr_end r
           then line_loop rd (line @ slice (lr_buf r) (lr_begin r) (lr_end r)) (r\<lparr>lr_begin := lr_end r\<rparr>)
           else Some (line @ slice (lr_buf r) (lr_begin r) (e + 1), True, r\<lparr>lr_begin := e + 1\<rparr>))"

text \<open>\<^verbatim>\<open>find_last_not_of("\r\n")\<close> and \<^verbatim>\<open>resize\<close>: nothing is cut when every character is a
  line ending.\<close>

definition is_ending :: "char \<Rightarrow> bool" where
  "is_ending c \<longleftrightarrow> c = CHR 0x0D \<or> c = CHR 0x0A"

definition strip_line :: "string \<Rightarrow> string" where
  "strip_line line =
     (if list_all is_ending line then line else rev (dropWhile is_ending (rev line)))"

definition ReadLine :: "(nat \<Rightarrow> 's \<Rightarrow> string \<times> 's) \<Rightarrow> bool \<Rightarrow> 's line_reader \<Rightarrow> (string \<times> 's line_reader) option" where
  "ReadLine rd strip_endings r =
     (case line_loop rd [] r of
        None \<Rightarrow> None
      | Some (line, line_ends, r) \<Rightarrow>
          Some (if line_ends \<and> strip_endings then strip_line line else line, r))"

partial_function (option) ReadAllLines ::
  "(nat \<Rightarrow> 's \<Rightarrow> string \<times> 's) \<Rightarrow> bool \<Rightarrow> 's line_reader \<Rightarrow> (string list \<times> 's line_reader) option" where
  "ReadAllLines rd strip_endings r =
     (case ReadLine rd strip_endings r of
        None \<Rightarrow> None
      | Some (line, r) \<Rightarrow>
          if line = [] then Some ([], r)
          else Option.bind (ReadAllLines rd strip_endings r) (\<lambda>(ls, r). Some (line # ls, r)))"

section \<open>Lines of a text\<close>

text \<open>The specification: a line ends with its line feed, the last one may have none.\<close>

definition first_line :: "string \<Rightarrow> string" where
  "first_line t = (if CHR 0x0A \<in> set t then takeWhile (\<lambda>c. c \<noteq> CHR 0x0A) t @ [CHR 0x0A] else t)"

definition after_line :: "string \<Rightarrow> string" where
  "after_line t = drop (length (first_line t)) t"

lemma takeWhile_until: "x \<notin> set xs \<Longrightarrow> takeWhile (\<lambda>c. c \<noteq> x) (xs @ x # ys) = xs"
  by (induction xs) auto

lemma newline_split:
  assumes "CHR 0x0A \<in> set t"
  obtains xs where "CHR 0x0A \<notin> set xs" "first_line t = xs @ [CHR 0x0A]" "t = xs @ CHR 0x0A # after_line t"
proof -
  obtain xs ys where t: "t = xs @ CHR 0x0A # ys" "CHR 0x0A \<notin> set xs"
    using split_list_first [OF assms] by blast
  then have "first_line t = xs @ [CHR 0x0A]" by (simp add: first_line_def takeWhile_until)
  with t that show thesis by (simp add: after_line_def)
qed

lemma first_after [simp]: "first_line t @ after_line t = t"
proof (cases "CHR 0x0A \<in> set t")
  case True
  then show ?thesis by (elim newline_split) (metis append.assoc append_Cons append_Nil)
qed (simp add: first_line_def after_line_def)

lemma after_line_Nil [simp]: "after_line [] = []"
  by (simp add: after_line_def)

lemma first_line_Nil [simp]: "first_line t = [] \<longleftrightarrow> t = []"
  by (auto simp: first_line_def)

lemma after_line_shorter [len_bound]: "t \<noteq> [] \<Longrightarrow> length (after_line t) < length t"
  by (simp add: after_line_def)

function lines_of :: "string \<Rightarrow> string list" where
  "lines_of t = (if t = [] then [] else first_line t # lines_of (after_line t))"
  by pat_completeness auto

termination
  by (relation "measure length") (auto intro: len_bound)

declare lines_of.simps [simp del]

lemma lines_of_Nil [simp]: "lines_of [] = []"
  by (simp add: lines_of.simps)

lemma lines_of_step: "t \<noteq> [] \<Longrightarrow> lines_of t = first_line t # lines_of (after_line t)"
  by (subst lines_of.simps) simp

lemma concat_lines_of: "concat (lines_of t) = t"
proof (induction t rule: lines_of.induct)
  case (1 t)
  then show ?case by (cases "t = []") (simp_all add: lines_of_step)
qed

text \<open>What a reader has still to deliver, and the shape of its buffer.\<close>

definition window :: "'s line_reader \<Rightarrow> string" where
  "window r = slice (lr_buf r) (lr_begin r) (lr_end r)"

definition reader_ok :: "'s line_reader \<Rightarrow> bool" where
  "reader_ok r \<longleftrightarrow> lr_end r \<le> length (lr_buf r) \<and> length (lr_buf r) = lr_cap r \<and> 0 < lr_cap r"

definition pending :: "('s \<Rightarrow> string) \<Rightarrow> 's line_reader \<Rightarrow> string" where
  "pending rest r = window r @ rest (lr_stream r)"

lemma window_Nil: "reader_ok r \<Longrightarrow> window r = [] \<longleftrightarrow> lr_begin r \<ge> lr_end r"
  by (auto simp: window_def slice_def reader_ok_def)

lemma takeWhile_newline:
  fixes t :: string
  defines "k \<equiv> length (takeWhile (\<lambda>c. c \<noteq> CHR 0x0A) t)"
  assumes "n \<le> length t"
  shows "k < n \<longleftrightarrow> CHR 0x0A \<in> set (take n t)"
    and "k < n \<Longrightarrow> first_line (take n t) = take (Suc k) t \<and> after_line (take n t) = take (n - Suc k) (drop (Suc k) t)"
proof -
  let ?P = "\<lambda>c. c \<noteq> CHR 0x0A"
  have nl: "t ! k = CHR 0x0A" if "k < n"
    using that assms(2) nth_length_takeWhile [of ?P t] by (simp add: k_def)
  have before: "t ! i \<noteq> CHR 0x0A" if "i < k" for i
    using that nth_mem [of i "takeWhile ?P t"] takeWhile_nth [of i ?P t]
    by (metis (mono_tags, lifting) k_def set_takeWhileD)
  show iff: "k < n \<longleftrightarrow> CHR 0x0A \<in> set (take n t)"
  proof
    assume "k < n"
    with nl assms(2) show "CHR 0x0A \<in> set (take n t)"
      by (metis in_set_conv_nth length_take min.absorb2 nth_take)
  next
    assume "CHR 0x0A \<in> set (take n t)"
    then obtain i where "i < n" "t ! i = CHR 0x0A" by (auto simp: in_set_conv_nth)
    with before show "k < n" by (meson linorder_not_less order_le_less_trans)
  qed
  assume "k < n"
  have "takeWhile ?P (take n t) = take k t"
  proof -
    have "take n t = take k t @ CHR 0x0A # drop (Suc k) (take n t)"
      using \<open>k < n\<close> assms(2) nl id_take_nth_drop [of k "take n t"] by (simp add: min_def)
    moreover have "takeWhile ?P t = take k t" unfolding k_def by (rule takeWhile_eq_take)
    then have "\<forall>c \<in> set (take k t). ?P c" by (metis set_takeWhileD)
    ultimately show ?thesis
      using takeWhile_until [of "CHR 0x0A" "take k t"] by metis
  qed
  moreover have "take k t @ [CHR 0x0A] = take (Suc k) t"
    using nl \<open>k < n\<close> assms(2) by (simp add: take_Suc_conv_app_nth)
  ultimately have "first_line (take n t) = take (Suc k) t"
    using iff \<open>k < n\<close> by (simp add: first_line_def)
  then show "first_line (take n t) = take (Suc k) t \<and> after_line (take n t) = take (n - Suc k) (drop (Suc k) t)"
    using \<open>k < n\<close> assms(2) by (simp add: after_line_def min_def drop_take)
qed

lemma find_in_window:
  assumes "reader_ok r" "lr_begin r < lr_end r"
  shows "find_newline (lr_buf r) (lr_begin r) < lr_end r \<longleftrightarrow> CHR 0x0A \<in> set (window r)"
    and "CHR 0x0A \<in> set (window r) \<Longrightarrow>
      slice (lr_buf r) (lr_begin r) (find_newline (lr_buf r) (lr_begin r) + 1) = first_line (window r) \<and>
      slice (lr_buf r) (find_newline (lr_buf r) (lr_begin r) + 1) (lr_end r) = after_line (window r)"
proof -
  define t n where "t = drop (lr_begin r) (lr_buf r)" and "n = lr_end r - lr_begin r"
  define k where "k = length (takeWhile (\<lambda>c. c \<noteq> CHR 0x0A) t)"
  have w: "window r = take n t" by (simp add: window_def slice_def t_def n_def)
  have f: "find_newline (lr_buf r) (lr_begin r) = lr_begin r + k"
    by (simp add: find_newline_def k_def t_def)
  have n: "n \<le> length t" using assms by (simp add: reader_ok_def t_def n_def diff_le_mono)
  note nl = takeWhile_newline [OF n, folded k_def]
  show "find_newline (lr_buf r) (lr_begin r) < lr_end r \<longleftrightarrow> CHR 0x0A \<in> set (window r)"
  proof -
    have "lr_begin r + k < lr_end r \<longleftrightarrow> k < n" using assms(2) by (auto simp: n_def)
    then show ?thesis by (simp only: f w nl(1))
  qed
  assume "CHR 0x0A \<in> set (window r)"
  then have "k < n" by (simp add: nl(1) w)
  from nl(2) [OF this] show "slice (lr_buf r) (lr_begin r) (find_newline (lr_buf r) (lr_begin r) + 1) = first_line (window r) \<and>
      slice (lr_buf r) (find_newline (lr_buf r) (lr_begin r) + 1) (lr_end r) = after_line (window r)"
    by (simp add: f w slice_def t_def n_def add.commute)
qed

lemma first_line_append:
  "CHR 0x0A \<in> set t \<Longrightarrow> first_line (t @ u) = first_line t \<and> after_line (t @ u) = after_line t @ u"
  "CHR 0x0A \<notin> set t \<Longrightarrow> first_line (t @ u) = t @ first_line u \<and> after_line (t @ u) = after_line u"
proof -
  assume "CHR 0x0A \<in> set t"
  then have f: "first_line (t @ u) = first_line t"
    by (simp add: first_line_def)
  moreover have "first_line t @ after_line (t @ u) = first_line t @ after_line t @ u"
    using first_after [of "t @ u"] unfolding f by (simp flip: append.assoc)
  ultimately show "first_line (t @ u) = first_line t \<and> after_line (t @ u) = after_line t @ u" by simp
qed (auto simp: first_line_def after_line_def takeWhile_append)

text \<open>What \<^verbatim>\<open>ReadLine\<close> makes of a line of the text.\<close>

definition finish :: "bool \<Rightarrow> string \<Rightarrow> string" where
  "finish st line = (if CHR 0x0A \<in> set line \<and> st then strip_line line else line)"

lemma newline_in_first: "CHR 0x0A \<in> set (first_line t) \<longleftrightarrow> CHR 0x0A \<in> set t"
  by (auto simp: first_line_def)

lemma finish_Nil [simp]: "finish st line = [] \<longleftrightarrow> line = []"
  by (auto simp: finish_def strip_line_def list_all_iff)

context byte_source
begin

lemma refill_ok:
  assumes "reader_ok r" "lr_end r \<le> lr_begin r"
  shows "reader_ok (refill rd r)" and "pending rest (refill rd r) = pending rest r"
    and "lr_end (refill rd r) = 0 \<Longrightarrow> pending rest r = []"
    and "lr_begin (refill rd r) = 0"
proof -
  obtain d s where d: "rd (lr_cap r) (lr_stream r) = (d, s)" by fastforce
  have "d @ rest s = rest (lr_stream r)" "length d \<le> lr_cap r"
    using rd_data [of "lr_cap r" "lr_stream r"] rd_max [of "lr_cap r" "lr_stream r"] by (simp_all add: d)
  then show "reader_ok (refill rd r)" "pending rest (refill rd r) = pending rest r"
    "lr_begin (refill rd r) = 0"
    using assms by (auto simp: refill_def d reader_ok_def pending_def window_def slice_def)
  show "lr_end (refill rd r) = 0 \<Longrightarrow> pending rest r = []"
    using rd_progress [of "lr_cap r" "lr_stream r"] assms
    by (auto simp: refill_def d reader_ok_def pending_def window_def slice_def)
qed

lemma line_loop_spec:
  assumes "reader_ok r"
  shows "\<exists>r'. line_loop rd line r =
      Some (line @ first_line (pending rest r), CHR 0x0A \<in> set (pending rest r), r') \<and>
    reader_ok r' \<and> pending rest r' = after_line (pending rest r)"
  using assms
proof (induction "length (pending rest r)" arbitrary: r line rule: less_induct)
  case less
  define r1 where "r1 = (if lr_begin r \<ge> lr_end r then refill rd r else r)"
  have ok: "reader_ok r1" and pend: "pending rest r1 = pending rest r"
    using refill_ok [OF less(2)] less(2) by (auto simp: r1_def)
  show ?case
  proof (cases "lr_begin r1 < lr_end r1")
    case False
    then have e: "lr_begin r \<ge> lr_end r" "lr_end r1 = 0"
      using refill_ok(4) [OF less(2)] by (auto simp: r1_def split: if_splits)
    then have "pending rest r = []" using refill_ok(3) [OF less(2)] by (simp add: r1_def)
    moreover have "line_loop rd line r = Some (line, False, r1)"
      using e by (subst line_loop.simps) (simp add: r1_def Let_def)
    ultimately show ?thesis using ok pend by simp
  next
    case True
    note find = find_in_window [OF ok True]
    have loop: "line_loop rd line r =
      (let e = find_newline (lr_buf r1) (lr_begin r1) in
       if e \<ge> lr_end r1 then line_loop rd (line @ window r1) (r1\<lparr>lr_begin := lr_end r1\<rparr>)
       else Some (line @ slice (lr_buf r1) (lr_begin r1) (e + 1), True, r1\<lparr>lr_begin := e + 1\<rparr>))"
      using True by (subst line_loop.simps) (auto simp: r1_def Let_def window_def)
    show ?thesis
    proof (cases "CHR 0x0A \<in> set (window r1)")
      case nl: True
      then show ?thesis
        using find ok unfolding loop Let_def pend [symmetric]
        by (auto simp: pending_def first_line_append window_def reader_ok_def not_le)
    next
      case nl: False
      let ?r2 = "r1\<lparr>lr_begin := lr_end r1\<rparr>"
      have p: "pending rest r = window r1 @ pending rest ?r2"
        unfolding pend [symmetric] by (simp add: pending_def window_def slice_def)
      moreover have "window r1 \<noteq> []" using True window_Nil [OF ok] by simp
      moreover have "reader_ok ?r2" using ok by (simp add: reader_ok_def)
      ultimately obtain r' where "line_loop rd (line @ window r1) ?r2 =
          Some ((line @ window r1) @ first_line (pending rest ?r2), CHR 0x0A \<in> set (pending rest ?r2), r')"
        "reader_ok r'" "pending rest r' = after_line (pending rest ?r2)"
        using less(1) [of ?r2 "line @ window r1"] by auto
      moreover have "lr_end r1 \<le> find_newline (lr_buf r1) (lr_begin r1)"
        using find(1) nl by linarith
      ultimately show ?thesis using nl unfolding loop Let_def p by (auto simp: first_line_append)
    qed
  qed
qed

text \<open>Stripping never makes a line empty, so \<^verbatim>\<open>ReadAllLines\<close> stops at the end of the
  stream only.\<close>

lemma ReadLine_spec:
  assumes "reader_ok r"
  shows "\<exists>r'. ReadLine rd st r =
      Some (finish st (first_line (pending rest r)), r') \<and>
    reader_ok r' \<and> pending rest r' = after_line (pending rest r)"
  using line_loop_spec [OF assms, of "[]"]
  by (auto simp: ReadLine_def finish_def newline_in_first)

lemma ReadAllLines_spec:
  assumes "reader_ok r"
  shows "\<exists>r'. ReadAllLines rd st r = Some (map (finish st) (lines_of (pending rest r)), r')"
  using assms
proof (induction "length (pending rest r)" arbitrary: r rule: less_induct)
  case less
  obtain r' where r': "ReadLine rd st r = Some (finish st (first_line (pending rest r)), r')"
    "reader_ok r'" "pending rest r' = after_line (pending rest r)"
    using ReadLine_spec [OF less(2)] by blast
  show ?case
  proof (cases "pending rest r = []")
    case True
    with r' show ?thesis by (subst ReadAllLines.simps) simp
  next
    case False
    then obtain r'' where "ReadAllLines rd st r' = Some (map (finish st) (lines_of (pending rest r')), r'')"
      using less(1) [of r'] r' after_line_shorter by fastforce
    with False r' show ?thesis by (subst ReadAllLines.simps) (simp add: lines_of_step)
  qed
qed

end

section \<open>Properties\<close>

lemma start_reader:
  assumes "0 < hint"
  shows "reader_ok (StreamLineReader s hint)" and "pending rest (StreamLineReader s hint) = rest s"
  using assms by (simp_all add: reader_ok_def StreamLineReader_def pending_def window_def slice_def)


text \<open>
  Line endings are not removed from an empty line, nor from a last line that has no
  line feed, although the reader was asked to strip them.\<close>

lemma line_endings_kept:
  "map_option fst (ReadAllLines MemRead True (StreamLineReader
       (InputMemoryStream (''a'' @ [CHR 0x0D, CHR 0x0A, CHR 0x0D, CHR 0x0A] @ ''b'' @ [CHR 0x0D])) 1024)) =
     Some [''a'', [CHR 0x0D, CHR 0x0A], ''b'' @ [CHR 0x0D]]"
proof -
  have l: "lines_of (''a'' @ [CHR 0x0D, CHR 0x0A, CHR 0x0D, CHR 0x0A] @ ''b'' @ [CHR 0x0D]) =
    [''a'' @ [CHR 0x0D, CHR 0x0A], [CHR 0x0D, CHR 0x0A], ''b'' @ [CHR 0x0D]]"
    by (simp add: lines_of_step first_line_def after_line_def)
  have h: "map_option fst (ReadAllLines MemRead True (StreamLineReader (InputMemoryStream t) 1024)) =
      Some (map (finish True) (lines_of t))" for t
    using mem.ReadAllLines_spec [OF start_reader(1) [of 1024 "InputMemoryStream t"], of True]
      start_reader(2) [of 1024 mem_rest "InputMemoryStream t"]
    by (auto simp: mem_rest_def InputMemoryStream_def)
  show ?thesis unfolding h l by (simp add: finish_def strip_line_def is_ending_def)
qed

end
