(* ===== verification/Tuple_Parser.thy ===== *)
theory Tuple_Parser
  imports Int_Text Field_Parsers
begin

text \<open>
  Whole lines of \<^verbatim>\<open>text_parser.h\<close>: the dispatch \<^verbatim>\<open>ParseT\<close> over the type of a field, the
  recursion \<^verbatim>\<open>ParseNext\<close> over the types of a tuple with its exceptions, and
  \<^verbatim>\<open>TupleParser\<close>. Floating point fields are not modelled.
\<close>

section \<open>One field\<close>

text \<open>\<open>FString\<close> is \<^verbatim>\<open>std::string\<close>, whose parser depends on the file type; \<open>FCsv\<close> and
  \<open>FGraphical\<close> are the wrapper types that fix the parser.\<close>

datatype field_type =
    FInteger int_type | FBool | FChar | FDrop | FGraphical | FString | FCsv

datatype field_value = VInt int | VBool bool | VChar char | VDrop | VStr string

definition ParseChar :: "string \<Rightarrow> nat \<times> char" where
  "ParseChar b = (if b = [] then (0, CHR 0x00) else (1, hd b))"

text \<open>\<^const>\<open>None\<close> is the signed overflow of the integer parser.\<close>

fun ParseT :: "bool \<Rightarrow> field_type \<Rightarrow> string \<Rightarrow> (nat \<times> field_value) option" where
  "ParseT csv (FInteger t) b = map_option (map_prod id VInt) (ParseDigit t b 0)"
| "ParseT csv FBool b = map_option (map_prod id VBool) (ParseBool b False)"
| "ParseT csv FChar b = Some (map_prod id VChar (ParseChar b))"
| "ParseT csv FDrop b = Some (if csv then DropCsvField b else DropGraphicalField b, VDrop)"
| "ParseT csv FGraphical b = Some (map_prod id VStr (ParseGraphicalString b))"
| "ParseT csv FString b =
     Some (map_prod id VStr (if csv then ParseCsvString b else ParseGraphicalString b))"
| "ParseT csv FCsv b = Some (map_prod id VStr (ParseCsvString b))"

text \<open>The overload on a whole string does not pass its \<^verbatim>\<open>IS_CSV\<close> argument on, so the default
  \<^verbatim>\<open>false\<close> applies.\<close>

definition ParseT_string :: "bool \<Rightarrow> field_type \<Rightarrow> string \<Rightarrow> (nat \<times> field_value) option" where
  "ParseT_string csv t str = ParseT False t str"

section \<open>The exceptions\<close>

record field_exception =
  description :: string
  ex_line :: string
  ex_offset :: nat
  nth_field :: nat
  ex_type :: field_type

definition ParseFieldException :: "string \<Rightarrow> string \<Rightarrow> nat \<Rightarrow> nat \<Rightarrow> field_type \<Rightarrow> field_exception" where
  "ParseFieldException d line char_offset nr t =
     \<lparr>description = d, ex_line = line, ex_offset = char_offset, nth_field = nr, ex_type = t\<rparr>"

text \<open>\<^verbatim>\<open>what()\<close>; the name of a type is the compiler's.\<close>

definition field_exception_what :: "(field_type \<Rightarrow> string) \<Rightarrow> field_exception \<Rightarrow> string" where
  "field_exception_what type_name x =
     ''Error parsing line:'' @ [CHR 0x0A] @ takeWhile (\<lambda>c. c \<noteq> CHR 0x0A) (ex_line x) @
     [CHR 0x0A] @ '': '' @ description x @ '' at position '' @ PrintUnsigned (int (ex_offset x)) @
     '' when parsing the '' @ PrintUnsigned (int (nth_field x)) @ ''th field as type '' @
     type_name (ex_type x)"

definition UncleanParseException_what :: "string \<Rightarrow> string \<Rightarrow> string" where
  "UncleanParseException_what bytes d =
     ''UncleanParseException: '' @ d @ '':'' @ [CHR 0x0A] @
     (if length bytes < 100 then bytes
      else take 100 bytes @ '' ... [totally '' @ PrintUnsigned (int (length bytes)) @ '' bytes].'')"

datatype line_error = FieldError field_exception | Overflow

section \<open>A tuple\<close>

text \<open>One unfolding of the template recursion: \<open>s\<close> is the offset in the line \<open>b\<close>, \<open>idx\<close> the number of
  the field, the list the types of the fields that are left.\<close>

fun ParseNext :: "bool \<Rightarrow> string \<Rightarrow> nat \<Rightarrow> field_type list \<Rightarrow> nat \<Rightarrow> line_error + (field_value list \<times> nat)" where
  "ParseNext csv b idx [] s = Inr ([], s)"
| "ParseNext csv b idx (t # ts) s =
     (let s = s + length (takeWhile (\<lambda>c. \<not> IsGraphical c) (drop s b)) in
      case ParseT csv t (drop s b) of
        None \<Rightarrow> Inl Overflow
      | Some (r, v) \<Rightarrow>
          if r = 0 then Inl (FieldError (ParseFieldException ''failed to parse data'' b s idx t))
          else if ts = [] then
            (case ParseNext csv b (idx + 1) ts (s + r) of Inl e \<Rightarrow> Inl e | Inr (vs, n) \<Rightarrow> Inr (v # vs, n))
          else
            let sep = (if csv then (\<lambda>c. c = CHR '','') else IsBlank);
                skipped = length (takeWhile (\<lambda>c. \<not> sep c \<and> \<not> IsNewLine c) (drop (s + r) b));
                r = r + skipped;
                p = drop (s + r) b
            in if p = [] \<or> IsNewLine (hd p)
               then Inl (FieldError (ParseFieldException ''unexpected line break after data'' b s idx t))
               else if \<not> sep (hd p)
               then Inl (FieldError (ParseFieldException
                      (if csv then ''no comma after data'' else ''no blank space after data'') b s idx t))
               else (case ParseNext csv b (idx + 1) ts (s + (r + 1)) of
                       Inl e \<Rightarrow> Inl e | Inr (vs, n) \<Rightarrow> Inr (v # vs, n)))"

text \<open>The functor: the values, the bytes read including the line break, and whether a line was read.\<close>

definition TupleParser :: "bool \<Rightarrow> field_type list \<Rightarrow> string \<Rightarrow> line_error + (field_value list \<times> nat \<times> bool)" where
  "TupleParser csv ts b =
     (case ParseNext csv b 0 ts 0 of
        Inl e \<Rightarrow> Inl e
      | Inr (d, s) \<Rightarrow> Inr (d, length b - length (FindNextLine (drop s b)), s \<noteq> 0))"

definition ParseAsTuple :: "bool \<Rightarrow> field_type list \<Rightarrow> string \<Rightarrow> line_error + (field_value list \<times> nat \<times> bool)" where
  "ParseAsTuple csv ts b = TupleParser csv ts b"

section \<open>Rows as text\<close>

text \<open>How a row is written: integers by \<^verbatim>\<open>ToString\<close>, strings quoted with their quotes doubled.\<close>

fun field_ok :: "field_type \<Rightarrow> field_value \<Rightarrow> bool" where
  "field_ok (FInteger t) (VInt n) \<longleftrightarrow> type_min t \<le> n \<and> n \<le> type_max t \<and> (n = type_min t \<longrightarrow> 0 \<le> n)"
| "field_ok FString (VStr v) \<longleftrightarrow> set v \<subseteq> {c. \<not> IsNewLine c \<and> \<not> IsCsvIgnoreable c}"
| "field_ok FCsv (VStr v) \<longleftrightarrow> set v \<subseteq> {c. \<not> IsNewLine c \<and> \<not> IsCsvIgnoreable c}"
| "field_ok _ _ \<longleftrightarrow> False"

fun field_text :: "field_type \<Rightarrow> field_value \<Rightarrow> string" where
  "field_text (FInteger t) (VInt n) = the (ToString_int t n)"
| "field_text _ (VStr v) = CHR 0x22 # csv_escape v @ [CHR 0x22]"
| "field_text _ _ = []"

fun row_text :: "field_type list \<Rightarrow> field_value list \<Rightarrow> string" where
  "row_text (t # ts) (v # vs) =
     field_text t v @ (if ts = [] then [] else CHR '','' # row_text ts vs)"
| "row_text _ _ = []"

lemma field_text_parse:
  assumes "field_ok t v" and "rest = [] \<or> hd rest = CHR '','' \<or> IsNewLine (hd rest)"
  shows "field_text t v \<noteq> [] \<and> IsGraphical (hd (field_text t v)) \<and>
    ParseT True t (field_text t v @ rest) = Some (length (field_text t v), v)"
proof (cases "\<exists>i n. t = FInteger i \<and> v = VInt n")
  case True
  then obtain i n where tv: "t = FInteger i" "v = VInt n" by blast
  have rest: "rest = [] \<or> \<not> IsDigits (hd rest)"
    using assms(2) by (auto simp: IsDigits_uchar IsNewLine_uchar uchar_def)
  obtain s where s: "ToString_int i n = Some s" "s \<noteq> []"
      "set s \<subseteq> {c. IsDigits c \<or> c = CHR ''-''}" "ParseDigit i (s @ rest) 0 = Some (length s, n)"
    using ToString_ParseDigit [of i n rest 0] assms(1) rest by (auto simp: tv)
  then have "IsDigits (hd s) \<or> hd s = CHR ''-''" using hd_in_set [of s] by blast
  then have "IsGraphical (hd s)" by (auto simp: IsGraphical_uchar IsDigits_uchar uchar_def)
  with s show ?thesis by (simp add: tv)
next
  case False
  then obtain w where w: "v = VStr w" "t = FString \<or> t = FCsv"
      "set w \<subseteq> {c. \<not> IsNewLine c \<and> \<not> IsCsvIgnoreable c}"
    using assms(1) by (cases t; cases v) auto
  have "rest = [] \<or> hd rest \<noteq> CHR 0x22"
    using assms(2) by (auto simp: IsNewLine_uchar uchar_def)
  then have "ParseCsvString (CHR 0x22 # csv_escape w @ CHR 0x22 # rest) = (length (csv_escape w) + 2, w)"
    using ParseCsvString_quoted [of "[]" w rest] w(3) by (auto simp: subset_iff)
  with w show ?thesis by (auto simp: IsGraphical_uchar uchar_def)
qed

lemma ParseNext_row:
  assumes "list_all2 field_ok ts vs" and "rest = [] \<or> IsNewLine (hd rest)"
  shows "ParseNext True (pre @ row_text ts vs @ rest) idx ts (length pre) =
    Inr (vs, length pre + length (row_text ts vs))"
  using assms(1)
proof (induction ts vs arbitrary: pre idx rule: list_all2_induct)
  case (Cons t ts v vs)
  let ?f = "field_text t v"
  let ?tail = "(if ts = [] then [] else CHR '','' # row_text ts vs) @ rest"
  have tail: "?tail = [] \<or> hd ?tail = CHR '','' \<or> IsNewLine (hd ?tail)"
    using assms(2) by auto
  have f: "?f \<noteq> []" "IsGraphical (hd ?f)" "ParseT True t (?f @ ?tail) = Some (length ?f, v)"
    using field_text_parse [OF Cons(1) tail] by simp_all
  then have skip: "takeWhile (\<lambda>c. \<not> IsGraphical c) (?f @ ?tail) = []"
    by (cases ?f) auto
  show ?case
  proof (cases "ts = []")
    case True
    with f skip Cons(2) show ?thesis by (simp add: Let_def)
  next
    case False
    have "ParseNext True ((pre @ ?f @ '','') @ row_text ts vs @ rest) (idx + 1) ts (length (pre @ ?f @ '','')) =
      Inr (vs, length (pre @ ?f @ '','') + length (row_text ts vs))"
      by (rule Cons(3))
    with f skip False show ?thesis by (simp add: Let_def IsNewLine_def)
  qed
qed simp

section \<open>Bounds\<close>

lemma ParseCsvString_le [len_bound]: "fst (ParseCsvString b) \<le> length b"
  by (simp add: ParseCsvString_def Let_def case_prod_beta)

lemma ParseGraphical_le [len_bound]: "fst (ParseGraphicalString b) \<le> length b"
  by (simp add: ParseGraphicalString_def case_prod_beta)

lemma ParseDigit_le: "ParseDigit t b d = Some (r, v) \<Longrightarrow> r \<le> length b"
  by (auto simp: ParseDigit_def split: option.splits if_splits dest: ParseInt64_bounds)

lemma DropCsvField_le [len_bound]: "DropCsvField b \<le> length b"
  by (simp add: DropCsvField_def Let_def)

lemma DropGraphicalField_le [len_bound]: "DropGraphicalField b \<le> length b"
  by (simp add: DropGraphicalField_def)

lemma match_word_le: "match_word cs ps = Some [] \<Longrightarrow> length ps \<le> length cs"
  by (induction cs ps rule: match_word.induct) (auto split: if_splits)

lemma ParseBool_le: "ParseBool b d = Some (r, v) \<Longrightarrow> r \<le> length b"
  using match_word_le [of b "''true''"] match_word_le [of b "''false''"]
  by (auto simp: ParseBool_def split: option.splits if_splits dest: ParseInt64_bounds)

lemma ParseT_le:
  assumes "ParseT csv t b = Some (r, v)"
  shows "r \<le> length b"
  using assms ParseCsvString_le [of b] ParseGraphical_le [of b] DropCsvField_le [of b]
    DropGraphicalField_le [of b]
  by (cases t)
     (auto dest: ParseDigit_le ParseBool_le simp: ParseChar_def Suc_le_eq map_prod_def
        split: if_splits prod.splits)

lemma after_separator:
  assumes "p = drop n b" "p \<noteq> []"
  shows "n + 1 \<le> length b"
  using assms by (auto simp: not_less_eq_eq)

lemma ParseNext_bounds:
  "ParseNext csv b idx ts s = Inr (vs, n) \<Longrightarrow> s \<le> length b \<Longrightarrow>
    length vs = length ts \<and> s \<le> n \<and> n \<le> length b \<and> (ts \<noteq> [] \<longrightarrow> 0 < n)"
proof (induction csv b idx ts s arbitrary: vs n rule: ParseNext.induct)
  case (2 csv b idx t ts s)
  define s' where "s' = s + length (takeWhile (\<lambda>c. \<not> IsGraphical c) (drop s b))"
  have s': "s \<le> s'" "s' \<le> length b"
    using 2(4) length_takeWhile_le [of "\<lambda>c. \<not> IsGraphical c" "drop s b"] by (simp_all add: s'_def)
  obtain r v where rv: "ParseT csv t (drop s' b) = Some (r, v)" "r \<noteq> 0"
    using 2(3) by (auto simp: Let_def s'_def split: option.splits if_splits)
  have r: "s' + r \<le> length b" using ParseT_le [OF rv(1)] s'(2) by simp
  show ?case
  proof (cases "ts = []")
    case True
    with 2(3) rv r s' show ?thesis by (auto simp: Let_def s'_def)
  next
    case False
    define sep where "sep = (if csv then (\<lambda>c. c = CHR '','') else IsBlank)"
    define q where "q = r + length (takeWhile (\<lambda>c. \<not> sep c \<and> \<not> IsNewLine c) (drop (s' + r) b))"
    from 2(3) False rv obtain ws where ws: "drop (s' + q) b \<noteq> []"
      "ParseNext csv b (idx + 1) ts (s' + (q + 1)) = Inr (ws, n)" "vs = v # ws"
      by (auto simp: Let_def s'_def [symmetric] sep_def [symmetric] q_def [symmetric] split: if_splits sum.splits)
    have q: "s' + (q + 1) \<le> length b" using after_separator [OF refl ws(1)] by simp
    have "\<not> (drop (s' + q) b = [] \<or> IsNewLine (hd (drop (s' + q) b)))" "\<not> \<not> sep (hd (drop (s' + q) b))"
      using 2(3) False rv
      by (auto simp: Let_def s'_def [symmetric] sep_def [symmetric] q_def [symmetric] split: if_splits sum.splits)
    from 2(2) [OF s'_def rv(1) refl rv(2) False sep_def refl q_def refl this ws(2) q]
    show ?thesis using ws(3) s' by auto
  qed
qed simp

section \<open>Properties\<close>

text \<open>
  C3. A CSV row written with its strings quoted and its integers printed by
  \<^verbatim>\<open>ToString\<close> is read back by \<^verbatim>\<open>TupleParser\<close> as the same values, at any tuple type made
  of integers and strings, and exactly the row and its line feed are consumed.\<close>

theorem csv_row_roundtrip:
  assumes "list_all2 field_ok ts vs" and "ts \<noteq> []" and "rest = [] \<or> hd rest \<noteq> CHR 0x0D"
  shows "TupleParser True ts (row_text ts vs @ CHR 0x0A # rest) =
    Inr (vs, length (row_text ts vs) + 1, True)"
proof -
  have "ParseNext True (row_text ts vs @ CHR 0x0A # rest) 0 ts 0 = Inr (vs, length (row_text ts vs))"
    using ParseNext_row [OF assms(1), of "CHR 0x0A # rest" "[]" 0] by (simp add: IsNewLine_def)
  moreover have "FindNextLine (CHR 0x0A # rest) = rest"
    using assms(3) by (cases rest) auto
  moreover have "row_text ts vs \<noteq> []"
    using assms(1,2) field_text_parse [of _ _ "[]"]
    by (cases ts; cases vs) auto
  ultimately show ?thesis by (simp add: TupleParser_def)
qed

theorem csv_row_roundtrip_witness:
  "TupleParser True [FInteger Int16, FString]
     (row_text [FInteger Int16, FString] [VInt (- 7), VStr ''a,b''] @ CHR 0x0A # ''next'') =
   Inr ([VInt (- 7), VStr ''a,b''],
     length (row_text [FInteger Int16, FString] [VInt (- 7), VStr ''a,b'']) + 1, True)"
  by (rule csv_row_roundtrip) (simp_all add: IsNewLine_def IsCsvIgnoreable_uchar uchar_def)

text \<open>
  A line that is parsed gives one value for each type of the tuple, and the
  number of bytes reported never exceeds the buffer and is not zero, so the caller's loop
  advances.\<close>

lemma tuple_parser_progress:
  assumes "TupleParser csv ts b = Inr (vs, n, ok)" and "ts \<noteq> []"
  shows "length vs = length ts \<and> 0 < n \<and> n \<le> length b \<and> ok"
proof -
  obtain m where m: "ParseNext csv b 0 ts 0 = Inr (vs, m)"
    "n = length b - length (FindNextLine (drop m b))" "ok = (m \<noteq> 0)"
    using assms(1) by (auto simp: TupleParser_def split: sum.splits)
  have "length vs = length ts \<and> m \<le> length b \<and> 0 < m"
    using ParseNext_bounds [OF m(1)] assms(2) by simp
  moreover have "length (FindNextLine (drop m b)) \<le> length b - m"
    using FindNextLine_length [of "drop m b"] by simp
  ultimately show ?thesis using m by auto
qed

theorem tuple_parser_progress_witness:
  "TupleParser True [FChar] ''x'' = Inr ([VChar CHR ''x''], 1, True) \<and> 1 \<le> length ''x''"
proof -
  have "TupleParser True [FChar] ''x'' = Inr ([VChar CHR ''x''], 1, True)"
    by (simp add: TupleParser_def ParseChar_def IsGraphical_uchar uchar_def Let_def)
  with tuple_parser_progress [OF this] show ?thesis by simp
qed

text \<open>
  Before every field all bytes that are not graphical ASCII are skipped. So an empty
  last field takes its value from the next line, a field that starts with bytes above 127 loses
  them, and an empty field in the middle of a CSV line is an error.\<close>

lemma csv_skipped_bytes:
  "TupleParser True [FInteger Int32, FInteger Int32] (''1,'' @ CHR 0x0A # ''2,3'' @ [CHR 0x0A]) =
     Inr ([VInt 1, VInt 2], 7, True) \<and>
   TupleParser True [FString] (CHR 0xE4 # CHR 0xB8 # CHR 0xAD # ''a'' @ [CHR 0x0A]) =
     Inr ([VStr ''a''], 5, True) \<and>
   TupleParser True [FString, FString, FString] ''a,,b'' =
     Inl (FieldError (ParseFieldException ''failed to parse data'' ''a,,b'' 2 1 FString))"
proof (intro conjI)
  note classes = IsGraphical_uchar IsDigits_uchar IsBlank_def IsNewLine_def IsCsvIgnoreable_uchar uchar_def
  show "TupleParser True [FInteger Int32, FInteger Int32] (''1,'' @ CHR 0x0A # ''2,3'' @ [CHR 0x0A]) =
     Inr ([VInt 1, VInt 2], 7, True)"
    by (simp add: TupleParser_def Let_def ParseDigit_def ParseInt64_eq parse_sign_def int_max_def classes)
  show "TupleParser True [FString] (CHR 0xE4 # CHR 0xB8 # CHR 0xAD # ''a'' @ [CHR 0x0A]) =
     Inr ([VStr ''a''], 5, True)"
    by (simp add: TupleParser_def Let_def ParseCsvString_def csv_unquoted_eq classes)
  show "TupleParser True [FString, FString, FString] ''a,,b'' =
     Inl (FieldError (ParseFieldException ''failed to parse data'' ''a,,b'' 2 1 FString))"
    by (simp add: TupleParser_def Let_def ParseCsvString_def csv_unquoted_eq classes)
       (simp add: numeral_2_eq_2)
qed

end
