(* ===== verification/Text_Parser.thy ===== *)
theory Text_Parser
  imports Tuple_Parser Stream_Base
begin

text \<open>
  The class \<^verbatim>\<open>TextParser\<close> of \<^verbatim>\<open>text_parser.h\<close>: header lines are skipped, the read stage cuts
  the stream into blocks of whole lines, the parse stage turns a block into records, and
  \<^verbatim>\<open>Read\<close> and \<^verbatim>\<open>ReadBlock\<close> hand them out.

  The two pipeline stages keep the order of their input, so the model runs a pushed
  block through both at once. A call that would wait for ever on the result queue
  is \<open>Blocked\<close>. The stream is any instance of the contract \<open>byte_source\<close>.
\<close>

section \<open>Header lines\<close>

text \<open>The result is the first character of the next line, or 0.\<close>

partial_function (option) SkipOneLine ::
  "(nat \<Rightarrow> 's \<Rightarrow> string \<times> 's) \<Rightarrow> ('s \<Rightarrow> bool) \<Rightarrow> 's \<Rightarrow> (char \<times> 's) option" where
  "SkipOneLine rd good s =
     (if \<not> good s then Some (CHR 0x00, s)
      else let (d, s) = rd 1 s in
        if d = [] then Some (CHR 0x00, s)
        else if IsNewLine (hd d)
        then let other = (if hd d = CHR 0x0D then CHR 0x0A else CHR 0x0D);
                 (d, s) = rd 1 s
             in if d = [] then Some (CHR 0x00, s)
                else if hd d = other then Some (CHR 0x00, s) else Some (hd d, s)
        else SkipOneLine rd good s)"

fun skip_headers ::
  "(nat \<Rightarrow> 's \<Rightarrow> string \<times> 's) \<Rightarrow> ('s \<Rightarrow> bool) \<Rightarrow> nat \<Rightarrow> char \<Rightarrow> 's \<Rightarrow> (char \<times> 's) option" where
  "skip_headers rd good 0 c s = Some (c, s)"
| "skip_headers rd good (Suc n) c s =
     Option.bind (SkipOneLine rd good s) (\<lambda>(c, s). skip_headers rd good n c s)"

section \<open>The read stage\<close>

text \<open>\<^verbatim>\<open>buf.rfind('\n')\<close> and what follows it.\<close>

definition after_last_newline :: "string \<Rightarrow> nat" where
  "after_last_newline buf = length (dropWhile (\<lambda>c. c \<noteq> CHR 0x0A) (rev buf))"

text \<open>The result: whether there is a block, the block, and what is left over for the next one.\<close>

partial_function (option) read_loop ::
  "(nat \<Rightarrow> 's \<Rightarrow> string \<times> 's) \<Rightarrow> ('s \<Rightarrow> bool) \<Rightarrow> nat \<Rightarrow> string \<Rightarrow> 's \<Rightarrow> (bool \<times> string \<times> string \<times> 's) option" where
  "read_loop rd good block_size buf s =
     (let last_size = length buf; (d, s) = rd block_size s; buf = buf @ d in
      if d = [] then Some (last_size \<noteq> 0, buf, [], s)
      else let pos = after_last_newline buf in
        if pos = 0 then read_loop rd good block_size buf s
        else if \<not> good s then Some (True, buf, [], s)
        else Some (True, take pos buf, drop pos buf, s))"

section \<open>The parse stage\<close>

type_synonym ('d, 'e) line_parser = "string \<Rightarrow> 'e + ('d \<times> nat \<times> bool)"

datatype 'e block_error = LineException 'e | Unclean string

text \<open>The records of the block, the exception that ended the loop and how much was left then.\<close>

function parse_loop :: "('d, 'e) line_parser \<Rightarrow> string \<Rightarrow> 'd list \<times> ('e block_error \<times> nat) option" where
  "parse_loop func b =
     (if b = [] then ([], None)
      else case func b of
             Inl e \<Rightarrow> ([], Some (LineException e, length b))
           | Inr (d, r, success) \<Rightarrow>
               if r = 0 then ([], Some (Unclean b, length b))
               else (case parse_loop func (dropWhile IsNewLine (drop r b)) of
                       (ds, err) \<Rightarrow> (if success then d # ds else ds, err)))"
  by pat_completeness auto

termination
  by (relation "measure (length \<circ> snd)")
     (auto intro!: le_less_trans [OF length_dropWhile_le])

declare parse_loop.simps [simp del]

record ('d, 'e) workspace =
  w_offset :: int
  raw_buf :: string
  w_data :: "'d list"
  w_head :: nat
  w_error :: "(int \<times> 'e block_error) list"

definition empty_workspace :: "('d, 'e) workspace" where
  "empty_workspace = \<lparr>w_offset = 0, raw_buf = [], w_data = [], w_head = 0, w_error = []\<rparr>"

text \<open>The error text is only ever appended to; the model keeps the offset and the exception.\<close>

definition ParseStage :: "('d, 'e) line_parser \<Rightarrow> ('d, 'e) workspace \<Rightarrow> ('d, 'e) workspace" where
  "ParseStage func w =
     (let (ds, err) = parse_loop func (raw_buf w);
          w = w\<lparr>w_head := 0, w_data := ds\<rparr>
      in case err of
           None \<Rightarrow> w
         | Some (e, left) \<Rightarrow>
             w\<lparr>w_error := w_error w @ [(int (length (raw_buf w)) - int left + w_offset w, e)]\<rparr>)"

section \<open>The parser\<close>

record ('s, 'd, 'e) text_parser =
  tp_stream :: 's
  left_over :: string
  block_size :: nat
  workspaces :: "('d, 'e) workspace list"
  parsed :: "int list"
  curr_buf :: int

text \<open>Push a workspace to the read stage: the stages run and the index, or -1 at the end of the stream,
  arrives at the queue of parsed blocks.\<close>

definition push_read ::
  "(nat \<Rightarrow> 's \<Rightarrow> string \<times> 's) \<Rightarrow> ('s \<Rightarrow> bool) \<Rightarrow> ('s \<Rightarrow> nat) \<Rightarrow> ('d, 'e) line_parser \<Rightarrow> nat \<Rightarrow>
   ('s, 'd, 'e) text_parser \<Rightarrow> ('s, 'd, 'e) text_parser option" where
  "push_read rd good offset func i st =
     (case read_loop rd good (block_size st) (left_over st) (tp_stream st) of
        None \<Rightarrow> None
      | Some (got, buf, left, s) \<Rightarrow>
          (let w = (workspaces st ! i)
                 \<lparr>w_offset := int (offset (tp_stream st)) - int (length (left_over st)), raw_buf := buf\<rparr>;
               w = (if got then ParseStage func w else w)
           in Some (st\<lparr>tp_stream := s, left_over := left, workspaces := (workspaces st)[i := w],
                       parsed := parsed st @ [if got then int i else -1]\<rparr>)))"

fun push_all ::
  "(nat \<Rightarrow> 's \<Rightarrow> string \<times> 's) \<Rightarrow> ('s \<Rightarrow> bool) \<Rightarrow> ('s \<Rightarrow> nat) \<Rightarrow> ('d, 'e) line_parser \<Rightarrow> nat list \<Rightarrow>
   ('s, 'd, 'e) text_parser \<Rightarrow> ('s, 'd, 'e) text_parser option" where
  "push_all rd good offset func [] st = Some st"
| "push_all rd good offset func (i # js) st =
     Option.bind (push_read rd good offset func i st) (push_all rd good offset func js)"

definition Start ::
  "(nat \<Rightarrow> 's \<Rightarrow> string \<times> 's) \<Rightarrow> ('s \<Rightarrow> bool) \<Rightarrow> ('s \<Rightarrow> nat) \<Rightarrow> ('d, 'e) line_parser \<Rightarrow> nat \<Rightarrow> nat \<Rightarrow> nat \<Rightarrow>
   's \<Rightarrow> ('s, 'd, 'e) text_parser option" where
  "Start rd good offset func bs n_prefetch header_lines s =
     (let n = nat (min (int (if n_prefetch = 0 then 1 else n_prefetch)) (2 ^ 31 - 1)) in
      case skip_headers rd good header_lines (CHR 0x00) s of
        None \<Rightarrow> None
      | Some (first_char, s) \<Rightarrow>
          push_all rd good offset func [0..<n]
            \<lparr>tp_stream = s, left_over = (if first_char \<noteq> CHR 0x00 then [first_char] else []),
             block_size = bs, workspaces = replicate n empty_workspace, parsed = [], curr_buf = -1\<rparr>)"

datatype ('d, 'e) read_result =
  Got 'd | AtEnd | Failed "(int \<times> 'e block_error) list" | Blocked

text \<open>\<^verbatim>\<open>parsed_data_->Pop(curr_buf_)\<close> and the test of the error; the queue has no capacity limit and is
  never killed while the parser is in use, so \<^verbatim>\<open>Pop\<close> waits when it is empty.\<close>

definition fetch :: "('s, 'd, 'e) text_parser \<Rightarrow> ('s, 'd, 'e) text_parser \<times> ('d, 'e) read_result option" where
  "fetch st =
     (if curr_buf st \<noteq> -1 then (st, None)
      else case parsed st of
             [] \<Rightarrow> (st, Some Blocked)
           | x # xs \<Rightarrow>
               (let st = st\<lparr>parsed := xs, curr_buf := x\<rparr> in
                if x = -1 then (st, Some AtEnd)
                else let err = w_error (workspaces st ! nat x) in
                  if err \<noteq> [] then (st, Some (Failed err)) else (st, None)))"

definition Read ::
  "(nat \<Rightarrow> 's \<Rightarrow> string \<times> 's) \<Rightarrow> ('s \<Rightarrow> bool) \<Rightarrow> ('s \<Rightarrow> nat) \<Rightarrow> ('d, 'e) line_parser \<Rightarrow>
   ('s, 'd, 'e) text_parser \<Rightarrow> (('d, 'e) read_result \<times> ('s, 'd, 'e) text_parser) option" where
  "Read rd good offset func st =
     (case fetch st of
        (st, Some r) \<Rightarrow> Some (r, st)
      | (st, None) \<Rightarrow>
          (let i = nat (curr_buf st); w = workspaces st ! i in
           if length (w_data w) \<le> w_head w then Some (AtEnd, st)
           else let d = w_data w ! w_head w;
                    w = w\<lparr>w_head := w_head w + 1\<rparr>;
                    st = st\<lparr>workspaces := (workspaces st)[i := w]\<rparr>
             in if w_head w = length (w_data w)
                then map_option (\<lambda>st. (Got d, st\<lparr>curr_buf := -1\<rparr>)) (push_read rd good offset func i st)
                else Some (Got d, st)))"

definition ReadBlock ::
  "(nat \<Rightarrow> 's \<Rightarrow> string \<times> 's) \<Rightarrow> ('s \<Rightarrow> bool) \<Rightarrow> ('s \<Rightarrow> nat) \<Rightarrow> ('d, 'e) line_parser \<Rightarrow>
   ('s, 'd, 'e) text_parser \<Rightarrow> (('d list, 'e) read_result \<times> ('s, 'd, 'e) text_parser) option" where
  "ReadBlock rd good offset func st =
     (case fetch st of
        (st, Some r) \<Rightarrow>
          (case r of
             AtEnd \<Rightarrow> Some (AtEnd, st\<lparr>parsed := parsed st @ [-1]\<rparr>)
           | Failed err \<Rightarrow> Some (Failed err, st)
           | _ \<Rightarrow> Some (Blocked, st))
      | (st, None) \<Rightarrow>
          (let i = nat (curr_buf st); w = workspaces st ! i in
           if length (w_data w) \<le> w_head w then Some (AtEnd, st)
           else map_option (\<lambda>st. (Got (drop (w_head w) (w_data w)), st\<lparr>curr_buf := -1\<rparr>))
                  (push_read rd good offset func i st)))"

text \<open>Successive blocks, as the read stage makes them until the end of the stream.\<close>

partial_function (option) all_blocks ::
  "(nat \<Rightarrow> 's \<Rightarrow> string \<times> 's) \<Rightarrow> ('s \<Rightarrow> bool) \<Rightarrow> nat \<Rightarrow> string \<Rightarrow> 's \<Rightarrow> string list option" where
  "all_blocks rd good bs left s =
     Option.bind (read_loop rd good bs left s) (\<lambda>(got, buf, left, s).
       if got then Option.bind (all_blocks rd good bs left s) (\<lambda>bufs. Some (buf # bufs)) else Some [])"

text \<open>The loops are evaluated by their own equations.\<close>

declare SkipOneLine.simps [code] read_loop.simps [code] parse_loop.simps [code] all_blocks.simps [code]

section \<open>Blocks of lines\<close>

lemma after_last_newline_0: "after_last_newline buf = 0 \<longleftrightarrow> CHR 0x0A \<notin> set buf"
  by (auto simp: after_last_newline_def dropWhile_eq_Nil_conv)

lemma after_last_newline_last:
  assumes "after_last_newline buf \<noteq> 0"
  shows "take (after_last_newline buf) buf \<noteq> []" and "last (take (after_last_newline buf) buf) = CHR 0x0A"
proof -
  let ?P = "\<lambda>c. c \<noteq> CHR 0x0A"
  have "rev buf = takeWhile ?P (rev buf) @ dropWhile ?P (rev buf)" by simp
  then have "buf = rev (dropWhile ?P (rev buf)) @ rev (takeWhile ?P (rev buf))"
    by (metis rev_append rev_rev_ident)
  then have "take (after_last_newline buf) buf = rev (dropWhile ?P (rev buf))"
    unfolding after_last_newline_def by (metis append_eq_conv_conj length_rev)
  moreover have "dropWhile ?P (rev buf) \<noteq> []" using assms by (auto simp: after_last_newline_def)
  ultimately show "take (after_last_newline buf) buf \<noteq> []"
    "last (take (after_last_newline buf) buf) = CHR 0x0A"
    using hd_dropWhile [of ?P "rev buf"] by (simp_all add: last_rev)
qed

definition ends_line :: "string \<Rightarrow> bool" where
  "ends_line b \<longleftrightarrow> b \<noteq> [] \<and> last b = CHR 0x0A"

text \<open>The shape of a list of blocks: none is empty and only the last may lack its line feed.\<close>

fun block_list :: "string list \<Rightarrow> bool" where
  "block_list [] \<longleftrightarrow> True"
| "block_list [b] \<longleftrightarrow> b \<noteq> []"
| "block_list (b # bs) \<longleftrightarrow> ends_line b \<and> block_list bs"

lemma block_list_Cons: "block_list (b # bs) \<Longrightarrow> b \<noteq> [] \<and> block_list bs"
  by (cases bs) (auto simp: ends_line_def)

context byte_source
begin

lemma rd_split:
  assumes "rd n s = (d, s')"
  shows "rest s = d @ rest s'" and "d = [] \<Longrightarrow> 0 < n \<Longrightarrow> rest s = []"
  using rd_data [of n s] rd_progress [of n s] assms by simp_all

lemma read_loop_spec:
  assumes "0 < bs"
  shows "\<exists>got b l s'. read_loop rd good bs buf s = Some (got, b, l, s') \<and>
    b @ l @ rest s' = buf @ rest s \<and> (got \<longleftrightarrow> buf @ rest s \<noteq> []) \<and> (got \<longrightarrow> b \<noteq> []) \<and>
    (l @ rest s' \<noteq> [] \<longrightarrow> ends_line b)"
proof (induction "length (rest s)" arbitrary: buf s rule: less_induct)
  case less
  obtain d s1 where d: "rd bs s = (d, s1)" by fastforce
  note split = rd_split [OF d]
  show ?case
  proof (cases "d = []")
    case True
    with split assms have "rest s = []" "rest s1 = []" by auto
    with d True show ?thesis by (subst read_loop.simps) simp
  next
    case False
    let ?buf = "buf @ d"
    show ?thesis
    proof (cases "after_last_newline ?buf = 0")
      case True
      have "length (rest s1) < length (rest s)" using split(1) False by simp
      from less [OF this, of ?buf] d False True split(1) show ?thesis
        by (subst read_loop.simps) simp
    next
      case nl: False
      note last = after_last_newline_last [OF nl]
      show ?thesis
      proof (cases "good s1")
        case True
        with d False nl have "read_loop rd good bs buf s = Some (True, take (after_last_newline ?buf) ?buf,
            drop (after_last_newline ?buf) ?buf, s1)"
          by (subst read_loop.simps) (simp add: Let_def)
        moreover have "take n ?buf @ drop n ?buf @ rest s1 = buf @ rest s" for n
          using split(1) by (metis append.assoc append_take_drop_id)
        ultimately show ?thesis using last False split(1) by (auto simp: ends_line_def)
      next
        case bad: False
        then have "rest s1 = []" by (rule not_good)
        moreover from this have "rest s = d" using split(1) by simp
        moreover have "read_loop rd good bs buf s = Some (True, ?buf, [], s1)"
          using d False nl bad by (subst read_loop.simps) (simp add: Let_def)
        ultimately show ?thesis using False by auto
      qed
    qed
  qed
qed

lemma all_blocks_spec:
  assumes "0 < bs"
  shows "\<exists>bufs. all_blocks rd good bs left s = Some bufs \<and> concat bufs = left @ rest s \<and> block_list bufs"
proof (induction "length (left @ rest s)" arbitrary: left s rule: less_induct)
  case less
  obtain got b l s' where r: "read_loop rd good bs left s = Some (got, b, l, s')"
      "b @ l @ rest s' = left @ rest s" "got \<longleftrightarrow> left @ rest s \<noteq> []" "got \<longrightarrow> b \<noteq> []"
      "l @ rest s' \<noteq> [] \<longrightarrow> ends_line b"
    using read_loop_spec [OF assms] by blast
  show ?case
  proof (cases got)
    case False
    with r show ?thesis by (subst all_blocks.simps) simp
  next
    case True
    then have "length (l @ rest s') < length (left @ rest s)" using r(2,4) by (simp flip: r(2))
    then obtain bufs where bufs: "all_blocks rd good bs l s' = Some bufs" "concat bufs = l @ rest s'"
        "block_list bufs"
      using less by blast
    have "block_list (b # bufs)"
      using bufs(2,3) r(4,5) True by (cases bufs) (auto dest: block_list_Cons)
    with bufs r(1,2) True show ?thesis by (subst all_blocks.simps) simp
  qed
qed

end

section \<open>Whole files\<close>

text \<open>A block that ends with a line feed, cut from a text made of lines, is made of whole lines.\<close>

definition a_line :: "string \<Rightarrow> bool" where
  "a_line l \<longleftrightarrow> (\<exists>xs. l = xs @ [CHR 0x0A] \<and> CHR 0x0A \<notin> set xs)"

lemma whole_lines:
  assumes "list_all a_line ls" and "b @ x = concat ls" and "b = [] \<or> last b = CHR 0x0A"
  shows "\<exists>k. b = concat (take k ls) \<and> x = concat (drop k ls)"
  using assms
proof (induction ls arbitrary: b)
  case (Cons l ls)
  show ?case
  proof (cases "b = []")
    case True
    with Cons.prems(2) show ?thesis by (intro exI [of _ 0]) simp
  next
    case False
    obtain xs where l: "l = xs @ [CHR 0x0A]" "CHR 0x0A \<notin> set xs"
      using Cons.prems(1) by (auto simp: a_line_def)
    have "prefix l b"
    proof (rule ccontr)
      assume "\<not> prefix l b"
      moreover have "prefix b (l @ concat ls)" using Cons.prems(2) by (metis concat.simps(2) prefixI)
      then have "prefix b l \<or> prefix l b" by (meson prefix_order.order_refl prefix_same_cases prefixI)
      ultimately have "prefix b l" "b \<noteq> l" by auto
      then have "prefix b xs" by (simp add: l(1))
      then have "last b \<in> set xs" using False by (meson last_in_set set_mono_prefix subsetD)
      then show False using l(2) Cons.prems(3) False by metis
    qed
    then obtain b' where b: "b = l @ b'" by (auto simp: prefix_def)
    have "b' = [] \<or> last b' = CHR 0x0A" using Cons.prems(3) False by (cases "b' = []") (auto simp: b)
    moreover have "b' @ x = concat ls" using Cons.prems(2) by (simp add: b)
    ultimately obtain k where "b' = concat (take k ls) \<and> x = concat (drop k ls)"
      using Cons by auto
    then show ?thesis by (intro exI [of _ "Suc k"]) (simp add: b)
  qed
qed simp

text \<open>The line of a row, and what the parse stage makes of a block of rows.\<close>

definition row_line :: "field_type list \<Rightarrow> field_value list \<Rightarrow> string" where
  "row_line ts vs = row_text ts vs @ [CHR 0x0A]"

lemma escape_no_newline:
  "set v \<subseteq> {c. \<not> IsNewLine c \<and> \<not> IsCsvIgnoreable c} \<Longrightarrow> CHR 0x0A \<notin> set (csv_escape v)"
  by (induction v) (auto simp: IsNewLine_def)

lemma field_no_newline: "field_ok t v \<Longrightarrow> CHR 0x0A \<notin> set (field_text t v)"
proof (cases "\<exists>i n. t = FInteger i \<and> v = VInt n")
  case True
  assume "field_ok t v"
  with True obtain i n s where "t = FInteger i" "v = VInt n" "ToString_int i n = Some s"
      "set s \<subseteq> {c. IsDigits c \<or> c = CHR ''-''}"
    using ToString_ParseDigit [of _ _ "[]" 0] by fastforce
  then show ?thesis by (auto simp: IsDigits_uchar uchar_def subset_iff)
next
  case False
  assume "field_ok t v"
  with False show ?thesis by (cases t; cases v) (auto dest: escape_no_newline)
qed

lemma row_no_newline:
  "list_all2 field_ok ts vs \<Longrightarrow> CHR 0x0A \<notin> set (row_text ts vs)"
  by (induction ts vs rule: list_all2_induct) (auto dest: field_no_newline)

lemma row_start:
  assumes "list_all2 field_ok ts vs" "ts \<noteq> []"
  shows "row_text ts vs \<noteq> []" and "IsGraphical (hd (row_text ts vs @ xs))"
  using assms field_text_parse [of "hd ts" "hd vs" "[]"] by (cases ts; cases vs; auto)+

lemma row_parse:
  assumes "list_all2 field_ok ts vs" "ts \<noteq> []" "rest = [] \<or> hd rest \<noteq> CHR 0x0D"
  shows "TupleParser True ts (row_line ts vs @ rest) = Inr (vs, length (row_line ts vs), True)"
proof -
  have "ParseNext True (row_line ts vs @ rest) 0 ts 0 = Inr (vs, length (row_text ts vs))"
    using ParseNext_row [OF assms(1), of "CHR 0x0A # rest" "[]" 0] by (simp add: IsNewLine_def row_line_def)
  moreover have "FindNextLine (CHR 0x0A # rest) = rest" using assms(3) by (cases rest) auto
  ultimately show ?thesis
    using row_start(1) [OF assms(1,2)] by (simp add: TupleParser_def row_line_def)
qed

lemma parse_rows:
  assumes "list_all (list_all2 field_ok ts) rows" "ts \<noteq> []"
  shows "parse_loop (TupleParser True ts) (concat (map (row_line ts) rows)) = (rows, None)"
  using assms(1)
proof (induction rows)
  case (Cons vs rows)
  let ?rest = "concat (map (row_line ts) rows)"
  have graphical: "?rest = [] \<or> IsGraphical (hd ?rest)"
    using Cons.prems row_start(2) [OF _ assms(2)] by (cases rows) (auto simp: row_line_def)
  then have "?rest = [] \<or> hd ?rest \<noteq> CHR 0x0D" "dropWhile IsNewLine ?rest = ?rest"
    by (auto simp: IsGraphical_uchar uchar_def IsNewLine_uchar dropWhile_eq_self_iff)
  moreover have "row_line ts vs \<noteq> []" by (simp add: row_line_def)
  ultimately show ?case
    using Cons row_parse [of ts vs ?rest] assms(2) by (subst parse_loop.simps) simp
qed (simp add: parse_loop.simps)

lemma parse_blocks:
  assumes "list_all (list_all2 field_ok ts) rows" "ts \<noteq> []" "block_list bufs"
    and "concat bufs = concat (map (row_line ts) rows)"
  shows "concat (map (fst \<circ> parse_loop (TupleParser True ts)) bufs) = rows \<and>
    list_all (\<lambda>b. snd (parse_loop (TupleParser True ts) b) = None) bufs"
  using assms(1,3,4)
proof (induction bufs arbitrary: rows)
  case Nil
  then show ?case by (auto simp: row_line_def)
next
  case (Cons b bufs)
  let ?ls = "map (row_line ts) rows"
  have lines: "list_all a_line ?ls"
    using Cons.prems(1) row_no_newline by (auto simp: list_all_iff a_line_def row_line_def)
  have "b = [] \<or> last b = CHR 0x0A"
  proof (cases "bufs = []")
    case True
    then have "b = concat ?ls" using Cons.prems(3) by simp
    then show ?thesis by (cases rows rule: rev_cases) (simp_all add: row_line_def)
  next
    case False
    with Cons.prems(2) show ?thesis by (cases bufs) (auto simp: ends_line_def)
  qed
  then obtain k where k: "b = concat (map (row_line ts) (take k rows))"
      "concat bufs = concat (map (row_line ts) (drop k rows))"
    using whole_lines [OF lines, of b "concat bufs"] Cons.prems(3) by (auto simp: take_map drop_map)
  have "list_all (list_all2 field_ok ts) (take k rows)" "list_all (list_all2 field_ok ts) (drop k rows)"
    using Cons.prems(1) by (auto simp: list_all_iff dest: in_set_takeD in_set_dropD)
  with Cons.IH [of "drop k rows"] parse_rows [OF _ assms(2), of "take k rows"] Cons.prems(2) k
  show ?case by (auto dest: block_list_Cons)
qed

lemma mem_rest_new [simp]: "mem_rest (InputMemoryStream t) = t"
  by (simp add: mem_rest_def InputMemoryStream_def)

section \<open>Properties\<close>

text \<open>
  C2. The read stage cuts a stream into blocks that concatenate to what was left over
  and the stream: no byte is lost or repeated, no block is empty and every block but the last
  ends with a line feed, so no line is cut in two. The loop ends for every block size but 0.\<close>

theorem blocks_partition:
  assumes "0 < bs"
  shows "\<exists>bufs. all_blocks MemRead MemGood bs left (InputMemoryStream t) = Some bufs \<and>
    concat bufs = left @ t \<and> block_list bufs"
  using mem.all_blocks_spec [OF assms, of left "InputMemoryStream t"] by simp

theorem blocks_partition_witness:
  "\<exists>bufs. all_blocks MemRead MemGood 2 [] (InputMemoryStream (''ab'' @ CHR 0x0A # ''c'')) = Some bufs \<and>
    concat bufs = ''ab'' @ CHR 0x0A # ''c'' \<and> block_list bufs"
  using blocks_partition [of 2 "[]" "''ab'' @ CHR 0x0A # ''c''"] by simp

text \<open>
  C1. A CSV file is read back whole: for rows of integers and quoted strings, written
  one to a line, the read stage with any block size and the parse stage with the tuple
  parser give exactly the rows, in order, and no block ends with an error.\<close>

theorem csv_file_roundtrip:
  assumes "0 < bs" and "ts \<noteq> []" and "list_all (list_all2 field_ok ts) rows"
  shows "\<exists>bufs.
    all_blocks MemRead MemGood bs [] (InputMemoryStream (concat (map (row_line ts) rows))) = Some bufs \<and>
    concat (map (fst \<circ> parse_loop (TupleParser True ts)) bufs) = rows \<and>
    list_all (\<lambda>b. snd (parse_loop (TupleParser True ts) b) = None) bufs"
  using mem.all_blocks_spec [OF assms(1), of "[]" "InputMemoryStream (concat (map (row_line ts) rows))"]
    parse_blocks [OF assms(3,2)] by force

theorem csv_file_roundtrip_witness:
  "\<exists>bufs.
    all_blocks MemRead MemGood 3 [] (InputMemoryStream
      (concat (map (row_line [FInteger Int8, FCsv]) [[VInt 12, VStr ''x''], [VInt (- 1), VStr []]]))) = Some bufs \<and>
    concat (map (fst \<circ> parse_loop (TupleParser True [FInteger Int8, FCsv])) bufs) =
      [[VInt 12, VStr ''x''], [VInt (- 1), VStr []]] \<and>
    list_all (\<lambda>b. snd (parse_loop (TupleParser True [FInteger Int8, FCsv]) b) = None) bufs"
  by (rule csv_file_roundtrip) (simp_all add: IsNewLine_def IsCsvIgnoreable_uchar uchar_def)

text \<open>A line parser that skips comments: the record is the first character of the line.\<close>

definition comment_parser :: "(char, unit) line_parser" where
  "comment_parser b = Inr (hd b, length b - length (FindNextLine b), hd b \<noteq> CHR ''#'')"

text \<open>
  Two header lines of which the second is empty cost a third line: the first skip
  reads one character into the next line, and the second does not see that it was the
  line break. Here the stream \<open>h\<close>, empty line, \<open>d\<close>, \<open>e\<close> is left at \<open>e\<close> after two header lines.\<close>

lemma empty_header_line:
  "skip_headers MemRead MemGood 2 (CHR 0x00)
     (InputMemoryStream [CHR ''h'', CHR 0x0A, CHR 0x0A, CHR ''d'', CHR 0x0A, CHR ''e'']) =
   Some (CHR ''e'', \<lparr>ms_data = [CHR ''h'', CHR 0x0A, CHR 0x0A, CHR ''d'', CHR 0x0A, CHR ''e''], ms_offset = 6\<rparr>)"
  by code_simp

text \<open>The results of successive calls.\<close>

fun call_times :: "nat \<Rightarrow> ('st \<Rightarrow> ('r \<times> 'st) option) \<Rightarrow> 'st \<Rightarrow> 'r list option" where
  "call_times 0 f st = Some []"
| "call_times (Suc n) f st = Option.bind (f st) (\<lambda>(r, st). map_option ((#) r) (call_times n f st))"

text \<open>
  A block whose lines yield no record ends the reading: a comment line fills the
  first block of two bytes, so \<^verbatim>\<open>Read\<close> and \<^verbatim>\<open>ReadBlock\<close> report the end of the file at every
  call although a record follows. With one block for the whole file the record is delivered.\<close>

lemma block_without_records_ends:
  "Option.bind (Start MemRead MemGood MemOffset comment_parser 2 1 0
      (InputMemoryStream [CHR ''#'', CHR 0x0A, CHR ''a'', CHR 0x0A]))
    (call_times 2 (Read MemRead MemGood MemOffset comment_parser)) = Some [AtEnd, AtEnd] \<and>
   Option.bind (Start MemRead MemGood MemOffset comment_parser 2 1 0
      (InputMemoryStream [CHR ''#'', CHR 0x0A, CHR ''a'', CHR 0x0A]))
    (call_times 2 (ReadBlock MemRead MemGood MemOffset comment_parser)) = Some [AtEnd, AtEnd] \<and>
   Option.bind (Start MemRead MemGood MemOffset comment_parser 4 1 0
      (InputMemoryStream [CHR ''#'', CHR 0x0A, CHR ''a'', CHR 0x0A]))
    (call_times 1 (Read MemRead MemGood MemOffset comment_parser)) = Some [Got CHR ''a'']"
  by code_simp

text \<open>
  After \<^verbatim>\<open>Read\<close> has reported the end of the file, the next call waits for ever, since
  it does not put the end mark back as \<^verbatim>\<open>ReadBlock\<close> does.\<close>

lemma read_after_end_blocks:
  "Option.bind (Start MemRead MemGood MemOffset comment_parser 4 1 0 (InputMemoryStream [CHR ''a'', CHR 0x0A]))
    (call_times 3 (Read MemRead MemGood MemOffset comment_parser)) = Some [Got CHR ''a'', AtEnd, Blocked] \<and>
   Option.bind (Start MemRead MemGood MemOffset comment_parser 4 1 0 (InputMemoryStream [CHR ''a'', CHR 0x0A]))
    (call_times 3 (ReadBlock MemRead MemGood MemOffset comment_parser)) = Some [Got ''a'', AtEnd, AtEnd]"
  by code_simp

end
