(* ===== verification/Interleaving.thy ===== *)
theory Interleaving
  imports Prelude
begin

text \<open>
  What the models of concurrent components share: the contract of a transition system with an
  invariant, whose instances give the invariant in every reachable state, and sums of a weight
  over the threads below a bound, which is how a counter of the code is tied to what the
  threads do.
\<close>

section \<open>Invariants of transition systems\<close>

locale invariant_system =
  fixes init :: "'s \<Rightarrow> bool"
    and step :: "'s \<Rightarrow> 's \<Rightarrow> bool"
    and inv :: "'s \<Rightarrow> bool"
  assumes inv_init: "init s \<Longrightarrow> inv s"
    and inv_step: "inv s \<Longrightarrow> step s s' \<Longrightarrow> inv s'"
begin

lemma inv_reachable: "init s \<Longrightarrow> step\<^sup>*\<^sup>* s s' \<Longrightarrow> inv s'"
  by (rotate_tac, induction rule: rtranclp_induct) (auto intro: inv_init inv_step)

end

section \<open>Sums over the threads\<close>

definition total :: "nat \<Rightarrow> ('a \<Rightarrow> int) \<Rightarrow> (nat \<Rightarrow> 'a) \<Rightarrow> int" where
  "total N f h = (\<Sum>t<N. f (h t))"

lemma total_upd:
  assumes "t < N"
  shows "total N f (h(t := x)) = total N f h + f x - f (h t)"
proof -
  have "total N f g = f (g t) + (\<Sum>u\<in>{..<N} - {t}. f (g u))" for g
    unfolding total_def using assms by (intro sum.remove) auto
  from this [of h] this [of "h(t := x)"] show ?thesis by simp
qed

lemma total_zero: "(\<And>th. 0 \<le> f th) \<Longrightarrow> total N f h = 0 \<Longrightarrow> t < N \<Longrightarrow> f (h t) = 0"
  by (simp add: total_def sum_nonneg_eq_0_iff)

lemma total_single:
  assumes "t < N" "\<And>u. u < N \<Longrightarrow> u \<noteq> t \<Longrightarrow> f (h u) = 0"
  shows "total N f h = f (h t)"
proof -
  have "total N f h = f (h t) + (\<Sum>u\<in>{..<N} - {t}. f (h u))"
    unfolding total_def using assms(1) by (intro sum.remove) auto
  also have "(\<Sum>u\<in>{..<N} - {t}. f (h u)) = 0" using assms(2) by (intro sum.neutral) auto
  finally show ?thesis by simp
qed

lemma total_nonneg: "(\<And>x. 0 \<le> f x) \<Longrightarrow> 0 \<le> total N f h"
  unfolding total_def by (intro sum_nonneg) simp

lemma total_pos:
  assumes "\<And>x. 0 \<le> f x" and "0 < total N f h"
  shows "\<exists>t < N. 0 < f (h t)"
proof (rule ccontr)
  assume "\<not> ?thesis"
  then have "f (h t) \<le> 0" if "t < N" for t using that by (metis not_le)
  then have "total N f h \<le> 0" unfolding total_def by (intro sum_nonpos) auto
  with assms(2) show False by simp
qed

end
