(* ===== verification/RW_Locks.thy ===== *)
theory RW_Locks
  imports Interleaving
begin

text \<open>
  \<^verbatim>\<open>rw_lock.h\<close>: the re-entrant lock \<^verbatim>\<open>InterruptableTLSRWLock\<close> as a step relation whose steps
  are the atomic operations of the code, and its invariant: mutual exclusion under every interleaving,
  with re-entry, upgrades and interruption.

  The step relations cover every interleaving of any number of threads below
  the bound \<open>N\<close> (\<^verbatim>\<open>FMA_MAX_THREADS\<close>); memory is sequentially consistent, as the default order of
  \<^verbatim>\<open>std::atomic\<close> makes it. Each thread record carries, besides its program point, how many
  read and write locks it has got and not yet released.
\<close>

section \<open>InterruptableTLSRWLock\<close>

datatype lock_status = SUCCESS | INTERRUPTED | UPGRADE_FAILED

text \<open>The program points are named after the next atomic operation.\<close>

datatype tls_pc =
    Idle
  | R_inc         \<comment> \<open>\<^verbatim>\<open>AtomicFetchInc(reader_locks_[tid]) > 0\<close>\<close>
  | R_load_n      \<comment> \<open>\<^verbatim>\<open>AtomicLoad(n_writers_) == 0\<close>\<close>
  | R_load_curr   \<comment> \<open>\<^verbatim>\<open>AtomicLoad(curr_writer_) == tid\<close>\<close>
  | R_dec         \<comment> \<open>\<^verbatim>\<open>AtomicFetchDec(reader_locks_[tid])\<close>\<close>
  | R_wait        \<comment> \<open>\<^verbatim>\<open>while (AtomicLoad(n_writers_))\<close>\<close>
  | R_unlock      \<comment> \<open>\<^verbatim>\<open>AtomicFetchDec(reader_locks_[tid])\<close> of \<^verbatim>\<open>ReadUnlock\<close>\<close>
  | W_inc         \<comment> \<open>\<^verbatim>\<open>AtomicFetchInc(n_writers_) != 0\<close>\<close>
  | W_load_curr   \<comment> \<open>\<^verbatim>\<open>AtomicLoad(curr_writer_) == tid\<close>\<close>
  | W_reenter     \<comment> \<open>\<^verbatim>\<open>write_reentry_level_++\<close> of a re-entry\<close>
  | W_dec         \<comment> \<open>\<^verbatim>\<open>AtomicFetchDec(n_writers_)\<close>\<close>
  | W_load_reader \<comment> \<open>\<^verbatim>\<open>AtomicLoad(reader_locks_[tid]) != 0\<close>\<close>
  | W_wait        \<comment> \<open>\<^verbatim>\<open>while (AtomicLoad(n_writers_))\<close>\<close>
  | W_scan nat    \<comment> \<open>\<^verbatim>\<open>while (AtomicLoad(reader_locks_[i]))\<close>\<close>
  | W_rollback    \<comment> \<open>\<^verbatim>\<open>AtomicFetchDec(n_writers_)\<close> of an interrupted scan\<close>
  | W_store       \<comment> \<open>\<^verbatim>\<open>AtomicStore(curr_writer_, tid)\<close>\<close>
  | W_level       \<comment> \<open>\<^verbatim>\<open>write_reentry_level_++\<close>\<close>
  | U_level       \<comment> \<open>\<^verbatim>\<open>AtomicFetchDec(write_reentry_level_) == 1\<close>\<close>
  | U_curr        \<comment> \<open>\<^verbatim>\<open>AtomicStore(curr_writer_, -1)\<close>\<close>
  | U_n           \<comment> \<open>\<^verbatim>\<open>AtomicFetchDec(n_writers_)\<close> of \<^verbatim>\<open>WriteUnlock\<close>\<close>

record tls_thread =
  pc :: tls_pc
  rheld :: nat
  wheld :: nat
  ret :: "lock_status option"

record tls_lock =
  n_writers :: int
  reader_locks :: "nat \<Rightarrow> int"
  curr_writer :: int
  reentry_level :: int
  threads :: "nat \<Rightarrow> tls_thread"

text \<open>The test at the start of every operation: a thread id out of range throws.\<close>

definition ThrowOnInvalidTID :: "nat \<Rightarrow> int \<Rightarrow> bool" where
  "ThrowOnInvalidTID N tid \<longleftrightarrow> tid < 0 \<or> tid \<ge> int N"

text \<open>The constructor; no thread has called anything yet.\<close>

definition InterruptableTLSRWLock :: tls_lock where
  "InterruptableTLSRWLock =
     \<lparr>n_writers = 0, reader_locks = (\<lambda>_. 0), curr_writer = -1, reentry_level = 0,
      threads = (\<lambda>_. \<lparr>pc = Idle, rheld = 0, wheld = 0, ret = None\<rparr>)\<rparr>"

text \<open>A thread moves to a program point; a lock call returns with a status.\<close>

definition goto :: "nat \<Rightarrow> tls_pc \<Rightarrow> tls_lock \<Rightarrow> tls_lock" where
  "goto t p s = s\<lparr>threads := (threads s)(t := (threads s t)\<lparr>pc := p\<rparr>)\<rparr>"

definition returns :: "nat \<Rightarrow> lock_status option \<Rightarrow> tls_lock \<Rightarrow> tls_lock" where
  "returns t r s = s\<lparr>threads := (threads s)(t := (threads s t)\<lparr>pc := Idle, ret := r\<rparr>)\<rparr>"

definition got_read :: "nat \<Rightarrow> tls_lock \<Rightarrow> tls_lock" where
  "got_read t s = s\<lparr>threads := (threads s)
     (t := (threads s t)\<lparr>pc := Idle, rheld := rheld (threads s t) + 1, ret := Some SUCCESS\<rparr>)\<rparr>"

definition got_write :: "nat \<Rightarrow> tls_lock \<Rightarrow> tls_lock" where
  "got_write t s = s\<lparr>reentry_level := reentry_level s + 1,
     threads := (threads s)
     (t := (threads s t)\<lparr>pc := Idle, wheld := wheld (threads s t) + 1, ret := Some SUCCESS\<rparr>)\<rparr>"

definition add_reader :: "nat \<Rightarrow> int \<Rightarrow> tls_lock \<Rightarrow> tls_lock" where
  "add_reader t d s = s\<lparr>reader_locks := (reader_locks s)(t := reader_locks s t + d)\<rparr>"

definition add_writer :: "int \<Rightarrow> tls_lock \<Rightarrow> tls_lock" where
  "add_writer d s = s\<lparr>n_writers := n_writers s + d\<rparr>"

definition at :: "tls_lock \<Rightarrow> nat \<Rightarrow> tls_pc" where
  "at s t = pc (threads s t)"

text \<open>One atomic operation of thread \<open>t\<close>. The callback \<^verbatim>\<open>should_interrupt_\<close> may answer true or
  false at any time, so both ways out of a waiting loop are always possible.\<close>

inductive ReadLock_step :: "nat \<Rightarrow> tls_lock \<Rightarrow> tls_lock \<Rightarrow> bool" where
  r_call: "at s t = Idle \<Longrightarrow> ReadLock_step t s (goto t R_inc s)"
| r_reenter: "at s t = R_inc \<Longrightarrow> reader_locks s t > 0 \<Longrightarrow> ReadLock_step t s (got_read t (add_reader t 1 s))"
| r_first: "at s t = R_inc \<Longrightarrow> \<not> reader_locks s t > 0 \<Longrightarrow> ReadLock_step t s (goto t R_load_n (add_reader t 1 s))"
| r_free: "at s t = R_load_n \<Longrightarrow> n_writers s = 0 \<Longrightarrow> ReadLock_step t s (got_read t s)"
| r_busy: "at s t = R_load_n \<Longrightarrow> n_writers s \<noteq> 0 \<Longrightarrow> ReadLock_step t s (goto t R_load_curr s)"
| r_own: "at s t = R_load_curr \<Longrightarrow> curr_writer s = int t \<Longrightarrow> ReadLock_step t s (got_read t s)"
| r_other: "at s t = R_load_curr \<Longrightarrow> curr_writer s \<noteq> int t \<Longrightarrow> ReadLock_step t s (goto t R_dec s)"
| r_back: "at s t = R_dec \<Longrightarrow> ReadLock_step t s (goto t R_wait (add_reader t (-1) s))"
| r_retry: "at s t = R_wait \<Longrightarrow> n_writers s = 0 \<Longrightarrow> ReadLock_step t s (goto t R_inc s)"
| r_interrupted: "at s t = R_wait \<Longrightarrow> n_writers s \<noteq> 0 \<Longrightarrow> ReadLock_step t s (returns t (Some INTERRUPTED) s)"

inductive ReadUnlock_step :: "nat \<Rightarrow> tls_lock \<Rightarrow> tls_lock \<Rightarrow> bool" where
  ru_call: "at s t = Idle \<Longrightarrow> rheld (threads s t) > 0 \<Longrightarrow> ReadUnlock_step t s (goto t R_unlock s)"
| ru_dec: "at s t = R_unlock \<Longrightarrow> ReadUnlock_step t s
    (let s = add_reader t (-1) s in
     s\<lparr>threads := (threads s)(t := (threads s t)\<lparr>pc := Idle, rheld := rheld (threads s t) - 1, ret := None\<rparr>)\<rparr>)"

text \<open>\<open>next_scan\<close> skips the thread's own reader slot.\<close>

definition next_scan :: "nat \<Rightarrow> nat \<Rightarrow> nat \<Rightarrow> tls_pc" where
  "next_scan N t i =
     (let i = (if i = t then i + 1 else i) in if i < N then W_scan i else W_store)"

inductive WriteLock_step :: "nat \<Rightarrow> nat \<Rightarrow> tls_lock \<Rightarrow> tls_lock \<Rightarrow> bool" for N where
  w_call: "at s t = Idle \<Longrightarrow> WriteLock_step N t s (goto t W_inc s)"
| w_busy: "at s t = W_inc \<Longrightarrow> n_writers s \<noteq> 0 \<Longrightarrow> WriteLock_step N t s (goto t W_load_curr (add_writer 1 s))"
| w_first: "at s t = W_inc \<Longrightarrow> n_writers s = 0 \<Longrightarrow> WriteLock_step N t s (goto t (next_scan N t 0) (add_writer 1 s))"
| w_own: "at s t = W_load_curr \<Longrightarrow> curr_writer s = int t \<Longrightarrow> WriteLock_step N t s (goto t W_reenter s)"
| w_reenter: "at s t = W_reenter \<Longrightarrow> WriteLock_step N t s (got_write t s)"
| w_other: "at s t = W_load_curr \<Longrightarrow> curr_writer s \<noteq> int t \<Longrightarrow> WriteLock_step N t s (goto t W_dec s)"
| w_back: "at s t = W_dec \<Longrightarrow> WriteLock_step N t s (goto t W_load_reader (add_writer (-1) s))"
| w_upgrade: "at s t = W_load_reader \<Longrightarrow> reader_locks s t \<noteq> 0 \<Longrightarrow> WriteLock_step N t s (returns t (Some UPGRADE_FAILED) s)"
| w_no_reader: "at s t = W_load_reader \<Longrightarrow> reader_locks s t = 0 \<Longrightarrow> WriteLock_step N t s (goto t W_wait s)"
| w_retry: "at s t = W_wait \<Longrightarrow> n_writers s = 0 \<Longrightarrow> WriteLock_step N t s (goto t W_inc s)"
| w_interrupted: "at s t = W_wait \<Longrightarrow> n_writers s \<noteq> 0 \<Longrightarrow> WriteLock_step N t s (returns t (Some INTERRUPTED) s)"
| w_scan: "at s t = W_scan i \<Longrightarrow> reader_locks s i = 0 \<Longrightarrow> WriteLock_step N t s (goto t (next_scan N t (i + 1)) s)"
| w_scan_interrupted: "at s t = W_scan i \<Longrightarrow> reader_locks s i \<noteq> 0 \<Longrightarrow> WriteLock_step N t s (goto t W_rollback s)"
| w_rollback: "at s t = W_rollback \<Longrightarrow> WriteLock_step N t s (returns t (Some INTERRUPTED) (add_writer (-1) s))"
| w_store: "at s t = W_store \<Longrightarrow> WriteLock_step N t s (goto t W_level (s\<lparr>curr_writer := int t\<rparr>))"
| w_level: "at s t = W_level \<Longrightarrow> WriteLock_step N t s (got_write t s)"

inductive WriteUnlock_step :: "nat \<Rightarrow> tls_lock \<Rightarrow> tls_lock \<Rightarrow> bool" where
  u_call: "at s t = Idle \<Longrightarrow> wheld (threads s t) > 0 \<Longrightarrow> WriteUnlock_step t s (goto t U_level s)"
| u_level: "at s t = U_level \<Longrightarrow> WriteUnlock_step t s
    (s\<lparr>reentry_level := reentry_level s - 1,
       threads := (threads s)(t := (threads s t)
         \<lparr>pc := if reentry_level s = 1 then U_curr else U_n, wheld := wheld (threads s t) - 1\<rparr>)\<rparr>)"
| u_curr: "at s t = U_curr \<Longrightarrow> WriteUnlock_step t s (goto t U_n (s\<lparr>curr_writer := -1\<rparr>))"
| u_n: "at s t = U_n \<Longrightarrow> WriteUnlock_step t s (returns t None (add_writer (-1) s))"

definition tls_step :: "nat \<Rightarrow> tls_lock \<Rightarrow> tls_lock \<Rightarrow> bool" where
  "tls_step N s s' \<longleftrightarrow> (\<exists>t. \<not> ThrowOnInvalidTID N (int t) \<and>
     (ReadLock_step t s s' \<or> ReadUnlock_step t s s' \<or> WriteLock_step N t s s' \<or> WriteUnlock_step t s s'))"

section \<open>The invariant\<close>

fun counted :: "tls_pc \<Rightarrow> int" where
  "counted (W_scan i) = 1"
| "counted p = (if p \<in> {W_load_curr, W_reenter, W_dec, W_rollback, W_store, W_level, U_curr, U_n} then 1 else 0)"

fun reading :: "tls_pc \<Rightarrow> int" where
  "reading p = (if p \<in> {R_load_n, R_load_curr, R_dec} then 1 else 0)"

fun claims :: "tls_pc \<Rightarrow> bool" where
  "claims (W_scan i) = True"
| "claims p = (p \<in> {W_rollback, W_store, W_level, U_curr})"

definition contrib :: "tls_thread \<Rightarrow> int" where
  "contrib th = int (wheld th) + counted (pc th)"

definition owner :: "tls_thread \<Rightarrow> bool" where
  "owner th \<longleftrightarrow> wheld th > 0 \<or> claims (pc th)"

definition level_of :: "tls_thread \<Rightarrow> int" where
  "level_of th = int (wheld th)"

text \<open>The counters are sums over the threads; threads out of range do nothing.\<close>

definition inv_counts :: "nat \<Rightarrow> tls_lock \<Rightarrow> bool" where
  "inv_counts N s \<longleftrightarrow>
     n_writers s = total N contrib (threads s) \<and>
     reentry_level s = total N level_of (threads s) \<and>
     (\<forall>t. reader_locks s t = int (rheld (threads s t)) + reading (at s t)) \<and>
     (\<forall>t \<ge> N. at s t = Idle \<and> rheld (threads s t) = 0 \<and> wheld (threads s t) = 0)"

definition inv_owner :: "tls_lock \<Rightarrow> bool" where
  "inv_owner s \<longleftrightarrow> (\<forall>t u. t \<noteq> u \<longrightarrow> owner (threads s t) \<longrightarrow> \<not> owner (threads s u))"

definition inv_points :: "tls_lock \<Rightarrow> bool" where
  "inv_points s \<longleftrightarrow>
     (\<forall>t. at s t = R_unlock \<longrightarrow> rheld (threads s t) > 0) \<and>
     (\<forall>t. at s t \<in> {U_level, W_reenter} \<longrightarrow> wheld (threads s t) > 0) \<and>
     (\<forall>t. claims (at s t) \<longrightarrow> wheld (threads s t) = 0)"

definition inv_curr :: "tls_lock \<Rightarrow> bool" where
  "inv_curr s \<longleftrightarrow>
     (\<forall>t. curr_writer s = int t \<longleftrightarrow> wheld (threads s t) > 0 \<or> at s t \<in> {W_level, U_curr})"

text \<open>The writer that a thread is, or is about to be, excludes the readers it has passed in its scan.\<close>

definition protects :: "tls_thread \<Rightarrow> nat \<Rightarrow> bool" where
  "protects th u \<longleftrightarrow>
     wheld th > 0 \<or> pc th \<in> {W_store, W_level} \<or> (\<exists>i. pc th = W_scan i \<and> u < i)"

definition inv_excl :: "tls_lock \<Rightarrow> bool" where
  "inv_excl s \<longleftrightarrow>
     (\<forall>t u. u \<noteq> t \<longrightarrow> protects (threads s t) u \<longrightarrow> rheld (threads s u) = 0)"

definition tls_inv :: "nat \<Rightarrow> tls_lock \<Rightarrow> bool" where
  "tls_inv N s \<longleftrightarrow> inv_counts N s \<and> inv_owner s \<and> inv_points s \<and> inv_curr s \<and> inv_excl s"

lemmas step_defs = goto_def returns_def got_read_def got_write_def add_reader_def add_writer_def at_def Let_def

lemma counted_ge [simp]: "0 \<le> counted p"
  by (cases p) auto

lemma contrib_ge [simp]: "0 \<le> contrib th"
  by (simp add: contrib_def)

lemma next_scan_cases:
  "(\<exists>j. next_scan N t i = W_scan j \<and> i \<le> j \<and> j < N \<and> (\<forall>u. u < j \<longrightarrow> u \<noteq> t \<longrightarrow> u < i)) \<or>
   (next_scan N t i = W_store \<and> (\<forall>u < N. u \<noteq> t \<longrightarrow> u < i))"
  by (auto simp: next_scan_def Let_def)

lemma next_scan_pc [simp]: "counted (next_scan N t i) = 1" "reading (next_scan N t i) = 0"
    "claims (next_scan N t i)" "next_scan N t i \<noteq> Idle" "next_scan N t i \<noteq> R_unlock"
    "next_scan N t i \<noteq> U_level" "next_scan N t i \<noteq> W_reenter" "next_scan N t i \<noteq> W_level"
    "next_scan N t i \<noteq> U_curr" "next_scan N t i \<noteq> R_load_n" "next_scan N t i \<noteq> R_load_curr"
    "next_scan N t i \<noteq> R_dec"
  by (auto simp: next_scan_def Let_def)

lemma no_writer:
  assumes "inv_counts N s" "n_writers s = 0"
  shows "\<not> owner (threads s t)" and "wheld (threads s t) = 0"
proof -
  have "contrib (threads s t) = 0"
  proof (cases "t < N")
    case True
    with assms show ?thesis using total_zero [of contrib N "threads s" t] by (simp add: inv_counts_def)
  next
    case False
    with assms(1) show ?thesis by (simp add: inv_counts_def contrib_def at_def)
  qed
  moreover have "claims p \<Longrightarrow> counted p = 1" for p by (cases p) auto
  ultimately show "\<not> owner (threads s t)" "wheld (threads s t) = 0"
    using counted_ge [of "pc (threads s t)"] by (auto simp: owner_def contrib_def simp del: counted_ge)
qed

lemma counts_step:
  assumes "inv_counts N s" "inv_points s" "t < N"
    and "ReadLock_step t s s' \<or> ReadUnlock_step t s s' \<or> WriteLock_step N t s s' \<or> WriteUnlock_step t s s'"
  shows "inv_counts N s'"
  using assms(4)
proof (elim disjE)
  assume "ReadLock_step t s s'"
  then show ?thesis using assms(1-3)
    by cases (auto simp: inv_counts_def step_defs total_upd contrib_def level_of_def)
next
  assume "ReadUnlock_step t s s'"
  then show ?thesis using assms(1-3)
    by cases (auto simp: inv_counts_def inv_points_def step_defs total_upd contrib_def level_of_def)
next
  assume "WriteLock_step N t s s'"
  then show ?thesis using assms(1-3)
    by cases (auto simp: inv_counts_def step_defs total_upd contrib_def level_of_def)
next
  assume "WriteUnlock_step t s s'"
  then show ?thesis using assms(1-3)
    by cases (auto simp: inv_counts_def inv_points_def step_defs total_upd contrib_def level_of_def)
qed

lemma only_owner:
  assumes "inv_owner s" "u \<noteq> t"
  shows "claims (pc (threads s t)) \<Longrightarrow> wheld (threads s u) = 0 \<and> \<not> claims (pc (threads s u))"
    and "wheld (threads s t) > 0 \<Longrightarrow> wheld (threads s u) = 0 \<and> \<not> claims (pc (threads s u))"
proof -
  have "owner (threads s t) \<longrightarrow> \<not> owner (threads s u)" using assms unfolding inv_owner_def by metis
  then show "claims (pc (threads s t)) \<Longrightarrow> wheld (threads s u) = 0 \<and> \<not> claims (pc (threads s u))"
    "wheld (threads s t) > 0 \<Longrightarrow> wheld (threads s u) = 0 \<and> \<not> claims (pc (threads s u))"
    by (simp_all add: owner_def)
qed

text \<open>Only the record of the moving thread changes, so ownership is lost, kept, or taken when
  nobody had it.\<close>

lemma owner_local:
  assumes "inv_owner s" and "threads s' = (threads s)(t := th)"
    and "owner th \<longrightarrow> owner (threads s t) \<or> (\<forall>u. \<not> owner (threads s u))"
  shows "inv_owner s'"
  unfolding inv_owner_def
proof (intro allI impI)
  fix a b assume ab: "a \<noteq> b" "owner (threads s' a)"
  have old: "\<not> owner (threads s b)" if "owner (threads s a)" "a \<noteq> b" for a b
    using assms(1) that unfolding inv_owner_def by blast
  from ab assms(2,3) old show "\<not> owner (threads s' b)"
    by (cases "a = t"; cases "b = t") auto
qed

lemma points_step:
  assumes "inv_points s" "inv_curr s" "inv_owner s" "inv_counts N s" "t < N"
    and "ReadLock_step t s s' \<or> ReadUnlock_step t s s' \<or> WriteLock_step N t s s' \<or> WriteUnlock_step t s s'"
  shows "inv_points s'"
  using assms(6)
proof (elim disjE)
  assume "ReadLock_step t s s'"
  then show ?thesis using assms(1)
    by cases (auto simp: inv_points_def step_defs)
next
  assume "ReadUnlock_step t s s'"
  then show ?thesis using assms(1)
    by cases (auto simp: inv_points_def step_defs)
next
  assume "WriteLock_step N t s s'"
  then show ?thesis using assms(1,2) no_writer(2) [OF assms(4), of t]
    by cases (auto simp: inv_points_def inv_curr_def step_defs)
next
  have level: "reentry_level s = int (wheld (threads s t))" if "wheld (threads s t) > 0"
    using assms(4,5) that total_single [of t N level_of "threads s"] only_owner(2) [OF assms(3)]
    by (simp add: inv_counts_def level_of_def)
  assume "WriteUnlock_step t s s'"
  then show ?thesis using assms(1) level
    by cases (auto simp: inv_points_def step_defs)
qed

lemma owner_step:
  assumes "inv_owner s" "inv_points s" "inv_counts N s" "t < N"
    and "ReadLock_step t s s' \<or> ReadUnlock_step t s s' \<or> WriteLock_step N t s s' \<or> WriteUnlock_step t s s'"
  shows "inv_owner s'"
proof -
  have free: "\<forall>u. \<not> owner (threads s u)" if "n_writers s = 0"
    using no_writer(1) [OF assms(3) that] by blast
  have points: "at s t \<in> {U_level, W_reenter} \<Longrightarrow> wheld (threads s t) > 0"
    using assms(2) unfolding inv_points_def by blast
  show ?thesis
    using assms(5)
  proof (elim disjE)
    assume "ReadLock_step t s s'"
    then show ?thesis
      by cases (rule owner_local [OF assms(1)], auto simp: step_defs owner_def)+
  next
    assume "ReadUnlock_step t s s'"
    then show ?thesis
      by cases (rule owner_local [OF assms(1)], auto simp: step_defs owner_def)+
  next
    assume "WriteLock_step N t s s'"
    then show ?thesis
    proof cases
      case w_first
      with free show ?thesis
        by (intro owner_local [OF assms(1)]) (auto simp: step_defs)
    qed (rule owner_local [OF assms(1)], use points in \<open>auto simp: step_defs owner_def\<close>)+
  next
    assume "WriteUnlock_step t s s'"
    then show ?thesis
      by cases (rule owner_local [OF assms(1)], use points in \<open>auto simp: step_defs owner_def\<close>)+
  qed
qed

lemma curr_local:
  assumes "inv_curr s" and "threads s' = (threads s)(t := th)" "curr_writer s' = curr_writer s"
    and "(wheld th > 0 \<or> pc th \<in> {W_level, U_curr}) \<longleftrightarrow>
      (wheld (threads s t) > 0 \<or> at s t \<in> {W_level, U_curr})"
  shows "inv_curr s'"
  using assms by (simp add: inv_curr_def at_def)

lemma curr_step:
  assumes "inv_curr s" "inv_owner s" "inv_points s" "inv_counts N s" "t < N"
    and "ReadLock_step t s s' \<or> ReadUnlock_step t s s' \<or> WriteLock_step N t s s' \<or> WriteUnlock_step t s s'"
  shows "inv_curr s'"
proof -
  have points: "at s t \<in> {U_level, W_reenter} \<Longrightarrow> wheld (threads s t) > 0"
    using assms(3) unfolding inv_points_def by blast
  have alone: "wheld (threads s u) = 0" "pc (threads s u) \<noteq> W_level" "pc (threads s u) \<noteq> U_curr"
    if "claims (pc (threads s t))" "u \<noteq> t" for u
    using only_owner(1) [OF assms(2) that(2,1)] by auto
  have level: "reentry_level s = int (wheld (threads s t))" if "wheld (threads s t) > 0"
    using assms(4,5) that total_single [of t N level_of "threads s"] only_owner(2) [OF assms(2)]
    by (simp add: inv_counts_def level_of_def)
  show ?thesis
    using assms(6)
  proof (elim disjE)
    assume "ReadLock_step t s s'"
    then show ?thesis
      by cases (rule curr_local [OF assms(1), where t = t], auto simp: step_defs)+
  next
    assume "ReadUnlock_step t s s'"
    then show ?thesis
      by cases (rule curr_local [OF assms(1), where t = t], auto simp: step_defs)+
  next
    assume "WriteLock_step N t s s'"
    then show ?thesis
    proof cases
      case w_store
      with alone show ?thesis by (auto simp: inv_curr_def step_defs)
    qed (rule curr_local [OF assms(1), where t = t], use points in \<open>auto simp: step_defs\<close>)+
  next
    assume "WriteUnlock_step t s s'"
    then show ?thesis
    proof cases
      case u_curr
      with alone assms(3) show ?thesis by (auto simp: inv_curr_def inv_points_def step_defs)
    qed (rule curr_local [OF assms(1), where t = t], use points level in \<open>auto simp: step_defs\<close>)+
  qed
qed

lemma protects_owner: "protects th u \<Longrightarrow> owner th"
  by (auto simp: protects_def owner_def)

lemma excl_local:
  assumes "inv_excl s" and "threads s' = (threads s)(t := th)"
    and "\<And>u. u \<noteq> t \<Longrightarrow> protects th u \<Longrightarrow> protects (threads s t) u \<or> rheld (threads s u) = 0"
    and "rheld th = 0 \<or> rheld (threads s t) \<noteq> 0 \<or> (\<forall>u. u \<noteq> t \<longrightarrow> \<not> owner (threads s u))"
  shows "inv_excl s'"
  unfolding inv_excl_def
proof (intro allI impI)
  fix a u assume au: "u \<noteq> a" "protects (threads s' a) u"
  have old: "rheld (threads s u) = 0" if "u \<noteq> a" "protects (threads s a) u" for a u
    using assms(1) that unfolding inv_excl_def by blast
  show "rheld (threads s' u) = 0"
  proof (cases "a = t")
    case True
    then have "protects (threads s t) u \<or> rheld (threads s u) = 0" using au assms(2,3) by auto
    with old [of u t] show ?thesis using True au(1) assms(2) by auto
  next
    case False
    then have p: "protects (threads s a) u" using au(2) assms(2) by simp
    with old [OF au(1)] have "rheld (threads s u) = 0" by blast
    with False p protects_owner [OF p] assms(2,4) show ?thesis by (cases "u = t") auto
  qed
qed

lemma excl_scan:
  assumes "inv_counts N s" "protects (th\<lparr>pc := next_scan N t i\<rparr>) u" "u \<noteq> t" "wheld th = 0"
  shows "u < i \<or> rheld (threads s u) = 0"
proof (cases "u < N")
  case True
  then show ?thesis
    using next_scan_cases [of N t i] assms(2-4) by (auto simp: protects_def)
next
  case False
  then show ?thesis using assms(1) by (simp add: inv_counts_def)
qed

lemma excl_step:
  assumes "inv_excl s" "inv_curr s" "inv_owner s" "inv_points s" "inv_counts N s" "t < N"
    and "ReadLock_step t s s' \<or> ReadUnlock_step t s s' \<or> WriteLock_step N t s s' \<or> WriteUnlock_step t s s'"
  shows "inv_excl s'"
proof -
  have free: "\<forall>u. \<not> owner (threads s u)" if "n_writers s = 0"
    using no_writer(1) [OF assms(5) that] by blast
  have own: "\<forall>u. u \<noteq> t \<longrightarrow> \<not> owner (threads s u)"
    if "curr_writer s = int t" "at s t = R_load_curr"
  proof -
    have "wheld (threads s t) > 0 \<or> at s t \<in> {W_level, U_curr}"
      using that(1) assms(2) unfolding inv_curr_def by blast
    then show ?thesis
      using that(2) only_owner(2) [OF assms(3)] by (auto simp: owner_def)
  qed
  have held: "rheld (threads s t) \<noteq> 0" if "at s t = R_inc" "reader_locks s t > 0"
    using that assms(5) by (simp add: inv_counts_def)
  have gone: "rheld (threads s u) = 0" if "reader_locks s u = 0" for u
  proof -
    have "int (rheld (threads s u)) + reading (at s u) = 0"
      using that assms(5) by (simp add: inv_counts_def)
    moreover have "0 \<le> reading (at s u)" by simp
    ultimately show ?thesis by linarith
  qed
  have idle: "wheld (threads s t) = 0" if "claims (at s t)"
    using that assms(4) unfolding inv_points_def by blast
  have points: "at s t \<in> {U_level, W_reenter} \<Longrightarrow> wheld (threads s t) > 0"
    using assms(4) unfolding inv_points_def by blast
  show ?thesis
    using assms(7)
  proof (elim disjE)
    assume "ReadLock_step t s s'"
    then show ?thesis
    proof cases
      case r_free
      with free show ?thesis
        by (intro excl_local [OF assms(1), where t = t]) (auto simp: step_defs protects_def)
    qed (rule excl_local [OF assms(1), where t = t], use held own in \<open>auto simp: step_defs protects_def\<close>)+
  next
    assume "ReadUnlock_step t s s'"
    then show ?thesis
      by cases (rule excl_local [OF assms(1), where t = t], auto simp: step_defs protects_def)+
  next
    assume "WriteLock_step N t s s'"
    then show ?thesis
    proof cases
      case w_first
      then have "wheld (threads s t) = 0" using no_writer(2) [OF assms(5)] by simp
      with w_first excl_scan [OF assms(5), where th = "threads s t" and t = t and i = 0] show ?thesis
        by (intro excl_local [OF assms(1), where t = t]) (auto simp: step_defs)
    next
      case (w_scan i)
      then have "wheld (threads s t) = 0" by (intro idle) simp
      moreover have "u < i"
        if "protects ((threads s t)\<lparr>pc := next_scan N t (i + 1)\<rparr>) u" "u \<noteq> t" "0 < rheld (threads s u)" for u
      proof -
        have "u < i + 1 \<or> rheld (threads s u) = 0"
          using excl_scan [OF assms(5) that(1,2)] \<open>wheld (threads s t) = 0\<close> by simp
        then show ?thesis using gone [of i] w_scan(3) that(3) by (auto simp: less_Suc_eq)
      qed
      ultimately show ?thesis using w_scan
        by (intro excl_local [OF assms(1), where t = t]) (auto simp: step_defs protects_def)
    qed (rule excl_local [OF assms(1), where t = t], use points in \<open>auto simp: step_defs protects_def\<close>)+
  next
    assume "WriteUnlock_step t s s'"
    then show ?thesis
      by cases (rule excl_local [OF assms(1), where t = t], use points in \<open>auto simp: step_defs protects_def\<close>)+
  qed
qed

lemma tls_inv_init: "tls_inv N InterruptableTLSRWLock"
  by (simp add: InterruptableTLSRWLock_def tls_inv_def inv_counts_def inv_owner_def inv_points_def
      inv_curr_def inv_excl_def total_def contrib_def level_of_def owner_def protects_def at_def)

lemma tls_inv_step: "tls_inv N s \<Longrightarrow> tls_step N s s' \<Longrightarrow> tls_inv N s'"
  unfolding tls_inv_def tls_step_def ThrowOnInvalidTID_def
  by (elim exE conjE)
     (intro conjI; (rule counts_step owner_step points_step curr_step excl_step; (assumption | simp)))

interpretation tls: invariant_system "\<lambda>s. s = InterruptableTLSRWLock" "tls_step N" "tls_inv N" for N
  by unfold_locales (auto intro: tls_inv_init tls_inv_step)

text \<open>
  C16. Mutual exclusion of the thread-local-storage lock: in every state that any interleaving of
  the atomic operations of any number of threads can reach, interrupted and re-entrant calls,
  upgrades and rollbacks included, a thread that holds the write lock is the only one that
  holds any lock, and the lock's own counters agree: \<open>curr_writer\<close> names the thread unless it is
  inside \<^verbatim>\<open>WriteUnlock\<close>, and the re-entry level is the number of locks it still holds.
\<close>

theorem tls_mutual_exclusion:
  assumes "(tls_step N)\<^sup>*\<^sup>* InterruptableTLSRWLock s" and "wheld (threads s t) > 0"
  shows "(\<forall>u. u \<noteq> t \<longrightarrow> wheld (threads s u) = 0 \<and> rheld (threads s u) = 0) \<and>
         curr_writer s = int t \<and> reentry_level s = int (wheld (threads s t)) \<and> n_writers s > 0"
proof -
  have inv: "tls_inv N s" using tls.inv_reachable [OF refl assms(1)] .
  then have parts: "inv_counts N s" "inv_owner s" "inv_curr s" "inv_excl s"
    unfolding tls_inv_def by blast+
  have t: "t < N" using parts(1) assms(2) unfolding inv_counts_def by (metis not_le less_numeral_extra(3))
  have others: "wheld (threads s u) = 0 \<and> rheld (threads s u) = 0" if "u \<noteq> t" for u
    using only_owner(2) [OF parts(2) that assms(2)] parts(4) that assms(2)
    unfolding inv_excl_def protects_def by blast
  have "curr_writer s = int t" using parts(3) assms(2) unfolding inv_curr_def by blast
  moreover have "reentry_level s = int (wheld (threads s t))"
    using parts(1) t others total_single [of t N level_of "threads s"]
    by (simp add: inv_counts_def level_of_def)
  moreover have "n_writers s \<noteq> 0" using no_writer(2) [OF parts(1)] assms(2) by fastforce
  moreover have "0 \<le> total N contrib (threads s)" unfolding total_def by (intro sum_nonneg) simp
  then have "0 \<le> n_writers s" using parts(1) by (simp add: inv_counts_def)
  ultimately show ?thesis using others by simp
qed

lemma write_steps:
  "t < N \<Longrightarrow> WriteLock_step N t s s' \<Longrightarrow> tls_step N s s'"
  "t < N \<Longrightarrow> ReadLock_step t s s' \<Longrightarrow> tls_step N s s'"
  "t < N \<Longrightarrow> ReadUnlock_step t s s' \<Longrightarrow> tls_step N s s'"
  "t < N \<Longrightarrow> WriteUnlock_step t s s' \<Longrightarrow> tls_step N s s'"
  unfolding tls_step_def ThrowOnInvalidTID_def by (rule exI [of _ t], simp)+

definition write_locked :: tls_lock where
  "write_locked = got_write 0 (goto 0 W_level ((goto 0 W_store (goto 0 (W_scan 1)
     (add_writer 1 (goto 0 W_inc InterruptableTLSRWLock))))\<lparr>curr_writer := 0\<rparr>))"

lemma write_locked_reachable: "(tls_step 2)\<^sup>*\<^sup>* InterruptableTLSRWLock write_locked"
proof -
  let ?s1 = "goto 0 W_inc InterruptableTLSRWLock"
  let ?s2 = "goto 0 (W_scan 1) (add_writer 1 ?s1)"
  let ?s3 = "goto 0 W_store ?s2"
  let ?s4 = "goto 0 W_level (?s3\<lparr>curr_writer := 0\<rparr>)"
  have "WriteLock_step 2 0 InterruptableTLSRWLock ?s1"
    by (rule w_call) (simp add: InterruptableTLSRWLock_def at_def)
  moreover have "WriteLock_step 2 0 ?s1 ?s2"
    using w_first [of ?s1 0 2] by (simp add: InterruptableTLSRWLock_def step_defs next_scan_def)
  moreover have "WriteLock_step 2 0 ?s2 ?s3"
    using w_scan [of ?s2 0 1 2] by (simp add: InterruptableTLSRWLock_def step_defs next_scan_def)
  moreover have "WriteLock_step 2 0 ?s3 ?s4"
    using w_store [of ?s3 0 2] by (simp add: InterruptableTLSRWLock_def step_defs)
  moreover have "WriteLock_step 2 0 ?s4 write_locked"
    using w_level [of ?s4 0 2] by (simp add: write_locked_def step_defs)
  ultimately show ?thesis
    by (meson converse_rtranclp_into_rtranclp rtranclp.rtrancl_refl write_steps(1) zero_less_numeral)
qed

lemma tls_mutual_exclusion_witness:
  "wheld (threads write_locked 0) = 1 \<and> rheld (threads write_locked 1) = 0 \<and>
   reentry_level write_locked = 1"
proof -
  have "wheld (threads write_locked 0) = 1"
    by (simp add: write_locked_def InterruptableTLSRWLock_def step_defs)
  then show ?thesis
    using tls_mutual_exclusion [OF write_locked_reachable, of 0] by simp
qed

text \<open>
  C17. No lock is leaked: whatever has happened before, once every thread is outside the lock's
  operations and has released what it got, all counters are back at zero and no thread is the
  writer, so the next \<^verbatim>\<open>ReadLock\<close> or \<^verbatim>\<open>WriteLock\<close> of any thread finds the lock free.
\<close>

theorem tls_quiescent:
  assumes "(tls_step N)\<^sup>*\<^sup>* InterruptableTLSRWLock s"
    and "\<And>t. t < N \<Longrightarrow> at s t = Idle \<and> rheld (threads s t) = 0 \<and> wheld (threads s t) = 0"
  shows "n_writers s = 0 \<and> reentry_level s = 0 \<and> (\<forall>t. reader_locks s t = 0 \<and> curr_writer s \<noteq> int t)"
proof -
  have inv: "inv_counts N s" "inv_curr s"
    using tls.inv_reachable [OF refl assms(1)] unfolding tls_inv_def by blast+
  then have idle: "at s t = Idle \<and> rheld (threads s t) = 0 \<and> wheld (threads s t) = 0" for t
    using assms(2) unfolding inv_counts_def by (cases "t < N") auto
  then have "contrib (threads s t) = 0" "level_of (threads s t) = 0" for t
    by (simp_all add: contrib_def level_of_def at_def)
  with inv idle show ?thesis
    by (auto simp: inv_counts_def inv_curr_def total_def)
qed

definition write_unlocked :: tls_lock where
  "write_unlocked = returns 0 None (add_writer (-1)
     ((write_locked\<lparr>reentry_level := 0, threads := (threads write_locked)(0 :=
        (threads write_locked 0)\<lparr>pc := U_n, wheld := 0\<rparr>)\<rparr>)\<lparr>curr_writer := -1\<rparr>))"

lemma write_unlocked_reachable: "(tls_step 2)\<^sup>*\<^sup>* InterruptableTLSRWLock write_unlocked"
proof -
  let ?s1 = "goto 0 U_level write_locked"
  let ?s2 = "?s1\<lparr>reentry_level := 0, threads := (threads ?s1)(0 := (threads ?s1 0)\<lparr>pc := U_curr, wheld := 0\<rparr>)\<rparr>"
  let ?s3 = "goto 0 U_n (?s2\<lparr>curr_writer := -1\<rparr>)"
  note defs = write_locked_def write_unlocked_def InterruptableTLSRWLock_def step_defs
  have "WriteUnlock_step 0 write_locked ?s1"
    by (rule u_call) (simp_all add: defs)
  moreover have "WriteUnlock_step 0 ?s1 ?s2"
    using u_level [of ?s1 0] by (simp add: defs)
  moreover have "WriteUnlock_step 0 ?s2 ?s3"
    using u_curr [of ?s2 0] by (simp add: step_defs)
  moreover have "WriteUnlock_step 0 ?s3 write_unlocked"
    using u_n [of ?s3 0] by (simp add: defs)
  ultimately have "(tls_step 2)\<^sup>*\<^sup>* write_locked write_unlocked"
    by (meson converse_rtranclp_into_rtranclp rtranclp.rtrancl_refl write_steps(4) zero_less_numeral)
  with write_locked_reachable show ?thesis by simp
qed

lemma tls_quiescent_witness:
  "n_writers write_unlocked = 0 \<and> reentry_level write_unlocked = 0 \<and>
   (\<forall>t. reader_locks write_unlocked t = 0 \<and> curr_writer write_unlocked \<noteq> int t)"
  using tls_quiescent [OF write_unlocked_reachable]
  by (simp add: write_unlocked_def write_locked_def InterruptableTLSRWLock_def step_defs)

end
