(* ===== verification/Simple_Locks.thy ===== *)
theory Simple_Locks
  imports RW_Locks
begin

text \<open>
  The other locks of \<^verbatim>\<open>rw_lock.h\<close>: the spinning lock, whose steps are its atomic operations, and
  the lock with a mutex and a condition variable, whose steps are its critical sections and the
  wake-ups; and the guard objects that lock in their constructor and unlock in their destructor.
  Neither lock allows re-entry, so a thread calls a lock operation only when it holds nothing.
\<close>

section \<open>SpinningRWLock\<close>

datatype spin_pc =
    S_idle
  | SR_inc   \<comment> \<open>\<^verbatim>\<open>n_readers++\<close>\<close>
  | SR_test  \<comment> \<open>\<^verbatim>\<open>if (!writing) return\<close>\<close>
  | SR_dec   \<comment> \<open>\<^verbatim>\<open>n_readers--\<close>\<close>
  | SR_wait  \<comment> \<open>\<^verbatim>\<open>while (writing)\<close>\<close>
  | S_reading
  | SW_cas   \<comment> \<open>\<^verbatim>\<open>writing.compare_exchange_strong(f, true)\<close>\<close>
  | SW_wait  \<comment> \<open>\<^verbatim>\<open>while (n_readers)\<close>\<close>
  | S_writing

record spin_lock =
  sp_readers :: int
  sp_writing :: bool
  sp_pc :: "nat \<Rightarrow> spin_pc"

definition SpinningRWLock :: spin_lock where
  "SpinningRWLock = \<lparr>sp_readers = 0, sp_writing = False, sp_pc = (\<lambda>_. S_idle)\<rparr>"

definition spin_goto :: "nat \<Rightarrow> spin_pc \<Rightarrow> spin_lock \<Rightarrow> spin_lock" where
  "spin_goto t p s = s\<lparr>sp_pc := (sp_pc s)(t := p)\<rparr>"

inductive spin_step :: "nat \<Rightarrow> spin_lock \<Rightarrow> spin_lock \<Rightarrow> bool" for t s where
  sr_call: "sp_pc s t = S_idle \<Longrightarrow> spin_step t s (spin_goto t SR_inc s)"
| sr_inc: "sp_pc s t = SR_inc \<Longrightarrow> spin_step t s (spin_goto t SR_test (s\<lparr>sp_readers := sp_readers s + 1\<rparr>))"
| sr_got: "sp_pc s t = SR_test \<Longrightarrow> \<not> sp_writing s \<Longrightarrow> spin_step t s (spin_goto t S_reading s)"
| sr_busy: "sp_pc s t = SR_test \<Longrightarrow> sp_writing s \<Longrightarrow> spin_step t s (spin_goto t SR_dec s)"
| sr_dec: "sp_pc s t = SR_dec \<Longrightarrow> spin_step t s (spin_goto t SR_wait (s\<lparr>sp_readers := sp_readers s - 1\<rparr>))"
| sr_retry: "sp_pc s t = SR_wait \<Longrightarrow> \<not> sp_writing s \<Longrightarrow> spin_step t s (spin_goto t SR_inc s)"
| sr_unlock: "sp_pc s t = S_reading \<Longrightarrow> spin_step t s (spin_goto t S_idle (s\<lparr>sp_readers := sp_readers s - 1\<rparr>))"
| sw_call: "sp_pc s t = S_idle \<Longrightarrow> spin_step t s (spin_goto t SW_cas s)"
| sw_cas: "sp_pc s t = SW_cas \<Longrightarrow> \<not> sp_writing s \<Longrightarrow> spin_step t s (spin_goto t SW_wait (s\<lparr>sp_writing := True\<rparr>))"
| sw_got: "sp_pc s t = SW_wait \<Longrightarrow> sp_readers s = 0 \<Longrightarrow> spin_step t s (spin_goto t S_writing s)"
| sw_unlock: "sp_pc s t = S_writing \<Longrightarrow> spin_step t s (spin_goto t S_idle (s\<lparr>sp_writing := False\<rparr>))"

definition spin_steps :: "nat \<Rightarrow> spin_lock \<Rightarrow> spin_lock \<Rightarrow> bool" where
  "spin_steps N s s' \<longleftrightarrow> (\<exists>t < N. spin_step t s s')"

section \<open>RWLock\<close>

text \<open>A thread waits inside \<^verbatim>\<open>cv_.wait\<close> until it is notified (or wakes up for no reason); then it takes
  the mutex again and tests the predicate of its wait again.\<close>

datatype cv_state = C_idle | C_reading | C_writing
  | C_wait_read | C_wait_write | C_woken_read | C_woken_write

record cv_lock =
  cv_readers :: int
  cv_writing :: bool
  cv_state :: "nat \<Rightarrow> cv_state"

definition RWLock :: cv_lock where
  "RWLock = \<lparr>cv_readers = 0, cv_writing = False, cv_state = (\<lambda>_. C_idle)\<rparr>"

fun woken :: "cv_state \<Rightarrow> cv_state" where
  "woken C_wait_read = C_woken_read"
| "woken C_wait_write = C_woken_write"
| "woken c = c"

definition cv_goto :: "nat \<Rightarrow> cv_state \<Rightarrow> cv_lock \<Rightarrow> cv_lock" where
  "cv_goto t c s = s\<lparr>cv_state := (cv_state s)(t := c)\<rparr>"

definition cv_notify_all :: "cv_lock \<Rightarrow> cv_lock" where
  "cv_notify_all s = s\<lparr>cv_state := woken \<circ> cv_state s\<rparr>"

text \<open>The critical sections. The two lock operations run from the call or from a wake-up to the
  next wait or to their end.\<close>

definition cv_ReadLock :: "nat \<Rightarrow> cv_lock \<Rightarrow> cv_lock" where
  "cv_ReadLock t s =
     (if \<not> cv_writing s then cv_goto t C_reading (s\<lparr>cv_readers := cv_readers s + 1\<rparr>)
      else cv_goto t C_wait_read s)"

definition cv_WriteLock :: "nat \<Rightarrow> cv_lock \<Rightarrow> cv_lock" where
  "cv_WriteLock t s =
     (if cv_readers s = 0 \<and> \<not> cv_writing s then cv_goto t C_writing (s\<lparr>cv_writing := True\<rparr>)
      else cv_goto t C_wait_write s)"

definition cv_ReadUnlock :: "nat \<Rightarrow> cv_lock \<Rightarrow> cv_lock" where
  "cv_ReadUnlock t s = cv_notify_all (cv_goto t C_idle (s\<lparr>cv_readers := cv_readers s - 1\<rparr>))"

definition cv_WriteUnlock :: "nat \<Rightarrow> cv_lock \<Rightarrow> cv_lock" where
  "cv_WriteUnlock t s = cv_notify_all (cv_goto t C_idle (s\<lparr>cv_writing := False\<rparr>))"

inductive cv_step :: "nat \<Rightarrow> cv_lock \<Rightarrow> cv_lock \<Rightarrow> bool" for t s where
  cv_rlock: "cv_state s t \<in> {C_idle, C_woken_read} \<Longrightarrow> cv_step t s (cv_ReadLock t s)"
| cv_wlock: "cv_state s t \<in> {C_idle, C_woken_write} \<Longrightarrow> cv_step t s (cv_WriteLock t s)"
| cv_runlock: "cv_state s t = C_reading \<Longrightarrow> cv_step t s (cv_ReadUnlock t s)"
| cv_wunlock: "cv_state s t = C_writing \<Longrightarrow> cv_step t s (cv_WriteUnlock t s)"
| cv_spurious: "cv_step t s (cv_goto t (woken (cv_state s t)) s)"

definition cv_steps :: "nat \<Rightarrow> cv_lock \<Rightarrow> cv_lock \<Rightarrow> bool" where
  "cv_steps N s s' \<longleftrightarrow> (\<exists>t < N. cv_step t s s')"

section \<open>The guards\<close>

text \<open>
  A guard refers to a lock of any type, so its operations take the operations of that lock as
  arguments. The state is the lock's together with the flag \<^verbatim>\<open>locked_\<close>.
\<close>

definition AutoReadLock :: "('s \<Rightarrow> 's) \<Rightarrow> 's \<Rightarrow> 's \<times> bool" where
  "AutoReadLock ReadLock s = (ReadLock s, True)"

definition AutoReadLock_Unlock :: "('s \<Rightarrow> 's) \<Rightarrow> 's \<times> bool \<Rightarrow> 's \<times> bool" where
  "AutoReadLock_Unlock ReadUnlock g = (ReadUnlock (fst g), False)"

definition AutoReadLock_destroy :: "('s \<Rightarrow> 's) \<Rightarrow> 's \<times> bool \<Rightarrow> 's" where
  "AutoReadLock_destroy ReadUnlock g = (if snd g then ReadUnlock (fst g) else fst g)"

text \<open>The move constructor: the new guard takes over the flag, the old one (second) loses it.\<close>

definition AutoReadLock_move :: "bool \<Rightarrow> bool \<times> bool" where
  "AutoReadLock_move rhs = (rhs, False)"

definition AutoWriteLock :: "('s \<Rightarrow> 's) \<Rightarrow> 's \<Rightarrow> 's \<times> bool" where
  "AutoWriteLock WriteLock s = (WriteLock s, True)"

definition AutoWriteLock_Unlock :: "('s \<Rightarrow> 's) \<Rightarrow> 's \<times> bool \<Rightarrow> 's \<times> bool" where
  "AutoWriteLock_Unlock WriteUnlock g = (WriteUnlock (fst g), False)"

definition AutoWriteLock_destroy :: "('s \<Rightarrow> 's) \<Rightarrow> 's \<times> bool \<Rightarrow> 's" where
  "AutoWriteLock_destroy WriteUnlock g = (if snd g then WriteUnlock (fst g) else fst g)"

definition AutoWriteLock_move :: "bool \<Rightarrow> bool \<times> bool" where
  "AutoWriteLock_move rhs = (rhs, False)"

datatype lock_exception = LockInterruptedException | LockUpgradeFailedException

definition lock_exception_what :: "lock_exception \<Rightarrow> string" where
  "lock_exception_what e = (case e of
     LockInterruptedException \<Rightarrow> ''Lock interrupted.''
   | LockUpgradeFailedException \<Rightarrow> ''Failed to upgrade read lock to write lock.'')"

text \<open>\<^verbatim>\<open>Lock\<close> of the guards with a status: the new state, and the exception if one is thrown.\<close>

definition TLSAutoReadLock_Lock ::
  "('s \<Rightarrow> lock_status \<times> 's) \<Rightarrow> 's \<times> bool \<Rightarrow> lock_exception option \<times> 's \<times> bool" where
  "TLSAutoReadLock_Lock ReadLock g =
     (if snd g then (None, g)
      else let (status, s) = ReadLock (fst g); locked = (status = SUCCESS) in
           (if \<not> locked then Some LockInterruptedException else None, s, locked))"

definition TLSAutoReadLock_Unlock :: "('s \<Rightarrow> 's) \<Rightarrow> 's \<times> bool \<Rightarrow> 's \<times> bool" where
  "TLSAutoReadLock_Unlock ReadUnlock g = (if \<not> snd g then g else (ReadUnlock (fst g), False))"

definition TLSAutoWriteLock_Lock ::
  "('s \<Rightarrow> lock_status \<times> 's) \<Rightarrow> 's \<times> bool \<Rightarrow> lock_exception option \<times> 's \<times> bool" where
  "TLSAutoWriteLock_Lock WriteLock g =
     (if snd g then (None, g)
      else let (status, s) = WriteLock (fst g); locked = (status = SUCCESS) in
           (if status = INTERRUPTED then Some LockInterruptedException
            else if status = UPGRADE_FAILED then Some LockUpgradeFailedException else None, s, locked))"

definition TLSAutoWriteLock_Unlock :: "('s \<Rightarrow> 's) \<Rightarrow> 's \<times> bool \<Rightarrow> 's \<times> bool" where
  "TLSAutoWriteLock_Unlock WriteUnlock g = (if \<not> snd g then g else (WriteUnlock (fst g), False))"

section \<open>Invariants\<close>

fun spin_reads :: "spin_pc \<Rightarrow> int" where
  "spin_reads p = (if p \<in> {SR_test, SR_dec, S_reading} then 1 else 0)"

definition spin_inv :: "nat \<Rightarrow> spin_lock \<Rightarrow> bool" where
  "spin_inv N s \<longleftrightarrow>
     sp_readers s = total N spin_reads (sp_pc s) \<and>
     (\<forall>t \<ge> N. sp_pc s t = S_idle) \<and>
     (\<forall>t. sp_pc s t \<in> {SW_wait, S_writing} \<longrightarrow> sp_writing s) \<and>
     (\<forall>t u. t \<noteq> u \<longrightarrow> sp_pc s t \<in> {SW_wait, S_writing} \<longrightarrow> sp_pc s u \<notin> {SW_wait, S_writing}) \<and>
     (\<forall>t u. sp_pc s t = S_writing \<longrightarrow> sp_pc s u \<noteq> S_reading)"

lemma spin_no_reader:
  assumes "spin_inv N s" "sp_readers s = 0"
  shows "sp_pc s u \<noteq> S_reading"
proof (cases "u < N")
  case True
  then have "spin_reads (sp_pc s u) = 0"
    using assms by (intro total_zero [of spin_reads N]) (simp_all add: spin_inv_def)
  then show ?thesis by auto
next
  case False
  then show ?thesis using assms(1) by (simp add: spin_inv_def)
qed

lemma spin_inv_step:
  assumes "spin_inv N s" "spin_steps N s s'"
  shows "spin_inv N s'"
proof -
  obtain t where t: "t < N" "spin_step t s s'" using assms(2) unfolding spin_steps_def by blast
  note spin_reads.simps [simp del]
  have [simp]: "spin_reads S_idle = 0" "spin_reads SR_inc = 0" "spin_reads SR_test = 1"
    "spin_reads SR_dec = 1" "spin_reads SR_wait = 0" "spin_reads S_reading = 1"
    "spin_reads SW_cas = 0" "spin_reads SW_wait = 0" "spin_reads S_writing = 0"
    by (simp_all add: spin_reads.simps)
  have count: "sp_readers s' = total N spin_reads (sp_pc s')"
    using t(2,1) assms(1) by cases (auto simp: spin_inv_def spin_goto_def total_upd)
  have low: "\<forall>u \<ge> N. sp_pc s' u = S_idle"
    using t(2,1) assms(1) by cases (auto simp: spin_inv_def spin_goto_def)
  have writing: "sp_pc s' u \<in> {SW_wait, S_writing} \<longrightarrow> sp_writing s'" for u
    using t(2) assms(1) unfolding spin_inv_def
    by cases (auto simp: spin_goto_def)
  have one: "sp_pc s' a \<in> {SW_wait, S_writing} \<longrightarrow> sp_pc s' b \<notin> {SW_wait, S_writing}" if "a \<noteq> b" for a b
    using t(2) that assms(1) unfolding spin_inv_def
    by cases (auto simp: spin_goto_def)
  have excl: "sp_pc s' a = S_writing \<longrightarrow> sp_pc s' b \<noteq> S_reading" for a b
    using t(2) assms(1) spin_no_reader [OF assms(1)] unfolding spin_inv_def
    by cases (auto simp: spin_goto_def)
  from count low writing one excl show ?thesis unfolding spin_inv_def by blast
qed

lemma spin_inv_init: "spin_inv N SpinningRWLock"
  by (simp add: SpinningRWLock_def spin_inv_def total_def)

interpretation spin: invariant_system "\<lambda>s. s = SpinningRWLock" "spin_steps N" "spin_inv N" for N
  by unfold_locales (auto intro: spin_inv_step spin_inv_init)

fun cv_reads :: "cv_state \<Rightarrow> int" where
  "cv_reads c = (if c = C_reading then 1 else 0)"

text \<open>Besides the counts, no thread waits without a reason to wait.\<close>

definition cv_inv :: "nat \<Rightarrow> cv_lock \<Rightarrow> bool" where
  "cv_inv N s \<longleftrightarrow>
     cv_readers s = total N cv_reads (cv_state s) \<and>
     (\<forall>t \<ge> N. cv_state s t = C_idle) \<and>
     (cv_writing s \<longleftrightarrow> (\<exists>t. cv_state s t = C_writing)) \<and>
     (\<forall>t u. t \<noteq> u \<longrightarrow> cv_state s t = C_writing \<longrightarrow> cv_state s u \<noteq> C_writing) \<and>
     (cv_writing s \<longrightarrow> cv_readers s = 0) \<and>
     (\<forall>t. cv_state s t = C_wait_read \<longrightarrow> cv_writing s) \<and>
     (\<forall>t. cv_state s t = C_wait_write \<longrightarrow> cv_writing s \<or> cv_readers s \<noteq> 0)"

lemma woken_simps [simp]:
  "woken c = C_idle \<longleftrightarrow> c = C_idle" "woken c = C_reading \<longleftrightarrow> c = C_reading"
  "woken c = C_writing \<longleftrightarrow> c = C_writing" "woken c \<noteq> C_wait_read" "woken c \<noteq> C_wait_write"
  "cv_reads (woken c) = cv_reads c"
  by (cases c; simp)+

lemma total_woken [simp]: "total N cv_reads (woken \<circ> h) = total N cv_reads h"
  by (simp only: total_def woken_simps o_apply)

lemma cv_no_reader:
  assumes "cv_inv N s" "cv_readers s = 0"
  shows "cv_state s u \<noteq> C_reading"
proof (cases "u < N")
  case True
  then have "cv_reads (cv_state s u) = 0"
    using assms by (intro total_zero [of cv_reads N]) (simp_all add: cv_inv_def)
  then show ?thesis by auto
next
  case False
  then show ?thesis using assms(1) by (simp add: cv_inv_def)
qed

lemma cv_readers_ge: "cv_inv N s \<Longrightarrow> 0 \<le> cv_readers s"
  unfolding cv_inv_def total_def by (simp add: sum_nonneg)

lemma cv_inv_step:
  assumes "cv_inv N s" "cv_steps N s s'"
  shows "cv_inv N s'"
proof -
  obtain t where t: "t < N" "cv_step t s s'" using assms(2) unfolding cv_steps_def by blast
  note cv_reads.simps [simp del]
  have [simp]: "cv_reads C_idle = 0" "cv_reads C_reading = 1" "cv_reads C_writing = 0"
    "cv_reads C_wait_read = 0" "cv_reads C_wait_write = 0" "cv_reads C_woken_read = 0"
    "cv_reads C_woken_write = 0"
    by (simp_all add: cv_reads.simps)
  note defs = cv_ReadLock_def cv_WriteLock_def cv_ReadUnlock_def cv_WriteUnlock_def
    cv_notify_all_def cv_goto_def
  have count: "cv_readers s' = total N cv_reads (cv_state s')"
    using t(2,1) assms(1) by cases (auto simp: cv_inv_def defs total_upd)
  have low: "\<forall>u \<ge> N. cv_state s' u = C_idle"
    using t(2,1) assms(1) by cases (auto simp: cv_inv_def defs)
  have old: "cv_state s u = C_writing \<Longrightarrow> cv_writing s"
    "cv_writing s \<Longrightarrow> \<exists>u. cv_state s u = C_writing" "cv_writing s \<Longrightarrow> cv_readers s = 0"
    "cv_state s u = C_wait_read \<Longrightarrow> cv_writing s"
    "cv_state s u = C_wait_write \<Longrightarrow> cv_writing s \<or> cv_readers s \<noteq> 0" for u
    using assms(1) unfolding cv_inv_def by blast+
  have old_one: "a = b" if "cv_state s a = C_writing" "cv_state s b = C_writing" for a b
    using that assms(1) unfolding cv_inv_def by blast
  have other: "cv_state s' u = C_writing \<longleftrightarrow> cv_state s u = C_writing" if "u \<noteq> t" for u
    using t(2) that by cases (auto simp: defs)
  have mine: "cv_state s t = C_writing \<or> \<not> cv_writing s" if "cv_state s' t = C_writing"
    using t(2) that by cases (auto simp: defs split: if_splits)
  have flag: "cv_writing s' \<longleftrightarrow> cv_state s' t = C_writing \<or> cv_writing s \<and> cv_state s t \<noteq> C_writing"
    using t(2) old(1) [of t] by cases (auto simp: defs)
  have one: "a = b" if "cv_state s' a = C_writing" "cv_state s' b = C_writing" for a b
    using that mine other [of a] other [of b] old(1) [of a] old(1) [of b] old_one [of a b] old_one [of a t]
      old_one [of b t] by blast
  have sound: "cv_writing s'" if "cv_state s' u = C_writing" for u
    using that flag other [of u] old(1) [of u] old_one [of u t] by blast
  have complete: "\<exists>u. cv_state s' u = C_writing" if "cv_writing s'"
    using that flag old(2) other by metis
  have none: "cv_readers s' = 0" if "cv_writing s'"
    using t(2) that old(3) cv_no_reader [OF assms(1), of t] by cases (auto simp: defs split: if_splits)
  have wait_read: "cv_writing s'" if "cv_state s' u = C_wait_read" for u
    using t(2) that old(4) [of u] by cases (auto simp: defs split: if_splits)
  have wait_write: "cv_writing s' \<or> cv_readers s' \<noteq> 0" if "cv_state s' u = C_wait_write" for u
    using t(2) that old(5) [of u] cv_readers_ge [OF assms(1)]
    by cases (auto simp: defs split: if_splits)
  from count low one sound complete none wait_read wait_write show ?thesis unfolding cv_inv_def by blast
qed

lemma cv_inv_init: "cv_inv N RWLock"
  by (simp add: RWLock_def cv_inv_def total_def)

interpretation cv: invariant_system "\<lambda>s. s = RWLock" "cv_steps N" "cv_inv N" for N
  by unfold_locales (auto intro: cv_inv_step cv_inv_init)

section \<open>Properties\<close>

text \<open>
  Both simple locks exclude a writer from every other holder, under every interleaving of any
  number of threads; and the lock with the condition variable loses no wake-up: a thread sleeps
  in \<^verbatim>\<open>ReadLock\<close> only while somebody writes and in \<^verbatim>\<open>WriteLock\<close> only while somebody reads or
  writes, so when every lock has been released no thread is asleep.
\<close>

lemma simple_locks_exclude:
  "(\<forall>s t u. (spin_steps N)\<^sup>*\<^sup>* SpinningRWLock s \<longrightarrow> sp_pc s t = S_writing \<longrightarrow> u \<noteq> t \<longrightarrow>
      sp_pc s u \<notin> {S_reading, S_writing}) \<and>
   (\<forall>s t u. (cv_steps N)\<^sup>*\<^sup>* RWLock s \<longrightarrow> cv_state s t = C_writing \<longrightarrow> u \<noteq> t \<longrightarrow>
      cv_state s u \<notin> {C_reading, C_writing}) \<and>
   (\<forall>s. (cv_steps N)\<^sup>*\<^sup>* RWLock s \<longrightarrow> (\<forall>t. cv_state s t \<notin> {C_reading, C_writing}) \<longrightarrow>
      (\<forall>t. cv_state s t \<notin> {C_wait_read, C_wait_write}))"
proof (intro conjI allI impI)
  fix s t u assume "(spin_steps N)\<^sup>*\<^sup>* SpinningRWLock s" "sp_pc s t = S_writing" "u \<noteq> t"
  then show "sp_pc s u \<notin> {S_reading, S_writing}"
    using spin.inv_reachable [OF refl] unfolding spin_inv_def by blast
next
  fix s t u assume *: "(cv_steps N)\<^sup>*\<^sup>* RWLock s" "cv_state s t = C_writing" "u \<noteq> t"
  have inv: "cv_inv N s" using cv.inv_reachable [OF refl *(1)] .
  then have "cv_readers s = 0" "cv_state s u \<noteq> C_writing" using *(2,3) unfolding cv_inv_def by blast+
  with cv_no_reader [OF inv] show "cv_state s u \<notin> {C_reading, C_writing}" by simp
next
  fix s t assume *: "(cv_steps N)\<^sup>*\<^sup>* RWLock s" "\<forall>t. cv_state s t \<notin> {C_reading, C_writing}"
  have inv: "cv_inv N s" using cv.inv_reachable [OF refl *(1)] .
  then have "\<not> cv_writing s" "cv_readers s = total N cv_reads (cv_state s)"
    using *(2) unfolding cv_inv_def by blast+
  moreover from this(2) have "cv_readers s = 0" using *(2) by (simp add: total_def)
  ultimately show "cv_state s t \<notin> {C_wait_read, C_wait_write}"
    using inv unfolding cv_inv_def by blast
qed

lemma spin_steps_intro: "spin_step t s s' \<Longrightarrow> t < N \<Longrightarrow> spin_steps N s s'"
  by (auto simp: spin_steps_def)

lemma cv_steps_intro: "cv_step t s s' \<Longrightarrow> t < N \<Longrightarrow> cv_steps N s s'"
  by (auto simp: cv_steps_def)

lemma simple_locks_exclude_witness:
  "\<exists>s s' s''. (spin_steps 2)\<^sup>*\<^sup>* SpinningRWLock s \<and> sp_pc s 0 = S_writing \<and> sp_pc s 1 \<noteq> S_reading \<and>
     (cv_steps 2)\<^sup>*\<^sup>* RWLock s' \<and> cv_state s' 0 = C_writing \<and> cv_state s' 1 = C_wait_read \<and>
     (cv_steps 2)\<^sup>*\<^sup>* s' s'' \<and> cv_state s'' 1 = C_woken_read \<and> cv_state s'' 0 \<noteq> C_wait_write"
proof -
  let ?s1 = "spin_goto 0 SW_cas SpinningRWLock"
  let ?s2 = "spin_goto 0 SW_wait (?s1\<lparr>sp_writing := True\<rparr>)"
  let ?s3 = "spin_goto 0 S_writing ?s2"
  note defs = SpinningRWLock_def spin_goto_def RWLock_def cv_goto_def cv_WriteLock_def cv_ReadLock_def
    cv_WriteUnlock_def cv_notify_all_def
  have "spin_step 0 SpinningRWLock ?s1" by (rule sw_call) (simp add: defs)
  moreover have "spin_step 0 ?s1 ?s2" by (rule sw_cas) (simp_all add: defs)
  moreover have "spin_step 0 ?s2 ?s3" by (rule sw_got) (simp_all add: defs)
  ultimately have spin: "(spin_steps 2)\<^sup>*\<^sup>* SpinningRWLock ?s3"
    by (meson converse_rtranclp_into_rtranclp rtranclp.rtrancl_refl spin_steps_intro zero_less_numeral)
  let ?c1 = "cv_WriteLock 0 RWLock"
  let ?c2 = "cv_ReadLock 1 ?c1"
  let ?c3 = "cv_WriteUnlock 0 ?c2"
  have "cv_steps 2 RWLock ?c1" by (rule cv_steps_intro [of 0], rule cv_wlock) (simp_all add: defs)
  moreover have "cv_steps 2 ?c1 ?c2" by (rule cv_steps_intro [of 1], rule cv_rlock) (simp_all add: defs)
  ultimately have cv: "(cv_steps 2)\<^sup>*\<^sup>* RWLock ?c2"
    by (meson converse_rtranclp_into_rtranclp rtranclp.rtrancl_refl)
  have "cv_steps 2 ?c2 ?c3" by (rule cv_steps_intro [of 0], rule cv_wunlock) (simp_all add: defs)
  then have cv': "(cv_steps 2)\<^sup>*\<^sup>* ?c2 ?c3" by (rule r_into_rtranclp)
  have "sp_pc ?s3 0 = S_writing" by (simp add: defs)
  moreover have "cv_state ?c2 0 = C_writing" "cv_state ?c2 1 = C_wait_read" by (simp_all add: defs)
  moreover have "cv_state ?c3 1 = C_woken_read" "\<forall>t. cv_state ?c3 t \<notin> {C_reading, C_writing}"
    by (simp_all add: defs)
  ultimately show ?thesis
    using simple_locks_exclude [of 2] spin cv cv' by (metis (no_types, lifting) insertCI rtranclp_trans zero_neq_one)
qed

fun read_guard_run :: "('s \<Rightarrow> lock_status \<times> 's) \<Rightarrow> ('s \<Rightarrow> 's) \<Rightarrow> bool list \<Rightarrow> 's \<times> bool \<Rightarrow> 's \<times> bool" where
  "read_guard_run ReadLock ReadUnlock [] g = g"
| "read_guard_run ReadLock ReadUnlock (c # cs) g =
     read_guard_run ReadLock ReadUnlock cs
       (if c then snd (TLSAutoReadLock_Lock ReadLock g) else TLSAutoReadLock_Unlock ReadUnlock g)"

lemma read_guard_count:
  assumes "\<And>s. held (snd (ReadLock s)) = (if fst (ReadLock s) = SUCCESS then held s + 1 else held s)"
    and "\<And>s. held (ReadUnlock s) = held s - (1::int)"
  shows "held (fst (read_guard_run ReadLock ReadUnlock cs g)) =
    held (fst g) + (if snd (read_guard_run ReadLock ReadUnlock cs g) then 1 else 0) - (if snd g then 1 else 0)"
proof (induction cs arbitrary: g)
  case (Cons c cs)
  then show ?case
    using assms(1) [of "fst g"] assms(2) [of "fst g"]
    by (auto simp: TLSAutoReadLock_Lock_def TLSAutoReadLock_Unlock_def split_def Let_def)
qed simp

text \<open>
  A \<^verbatim>\<open>TLSAutoReadLock\<close> gives back exactly what it took: whatever \<^verbatim>\<open>Lock\<close> and \<^verbatim>\<open>Unlock\<close> calls are
  made on it, with whatever status the lock answers, the number of locks held after its
  destructor is the number held before it was created. An \<^verbatim>\<open>AutoReadLock\<close> does not: its
  \<^verbatim>\<open>Unlock\<close> does not look at \<^verbatim>\<open>locked_\<close>, so a second call releases a lock that it does not hold.
\<close>

lemma guards_balance:
  assumes "\<And>s. held (snd (ReadLock s)) = (if fst (ReadLock s) = SUCCESS then held s + 1 else held s)"
    and "\<And>s. held (ReadUnlock s) = held s - (1::int)"
  shows "held (fst (TLSAutoReadLock_Unlock ReadUnlock (read_guard_run ReadLock ReadUnlock (True # cs) (s, False)))) = held s \<and>
         held (AutoReadLock_destroy ReadUnlock (AutoReadLock (snd \<circ> ReadLock) s)) =
           (if fst (ReadLock s) = SUCCESS then held s else held s - 1) \<and>
         held (AutoReadLock_destroy ReadUnlock (AutoReadLock_Unlock ReadUnlock
           (AutoReadLock_Unlock ReadUnlock (AutoReadLock (snd \<circ> ReadLock) s)))) =
           (if fst (ReadLock s) = SUCCESS then held s - 1 else held s - 2)"
  using assms read_guard_count [where held = held and cs = "True # cs" and g = "(s, False)", OF assms]
  by (auto simp: TLSAutoReadLock_Unlock_def AutoReadLock_def AutoReadLock_destroy_def AutoReadLock_Unlock_def)

lemma guards_balance_witness:
  "fst (TLSAutoReadLock_Unlock (\<lambda>n. n - 1)
     (read_guard_run (\<lambda>n::int. (SUCCESS, n + 1)) (\<lambda>n. n - 1) [True, True, False, True] (0, False))) = 0"
  using guards_balance [where held = "\<lambda>n. n" and ReadLock = "\<lambda>n::int. (SUCCESS, n + 1)"
      and ReadUnlock = "\<lambda>n. n - 1" and cs = "[True, False, True]" and s = 0]
  by simp

end
