(* ===== verification/Bounded_Queue.thy ===== *)
theory Bounded_Queue
  imports Interleaving "HOL-Library.Multiset"
begin

text \<open>
  \<^verbatim>\<open>bounded_queue.h\<close>: the queue as a record and its operations as functions, the critical sections
  that run under its mutex; then the monitor, a step relation of threads that call the operations,
  sleep on one of the two condition variables, are woken by \<^verbatim>\<open>notify_one\<close>, \<^verbatim>\<open>notify_all\<close> or for no
  reason, and test their condition again.
\<close>

section \<open>The queue and its critical sections\<close>

record 'a bounded_queue =
  queue :: "'a list"
  kill_switch :: bool
  capacity :: nat

definition BoundedQueue :: "nat \<Rightarrow> 'a bounded_queue" where
  "BoundedQueue cap = \<lparr>queue = [], kill_switch = False, capacity = cap\<rparr>"

text \<open>The default capacity is \<^verbatim>\<open>std::numeric_limits<size_t>::max()\<close>.\<close>

definition BoundedQueue_default :: "'a bounded_queue" where
  "BoundedQueue_default = BoundedQueue (2 ^ 64 - 1)"

definition SetCapacity :: "nat \<Rightarrow> 'a bounded_queue \<Rightarrow> 'a bounded_queue" where
  "SetCapacity cap q = q\<lparr>capacity := cap\<rparr>"

definition EndQueue :: "'a bounded_queue \<Rightarrow> 'a bounded_queue" where
  "EndQueue q = q\<lparr>kill_switch := True\<rparr>"

definition IsEmpty :: "'a bounded_queue \<Rightarrow> bool" where
  "IsEmpty q \<longleftrightarrow> queue q = []"

datatype 'a q_call = Push 'a | PopImpl bool | WaitEmpty

datatype 'a q_result = Pushed bool | Popped "'a option" | Emptied bool

abbreviation PopFront :: "'a q_call" where "PopFront \<equiv> PopImpl True"
abbreviation PopBack :: "'a q_call" where "PopBack \<equiv> PopImpl False"

text \<open>The condition of the waiting loop of a call.\<close>

fun must_wait :: "'a q_call \<Rightarrow> 'a bounded_queue \<Rightarrow> bool" where
  "must_wait (Push d) q \<longleftrightarrow> length (queue q) \<ge> capacity q \<and> \<not> kill_switch q"
| "must_wait (PopImpl f) q \<longleftrightarrow> queue q = [] \<and> \<not> kill_switch q"
| "must_wait WaitEmpty q \<longleftrightarrow> queue q \<noteq> [] \<and> \<not> kill_switch q"

text \<open>What follows the loop. The last component says whether \<^verbatim>\<open>notify_one\<close> is called.\<close>

definition Push_body :: "'a \<Rightarrow> 'a bounded_queue \<Rightarrow> bool \<times> 'a bounded_queue \<times> bool" where
  "Push_body d q =
     (if kill_switch q then (False, q, False)
      else (\<not> kill_switch q, q\<lparr>queue := queue q @ [d]\<rparr>, True))"

definition PopImpl_body :: "bool \<Rightarrow> 'a bounded_queue \<Rightarrow> 'a option \<times> 'a bounded_queue \<times> bool" where
  "PopImpl_body pop_front q =
     (if kill_switch q then (None, q, False)
      else let (d, rest) = (if pop_front then (hd (queue q), tl (queue q))
                            else (last (queue q), butlast (queue q)))
           in (Some d, q\<lparr>queue := rest\<rparr>, length rest < capacity q))"

definition WaitEmpty_body :: "'a bounded_queue \<Rightarrow> bool" where
  "WaitEmpty_body q \<longleftrightarrow> \<not> kill_switch q"

section \<open>The monitor\<close>

datatype 'a q_thread =
    Returned "'a q_result option"
  | Awake "'a q_call"    \<comment> \<open>about to take the mutex and test its condition\<close>
  | Asleep "'a q_call"   \<comment> \<open>inside \<^verbatim>\<open>wait\<close>\<close>

text \<open>The logs of what was pushed and popped belong to the model only.\<close>

record 'a q_system =
  bq :: "'a bounded_queue"
  thr :: "nat \<Rightarrow> 'a q_thread"
  pushed :: "'a list"
  popped :: "'a list"

text \<open>Which threads sleep on which condition variable.\<close>

fun on_ok_to_pop :: "'a q_thread \<Rightarrow> bool" where
  "on_ok_to_pop (Asleep (PopImpl f)) \<longleftrightarrow> True"
| "on_ok_to_pop _ \<longleftrightarrow> False"

fun on_ok_to_push :: "'a q_thread \<Rightarrow> bool" where
  "on_ok_to_push (Asleep (Push d)) \<longleftrightarrow> True"
| "on_ok_to_push (Asleep WaitEmpty) \<longleftrightarrow> True"
| "on_ok_to_push _ \<longleftrightarrow> False"

fun wake :: "'a q_thread \<Rightarrow> 'a q_thread" where
  "wake (Asleep c) = Awake c"
| "wake th = th"

text \<open>\<^verbatim>\<open>notify_one\<close> wakes any one of the threads that sleep on the variable, if there is one.\<close>

inductive notify_one :: "('t \<Rightarrow> bool) \<Rightarrow> ('t \<Rightarrow> 't) \<Rightarrow> nat \<Rightarrow> (nat \<Rightarrow> 't) \<Rightarrow> (nat \<Rightarrow> 't) \<Rightarrow> bool"
  for on_cv wk N h where
  nobody: "(\<And>t. t < N \<Longrightarrow> \<not> on_cv (h t)) \<Longrightarrow> notify_one on_cv wk N h h"
| somebody: "t < N \<Longrightarrow> on_cv (h t) \<Longrightarrow> notify_one on_cv wk N h (h(t := wk (h t)))"

definition q_init :: "nat \<Rightarrow> 'a q_system" where
  "q_init cap = \<lparr>bq = BoundedQueue cap, thr = (\<lambda>_. Returned None), pushed = [], popped = []\<rparr>"

definition returned :: "nat \<Rightarrow> 'a q_result \<Rightarrow> (nat \<Rightarrow> 'a q_thread) \<Rightarrow> nat \<Rightarrow> 'a q_thread" where
  "returned t r h = h(t := Returned (Some r))"

text \<open>The calls that the clients make are a parameter, \<open>calls\<close>.\<close>

inductive q_step :: "nat \<Rightarrow> ('a q_call \<Rightarrow> bool) \<Rightarrow> 'a q_system \<Rightarrow> 'a q_system \<Rightarrow> bool"
  for N calls s where
  q_call: "t < N \<Longrightarrow> thr s t = Returned r \<Longrightarrow> calls c \<Longrightarrow>
     q_step N calls s (s\<lparr>thr := (thr s)(t := Awake c)\<rparr>)"
| q_sleep: "t < N \<Longrightarrow> thr s t = Awake c \<Longrightarrow> must_wait c (bq s) \<Longrightarrow>
     q_step N calls s (s\<lparr>thr := (thr s)(t := Asleep c)\<rparr>)"
| q_push: "t < N \<Longrightarrow> thr s t = Awake (Push d) \<Longrightarrow> \<not> must_wait (Push d) (bq s) \<Longrightarrow>
     Push_body d (bq s) = (ok, q, notif) \<Longrightarrow>
     (if notif then notify_one on_ok_to_pop wake N (returned t (Pushed ok) (thr s)) h
      else h = returned t (Pushed ok) (thr s)) \<Longrightarrow>
     q_step N calls s (s\<lparr>bq := q, thr := h, pushed := (if ok then pushed s @ [d] else pushed s)\<rparr>)"
| q_pop: "t < N \<Longrightarrow> thr s t = Awake (PopImpl f) \<Longrightarrow> \<not> must_wait (PopImpl f) (bq s) \<Longrightarrow>
     PopImpl_body f (bq s) = (d, q, notif) \<Longrightarrow>
     (if notif then notify_one on_ok_to_push wake N (returned t (Popped d) (thr s)) h
      else h = returned t (Popped d) (thr s)) \<Longrightarrow>
     q_step N calls s (s\<lparr>bq := q, thr := h,
       popped := (case d of None \<Rightarrow> popped s | Some x \<Rightarrow> popped s @ [x])\<rparr>)"
| q_empty: "t < N \<Longrightarrow> thr s t = Awake WaitEmpty \<Longrightarrow> \<not> must_wait WaitEmpty (bq s) \<Longrightarrow>
     q_step N calls s (s\<lparr>thr := returned t (Emptied (WaitEmpty_body (bq s))) (thr s)\<rparr>)"
| q_end: "q_step N calls s (s\<lparr>bq := EndQueue (bq s), thr := wake \<circ> thr s\<rparr>)"
| q_spurious: "t < N \<Longrightarrow> q_step N calls s (s\<lparr>thr := (thr s)(t := wake (thr s t))\<rparr>)"

section \<open>The contents\<close>

definition contents_inv :: "nat \<Rightarrow> 'a q_system \<Rightarrow> bool" where
  "contents_inv cap s \<longleftrightarrow>
     length (queue (bq s)) \<le> cap \<and> capacity (bq s) = cap \<and>
     mset (pushed s) = mset (popped s) + mset (queue (bq s))"

lemma contents_init: "contents_inv cap (q_init cap)"
  by (simp add: contents_inv_def q_init_def BoundedQueue_def)

lemma pop_parts: "xs \<noteq> [] \<Longrightarrow> mset xs = {#hd xs#} + mset (tl xs)"
    "xs \<noteq> [] \<Longrightarrow> mset xs = {#last xs#} + mset (butlast xs)"
  by (cases xs; simp) (cases xs rule: rev_cases; simp)

lemma contents_step:
  assumes "contents_inv cap s" "q_step N calls s s'"
  shows "contents_inv cap s'"
  using assms(2)
proof cases
  case (q_push t d ok q notif h)
  then show ?thesis using assms(1)
    by (auto simp: contents_inv_def Push_body_def split: if_splits)
next
  case (q_pop t f d q notif h)
  show ?thesis
  proof (cases "kill_switch (bq s)")
    case False
    then have "queue (bq s) \<noteq> []" using q_pop(4) by simp
    then show ?thesis using assms(1) q_pop False pop_parts [of "queue (bq s)"]
      by (auto simp: contents_inv_def PopImpl_body_def split: if_splits)
  qed (use assms(1) q_pop in \<open>auto simp: contents_inv_def PopImpl_body_def\<close>)
qed (use assms(1) in \<open>auto simp: contents_inv_def EndQueue_def\<close>)

interpretation contents: invariant_system "\<lambda>s. s = q_init cap" "q_step N calls" "contents_inv cap"
  for N calls cap
  by unfold_locales (auto intro: contents_init contents_step)

section \<open>Order\<close>

fun call_of :: "'a q_thread \<Rightarrow> 'a q_call option" where
  "call_of (Awake c) = Some c"
| "call_of (Asleep c) = Some c"
| "call_of (Returned r) = None"

lemma call_of_wake [simp]: "call_of (wake th) = call_of th"
  by (cases th) auto

lemma notify_one_pointwise: "notify_one on_cv wk N h h' \<Longrightarrow> h' u = h u \<or> h' u = wk (h u)"
  by (erule notify_one.cases) auto

lemma call_of_notify: "notify_one on_cv wake N h h' \<Longrightarrow> call_of (h' u) = call_of (h u)"
  using notify_one_pointwise [of on_cv wake N h h' u] by auto

definition calls_inv :: "('a q_call \<Rightarrow> bool) \<Rightarrow> 'a q_system \<Rightarrow> bool" where
  "calls_inv calls s \<longleftrightarrow> (\<forall>t c. call_of (thr s t) = Some c \<longrightarrow> calls c)"

lemma call_of_note:
  "(if notif then notify_one on_cv wake N h0 h else h = h0) \<Longrightarrow> call_of (h u) = call_of (h0 u)"
  by (auto simp: call_of_notify split: if_splits)

lemma call_of_step:
  assumes "q_step N calls s s'"
  shows "call_of (thr s' u) = call_of (thr s u) \<or>
    u < N \<and> (call_of (thr s' u) = None \<or> (\<exists>c. calls c \<and> call_of (thr s' u) = Some c))"
  using assms
proof cases
  case (q_push t d ok q notif h)
  from call_of_note [OF q_push(6), of u] q_push(1,2) show ?thesis by (auto simp: returned_def)
next
  case (q_pop t f d q notif h)
  from call_of_note [OF q_pop(6), of u] q_pop(1,2) show ?thesis by (auto simp: returned_def)
qed (auto simp: returned_def)

lemma calls_step:
  assumes "calls_inv calls s" "q_step N calls s s'"
  shows "calls_inv calls s'"
  unfolding calls_inv_def
proof (intro allI impI)
  fix t c assume "call_of (thr s' t) = Some c"
  with assms(1) call_of_step [OF assms(2), of t] show "calls c" unfolding calls_inv_def by auto
qed

definition front_only :: "'a q_call \<Rightarrow> bool" where
  "front_only c \<longleftrightarrow> c \<noteq> PopBack"

definition fifo_inv :: "'a q_system \<Rightarrow> bool" where
  "fifo_inv s \<longleftrightarrow> calls_inv front_only s \<and> pushed s = popped s @ queue (bq s)"

lemma fifo_step:
  assumes "fifo_inv s" "q_step N front_only s s'"
  shows "fifo_inv s'"
proof -
  have calls: "calls_inv front_only s'"
    using calls_step assms unfolding fifo_inv_def by blast
  have front: "f" if "thr s t = Awake (PopImpl f)" for t f
    using assms(1) that unfolding fifo_inv_def calls_inv_def front_only_def by (metis (full_types) call_of.simps(1))
  have "pushed s' = popped s' @ queue (bq s')"
    using assms(2)
  proof cases
    case (q_push t d ok q notif h)
    then show ?thesis using assms(1) by (auto simp: fifo_inv_def Push_body_def split: if_splits)
  next
    case (q_pop t f d q notif h)
    with front have f by blast
    with q_pop assms(1) show ?thesis
      by (cases "queue (bq s)") (auto simp: fifo_inv_def PopImpl_body_def split: if_splits)
  qed (use assms(1) in \<open>auto simp: fifo_inv_def EndQueue_def\<close>)
  with calls show ?thesis unfolding fifo_inv_def by blast
qed

lemma fifo_init: "fifo_inv (q_init cap)"
  by (simp add: fifo_inv_def q_init_def BoundedQueue_def calls_inv_def)

interpretation fifo: invariant_system "\<lambda>s. s = q_init cap" "q_step N front_only" fifo_inv for N cap
  by unfold_locales (auto intro: fifo_init fifo_step)

section \<open>Wake-ups\<close>

fun awake_pop :: "'a q_thread \<Rightarrow> int" where
  "awake_pop (Awake (PopImpl f)) = 1"
| "awake_pop _ = 0"

fun awake_push :: "'a q_thread \<Rightarrow> int" where
  "awake_push (Awake (Push d)) = 1"
| "awake_push _ = 0"

definition no_wait_empty :: "'a q_call \<Rightarrow> bool" where
  "no_wait_empty c \<longleftrightarrow> c \<noteq> WaitEmpty"

lemma awake_wake_le: "awake_pop th \<le> awake_pop (wake th)" "awake_push th \<le> awake_push (wake th)"
  proof -
  have "0 \<le> awake_pop th'" "0 \<le> awake_push th'" for th' :: "'a q_thread"
    by (cases th' rule: awake_pop.cases; simp) (cases th' rule: awake_push.cases; simp)
  then show "awake_pop th \<le> awake_pop (wake th)" "awake_push th \<le> awake_push (wake th)"
    by (cases th; simp)+
qed

lemma on_wake [simp]: "\<not> on_ok_to_pop (wake th)" "\<not> on_ok_to_push (wake th)"
  by (cases th; simp)+

lemma total_notify:
  assumes "notify_one on_cv wk N h h'" and "\<And>u. on_cv (h u) \<Longrightarrow> f (wk (h u)) = f (h u) + d"
  shows "(\<forall>t < N. \<not> on_cv (h t)) \<and> h' = h \<or> (\<exists>t < N. on_cv (h t)) \<and> total N f h' = total N f h + d"
  using assms(1)
proof cases
  case (somebody t)
  then show ?thesis using assms(2) [of t] by (auto simp: total_upd)
qed auto

lemma total_awake_ge: "0 \<le> total N awake_pop h" "0 \<le> total N awake_push h"
proof -
  have "0 \<le> awake_pop th'" "0 \<le> awake_push th'" for th' :: "'a q_thread"
    by (cases th' rule: awake_pop.cases; simp) (cases th' rule: awake_push.cases; simp)
  then show "0 \<le> total N awake_pop h" "0 \<le> total N awake_push h" by (simp_all add: total_nonneg)
qed

text \<open>A notified thread moves from the sleepers to those that count.\<close>

lemma notify_pop:
  assumes "notify_one on_ok_to_pop wake N h h'"
  shows "total N awake_push h' = total N awake_push h"
    and "(\<exists>t < N. on_ok_to_pop (h' t)) \<Longrightarrow> total N awake_pop h' = total N awake_pop h + 1"
    and "(\<exists>t < N. on_ok_to_pop (h' t)) \<Longrightarrow> (\<exists>t < N. on_ok_to_pop (h t))"
    and "(\<exists>t < N. on_ok_to_push (h' t)) \<Longrightarrow> (\<exists>t < N. on_ok_to_push (h t))"
proof -
  have "on_ok_to_pop th \<Longrightarrow> awake_pop (wake th) = awake_pop th + 1 \<and> awake_push (wake th) = awake_push th + 0"
    for th :: "'a q_thread" by (cases th rule: on_ok_to_pop.cases) auto
  then show "total N awake_push h' = total N awake_push h"
    "(\<exists>t < N. on_ok_to_pop (h' t)) \<Longrightarrow> total N awake_pop h' = total N awake_pop h + 1"
    using total_notify [OF assms, of awake_push 0] total_notify [OF assms, of awake_pop 1] by auto
  show "(\<exists>t < N. on_ok_to_pop (h' t)) \<Longrightarrow> (\<exists>t < N. on_ok_to_pop (h t))"
    "(\<exists>t < N. on_ok_to_push (h' t)) \<Longrightarrow> (\<exists>t < N. on_ok_to_push (h t))"
    using notify_one_pointwise [OF assms] on_wake by metis+
qed

lemma notify_push:
  assumes "notify_one on_ok_to_push wake N h h'" and "\<And>t. call_of (h t) \<noteq> Some WaitEmpty"
  shows "total N awake_pop h' = total N awake_pop h"
    and "(\<exists>t < N. on_ok_to_push (h' t)) \<Longrightarrow> total N awake_push h' = total N awake_push h + 1"
    and "(\<exists>t < N. on_ok_to_pop (h' t)) \<Longrightarrow> (\<exists>t < N. on_ok_to_pop (h t))"
    and "(\<exists>t < N. on_ok_to_push (h' t)) \<Longrightarrow> (\<exists>t < N. on_ok_to_push (h t))"
proof -
  have "on_ok_to_push th \<Longrightarrow> call_of th \<noteq> Some WaitEmpty \<Longrightarrow>
      awake_push (wake th) = awake_push th + 1 \<and> awake_pop (wake th) = awake_pop th + 0"
    for th :: "'a q_thread" by (cases th rule: on_ok_to_push.cases) auto
  then show "total N awake_pop h' = total N awake_pop h"
    "(\<exists>t < N. on_ok_to_push (h' t)) \<Longrightarrow> total N awake_push h' = total N awake_push h + 1"
    using total_notify [OF assms(1), of awake_pop 0] total_notify [OF assms(1), of awake_push 1] assms(2)
    by auto
  show "(\<exists>t < N. on_ok_to_pop (h' t)) \<Longrightarrow> (\<exists>t < N. on_ok_to_pop (h t))"
    "(\<exists>t < N. on_ok_to_push (h' t)) \<Longrightarrow> (\<exists>t < N. on_ok_to_push (h t))"
    using notify_one_pointwise [OF assms(1)] on_wake by metis+
qed

definition awake_enough :: "nat \<Rightarrow> nat \<Rightarrow> nat \<Rightarrow> (nat \<Rightarrow> 'a q_thread) \<Rightarrow> bool" where
  "awake_enough N cap len h \<longleftrightarrow>
     ((\<exists>t < N. on_ok_to_pop (h t)) \<longrightarrow> int len \<le> total N awake_pop h) \<and>
     ((\<exists>t < N. on_ok_to_push (h t)) \<longrightarrow> int cap \<le> int len + total N awake_push h)"

lemma enough_upd:
  assumes "awake_enough N cap len h" "t < N" "\<not> on_ok_to_pop th" "\<not> on_ok_to_push th"
    and "awake_pop (h t) \<le> awake_pop th + (int len - int len')"
    and "awake_push (h t) \<le> awake_push th + (int len' - int len)"
  shows "awake_enough N cap len' (h(t := th))"
  using assms unfolding awake_enough_def by (auto simp: total_upd split: if_splits)

lemma enough_step:
  assumes "awake_enough N cap (length (queue (bq s))) (thr s)" and "contents_inv cap s"
    and "\<And>t. call_of (thr s t) \<noteq> Some WaitEmpty" and "q_step N no_wait_empty s s'"
    and "\<not> kill_switch (bq s')"
  shows "awake_enough N cap (length (queue (bq s'))) (thr s')"
  using assms(4)
proof cases
  case (q_call t r c)
  then show ?thesis using assms(1) by (cases c) (auto intro!: enough_upd)
next
  case (q_sleep t c)
  show ?thesis
    using q_sleep assms(1,2,5) assms(3) [of t] total_awake_ge [of N "thr s'"]
    by (cases c) (auto simp: awake_enough_def total_upd contents_inv_def)
next
  case (q_push t d ok q notif h)
  let ?h = "returned t (Pushed ok) (thr s)"
  have q: "q = (bq s)\<lparr>queue := queue (bq s) @ [d]\<rparr>" and n: "notify_one on_ok_to_pop wake N ?h h"
    using q_push assms(5) by (auto simp: Push_body_def split: if_splits)
  have h: "total N awake_pop ?h = total N awake_pop (thr s)"
    "total N awake_push ?h = total N awake_push (thr s) - 1"
    "\<exists>u < N. on_ok_to_pop (?h u) \<Longrightarrow> \<exists>u < N. on_ok_to_pop (thr s u)"
    "\<exists>u < N. on_ok_to_push (?h u) \<Longrightarrow> \<exists>u < N. on_ok_to_push (thr s u)"
    using q_push(2,3) by (auto simp: returned_def total_upd split: if_splits)
  show ?thesis
    using assms(1) notify_pop [OF n] h q q_push(1) unfolding awake_enough_def by auto
next
  case (q_pop t f d q notif h)
  let ?h = "returned t (Popped d) (thr s)"
  have alive: "\<not> kill_switch (bq s)" and ne: "queue (bq s) \<noteq> []"
    using q_pop assms(5) by (auto simp: PopImpl_body_def split: if_splits)
  have len: "int (length (queue q)) = int (length (queue (bq s))) - 1" "length (queue q) < cap" and notif
    using q_pop(5) alive ne assms(2)
    by (cases "queue (bq s)"; auto simp: PopImpl_body_def contents_inv_def split: if_splits)+
  then have n: "notify_one on_ok_to_push wake N ?h h" using q_pop(6) by simp
  have nw: "call_of (?h u) \<noteq> Some WaitEmpty" for u using assms(3) [of u] by (simp add: returned_def)
  have h: "total N awake_push ?h = total N awake_push (thr s)"
    "total N awake_pop ?h = total N awake_pop (thr s) - 1"
    "\<exists>u < N. on_ok_to_pop (?h u) \<Longrightarrow> \<exists>u < N. on_ok_to_pop (thr s u)"
    "\<exists>u < N. on_ok_to_push (?h u) \<Longrightarrow> \<exists>u < N. on_ok_to_push (thr s u)"
    using q_pop(2,3) by (auto simp: returned_def total_upd split: if_splits)
  show ?thesis
    using assms(1) notify_push [OF n nw] h len q_pop(1) unfolding awake_enough_def by auto
next
  case (q_empty t)
  then show ?thesis using assms(3) [of t] by auto
next
  case q_end
  with assms(5) show ?thesis by (simp add: EndQueue_def)
next
  case (q_spurious t)
  then show ?thesis using assms(1) awake_wake_le [of "thr s t"] by (auto intro!: enough_upd)
qed

definition wake_inv :: "nat \<Rightarrow> nat \<Rightarrow> 'a q_system \<Rightarrow> bool" where
  "wake_inv N cap s \<longleftrightarrow>
     contents_inv cap s \<and> calls_inv no_wait_empty s \<and>
     (\<forall>t \<ge> N. call_of (thr s t) = None) \<and>
     (kill_switch (bq s) \<longrightarrow> (\<forall>t c. thr s t \<noteq> Asleep c)) \<and>
     (\<not> kill_switch (bq s) \<longrightarrow> awake_enough N cap (length (queue (bq s))) (thr s))"

lemma wake_init: "wake_inv N cap (q_init cap)"
  by (simp add: wake_inv_def contents_init calls_inv_def awake_enough_def)
     (simp add: q_init_def BoundedQueue_def)

lemma asleep_note:
  "(if notif then notify_one on_cv wake N h0 h else h = h0) \<Longrightarrow> h u = Asleep c \<Longrightarrow> h0 u = Asleep c"
  using notify_one_pointwise [of on_cv wake N h0 h u] by (cases "h0 u") (auto split: if_splits)

lemma wake_not_asleep [simp]: "wake th \<noteq> Asleep c"
  by (cases th) auto

lemma asleep_step:
  assumes "q_step N calls s s'" "thr s' u = Asleep c" "kill_switch (bq s')"
  shows "thr s u = Asleep c \<and> kill_switch (bq s)"
  using assms(1)
proof cases
  case (q_push t d ok q notif h)
  with asleep_note [OF q_push(6), of u c] assms(2,3) show ?thesis
    by (auto simp: returned_def Push_body_def split: if_splits)
next
  case (q_pop t f d q notif h)
  with asleep_note [OF q_pop(6), of u c] assms(2,3) show ?thesis
    by (auto simp: returned_def PopImpl_body_def split: if_splits prod.splits)
next
  case (q_sleep t c)
  then show ?thesis using assms(2,3) by (cases c) (auto split: if_splits)
qed (use assms(2,3) in \<open>auto simp: returned_def EndQueue_def split: if_splits\<close>)

lemma kill_stays:
  assumes "q_step N calls s s'" "kill_switch (bq s)"
  shows "kill_switch (bq s')"
  using assms by cases (auto simp: Push_body_def PopImpl_body_def EndQueue_def split: if_splits prod.splits)

lemma wake_step:
  assumes "wake_inv N cap s" "q_step N no_wait_empty s s'"
  shows "wake_inv N cap s'"
proof -
  have inv: "contents_inv cap s" "calls_inv no_wait_empty s" "\<forall>t \<ge> N. call_of (thr s t) = None"
    "kill_switch (bq s) \<Longrightarrow> \<forall>t c. thr s t \<noteq> Asleep c"
    "\<not> kill_switch (bq s) \<Longrightarrow> awake_enough N cap (length (queue (bq s))) (thr s)"
    using assms(1) unfolding wake_inv_def by blast+
  have nw: "call_of (thr s t) \<noteq> Some WaitEmpty" for t
    using inv(2) unfolding calls_inv_def no_wait_empty_def by blast
  have "\<forall>t \<ge> N. call_of (thr s' t) = None"
    using inv(3) call_of_step [OF assms(2)] by (metis not_le)
  moreover have "kill_switch (bq s') \<longrightarrow> (\<forall>t c. thr s' t \<noteq> Asleep c)"
    using asleep_step [OF assms(2)] inv(4) by blast
  moreover have "awake_enough N cap (length (queue (bq s'))) (thr s')" if "\<not> kill_switch (bq s')"
    using enough_step [OF inv(5) inv(1) nw assms(2) that] kill_stays [OF assms(2)] that by blast
  ultimately show ?thesis
    using contents_step [OF inv(1) assms(2)] calls_step [OF inv(2) assms(2)] unfolding wake_inv_def by blast
qed

interpretation wakeup: invariant_system "\<lambda>s. s = q_init cap" "q_step N no_wait_empty" "wake_inv N cap"
  for N cap
  by unfold_locales (auto intro: wake_init wake_step)

section \<open>Properties\<close>

text \<open>
  C18. The bounded queue neither loses, duplicates nor invents elements: in every reachable state of
  any number of threads, whatever they call and whenever \<^verbatim>\<open>EndQueue\<close> comes, the elements whose
  \<^verbatim>\<open>Push\<close> returned true are those that were popped together with those in the queue, which never
  holds more than its capacity; and when no thread calls \<^verbatim>\<open>PopBack\<close> they leave in the order in
  which they came.
\<close>

theorem queue_contents:
  assumes "(q_step N calls)\<^sup>*\<^sup>* (q_init cap) s"
  shows "length (queue (bq s)) \<le> cap \<and> mset (pushed s) = mset (popped s) + mset (queue (bq s)) \<and>
    (calls = front_only \<longrightarrow> pushed s = popped s @ queue (bq s))"
  using contents.inv_reachable [OF refl assms] fifo.inv_reachable [OF refl] assms
  unfolding contents_inv_def fifo_inv_def by blast

lemma queue_path:
  "q_step N calls s s' \<Longrightarrow> (q_step N calls)\<^sup>*\<^sup>* s' s'' \<Longrightarrow> (q_step N calls)\<^sup>*\<^sup>* s s''"
  by (rule converse_rtranclp_into_rtranclp)

definition q_example :: "nat q_system" where
  "q_example = \<lparr>bq = \<lparr>queue = [7], kill_switch = False, capacity = 1\<rparr>,
     thr = (\<lambda>_. Returned None)(0 := Returned (Some (Pushed True)), 1 := Asleep (Push 8)),
     pushed = [7], popped = []\<rparr>"

lemma q_example_reachable:
  "calls (Push 7) \<Longrightarrow> calls (Push 8) \<Longrightarrow> (q_step 2 calls)\<^sup>*\<^sup>* (q_init 1) q_example"
  apply (rule queue_path, rule q_call [where t = 0 and c = "Push 7"], simp, simp add: q_init_def, assumption)
  apply (rule queue_path, rule q_push [where t = 0 and d = 7 and ok = True and notif = True
        and q = "\<lparr>queue = [7], kill_switch = False, capacity = 1\<rparr>"])
       apply (simp, simp, simp add: q_init_def BoundedQueue_def, simp add: q_init_def BoundedQueue_def Push_body_def)
   apply (simp, rule nobody, simp add: q_init_def returned_def)
  apply (rule queue_path, rule q_call [where t = 1 and c = "Push 8"], simp, simp add: q_init_def returned_def, assumption)
  apply (rule queue_path, rule q_sleep [where t = 1 and c = "Push 8"], simp, simp, simp)
  apply (simp add: q_example_def q_init_def returned_def)
  done

lemma queue_contents_witness: "mset (pushed q_example) = mset (queue (bq q_example)) + mset (popped q_example)"
  using queue_contents [OF q_example_reachable [of front_only]] by (simp add: front_only_def)

text \<open>
  C19. No wake-up is lost as long as nobody calls \<^verbatim>\<open>WaitEmpty\<close>: whenever no thread is about to run, a
  thread that sleeps in \<^verbatim>\<open>Pop\<close> faces an empty queue and one that sleeps in \<^verbatim>\<open>Push\<close> a full one, so
  with a positive capacity producers and consumers never sleep at the same time; and after
  \<^verbatim>\<open>EndQueue\<close> nobody sleeps.
\<close>

theorem queue_no_lost_wakeup:
  assumes "(q_step N no_wait_empty)\<^sup>*\<^sup>* (q_init cap) s" and "\<And>t c. t < N \<Longrightarrow> thr s t \<noteq> Awake c"
  shows "(thr s t = Asleep (PopImpl f) \<longrightarrow> queue (bq s) = []) \<and>
    (thr s t = Asleep (Push d) \<longrightarrow> length (queue (bq s)) = cap) \<and>
    (kill_switch (bq s) \<longrightarrow> thr s t \<noteq> Asleep c)"
proof -
  have inv: "contents_inv cap s" "\<forall>t \<ge> N. call_of (thr s t) = None"
    "kill_switch (bq s) \<longrightarrow> (\<forall>t c. thr s t \<noteq> Asleep c)"
    "\<not> kill_switch (bq s) \<longrightarrow> awake_enough N cap (length (queue (bq s))) (thr s)"
    using wakeup.inv_reachable [OF refl assms(1)] unfolding wake_inv_def by blast+
  have zero: "awake_pop th = 0" "awake_push th = 0" if "\<And>c. th \<noteq> Awake c" for th :: "'a q_thread"
    using that by (cases th; simp)+
  have "total N awake_pop (thr s) = 0" "total N awake_push (thr s) = 0"
    unfolding total_def using assms(2) zero by (simp_all add: sum.neutral)
  moreover have "t < N" if "thr s t = Asleep c" for c using inv(2) that by (metis call_of.simps(2) not_le option.discI)
  ultimately show ?thesis using inv(1,3,4) unfolding awake_enough_def contents_inv_def by force
qed

lemma queue_no_lost_wakeup_witness: "length (queue (bq q_example)) = 1"
  using queue_no_lost_wakeup [OF q_example_reachable, of 1 True 8 "Push 8"]
  by (simp add: no_wait_empty_def q_example_def)

text \<open>
  \<^verbatim>\<open>WaitEmpty\<close> sleeps on the condition variable of the producers and takes their notifications
  without passing them on: with two threads in \<^verbatim>\<open>WaitEmpty\<close> and one element, popping it leaves the
  queue empty and every thread settled while the second \<^verbatim>\<open>WaitEmpty\<close> sleeps for ever.
\<close>

lemma wait_empty_lost_wakeup:
  "\<exists>s :: nat q_system. (q_step 3 (\<lambda>_. True))\<^sup>*\<^sup>* (q_init 1) s \<and> IsEmpty (bq s) \<and> \<not> kill_switch (bq s) \<and>
     thr s 2 = Asleep WaitEmpty \<and> (\<forall>t c. thr s t \<noteq> Awake c)"
proof -
  let ?s = "\<lparr>bq = \<lparr>queue = [], kill_switch = False, capacity = 1\<rparr>,
     thr = (\<lambda>_. Returned None)(0 := Returned (Some (Popped (Some 7))),
       1 := Returned (Some (Emptied True)), 2 := Asleep WaitEmpty), pushed = [7], popped = [7]\<rparr> :: nat q_system"
  note defs = q_init_def BoundedQueue_def returned_def Push_body_def PopImpl_body_def WaitEmpty_body_def
  have "(q_step 3 (\<lambda>_. True))\<^sup>*\<^sup>* (q_init 1) ?s"
    apply (rule queue_path, rule q_call [where t = 0 and c = "Push 7"], simp, simp add: q_init_def, simp)
    apply (rule queue_path, rule q_push [where t = 0 and d = 7 and ok = True and notif = True
          and q = "\<lparr>queue = [7], kill_switch = False, capacity = 1\<rparr>"])
         apply (simp, simp, simp add: defs, simp add: defs, simp, rule nobody, simp add: defs)
    apply (rule queue_path, rule q_call [where t = 1 and c = WaitEmpty], simp, simp add: defs, simp)
    apply (rule queue_path, rule q_sleep [where t = 1 and c = WaitEmpty], simp, simp, simp)
    apply (rule queue_path, rule q_call [where t = 2 and c = WaitEmpty], simp, simp add: defs, simp)
    apply (rule queue_path, rule q_sleep [where t = 2 and c = WaitEmpty], simp, simp, simp)
    apply (rule queue_path, rule q_call [where t = 0 and c = PopFront], simp, simp add: defs, simp)
    apply (rule queue_path, rule q_pop [where t = 0 and f = True and d = "Some 7" and notif = True
          and q = "\<lparr>queue = [], kill_switch = False, capacity = 1\<rparr>"])
         apply (simp, simp, simp, simp add: defs, simp, rule somebody [where t = 1], simp, simp add: defs)
    apply (rule queue_path, rule q_empty [where t = 1], simp, simp add: defs, simp)
    apply (simp add: defs fun_upd_twist)
    done
  then show ?thesis by (intro exI [of _ ?s]) (simp add: IsEmpty_def)
qed

end
