(* ===== verification/Thread_Pool.thy ===== *)
theory Thread_Pool
  imports Bounded_Queue
begin

text \<open>
  \<^verbatim>\<open>thread_pool.h\<close>: the order of the tasks, the priority queue, and the monitor of the worker
  threads. A task is known by its place in the order and by what it runs, a value of any type. The priority
  queue of the standard library promises a greatest element at its top and no more; which one of
  several equal ones comes first is left open.
\<close>

section \<open>The order of the tasks\<close>

datatype task_key = Key (priority: int) (seq_num: nat)

text \<open>\<^verbatim>\<open>PriorityTask::operator<\<close>.\<close>

definition PriorityTask_less :: "task_key \<Rightarrow> task_key \<Rightarrow> bool" where
  "PriorityTask_less a b \<longleftrightarrow>
     priority a > priority b \<or> (priority a = priority b \<and> seq_num a > seq_num b)"

instantiation task_key :: linorder
begin

definition less_task_key :: "task_key \<Rightarrow> task_key \<Rightarrow> bool" where
  "less_task_key a b \<longleftrightarrow> PriorityTask_less a b"

definition less_eq_task_key :: "task_key \<Rightarrow> task_key \<Rightarrow> bool" where
  "less_eq_task_key a b \<longleftrightarrow> a < b \<or> a = b"

instance
proof
  fix a b c :: task_key
  show "a < b \<longleftrightarrow> a \<le> b \<and> \<not> b \<le> a"
    by (cases a; cases b) (auto simp: less_eq_task_key_def less_task_key_def PriorityTask_less_def)
  show "a \<le> b \<Longrightarrow> b \<le> c \<Longrightarrow> a \<le> c"
    by (cases a; cases b; cases c) (auto simp: less_eq_task_key_def less_task_key_def PriorityTask_less_def)
  show "a \<le> b \<Longrightarrow> b \<le> a \<Longrightarrow> a = b"
    by (cases a; cases b) (auto simp: less_eq_task_key_def less_task_key_def PriorityTask_less_def)
  show "a \<le> a" "a \<le> b \<or> b \<le> a"
    by (cases a; cases b; auto simp: less_eq_task_key_def less_task_key_def PriorityTask_less_def)+
qed

end

type_synonym 'f priority_task = "task_key \<times> 'f"

definition is_top :: "'f priority_task list \<Rightarrow> 'f priority_task \<Rightarrow> bool" where
  "is_top q x \<longleftrightarrow> x \<in> set q \<and> (\<forall>y \<in> set q. fst y \<le> fst x)"

section \<open>The workers\<close>

datatype 'f worker =
    W_awake            \<comment> \<open>about to take the mutex and test the condition of \<^verbatim>\<open>cv_.wait\<close>\<close>
  | W_asleep           \<comment> \<open>inside \<^verbatim>\<open>cv_.wait\<close>\<close>
  | W_run "'f priority_task"  \<comment> \<open>in \<^verbatim>\<open>input.func()\<close>\<close>
  | W_exit             \<comment> \<open>has returned\<close>

record 'f thread_pool =
  stopping :: bool
  tasks :: "'f priority_task list"
  workers :: "nat \<Rightarrow> 'f worker"
  submitted :: "'f priority_task list"
  started :: "'f priority_task list"

definition ThreadPool :: "'f thread_pool" where
  "ThreadPool = \<lparr>stopping = False, tasks = [], workers = (\<lambda>_. W_awake), submitted = [], started = []\<rparr>"

fun wake_worker :: "'f worker \<Rightarrow> 'f worker" where
  "wake_worker W_asleep = W_awake"
| "wake_worker w = w"

text \<open>The critical sections: a worker that tests its condition, \<^verbatim>\<open>PushTask\<close>, and the first part of the
  destructor.\<close>

definition worker_waits :: "'f thread_pool \<Rightarrow> bool" where
  "worker_waits p \<longleftrightarrow> \<not> (tasks p \<noteq> [] \<or> stopping p)"

definition worker_exits :: "'f thread_pool \<Rightarrow> bool" where
  "worker_exits p \<longleftrightarrow> stopping p \<and> tasks p = []"

definition worker_takes :: "nat \<Rightarrow> 'f priority_task \<Rightarrow> 'f thread_pool \<Rightarrow> 'f thread_pool" where
  "worker_takes t x p = p\<lparr>tasks := remove1 x (tasks p), workers := (workers p)(t := W_run x),
     started := started p @ [x]\<rparr>"

definition PushTask :: "int \<Rightarrow> nat \<Rightarrow> 'f \<Rightarrow> 'f thread_pool \<Rightarrow> 'f thread_pool" where
  "PushTask prio seq func p = p\<lparr>tasks := tasks p @ [(Key prio seq, func)],
     submitted := submitted p @ [(Key prio seq, func)]\<rparr>"

definition begin_stop :: "'f thread_pool \<Rightarrow> 'f thread_pool" where
  "begin_stop p = p\<lparr>stopping := True, workers := wake_worker \<circ> workers p\<rparr>"

text \<open>The destructor returns once all the threads have been joined.\<close>

definition joined :: "nat \<Rightarrow> 'f thread_pool \<Rightarrow> bool" where
  "joined N p \<longleftrightarrow> stopping p \<and> (\<forall>t < N. workers p t = W_exit)"

inductive pool_step :: "nat \<Rightarrow> 'f thread_pool \<Rightarrow> 'f thread_pool \<Rightarrow> bool" for N p where
  p_wait: "t < N \<Longrightarrow> workers p t = W_awake \<Longrightarrow> worker_waits p \<Longrightarrow>
     pool_step N p (p\<lparr>workers := (workers p)(t := W_asleep)\<rparr>)"
| p_exit: "t < N \<Longrightarrow> workers p t = W_awake \<Longrightarrow> worker_exits p \<Longrightarrow>
     pool_step N p (p\<lparr>workers := (workers p)(t := W_exit)\<rparr>)"
| p_take: "t < N \<Longrightarrow> workers p t = W_awake \<Longrightarrow> \<not> worker_waits p \<Longrightarrow> \<not> worker_exits p \<Longrightarrow>
     is_top (tasks p) x \<Longrightarrow> pool_step N p (worker_takes t x p)"
| p_done: "t < N \<Longrightarrow> workers p t = W_run x \<Longrightarrow> pool_step N p (p\<lparr>workers := (workers p)(t := W_awake)\<rparr>)"
| p_push: "\<not> stopping p \<Longrightarrow> notify_one (\<lambda>w. w = W_asleep) wake_worker N (workers p) h \<Longrightarrow>
     pool_step N p ((PushTask prio seq func p)\<lparr>workers := h\<rparr>)"
| p_stop: "pool_step N p (begin_stop p)"
| p_spurious: "t < N \<Longrightarrow> pool_step N p (p\<lparr>workers := (workers p)(t := wake_worker (workers p t))\<rparr>)"

section \<open>Invariant\<close>

fun awake_worker :: "'f worker \<Rightarrow> int" where
  "awake_worker W_awake = 1"
| "awake_worker _ = 0"

definition pool_inv :: "nat \<Rightarrow> 'f thread_pool \<Rightarrow> bool" where
  "pool_inv N p \<longleftrightarrow>
     mset (submitted p) = mset (started p) + mset (tasks p) \<and>
     (stopping p \<longrightarrow> (\<forall>t < N. workers p t \<noteq> W_asleep)) \<and>
     ((\<exists>t < N. workers p t = W_exit) \<longrightarrow> stopping p \<and> tasks p = []) \<and>
     (\<not> stopping p \<longrightarrow> (\<exists>t < N. workers p t = W_asleep) \<longrightarrow>
        int (length (tasks p)) \<le> total N awake_worker (workers p))"

lemma awake_worker_simps [simp]: "0 \<le> awake_worker w" "awake_worker w \<le> awake_worker (wake_worker w)"
    "wake_worker w \<noteq> W_asleep" "wake_worker w = W_exit \<longleftrightarrow> w = W_exit"
  by (cases w; simp)+

lemma pool_init: "pool_inv N ThreadPool"
  by (simp add: pool_inv_def ThreadPool_def)

lemma pool_inv_step:
  assumes "pool_inv N p" "pool_step N p p'"
  shows "pool_inv N p'"
  using assms(2)
proof cases
  case (p_wait t)
  then show ?thesis using assms(1)
    by (auto simp: pool_inv_def worker_waits_def total_nonneg)
next
  case (p_take t x)
  then have "x \<in> set (tasks p)" by (simp add: is_top_def)
  then have "int (length (remove1 x (tasks p))) = int (length (tasks p)) - 1"
    "mset (tasks p) = {#x#} + mset (remove1 x (tasks p))"
    using length_pos_if_in_set [of x "tasks p"] by (simp_all add: length_remove1 of_nat_diff Suc_le_eq)
  with p_take assms(1) show ?thesis
    by (auto simp: pool_inv_def worker_takes_def total_upd simp del: mset_remove1)
next
  case (p_push h prio seq func)
  have n: "(\<forall>t < N. workers p t \<noteq> W_asleep) \<and> h = workers p \<or>
      (\<exists>t < N. workers p t = W_asleep) \<and> total N awake_worker h = total N awake_worker (workers p) + 1"
    using total_notify [OF p_push(3), of awake_worker 1] by auto
  have "h u = workers p u \<or> h u = wake_worker (workers p u)" for u
    using notify_one_pointwise [OF p_push(3)] .
  then have e: "h u = W_exit \<longleftrightarrow> workers p u = W_exit" for u by (metis awake_worker_simps(4))
  show ?thesis using assms(1) p_push(1,2) n e unfolding pool_inv_def PushTask_def by auto
next
  case (p_spurious t)
  then have "total N awake_worker (workers p) \<le> total N awake_worker (workers p')"
    using awake_worker_simps(2) [of "workers p t"] by (simp add: total_upd)
  with p_spurious assms(1) show ?thesis unfolding pool_inv_def by (auto split: if_splits)
qed (use assms(1) in \<open>auto simp: pool_inv_def total_upd worker_exits_def begin_stop_def split: if_splits\<close>)

interpretation pool: invariant_system "\<lambda>p. p = ThreadPool" "pool_step N" "pool_inv N" for N
  by unfold_locales (auto intro: pool_init pool_inv_step)


section \<open>Properties\<close>

lemma pool_path: "pool_step N p p' \<Longrightarrow> (pool_step N)\<^sup>*\<^sup>* p' p'' \<Longrightarrow> (pool_step N)\<^sup>*\<^sup>* p p''"
  by (rule converse_rtranclp_into_rtranclp)

lemma no_worker_starts: "(pool_step 0)\<^sup>*\<^sup>* p p' \<Longrightarrow> started p' = started p"
  by (induction rule: rtranclp_induct) (auto simp: PushTask_def begin_stop_def elim: pool_step.cases)

text \<open>
  C21. A pool with at least one worker runs every task: no interleaving of pushes, wake-ups and the
  destructor loses or repeats one, when all workers sleep or have returned no task is left in the
  queue, and when the destructor returns every submitted task has been started. A pool of no
  workers, which the constructor accepts, never starts a task although its destructor returns.
\<close>

theorem pool_runs_every_task:
  assumes "(pool_step N)\<^sup>*\<^sup>* ThreadPool p"
  shows "mset (submitted p) = mset (started p) + mset (tasks p) \<and>
    (0 < N \<longrightarrow> (\<forall>t < N. workers p t \<in> {W_asleep, W_exit}) \<longrightarrow> tasks p = []) \<and>
    (0 < N \<longrightarrow> joined N p \<longrightarrow> mset (started p) = mset (submitted p)) \<and>
    (N = 0 \<longrightarrow> started p = [])"
proof -
  have inv: "pool_inv N p" using pool.inv_reachable [OF refl assms] .
  have "tasks p = []" if "0 < N" "\<forall>t < N. workers p t \<in> {W_asleep, W_exit}"
  proof (cases "\<exists>t < N. workers p t = W_exit")
    case True
    then show ?thesis using inv unfolding pool_inv_def by blast
  next
    case False
    with that have asleep: "\<forall>t < N. workers p t = W_asleep" by blast
    then have "total N awake_worker (workers p) = 0" unfolding total_def by (simp add: sum.neutral)
    moreover have "workers p 0 = W_asleep" using asleep that(1) by blast
    moreover from this have "\<not> stopping p" using inv that(1) unfolding pool_inv_def by blast
    ultimately have "int (length (tasks p)) \<le> 0" using inv that(1) unfolding pool_inv_def by metis
    then show ?thesis by simp
  qed
  moreover have "mset (submitted p) = mset (started p) + mset (tasks p)"
    using inv unfolding pool_inv_def by blast
  moreover have "N = 0 \<longrightarrow> started p = []"
    using no_worker_starts [of ThreadPool p] assms by (auto simp: ThreadPool_def)
  ultimately show ?thesis unfolding joined_def by auto
qed

text \<open>Two tasks are pushed, the worker takes the more urgent one, runs it and returns to the queue.\<close>

definition pool_example :: "nat thread_pool" where
  "pool_example = \<lparr>stopping = False, tasks = [(Key 5 0, 1)], workers = (\<lambda>_. W_awake)(0 := W_awake),
     submitted = [(Key 5 0, 1), (Key 2 1, 2)], started = [(Key 2 1, 2)]\<rparr>"

definition pool_filled :: "nat thread_pool" where
  "pool_filled = \<lparr>stopping = False, tasks = [(Key 5 0, 1), (Key 2 1, 2)], workers = (\<lambda>_. W_awake),
     submitted = [(Key 5 0, 1), (Key 2 1, 2)], started = []\<rparr>"

lemma pool_filled_reachable: "(pool_step 1)\<^sup>*\<^sup>* ThreadPool pool_filled"
  apply (rule pool_path, rule p_push [where prio = 5 and seq = 0 and func = 1 and h = "\<lambda>_. W_awake"])
    apply (simp add: ThreadPool_def, simp add: ThreadPool_def, rule nobody, simp)
  apply (rule pool_path, rule p_push [where prio = 2 and seq = 1 and func = 2 and h = "\<lambda>_. W_awake"])
    apply (simp add: ThreadPool_def PushTask_def, simp add: ThreadPool_def PushTask_def, rule nobody, simp)
  apply (simp add: ThreadPool_def PushTask_def pool_filled_def)
  done

lemma pool_example_reachable: "(pool_step 1)\<^sup>*\<^sup>* pool_filled pool_example"
  apply (rule pool_path, rule p_take [where t = 0 and x = "(Key 2 1, 2)"])
      apply (simp, simp add: pool_filled_def, simp add: pool_filled_def worker_waits_def,
      simp add: pool_filled_def worker_exits_def,
      simp add: pool_filled_def is_top_def less_eq_task_key_def less_task_key_def PriorityTask_less_def)
  apply (rule pool_path, rule p_done [where t = 0 and x = "(Key 2 1, 2)"], simp, simp add: worker_takes_def)
  apply (simp add: worker_takes_def pool_filled_def pool_example_def)
  done

lemma pool_runs_every_task_witness:
  "mset (submitted pool_example) = mset (started pool_example) + mset (tasks pool_example) \<and>
   length (started pool_example) = 1"
  using pool_runs_every_task [OF rtranclp_trans [OF pool_filled_reachable pool_example_reachable]]
  by (simp add: pool_example_def)

lemma step_order:
  assumes "pool_step N p p'"
  shows "(\<exists>x. started p' = started p @ [x] \<and> is_top (tasks p) x \<and> tasks p' = remove1 x (tasks p) \<and>
            submitted p' = submitted p) \<or>
         (started p' = started p \<and> tasks p' = tasks p \<and> submitted p' = submitted p) \<or>
         (started p' = started p \<and> (\<exists>y. submitted p' = submitted p @ [y]))"
  using assms by cases (auto simp: worker_takes_def PushTask_def begin_stop_def)

text \<open>
  As long as nothing is pushed, tasks start in the order of their priority, lower values
  first, and among equal priorities in the order of their sequence numbers, whichever workers
  take them; and no task that is left over should have gone before one that has started.
\<close>

lemma pool_priority_order:
  assumes "(pool_step N)\<^sup>*\<^sup>* p p'" and "submitted p' = submitted p"
  shows "\<exists>xs. started p' = started p @ xs \<and> sorted_wrt (\<lambda>x y. fst y \<le> fst x) xs \<and>
    (\<forall>x \<in> set xs. \<forall>y \<in> set (tasks p'). fst y \<le> fst x)"
proof -
  have "\<exists>xs ys. started p' = started p @ xs \<and> submitted p' = submitted p @ ys \<and>
     (ys = [] \<longrightarrow> sorted_wrt (\<lambda>x y. fst y \<le> fst x) xs \<and> (\<forall>x \<in> set xs. \<forall>y \<in> set (tasks p'). fst y \<le> fst x))"
    using assms(1)
  proof (induction rule: rtranclp_induct)
    case (step q r)
    then obtain xs ys where q: "started q = started p @ xs" "submitted q = submitted p @ ys"
      "ys = [] \<longrightarrow> sorted_wrt (\<lambda>x y. fst y \<le> fst x) xs \<and> (\<forall>x \<in> set xs. \<forall>y \<in> set (tasks q). fst y \<le> fst x)"
      by blast
    from step_order [OF step(2)] show ?case
    proof (elim disjE exE conjE)
      fix x assume x: "started r = started q @ [x]" "is_top (tasks q) x" "tasks r = remove1 x (tasks q)"
        "submitted r = submitted q"
      have "set (tasks r) \<subseteq> set (tasks q)" using x(3) set_remove1_subset by metis
      with x q show ?thesis
        by (intro exI [of _ "xs @ [x]"] exI [of _ ys]) (auto simp: is_top_def sorted_wrt_append)
    next
      fix y assume "started r = started q" "submitted r = submitted q @ [y]"
      with q show ?thesis by (intro exI [of _ xs] exI [of _ "ys @ [y]"]) auto
    qed (use q in auto)
  qed auto
  with assms(2) show ?thesis by auto
qed

lemma pool_priority_order_witness:
  "\<exists>xs. started pool_example = started pool_filled @ xs \<and> sorted_wrt (\<lambda>x y. fst y \<le> fst x) xs"
  using pool_priority_order [OF pool_example_reachable] by (auto simp: pool_example_def pool_filled_def)

end
