(* ===== verification/Pipeline_Stage.thy ===== *)
theory Pipeline_Stage
  imports Thread_Pool
begin

text \<open>
  \<^verbatim>\<open>pipeline.h\<close>: one stage of a pipeline. Its buffer is a list of tasks, each with an identity (the
  list iterator that the closure given to the thread pool keeps); the function of the stage is a parameter
  \<open>f\<close>. Every operation is a critical section of the stage's mutex, and a step of the stage is a
  \<^verbatim>\<open>Push\<close>, the end of a task on some worker of the pool, in any order, or \<^verbatim>\<open>Stop\<close>.
\<close>

section \<open>The stage\<close>

datatype task_state = NEW_TASK | RUNNING | FINISHED

record ('a, 'b) task_instance =
  node :: nat
  input :: 'a
  result :: "'b option"
  state :: task_state

text \<open>\<open>scheduled\<close> are the nodes given to the thread pool that have not been run yet, with their sequence
  numbers; \<open>sent\<close> is what the next stage has got (\<^const>\<open>None\<close> an output that was never computed); \<open>accepted\<close>
  logs the inputs.\<close>

record ('a, 'b) stage =
  max_active_tasks :: nat
  input_buffer_size :: nat
  pool_threads :: nat
  out_of_order :: bool
  killed :: bool
  next_seq :: nat
  input_buffer :: "('a, 'b) task_instance list"
  scheduled :: "(nat \<times> nat) list"
  sent :: "'b option list"
  accepted :: "'a list"

text \<open>The constructor without a pool makes its own, with the number of threads as it was given.\<close>

definition PipelineStage :: "nat \<Rightarrow> nat \<Rightarrow> bool \<Rightarrow> ('a, 'b) stage" where
  "PipelineStage max_active buffer_size ooo =
     \<lparr>max_active_tasks = max max_active 1, input_buffer_size = buffer_size, pool_threads = max_active,
      out_of_order = ooo, killed = False, next_seq = 0, input_buffer = [], scheduled = [],
      sent = [], accepted = []\<rparr>"

definition OutputToNextStage :: "'b option \<Rightarrow> ('a, 'b) stage \<Rightarrow> ('a, 'b) stage" where
  "OutputToNextStage x s = (if \<not> killed s then s\<lparr>sent := sent s @ [x]\<rparr> else s)"

text \<open>The loop that retires finished tasks from the front.\<close>

function retire_front :: "('a, 'b) stage \<Rightarrow> ('a, 'b) stage" where
  "retire_front s =
     (case input_buffer s of
        [] \<Rightarrow> s
      | t # ts \<Rightarrow>
          if state t = FINISHED
          then retire_front ((OutputToNextStage (result t) s)\<lparr>input_buffer := ts\<rparr>) else s)"
  by pat_completeness auto
termination
  by (relation "measure (\<lambda>s. length (input_buffer s))") (auto simp: OutputToNextStage_def)

declare retire_front.simps [simp del]

text \<open>The loop that schedules new tasks among the first \<^verbatim>\<open>max_active_tasks_\<close> places of the buffer. It
  returns the buffer, the next sequence number and what it gave to the pool.\<close>

fun schedule :: "nat \<Rightarrow> bool \<Rightarrow> nat \<Rightarrow> ('a, 'b) task_instance list \<Rightarrow>
    ('a, 'b) task_instance list \<times> nat \<times> (nat \<times> nat) list" where
  "schedule n kill seq [] = ([], seq, [])"
| "schedule 0 kill seq ts = (ts, seq, [])"
| "schedule (Suc n) kill seq (t # ts) =
     (if state t = NEW_TASK then
        if kill then (let (ts', seq', jobs) = schedule n kill seq ts
                      in (t\<lparr>state := FINISHED\<rparr> # ts', seq', jobs))
        else (let (ts', seq', jobs) = schedule n kill (seq + 1) ts
              in (t\<lparr>state := RUNNING\<rparr> # ts', seq', (seq, node t) # jobs))
      else (let (ts', seq', jobs) = schedule n kill seq ts in (t # ts', seq', jobs)))"

definition find_node :: "nat \<Rightarrow> ('a, 'b) stage \<Rightarrow> ('a, 'b) task_instance option" where
  "find_node i s = find (\<lambda>t. node t = i) (input_buffer s)"

text \<open>The two halves of \<^verbatim>\<open>CheckQueueNolock\<close>; the iterator \<^verbatim>\<open>end()\<close> is \<^const>\<open>None\<close>.\<close>

definition retire :: "nat option \<Rightarrow> ('a, 'b) stage \<Rightarrow> ('a, 'b) stage" where
  "retire curr_it s =
     (case Option.bind curr_it (\<lambda>i. find_node i s) of
        Some t \<Rightarrow>
          if out_of_order s \<and> state t = FINISHED
          then (OutputToNextStage (result t) s)
                 \<lparr>input_buffer := filter (\<lambda>u. node u \<noteq> node t) (input_buffer s)\<rparr>
          else retire_front s
      | None \<Rightarrow> retire_front s)"

definition schedule_new :: "('a, 'b) stage \<Rightarrow> ('a, 'b) stage" where
  "schedule_new s =
     (let (buf, seq, jobs) = schedule (max_active_tasks s) (killed s) (next_seq s) (input_buffer s)
      in s\<lparr>input_buffer := buf, next_seq := seq, scheduled := scheduled s @ jobs\<rparr>)"

definition CheckQueueNolock :: "nat option \<Rightarrow> ('a, 'b) stage \<Rightarrow> ('a, 'b) stage" where
  "CheckQueueNolock curr_it s = schedule_new (retire curr_it s)"

text \<open>\<^verbatim>\<open>Push\<close> has to wait while the buffer is full; then it returns whether it succeeded. The new node
  gets an identity that no node has had before.\<close>

definition Push_must_wait :: "('a, 'b) stage \<Rightarrow> bool" where
  "Push_must_wait s \<longleftrightarrow> length (input_buffer s) \<ge> input_buffer_size s \<and> \<not> killed s"

definition StagePush :: "'a \<Rightarrow> ('a, 'b) stage \<Rightarrow> bool \<times> ('a, 'b) stage" where
  "StagePush x s =
     (if killed s then (False, s)
      else (True, CheckQueueNolock None
        (s\<lparr>input_buffer := input_buffer s @
             [\<lparr>node = length (accepted s), input = x, result = None, state = NEW_TASK\<rparr>],
           accepted := accepted s @ [x]\<rparr>)))"

definition finish_task :: "('a \<Rightarrow> 'b) \<Rightarrow> nat \<Rightarrow> ('a, 'b) task_instance \<Rightarrow> ('a, 'b) task_instance" where
  "finish_task f i t = (if node t = i then t\<lparr>result := Some (f (input t)), state := FINISHED\<rparr> else t)"

definition RunTask :: "('a \<Rightarrow> 'b) \<Rightarrow> nat \<Rightarrow> ('a, 'b) stage \<Rightarrow> ('a, 'b) stage" where
  "RunTask f i s =
     CheckQueueNolock (Some i) (s\<lparr>input_buffer := map (finish_task f i) (input_buffer s)\<rparr>)"

text \<open>\<^verbatim>\<open>WaitTillClear\<close> returns at once from a stage that has been stopped before the call; otherwise it
  sleeps until the buffer is empty. \<^verbatim>\<open>Stop\<close> sets the switch; it then destroys the stage's own pool, which
  runs what it still has.\<close>

definition WaitTillClear_skips :: "('a, 'b) stage \<Rightarrow> bool" where
  "WaitTillClear_skips s \<longleftrightarrow> killed s"

definition WaitTillClear_returns :: "('a, 'b) stage \<Rightarrow> bool" where
  "WaitTillClear_returns s \<longleftrightarrow> input_buffer s = []"

definition IsClear :: "('a, 'b) stage \<Rightarrow> bool" where
  "IsClear s \<longleftrightarrow> input_buffer s = []"

definition Stop :: "('a, 'b) stage \<Rightarrow> ('a, 'b) stage" where
  "Stop s = s\<lparr>killed := True\<rparr>"

text \<open>The pool runs any of the tasks it has been given.\<close>

definition pool_runs :: "('a \<Rightarrow> 'b) \<Rightarrow> nat \<times> nat \<Rightarrow> ('a, 'b) stage \<Rightarrow> ('a, 'b) stage" where
  "pool_runs f job s = RunTask f (snd job) (s\<lparr>scheduled := remove1 job (scheduled s)\<rparr>)"

inductive stage_step :: "('a \<Rightarrow> 'b) \<Rightarrow> ('a, 'b) stage \<Rightarrow> ('a, 'b) stage \<Rightarrow> bool" for f s where
  st_push: "\<not> Push_must_wait s \<Longrightarrow> stage_step f s (snd (StagePush x s))"
| st_run: "(seq, i) \<in> set (scheduled s) \<Longrightarrow> stage_step f s (pool_runs f (seq, i) s)"
| st_stop: "stage_step f s (Stop s)"


section \<open>What one critical section does\<close>

abbreviation finished :: "('a, 'b) task_instance \<Rightarrow> bool" where
  "finished t \<equiv> state t = FINISHED"

definition start :: "('a, 'b) task_instance \<Rightarrow> ('a, 'b) task_instance" where
  "start t = (if state t = NEW_TASK then t\<lparr>state := RUNNING\<rparr> else t)"

lemma start_simps [simp]: "node (start t) = node t" "input (start t) = input t"
    "result (start t) = result t" "state (start t) \<noteq> NEW_TASK" "finished (start t) \<longleftrightarrow> finished t"
  by (cases "state t"; simp add: start_def)+

lemma retire_front_alive:
  assumes "\<not> killed s"
  shows "retire_front s = s\<lparr>sent := sent s @ map result (takeWhile finished (input_buffer s)),
    input_buffer := dropWhile finished (input_buffer s)\<rparr>"
  using assms
proof (induction s rule: retire_front.induct)
  case (1 s)
  show ?case
  proof (cases "input_buffer s")
    case Nil
    then show ?thesis by (simp add: retire_front.simps [of s])
  next
    case (Cons t ts)
    then show ?thesis using 1 by (simp add: retire_front.simps [of s] OutputToNextStage_def)
  qed
qed

lemma retire_front_killed:
  assumes "killed s"
  shows "retire_front s = s\<lparr>input_buffer := dropWhile finished (input_buffer s)\<rparr>"
  using assms
proof (induction s rule: retire_front.induct)
  case (1 s)
  show ?case
  proof (cases "input_buffer s")
    case Nil
    then show ?thesis by (simp add: retire_front.simps [of s])
  next
    case (Cons t ts)
    then show ?thesis using 1 by (simp add: retire_front.simps [of s] OutputToNextStage_def)
  qed
qed

lemma schedule_alive:
  "schedule n False seq ts = (ts', seq', jobs) \<Longrightarrow>
    ts' = map start (take n ts) @ drop n ts \<and>
    map snd jobs = map node (filter (\<lambda>t. state t = NEW_TASK) (take n ts))"
proof (induction n False seq ts arbitrary: ts' seq' jobs rule: schedule.induct)
  case (3 n seq t ts)
  then show ?case by (auto simp: start_def split: if_splits prod.splits)
qed auto

lemma drop_filter_subset: "set (drop n (filter P xs)) \<subseteq> set (drop n xs)"
proof (induction xs arbitrary: n)
  case (Cons x xs)
  show ?case
  proof (cases n)
    case 0
    then show ?thesis by auto
  next
    case (Suc m)
    then have "set (drop n (filter P xs)) \<subseteq> set (drop m (filter P xs))" by (simp add: set_drop_subset_set_drop)
    then show ?thesis using Cons [of m] Suc by (cases "P x") auto
  qed
qed simp

text \<open>What holds between the operations of a stage that has not been stopped, and, with the finished
  task \<open>curr_it\<close> still in the buffer, before the queue is checked.\<close>

definition core :: "('a \<Rightarrow> 'b) \<Rightarrow> nat option \<Rightarrow> ('a, 'b) stage \<Rightarrow> bool" where
  "core f curr_it s \<longleftrightarrow>
     max_active_tasks s > 0 \<and>
     length (input_buffer s) \<le> input_buffer_size s \<and>
     (\<forall>t \<in> set (input_buffer s). finished t \<longrightarrow> result t = Some (f (input t))) \<and>
     (\<forall>t \<in> set (input_buffer s). finished t \<longrightarrow> out_of_order s \<longrightarrow> Some (node t) = curr_it) \<and>
     (\<forall>t \<in> set (drop (max_active_tasks s) (input_buffer s)). state t = NEW_TASK) \<and>
     distinct (map node (input_buffer s)) \<and>
     (\<forall>t \<in> set (input_buffer s). node t < length (accepted s)) \<and>
     mset (map snd (scheduled s)) =
       mset (map node (filter (\<lambda>t. state t = RUNNING) (input_buffer s))) \<and>
     mset (map (Some \<circ> f) (accepted s)) =
       mset (sent s) + mset (map (Some \<circ> f \<circ> input) (input_buffer s)) \<and>
     (\<not> out_of_order s \<longrightarrow>
       map (Some \<circ> f) (accepted s) = sent s @ map (Some \<circ> f \<circ> input) (input_buffer s))"

definition settled :: "('a, 'b) stage \<Rightarrow> bool" where
  "settled s \<longleftrightarrow>
     (\<forall>t \<in> set (take (max_active_tasks s) (input_buffer s)). state t \<noteq> NEW_TASK) \<and>
     (input_buffer s \<noteq> [] \<longrightarrow> \<not> finished (hd (input_buffer s)))"

lemma core_shrink:
  assumes "core f curr_it s" and "set b \<subseteq> set (input_buffer s)" "length b \<le> length (input_buffer s)"
    and "\<And>m. set (drop m b) \<subseteq> set (drop m (input_buffer s))" "distinct (map node b)"
    and "mset (map node (filter (\<lambda>t. state t = RUNNING) (input_buffer s))) =
      mset (map node (filter (\<lambda>t. state t = RUNNING) b))"
    and "mset (map (Some \<circ> f \<circ> input) (input_buffer s)) = mset outs + mset (map (Some \<circ> f \<circ> input) b)"
    and "\<not> out_of_order s \<Longrightarrow> map (Some \<circ> f \<circ> input) (input_buffer s) = outs @ map (Some \<circ> f \<circ> input) b"
    and "\<And>t. out_of_order s \<Longrightarrow> t \<in> set b \<Longrightarrow> \<not> finished t"
  shows "core f None (s\<lparr>sent := sent s @ outs, input_buffer := b\<rparr>)"
proof -
  note c = assms(1) [unfolded core_def]
  have "\<forall>t \<in> set b. finished t \<longrightarrow> result t = Some (f (input t))"
    "\<forall>t \<in> set (drop (max_active_tasks s) b). state t = NEW_TASK"
    "\<forall>t \<in> set b. node t < length (accepted s)"
    using c assms(2,4) by blast+
  moreover have "length b \<le> input_buffer_size s" using c assms(3) by linarith
  moreover have "mset (map (Some \<circ> f) (accepted s)) = mset (sent s @ outs) + mset (map (Some \<circ> f \<circ> input) b)"
    using c assms(7) by (simp only: mset_append) simp
  moreover have "\<not> out_of_order s \<longrightarrow>
      map (Some \<circ> f) (accepted s) = (sent s @ outs) @ map (Some \<circ> f \<circ> input) b"
    using c assms(8) by (metis append_assoc)
  moreover have "mset (map snd (scheduled s)) = mset (map node (filter (\<lambda>t. state t = RUNNING) b))"
    using c assms(6) by metis
  ultimately show ?thesis using c assms(5,9) unfolding core_def by simp blast
qed

lemma core_retire:
  assumes "core f curr_it s" "\<not> killed s" "\<not> out_of_order s \<or> curr_it = None"
  shows "core f None (retire_front s)"
    "input_buffer (retire_front s) \<noteq> [] \<longrightarrow> \<not> finished (hd (input_buffer (retire_front s)))"
proof -
  let ?a = "takeWhile finished (input_buffer s)" and ?b = "dropWhile finished (input_buffer s)"
  have split: "input_buffer s = ?a @ ?b" by simp
  have a: "\<forall>t \<in> set ?a. finished t" by (auto dest: set_takeWhileD)
  have c: "\<forall>t \<in> set (input_buffer s). finished t \<longrightarrow> result t = Some (f (input t))"
    "distinct (map node (input_buffer s))"
    "\<forall>t \<in> set (input_buffer s). finished t \<longrightarrow> out_of_order s \<longrightarrow> Some (node t) = curr_it"
    using assms(1) unfolding core_def by blast+
  have outs: "map (Some \<circ> f \<circ> input) (input_buffer s) = map result ?a @ map (Some \<circ> f \<circ> input) ?b"
  proof -
    have "map (Some \<circ> f \<circ> input) ?a = map result ?a" using c(1) by (auto dest: set_takeWhileD)
    then show ?thesis by (subst split) (simp only: map_append)
  qed
  have none: "filter (\<lambda>t. state t = RUNNING) ?a = []" using a by (auto simp: filter_empty_conv)
  show "core f None (retire_front s)"
    unfolding retire_front_alive [OF assms(2)]
  proof (rule core_shrink [OF assms(1)])
    show sub: "set ?b \<subseteq> set (input_buffer s)" by (auto dest: set_dropWhileD)
    show "length ?b \<le> length (input_buffer s)" by (rule length_dropWhile_le)
    show "set (drop m ?b) \<subseteq> set (drop m (input_buffer s))" for m
      by (metis drop_drop add.commute dropWhile_eq_drop set_drop_subset)
    show "distinct (map node ?b)" using c(2) split by (metis distinct_append map_append)
    show "mset (map node (filter (\<lambda>t. state t = RUNNING) (input_buffer s))) =
      mset (map node (filter (\<lambda>t. state t = RUNNING) ?b))"
      by (subst split) (simp only: filter_append none append_Nil)
    show "mset (map (Some \<circ> f \<circ> input) (input_buffer s)) =
      mset (map result ?a) + mset (map (Some \<circ> f \<circ> input) ?b)"
      by (simp only: outs mset_append)
    show "\<not> finished t" if "out_of_order s" "t \<in> set ?b" for t
      using c(3) assms(3) that sub by auto
  qed (rule outs)
  show "input_buffer (retire_front s) \<noteq> [] \<longrightarrow> \<not> finished (hd (input_buffer (retire_front s)))"
    using hd_dropWhile [of finished "input_buffer s"]
    by (simp add: retire_front_alive [OF assms(2)] del: dropWhile_eq_Nil_conv)
qed

lemma remove_node:
  assumes "distinct (map node ts)" "t \<in> set ts"
  shows "mset ts = {#t#} + mset (filter (\<lambda>u. node u \<noteq> node t) ts)"
  using assms
proof (induction ts)
  case (Cons u us)
  show ?case
  proof (cases "t = u")
    case True
    then have "filter (\<lambda>v. node v \<noteq> node t) us = us" using Cons.prems(1) by (force simp: filter_id_conv image_iff)
    with True show ?thesis by simp
  next
    case False
    with Cons.prems have "node u \<noteq> node t" by auto
    with False Cons show ?thesis by simp
  qed
qed simp

lemma core_remove:
  assumes "core f (Some i) s" "\<not> killed s" "out_of_order s" "find_node i s = Some t" "finished t"
  shows "core f None ((OutputToNextStage (result t) s)
           \<lparr>input_buffer := filter (\<lambda>u. node u \<noteq> node t) (input_buffer s)\<rparr>)"
proof -
  let ?b = "filter (\<lambda>u. node u \<noteq> node t) (input_buffer s)"
  have t: "t \<in> set (input_buffer s)" "node t = i"
    using assms(4) by (auto simp: find_node_def find_Some_iff)
  have c: "result t = Some (f (input t))" "distinct (map node (input_buffer s))"
    "\<forall>t \<in> set (input_buffer s). finished t \<longrightarrow> out_of_order s \<longrightarrow> Some (node t) = Some i"
    using assms(1,5) t(1) unfolding core_def by blast+
  have split: "mset (input_buffer s) = {#t#} + mset ?b" by (rule remove_node [OF c(2) t(1)])
  have "core f None (s\<lparr>sent := sent s @ [result t], input_buffer := ?b\<rparr>)"
  proof (rule core_shrink [OF assms(1)])
    show "mset (map node (filter (\<lambda>t. state t = RUNNING) (input_buffer s))) =
      mset (map node (filter (\<lambda>t. state t = RUNNING) ?b))"
      using arg_cong [OF split, of "\<lambda>M. image_mset node (filter_mset (\<lambda>t. state t = RUNNING) M)"] assms(5)
      by (simp del: filter_filter)
    show "mset (map (Some \<circ> f \<circ> input) (input_buffer s)) =
      mset [result t] + mset (map (Some \<circ> f \<circ> input) ?b)"
      using arg_cong [OF split, of "image_mset (Some \<circ> f \<circ> input)"] c(1) by simp
    show "\<not> finished u" if "out_of_order s" "u \<in> set ?b" for u
      using c(3) assms(3) that t(2) by auto
  qed (rule drop_filter_subset | use assms(3) c(2) in \<open>simp add: distinct_map_filter\<close>)+
  then show ?thesis using assms(2) by (simp add: OutputToNextStage_def)
qed

lemma running_started:
  "mset (map node (filter (\<lambda>t. state t = RUNNING) (map start ts))) =
   mset (map node (filter (\<lambda>t. state t = RUNNING) ts)) + mset (map node (filter (\<lambda>t. state t = NEW_TASK) ts))"
  by (induction ts) (auto simp: start_def)

lemma core_schedule:
  assumes "core f None s" "\<not> killed s"
    and "schedule (max_active_tasks s) (killed s) (next_seq s) (input_buffer s) = (buf, seq, jobs)"
    and "input_buffer s \<noteq> [] \<longrightarrow> \<not> finished (hd (input_buffer s))"
  shows "core f None (s\<lparr>input_buffer := buf, next_seq := seq, scheduled := scheduled s @ jobs\<rparr>)"
    "settled (s\<lparr>input_buffer := buf, next_seq := seq, scheduled := scheduled s @ jobs\<rparr>)"
proof -
  let ?m = "max_active_tasks s"
  let ?a = "take ?m (input_buffer s)" and ?b = "drop ?m (input_buffer s)"
  have split: "input_buffer s = ?a @ ?b" by simp
  have buf: "buf = map start ?a @ ?b"
    and jobs: "map snd jobs = map node (filter (\<lambda>t. state t = NEW_TASK) ?a)"
    using schedule_alive [of ?m "next_seq s" "input_buffer s" buf seq jobs] assms(2,3) by auto
  note c = assms(1) [unfolded core_def]
  have new: "\<forall>t \<in> set ?b. state t = NEW_TASK" and pos: "?m > 0" using c by blast+
  have same: "map g buf = map g (input_buffer s)" if "\<And>t. g (start t) = g t" for g :: "_ \<Rightarrow> 'x"
    using that by (simp add: buf o_def take_map [symmetric] drop_map [symmetric])
  have len: "length buf = length (input_buffer s)" using same [of node] by (metis length_map start_simps(1))
  have drop: "drop ?m buf = ?b" unfolding buf
    by (metis append_take_drop_id diff_self_eq_0 drop0 drop_append drop_eq_Nil length_map length_take le_cases
        append_Nil append_eq_conv_conj buf len)
  have sets: "t \<in> set buf \<Longrightarrow> \<exists>u \<in> set (input_buffer s). node t = node u \<and> input t = input u \<and>
      result t = result u \<and> (finished t \<longleftrightarrow> finished u)" for t
    unfolding buf by (auto dest: in_set_takeD in_set_dropD)
  have none: "filter (\<lambda>t. state t = RUNNING) ?b = []" using new by (auto simp: filter_empty_conv)
  have running: "mset (map snd (scheduled s @ jobs)) = mset (map node (filter (\<lambda>t. state t = RUNNING) buf))"
  proof -
    have "mset (map node (filter (\<lambda>t. state t = RUNNING) buf)) =
        mset (map node (filter (\<lambda>t. state t = RUNNING) (map start ?a)))"
      by (simp only: buf filter_append none append_Nil2)
    also have "\<dots> = mset (map node (filter (\<lambda>t. state t = RUNNING) ?a)) + mset (map snd jobs)"
      by (simp only: running_started jobs)
    also have "mset (map node (filter (\<lambda>t. state t = RUNNING) ?a)) =
        mset (map node (filter (\<lambda>t. state t = RUNNING) (input_buffer s)))"
      by (subst (2) split) (simp only: filter_append none append_Nil2)
    also have "\<dots> = mset (map snd (scheduled s))" using c by metis
    finally show ?thesis by simp
  qed
  have parts: "length buf \<le> input_buffer_size s" "distinct (map node buf)"
    "\<forall>t \<in> set buf. finished t \<longrightarrow> result t = Some (f (input t))"
    "\<forall>t \<in> set buf. finished t \<longrightarrow> out_of_order s \<longrightarrow> Some (node t) = None"
    "\<forall>t \<in> set buf. node t < length (accepted s)"
    using c same [of node] len sets by (simp_all; metis)+
  show "core f None (s\<lparr>input_buffer := buf, next_seq := seq, scheduled := scheduled s @ jobs\<rparr>)"
    using parts running drop new pos c same [of "Some \<circ> f \<circ> input"] unfolding core_def by simp
  show "settled (s\<lparr>input_buffer := buf, next_seq := seq, scheduled := scheduled s @ jobs\<rparr>)"
  proof -
    have "take ?m buf = map start ?a"
      using drop len by (metis append_eq_append_conv append_take_drop_id buf)
    moreover have "\<not> finished (hd buf)" if "buf \<noteq> []"
    proof -
      have ne: "input_buffer s \<noteq> []" using that len by auto
      then have "hd buf = start (hd (input_buffer s))" using pos by (cases "input_buffer s") (auto simp: buf take_Cons')
      then show ?thesis using assms(4) ne by simp
    qed
    ultimately show ?thesis unfolding settled_def by simp
  qed
qed

lemma CheckQueueNolock_core:
  assumes "core f curr_it s" "\<not> killed s"
    and "curr_it = None \<or> (\<exists>t i. curr_it = Some i \<and> find_node i s = Some t \<and> finished t)"
  shows "core f None (CheckQueueNolock curr_it s)" "settled (CheckQueueNolock curr_it s)"
    "\<not> killed (CheckQueueNolock curr_it s)"
proof -
  obtain s' where s': "core f None s'" "\<not> killed s'" "input_buffer s' \<noteq> [] \<longrightarrow> \<not> finished (hd (input_buffer s'))"
    and check: "CheckQueueNolock curr_it s = schedule_new s'"
  proof (cases "out_of_order s \<and> curr_it \<noteq> None")
    case True
    then obtain t i where t: "curr_it = Some i" "find_node i s = Some t" "finished t" using assms(3) by blast
    let ?s = "(OutputToNextStage (result t) s)
           \<lparr>input_buffer := filter (\<lambda>u. node u \<noteq> node t) (input_buffer s)\<rparr>"
    have core: "core f None ?s" using core_remove [of f i s t] assms(1,2) True t by simp
    moreover have "\<not> killed ?s" "out_of_order ?s" using assms(2) True by (simp_all add: OutputToNextStage_def)
    moreover from this core have "input_buffer ?s \<noteq> [] \<longrightarrow> \<not> finished (hd (input_buffer ?s))"
      unfolding core_def by (metis list.set_sel(1) option.distinct(1))
    ultimately show ?thesis using that [of ?s] t True by (simp add: CheckQueueNolock_def retire_def)
  next
    case False
    then have "\<not> out_of_order s \<or> curr_it = None" by blast
    note r = core_retire [OF assms(1,2) this]
    have "CheckQueueNolock curr_it s = schedule_new (retire_front s)"
      using False by (auto simp: CheckQueueNolock_def retire_def split: option.splits)
    then show ?thesis using that [OF r(1) _ r(2)] assms(2) by (simp add: retire_front_alive)
  qed
  obtain buf seq jobs where sch:
    "schedule (max_active_tasks s') (killed s') (next_seq s') (input_buffer s') = (buf, seq, jobs)"
    using prod_cases3 by blast
  have eq: "CheckQueueNolock curr_it s = s'\<lparr>input_buffer := buf, next_seq := seq, scheduled := scheduled s' @ jobs\<rparr>"
    by (simp only: check schedule_new_def sch Let_def prod.case)
  show "core f None (CheckQueueNolock curr_it s)" "settled (CheckQueueNolock curr_it s)"
    "\<not> killed (CheckQueueNolock curr_it s)"
    using core_schedule [OF s'(1,2) sch s'(3)] s'(2) by (simp_all add: eq)
qed

lemma coreI:
  assumes "max_active_tasks s > 0" "length (input_buffer s) \<le> input_buffer_size s"
    and "\<And>t. t \<in> set (input_buffer s) \<Longrightarrow> finished t \<Longrightarrow> result t = Some (f (input t))"
    and "\<And>t. t \<in> set (input_buffer s) \<Longrightarrow> finished t \<Longrightarrow> out_of_order s \<Longrightarrow> Some (node t) = curr_it"
    and "\<And>t. t \<in> set (drop (max_active_tasks s) (input_buffer s)) \<Longrightarrow> state t = NEW_TASK"
    and "distinct (map node (input_buffer s))"
    and "\<And>t. t \<in> set (input_buffer s) \<Longrightarrow> node t < length (accepted s)"
    and "mset (map snd (scheduled s)) =
       mset (map node (filter (\<lambda>t. state t = RUNNING) (input_buffer s)))"
    and "mset (map (Some \<circ> f) (accepted s)) =
       mset (sent s) + mset (map (Some \<circ> f \<circ> input) (input_buffer s))"
    and "\<not> out_of_order s \<Longrightarrow>
       map (Some \<circ> f) (accepted s) = sent s @ map (Some \<circ> f \<circ> input) (input_buffer s)"
  shows "core f curr_it s"
  using assms unfolding core_def by blast

lemma core_push:
  assumes "core f None s" "\<not> Push_must_wait s" "\<not> killed s"
  shows "core f None (s\<lparr>input_buffer := input_buffer s @
      [\<lparr>node = length (accepted s), input = x, result = None, state = NEW_TASK\<rparr>],
      accepted := accepted s @ [x]\<rparr>)"
proof -
  note c = assms(1) [unfolded core_def]
  have "\<And>t. t \<in> set (drop n [u]) \<Longrightarrow> state t = NEW_TASK" if "state u = NEW_TASK" for n
      and u :: "('a, 'b) task_instance"
    using that by (cases n) auto
  note new = this [OF task_instance.select_convs(4)]
  have len: "length (input_buffer s) < input_buffer_size s" using assms(2,3) by (simp add: Push_must_wait_def)
  show ?thesis
  proof (rule coreI, goal_cases)
    case (5 t)
    then show ?case using c new by auto
  next
    case 6
    then show ?case using c by auto
  next
    case 8
    then show ?case using c by (simp del: mset_map)
  next
    case 9
    have "mset (map (Some \<circ> f) (accepted s)) =
       mset (sent s) + mset (map (Some \<circ> f \<circ> input) (input_buffer s))" using c by blast
    then show ?case by (simp del: mset_map)
  qed (use c len in auto)
qed

lemma finish_simps [simp]: "node (finish_task f i t) = node t" "input (finish_task f i t) = input t"
    "node t \<noteq> i \<Longrightarrow> finish_task f i t = t"
  by (simp_all add: finish_task_def)

lemma finish_running:
  assumes "distinct (map node ts)" "t \<in> set ts" "node t = i" "state t = RUNNING"
  shows "mset (map node (filter (\<lambda>t. state t = RUNNING) ts)) =
    {#i#} + mset (map node (filter (\<lambda>t. state t = RUNNING) (map (finish_task f i) ts)))"
  using assms
proof (induction ts)
  case (Cons u us)
  show ?case
  proof (cases "u = t")
    case True
    with Cons.prems have "map (finish_task f i) us = us" by (intro map_idI finish_simps) (auto simp: image_iff)
    moreover have "state (finish_task f i t) \<noteq> RUNNING" using Cons.prems(3) by (simp add: finish_task_def)
    ultimately show ?thesis using True Cons.prems by (simp del: mset_map)
  next
    case False
    with Cons.prems have "node u \<noteq> i" by auto
    with False Cons show ?thesis by simp
  qed
qed simp

lemma core_finish:
  assumes "core f None s" "(seq, i) \<in> set (scheduled s)"
  defines "s' \<equiv> s\<lparr>scheduled := remove1 (seq, i) (scheduled s),
      input_buffer := map (finish_task f i) (input_buffer s)\<rparr>"
  shows "core f (Some i) s'" "\<exists>t. find_node i s' = Some t \<and> finished t"
proof -
  note c = assms(1) [unfolded core_def]
  have "i \<in># mset (map node (filter (\<lambda>t. state t = RUNNING) (input_buffer s)))"
  proof -
    have "i \<in># mset (map snd (scheduled s))" using assms(2) by force
    then show ?thesis using c by metis
  qed
  then obtain t where t: "t \<in> set (input_buffer s)" "node t = i" "state t = RUNNING" by auto
  have "mset (scheduled s) = {#(seq, i)#} + mset (remove1 (seq, i) (scheduled s))" using assms(2) by simp
  from arg_cong [OF this, of "image_mset snd"]
  have "mset (map snd (scheduled s)) = {#i#} + mset (map snd (remove1 (seq, i) (scheduled s)))" by simp
  then have sched: "mset (map snd (remove1 (seq, i) (scheduled s))) =
      mset (map node (filter (\<lambda>t. state t = RUNNING) (map (finish_task f i) (input_buffer s))))"
    using finish_running [of "input_buffer s" t i f] t c by (metis add_left_cancel)
  have "\<forall>t \<in> set (map (finish_task f i) (input_buffer s)). finished t \<longrightarrow> result t = Some (f (input t))"
    "\<forall>t \<in> set (map (finish_task f i) (input_buffer s)). finished t \<longrightarrow> out_of_order s \<longrightarrow> Some (node t) = Some i"
    using c by (auto simp: finish_task_def)
  moreover have "\<forall>u \<in> set (drop (max_active_tasks s) (input_buffer s)). node u \<noteq> i"
  proof
    fix u assume u: "u \<in> set (drop (max_active_tasks s) (input_buffer s))"
    then have "state u = NEW_TASK" "u \<in> set (input_buffer s)" using c by (auto dest: in_set_dropD)
    moreover from this t c have "node u = i \<Longrightarrow> u = t" by (metis (no_types, lifting) distinct_map inj_onD)
    ultimately show "node u \<noteq> i" using t(3) by auto
  qed
  then have "\<forall>t \<in> set (drop (max_active_tasks s) (map (finish_task f i) (input_buffer s))). state t = NEW_TASK"
    using c by (auto simp: drop_map)
  moreover have "distinct (map node (map (finish_task f i) (input_buffer s)))"
    "map (Some \<circ> f \<circ> input) (map (finish_task f i) (input_buffer s)) = map (Some \<circ> f \<circ> input) (input_buffer s)"
    "\<forall>t \<in> set (map (finish_task f i) (input_buffer s)). node t < length (accepted s)"
    "length (map (finish_task f i) (input_buffer s)) \<le> input_buffer_size s"
    using c by (auto simp: o_def)
  moreover note sched
  moreover define b where "b = map (finish_task f i) (input_buffer s)"
  moreover define js where "js = remove1 (seq, i) (scheduled s)"
  moreover have "mset (map (Some \<circ> f) (accepted s)) =
       mset (sent s) + mset (map (Some \<circ> f \<circ> input) (input_buffer s))"
    "\<not> out_of_order s \<Longrightarrow>
       map (Some \<circ> f) (accepted s) = sent s @ map (Some \<circ> f \<circ> input) (input_buffer s)"
    "max_active_tasks s > 0" using c by blast+
  ultimately show "core f (Some i) s'" unfolding s'_def b_def [symmetric] js_def [symmetric]
    by (intro coreI) (simp_all del: mset_map)
  have "finish_task f i t \<in> set (input_buffer s')" "node (finish_task f i t) = i" using t by (simp_all add: s'_def)
  then obtain u where u: "find_node i s' = Some u" unfolding find_node_def
    by (metis (mono_tags, lifting) find_None_iff not_None_eq)
  then have mem: "u \<in> set (input_buffer s')" "node u = i" by (auto simp: find_node_def find_Some_iff)
  from mem(1) obtain v where v: "u = finish_task f i v" unfolding s'_def by auto
  with mem(2) have "node v = i" by (simp del: finish_simps(3))
  with v have "finished u" by (simp add: finish_task_def)
  with u show "\<exists>t. find_node i s' = Some t \<and> finished t" by blast
qed

section \<open>The invariant of a stage\<close>

definition stage_inv :: "('a \<Rightarrow> 'b) \<Rightarrow> ('a, 'b) stage \<Rightarrow> bool" where
  "stage_inv f s \<longleftrightarrow>
     (\<not> killed s \<longrightarrow> core f None s \<and> settled s) \<and>
     mset (sent s) \<subseteq># mset (map (Some \<circ> f) (accepted s)) \<and>
     (\<not> out_of_order s \<longrightarrow> prefix (sent s) (map (Some \<circ> f) (accepted s)))"

lemma core_sent:
  assumes "core f None s"
  shows "mset (sent s) \<subseteq># mset (map (Some \<circ> f) (accepted s))"
    "\<not> out_of_order s \<Longrightarrow> prefix (sent s) (map (Some \<circ> f) (accepted s))"
proof -
  have "mset (map (Some \<circ> f) (accepted s)) =
       mset (sent s) + mset (map (Some \<circ> f \<circ> input) (input_buffer s))"
    and o: "\<not> out_of_order s \<longrightarrow>
       map (Some \<circ> f) (accepted s) = sent s @ map (Some \<circ> f \<circ> input) (input_buffer s)"
    using assms unfolding core_def by blast+
  then show "mset (sent s) \<subseteq># mset (map (Some \<circ> f) (accepted s))" by (metis mset_subset_eq_add_left)
  show "\<not> out_of_order s \<Longrightarrow> prefix (sent s) (map (Some \<circ> f) (accepted s))"
    using o by (metis prefixI)
qed

lemma CheckQueueNolock_frame:
  "killed (CheckQueueNolock c s) = killed s" "accepted (CheckQueueNolock c s) = accepted s"
  "out_of_order (CheckQueueNolock c s) = out_of_order s"
  "max_active_tasks (CheckQueueNolock c s) = max_active_tasks s"
  "killed s \<Longrightarrow> sent (CheckQueueNolock c s) = sent s"
proof -
  have r: "killed (retire_front s) = killed s" "accepted (retire_front s) = accepted s"
    "out_of_order (retire_front s) = out_of_order s" "max_active_tasks (retire_front s) = max_active_tasks s"
    "killed s \<Longrightarrow> sent (retire_front s) = sent s"
    by (cases "killed s"; simp add: retire_front_killed retire_front_alive)+
  show "killed (CheckQueueNolock c s) = killed s" "accepted (CheckQueueNolock c s) = accepted s"
    "out_of_order (CheckQueueNolock c s) = out_of_order s"
    "max_active_tasks (CheckQueueNolock c s) = max_active_tasks s"
    "killed s \<Longrightarrow> sent (CheckQueueNolock c s) = sent s"
    by (simp_all add: CheckQueueNolock_def schedule_new_def retire_def OutputToNextStage_def r split_def Let_def
        split: option.splits)
qed

lemma stage_frame:
  assumes "stage_step f s s'"
  shows "killed s \<Longrightarrow> killed s'" "out_of_order s' = out_of_order s" "max_active_tasks s' = max_active_tasks s"
    "killed s \<Longrightarrow> accepted s' = accepted s" "killed s \<Longrightarrow> sent s' = sent s"
  using assms
  by (cases; auto simp: StagePush_def RunTask_def Stop_def pool_runs_def CheckQueueNolock_frame)+

lemma stage_inv_step:
  assumes "stage_inv f s" "stage_step f s s'"
  shows "stage_inv f s'"
proof (cases "killed s'")
  case False
  then have alive: "\<not> killed s" using stage_frame(1) [OF assms(2)] by blast
  then have c: "core f None s" using assms(1) unfolding stage_inv_def by blast
  from assms(2) have "core f None s' \<and> settled s'"
  proof cases
    case (st_push x)
    then show ?thesis
      using CheckQueueNolock_core [OF core_push [OF c st_push(2) alive, of x]] alive by (simp add: StagePush_def)
  next
    case (st_run seq i)
    then show ?thesis
      using CheckQueueNolock_core [OF core_finish(1) [OF c st_run(2)]] core_finish(2) [OF c st_run(2)] alive
      by (simp add: RunTask_def pool_runs_def)
  next
    case st_stop
    then show ?thesis using False by (simp add: Stop_def)
  qed
  then show ?thesis using core_sent [of f s'] unfolding stage_inv_def by blast
next
  case True
  have "accepted s' = accepted s \<and> sent s' = sent s"
  proof (cases "killed s")
    case False
    from assms(2) show ?thesis
      using True False by cases (auto simp: StagePush_def RunTask_def Stop_def pool_runs_def CheckQueueNolock_frame)
  qed (use stage_frame(4,5) [OF assms(2)] in blast)
  then show ?thesis using assms(1) True stage_frame(2) [OF assms(2)] unfolding stage_inv_def by simp
qed

lemma stage_inv_init: "0 < size' \<Longrightarrow> stage_inv f (PipelineStage n size' ooo)"
  by (simp add: stage_inv_def PipelineStage_def core_def settled_def)

interpretation stage: invariant_system "\<lambda>s. s = PipelineStage n (Suc k) ooo" "stage_step f" "stage_inv f"
  for f n k ooo
  by unfold_locales (auto intro: stage_inv_init stage_inv_step)

lemma reachable_frame:
  "(stage_step f)\<^sup>*\<^sup>* s s' \<Longrightarrow> out_of_order s' = out_of_order s \<and> max_active_tasks s' = max_active_tasks s"
  by (induction rule: rtranclp_induct) (auto simp: stage_frame)

lemma core_scheduled:
  assumes "core f None s"
  shows "length (scheduled s) \<le> max_active_tasks s"
proof -
  let ?m = "max_active_tasks s"
  have "\<forall>t \<in> set (drop ?m (input_buffer s)). state t = NEW_TASK" using assms unfolding core_def by blast
  then have none: "filter (\<lambda>t. state t = RUNNING) (drop ?m (input_buffer s)) = []"
    by (auto simp: filter_empty_conv)
  have "mset (map snd (scheduled s)) = mset (map node (filter (\<lambda>t. state t = RUNNING) (input_buffer s)))"
    using assms unfolding core_def by blast
  then have "length (scheduled s) = length (filter (\<lambda>t. state t = RUNNING) (input_buffer s))"
    by (metis length_map size_mset)
  also have "\<dots> = length (filter (\<lambda>t. state t = RUNNING) (take ?m (input_buffer s)))"
    by (metis append_Nil2 append_take_drop_id filter_append none)
  also have "\<dots> \<le> ?m" by (metis length_filter_le length_take min.cobounded2 order_trans)
  finally show ?thesis .
qed

lemma settled_idle:
  assumes "core f None s" "settled s" "scheduled s = []"
  shows "input_buffer s = []"
proof (rule ccontr)
  assume ne: "input_buffer s \<noteq> []"
  have "max_active_tasks s > 0" using assms(1) unfolding core_def by blast
  with ne have "hd (input_buffer s) \<in> set (take (max_active_tasks s) (input_buffer s))"
    by (cases "input_buffer s"; cases "max_active_tasks s") auto
  with assms(2) ne have "state (hd (input_buffer s)) \<noteq> NEW_TASK" "\<not> finished (hd (input_buffer s))"
    unfolding settled_def by blast+
  then have "state (hd (input_buffer s)) = RUNNING" by (cases "state (hd (input_buffer s))") auto
  moreover have "mset (map node (filter (\<lambda>t. state t = RUNNING) (input_buffer s))) = {#}"
    using assms(1,3) unfolding core_def by simp
  ultimately show False using ne by (simp add: filter_mset_eq_conv)
qed

section \<open>Properties\<close>

text \<open>
  C4. A pipeline stage applies its function to every input exactly once and, unless it was made to
  work out of order, passes the results on in the order of the inputs, however many tasks run at a
  time and in whatever order they finish: what has been sent is always a prefix of the results
  (a part of them when out of order), at most \<^verbatim>\<open>max_active_tasks\<close> tasks are in the pool, the buffer
  keeps its bound, and when no task is left in the pool of a stage that has not been stopped, the
  stage is clear and everything has been sent.
\<close>

theorem stage_delivers:
  assumes "(stage_step f)\<^sup>*\<^sup>* (PipelineStage n (Suc k) ooo) s"
  shows "mset (sent s) \<subseteq># mset (map (Some \<circ> f) (accepted s)) \<and>
    (\<not> ooo \<longrightarrow> prefix (sent s) (map (Some \<circ> f) (accepted s))) \<and>
    (\<not> killed s \<longrightarrow> length (scheduled s) \<le> max n 1 \<and>
      length (input_buffer s) \<le> input_buffer_size s \<and>
      (scheduled s = [] \<longrightarrow> IsClear s \<and> mset (sent s) = mset (map (Some \<circ> f) (accepted s)) \<and>
         (\<not> ooo \<longrightarrow> sent s = map (Some \<circ> f) (accepted s))))"
proof -
  have inv: "stage_inv f s" using stage.inv_reachable [OF refl assms] .
  have frame: "out_of_order s = ooo" "max_active_tasks s = max n 1"
    using reachable_frame [OF assms] by (auto simp: PipelineStage_def)
  show ?thesis
  proof (cases "killed s")
    case False
    with inv have c: "core f None s" "settled s" unfolding stage_inv_def by blast+
    have "length (input_buffer s) \<le> input_buffer_size s"
      "mset (map (Some \<circ> f) (accepted s)) = mset (sent s) + mset (map (Some \<circ> f \<circ> input) (input_buffer s))"
      "\<not> out_of_order s \<longrightarrow> map (Some \<circ> f) (accepted s) = sent s @ map (Some \<circ> f \<circ> input) (input_buffer s)"
      using c(1) unfolding core_def by blast+
    then show ?thesis
      using inv settled_idle [OF c] core_scheduled [OF c(1)] frame unfolding stage_inv_def IsClear_def
      by auto
  qed (use inv frame in \<open>auto simp: stage_inv_def\<close>)
qed

lemma stage_path: "stage_step f s s' \<Longrightarrow> (stage_step f)\<^sup>*\<^sup>* s' s'' \<Longrightarrow> (stage_step f)\<^sup>*\<^sup>* s s''"
  by (rule converse_rtranclp_into_rtranclp)

text \<open>Three inputs on two workers; the second task ends first.\<close>

definition example_start :: "bool \<Rightarrow> (int, int) stage" where
  "example_start ooo = snd (StagePush 30 (snd (StagePush 20 (snd (StagePush 10 (PipelineStage 2 5 ooo))))))"

definition example_end :: "bool \<Rightarrow> (int, int) stage" where
  "example_end ooo = pool_runs uminus (2, 2) (pool_runs uminus (0, 0) (pool_runs uminus (1, 1) (example_start ooo)))"

lemma example_start_reachable: "(stage_step uminus)\<^sup>*\<^sup>* (PipelineStage 2 5 ooo) (example_start ooo)"
  unfolding example_start_def
  apply (rule stage_path [OF st_push [where x = 10]], simp add: PipelineStage_def Push_must_wait_def)
  apply (rule stage_path [OF st_push [where x = 20]], cases ooo, code_simp, code_simp)
  apply (rule stage_path [OF st_push [where x = 30]], cases ooo, code_simp, code_simp)
  apply (rule rtranclp.rtrancl_refl)
  done

lemma example_end_reachable: "(stage_step uminus)\<^sup>*\<^sup>* (PipelineStage 2 5 False) (example_end False)"
proof -
  have "(stage_step uminus)\<^sup>*\<^sup>* (example_start False) (example_end False)"
    unfolding example_end_def
    apply (rule stage_path [OF st_run [where seq = 1 and i = 1]], code_simp)
    apply (rule stage_path [OF st_run [where seq = 0 and i = 0]], code_simp)
    apply (rule stage_path [OF st_run [where seq = 2 and i = 2]], code_simp)
    apply (rule rtranclp.rtrancl_refl)
    done
  with example_start_reachable show ?thesis by (rule rtranclp_trans)
qed

lemma stage_delivers_witness: "sent (example_end False) = [Some (- 10), Some (- 20), Some (- 30)]"
proof -
  have "scheduled (example_end False) = []" "\<not> killed (example_end False)"
    "accepted (example_end False) = [10, 20, 30]" by code_simp+
  then show ?thesis
    using stage_delivers [where n = 2 and k = 4 and ooo = False, of uminus "example_end False"]
      example_end_reachable by simp
qed

definition unfinished :: "('a, 'b) stage \<Rightarrow> nat" where
  "unfinished s = length (filter (\<lambda>t. \<not> finished t) (input_buffer s))"

definition run_step :: "('a \<Rightarrow> 'b) \<Rightarrow> ('a, 'b) stage \<Rightarrow> ('a, 'b) stage \<Rightarrow> bool" where
  "run_step f s s' \<longleftrightarrow> (\<exists>job \<in> set (scheduled s). s' = pool_runs f job s)"

lemma unfinished_schedule: "unfinished (schedule_new s) = unfinished s" if "\<not> killed s"
proof -
  obtain buf seq jobs where sch:
    "schedule (max_active_tasks s) False (next_seq s) (input_buffer s) = (buf, seq, jobs)"
    using prod_cases3 by blast
  from schedule_alive [OF this]
  have buf: "buf = map start (take (max_active_tasks s) (input_buffer s)) @ drop (max_active_tasks s) (input_buffer s)"
    by blast
  have "length (filter (\<lambda>t. \<not> finished t) buf) = length (filter (\<lambda>t. \<not> finished t)
      (take (max_active_tasks s) (input_buffer s) @ drop (max_active_tasks s) (input_buffer s)))"
    unfolding buf by (simp only: filter_append length_append filter_map length_map o_def start_simps)
  then show ?thesis using that by (simp add: unfinished_def schedule_new_def sch)
qed

lemma unfinished_retire:
  assumes "\<not> killed s" "distinct (map node (input_buffer s))"
  shows "unfinished (retire c s) = unfinished s"
proof -
  have front: "length (filter (\<lambda>t. \<not> finished t) (dropWhile finished ts)) = length (filter (\<lambda>t. \<not> finished t) ts)"
    for ts :: "('a, 'b) task_instance list" by (induction ts) auto
  have gone: "filter (\<lambda>u. \<not> finished u) (filter (\<lambda>u. node u \<noteq> node t) (input_buffer s)) =
      filter (\<lambda>u. \<not> finished u) (input_buffer s)" if "t \<in> set (input_buffer s)" "finished t" for t
  proof -
    have "node u \<noteq> node t" if "u \<in> set (input_buffer s)" "\<not> finished u" for u
      using assms(2) \<open>t \<in> set (input_buffer s)\<close> \<open>finished t\<close> that by (metis distinct_map inj_onD)
    then show ?thesis by (auto intro: filter_cong)
  qed
  show ?thesis
  proof (cases "Option.bind c (\<lambda>i. find_node i s)")
    case None
    then show ?thesis using assms(1) front by (simp add: retire_def unfinished_def retire_front_alive)
  next
    case (Some t)
    then have t: "t \<in> set (input_buffer s)"
      by (auto simp: find_node_def find_Some_iff split: Option.bind_splits)
    show ?thesis
    proof (cases "out_of_order s \<and> finished t")
      case True
      then show ?thesis using Some gone [OF t]
        by (simp add: retire_def unfinished_def OutputToNextStage_def del: filter_filter)
    next
      case False
      then show ?thesis using Some assms(1) front
        by (auto simp: retire_def unfinished_def retire_front_alive)
    qed
  qed
qed

lemma unfinished_finish:
  assumes "distinct (map node ts)" "t \<in> set ts" "node t = i" "\<not> finished t"
  shows "length (filter (\<lambda>t. \<not> finished t) (map (finish_task f i) ts)) + 1 =
    length (filter (\<lambda>t. \<not> finished t) ts)"
  using assms
proof (induction ts)
  case (Cons u us)
  show ?case
  proof (cases "u = t")
    case True
    with Cons.prems have "map (finish_task f i) us = us" by (intro map_idI finish_simps) (auto simp: image_iff)
    moreover have "finished (finish_task f i t)" using Cons.prems(3) by (simp add: finish_task_def)
    ultimately show ?thesis using True Cons.prems by simp
  next
    case False
    with Cons.prems have "node u \<noteq> i" by auto
    with False Cons show ?thesis by simp
  qed
qed simp

lemma unfinished_run:
  assumes "stage_inv f s" "\<not> killed s" "run_step f s s'"
  shows "unfinished s' + 1 = unfinished s" "stage_inv f s'" "\<not> killed s'"
proof -
  obtain seq i where job: "(seq, i) \<in> set (scheduled s)" "s' = pool_runs f (seq, i) s"
    using assms(3) unfolding run_step_def by auto
  have c: "core f None s" using assms(1,2) unfolding stage_inv_def by blast
  let ?t = "s\<lparr>scheduled := remove1 (seq, i) (scheduled s), input_buffer := map (finish_task f i) (input_buffer s)\<rparr>"
  note fin = core_finish [OF c job(1)]
  have d: "distinct (map node (input_buffer ?t))" using fin(1) unfolding core_def by blast
  have alive: "\<not> killed (retire (Some i) ?t)"
    using assms(2) by (simp add: retire_def OutputToNextStage_def retire_front_alive split: option.splits)
  have "i \<in># mset (map node (filter (\<lambda>t. state t = RUNNING) (input_buffer s)))"
  proof -
    have "i \<in># mset (map snd (scheduled s))" using job(1) by force
    then show ?thesis using c unfolding core_def by metis
  qed
  then obtain t where t: "t \<in> set (input_buffer s)" "node t = i" "\<not> finished t" by auto
  have "unfinished s' = unfinished ?t"
    using unfinished_schedule [OF alive] unfinished_retire [OF _ d, of "Some i"] assms(2)
    by (simp add: job(2) pool_runs_def RunTask_def CheckQueueNolock_def)
  moreover have "unfinished ?t + 1 = unfinished s"
    using unfinished_finish [OF _ t] c unfolding core_def unfinished_def by simp
  ultimately show "unfinished s' + 1 = unfinished s" by simp
  have "stage_step f s s'" using st_run job by blast
  then show "stage_inv f s'" by (rule stage_inv_step [OF assms(1)])
  show "\<not> killed s'"
    using assms(2) by (simp add: job(2) pool_runs_def RunTask_def CheckQueueNolock_frame)
qed



definition stopped_early :: "(int, int) stage" where
  "stopped_early = pool_runs uminus (0, 0) (Stop (snd (StagePush 2 (snd (StagePush 1 (PipelineStage 1 5 False))))))"

lemma stopped_early_reachable: "(stage_step uminus)\<^sup>*\<^sup>* (PipelineStage 1 5 False) stopped_early"
  unfolding stopped_early_def
  apply (rule stage_path [OF st_push [where x = 1]], code_simp)
  apply (rule stage_path [OF st_push [where x = 2]], code_simp)
  apply (rule stage_path [OF st_stop])
  apply (rule stage_path [OF st_run [where seq = 0 and i = 0]], code_simp)
  apply (rule rtranclp.rtrancl_refl)
  done

lemma stuck_when_stopped:
  assumes "killed s" "scheduled s = []" "stage_step f s s'"
  shows "s' = s"
  using assms(3,1,2) by cases (simp_all add: StagePush_def Stop_def)

text \<open>
  \<^verbatim>\<open>Stop\<close> strands a thread that is inside \<^verbatim>\<open>WaitTillClear\<close>: the last running task marks the queued
  ones as finished but nothing removes them from the buffer any more, so there is a reachable
  stopped stage from which no sequence of steps ever makes the buffer empty.
\<close>

lemma stop_strands_waiter:
  "\<exists>s :: (int, int) stage. (stage_step uminus)\<^sup>*\<^sup>* (PipelineStage 1 5 False) s \<and> killed s \<and>
     (\<nexists>s'. (stage_step uminus)\<^sup>*\<^sup>* s s' \<and> WaitTillClear_returns s')"
proof -
  have ends: "killed stopped_early" "scheduled stopped_early = []" "\<not> WaitTillClear_returns stopped_early"
    by code_simp+
  have "s' = stopped_early" if "(stage_step uminus)\<^sup>*\<^sup>* stopped_early s'" for s'
    using that by (induction rule: rtranclp_induct) (auto dest: stuck_when_stopped [OF ends(1,2)])
  with ends stopped_early_reachable show ?thesis by blast
qed

end
