(* ===== verification/String_Util.thy ===== *)
theory String_Util
  imports Int_Text
begin

text \<open>
  The string functions of \<^verbatim>\<open>string_util.h\<close>: stripping, case, comparison, splitting and joining, the
  parsers of booleans and strings, and the printers of pairs, optional values, tuples and
  containers. The printer of an element is a parameter of the container printers. An index that walks
  through a string is the rest of the string.
\<close>

section \<open>Stripping\<close>

fun skip_while :: "(char \<Rightarrow> bool) \<Rightarrow> string \<Rightarrow> string" where
  "skip_while p [] = []"
| "skip_while p (c # cs) = (if p c then skip_while p cs else c # cs)"

definition skip_back :: "(char \<Rightarrow> bool) \<Rightarrow> string \<Rightarrow> string" where
  "skip_back p str = rev (skip_while p (rev str))"

definition IsIn :: "char \<Rightarrow> string \<Rightarrow> bool" where
  "IsIn c str \<longleftrightarrow> c \<in> set str"

definition Strip_char :: "string \<Rightarrow> char \<Rightarrow> string" where
  "Strip_char str c = skip_back (\<lambda>x. x = c) (skip_while (\<lambda>x. x = c) str)"

definition Strip :: "string \<Rightarrow> string \<Rightarrow> string" where
  "Strip str chars = skip_back (\<lambda>x. IsIn x chars) (skip_while (\<lambda>x. IsIn x chars) str)"

section \<open>Case\<close>

text \<open>\<^verbatim>\<open>tolower\<close> and \<^verbatim>\<open>toupper\<close> in the default locale.\<close>

definition tolower :: "char \<Rightarrow> char" where
  "tolower c = (if 65 \<le> uchar c \<and> uchar c \<le> 90 then char_of (uchar c + 32) else c)"

definition toupper :: "char \<Rightarrow> char" where
  "toupper c = (if 97 \<le> uchar c \<and> uchar c \<le> 122 then char_of (uchar c - 32) else c)"

definition ToLower_str :: "string \<Rightarrow> string" where
  "ToLower_str str = map tolower str"

definition ToUpper_str :: "string \<Rightarrow> string" where
  "ToUpper_str str = map toupper str"

text \<open>The comparison loops; \<open>same_chars\<close> stops at the end of the shorter string, which the callers have
  excluded.\<close>

definition same_char :: "bool \<Rightarrow> char \<Rightarrow> char \<Rightarrow> bool" where
  "same_char case_sensitive a b \<longleftrightarrow> (if case_sensitive then a = b else tolower a = tolower b)"

fun same_chars :: "bool \<Rightarrow> string \<Rightarrow> string \<Rightarrow> bool" where
  "same_chars cs (a # as) (b # bs) = (if \<not> same_char cs a b then False else same_chars cs as bs)"
| "same_chars cs _ _ = True"

definition StringEqual :: "string \<Rightarrow> string \<Rightarrow> bool \<Rightarrow> bool" where
  "StringEqual left right cs =
     (if length left \<noteq> length right then False else same_chars cs left right)"

definition StartsWith :: "string \<Rightarrow> string \<Rightarrow> bool \<Rightarrow> bool" where
  "StartsWith str pattern cs =
     (if length str < length pattern then False else same_chars cs pattern str)"

definition EndsWith :: "string \<Rightarrow> string \<Rightarrow> bool \<Rightarrow> bool" where
  "EndsWith str pattern cs =
     (if length str < length pattern then False
      else same_chars cs pattern (drop (length str - length pattern) str))"

section \<open>Splitting and joining\<close>

text \<open>\<^verbatim>\<open>find_first_of\<close> from the current position, as the part before and the part from it on.\<close>

definition until :: "string \<Rightarrow> string \<Rightarrow> string" where
  "until breakers str = takeWhile (\<lambda>c. \<not> IsIn c breakers) str"

lemma skip_while_dropWhile: "skip_while p str = dropWhile p str"
  by (induction str) auto

lemma skip_back_suffix: "skip_back p str = rev (dropWhile p (rev str))"
  by (simp add: skip_back_def skip_while_dropWhile)

function split_loop :: "string \<Rightarrow> string \<Rightarrow> string list" where
  "split_loop breakers str =
     (if str = [] then []
      else let start = skip_while (\<lambda>c. IsIn c breakers) str;
               word = until breakers start
           in (if word \<noteq> [] then [word] else []) @ split_loop breakers (drop (length word) start))"
  by pat_completeness auto
termination
proof (relation "measure (\<lambda>(b, s). length s)")
  fix breakers str start word
  assume ne: "str \<noteq> []" and start: "start = skip_while (\<lambda>c. IsIn c breakers) str"
    and word: "word = until breakers start"
  show "((breakers, drop (length word) start), (breakers, str)) \<in> measure (\<lambda>(b, s). length s)"
  proof (cases "IsIn (hd str) breakers")
    case True
    with ne start have "length start < length str"
      using length_dropWhile_le [of "\<lambda>c. IsIn c breakers" "tl str"]
      by (cases str) (auto simp: skip_while_dropWhile)
    then show ?thesis by simp
  next
    case False
    with ne start have "start = str" by (cases str) auto
    with False ne word have "length word > 0" by (cases str) (auto simp: until_def)
    with \<open>start = str\<close> ne show ?thesis by simp
  qed
qed simp

declare split_loop.simps [simp del]

definition Split_by :: "string \<Rightarrow> string \<Rightarrow> string list" where
  "Split_by str breakers = split_loop breakers str"

text \<open>The stream extraction of words skips and stops at the blanks of the default locale.\<close>

definition Split :: "string \<Rightarrow> string list" where
  "Split str = split_loop (map char_of [9, 10, 11, 12, 13, 32 :: nat]) str"

definition FilterString :: "string \<Rightarrow> string \<Rightarrow> string" where
  "FilterString str to_be_removed = filter (\<lambda>c. \<not> IsIn c to_be_removed) str"

fun join_rest :: "string list \<Rightarrow> string \<Rightarrow> string" where
  "join_rest [] glue = []"
| "join_rest (x # xs) glue = glue @ x @ join_rest xs glue"

text \<open>The first element is read before the range is tested: an empty range is undefined.\<close>

definition JoinString :: "string list \<Rightarrow> string \<Rightarrow> string option" where
  "JoinString xs glue = (case xs of [] \<Rightarrow> None | x # rest \<Rightarrow> Some (x @ join_rest rest glue))"

section \<open>Parsing and printing\<close>

definition ParseString_bool :: "string \<Rightarrow> bool option" where
  "ParseString_bool str =
     (let s = ToLower_str str in
      if s = ''true'' \<or> s = ''t'' \<or> s = ''1'' then Some True
      else if s = ''false'' \<or> s = ''f'' \<or> s = ''0'' then Some False
      else None)"

definition ParseString_string :: "string \<Rightarrow> string option" where
  "ParseString_string str = Some str"

definition print_pair :: "('k \<Rightarrow> string) \<Rightarrow> ('v \<Rightarrow> string) \<Rightarrow> 'k \<times> 'v \<Rightarrow> string" where
  "print_pair pk pv p = pk (fst p) @ '':'' @ pv (snd p)"

definition print_optional :: "('k \<Rightarrow> string) \<Rightarrow> 'k option \<Rightarrow> string" where
  "print_optional pk p = (case p of Some k \<Rightarrow> pk k | None \<Rightarrow> ''nullopt'')"

definition print_char :: "char \<Rightarrow> string" where
  "print_char c = [char_of (39::nat), c, char_of (39::nat)]"

fun print_elements :: "bool \<Rightarrow> ('e \<Rightarrow> string) \<Rightarrow> 'e list \<Rightarrow> string" where
  "print_elements first pr [] = []"
| "print_elements first pr (x # xs) = (if first then [] else '', '') @ pr x @ print_elements False pr xs"

definition ContainerPrinter :: "('e \<Rightarrow> string) \<Rightarrow> 'e list \<Rightarrow> string" where
  "ContainerPrinter pr c =
     ''{<'' @ PrintUnsigned (int (length c)) @ ''>: '' @ print_elements True pr c @ ''}''"

text \<open>The elements of a tuple have different types, so a tuple is the list of its printed elements.\<close>

fun PrintTuple :: "string list \<Rightarrow> string" where
  "PrintTuple [] = []"
| "PrintTuple [x] = x"
| "PrintTuple (x # y # xs) = x @ '', '' @ PrintTuple (y # xs)"

definition print_tuple :: "string list \<Rightarrow> string" where
  "print_tuple xs = ''{<'' @ PrintUnsigned (int (length xs)) @ ''>: '' @ PrintTuple xs @ ''}''"

section \<open>Properties\<close>

definition char_norm :: "bool \<Rightarrow> char \<Rightarrow> char" where
  "char_norm cs = (if cs then id else tolower)"

lemma same_chars_prefix:
  "length as \<le> length bs \<Longrightarrow> same_chars cs as bs \<longleftrightarrow> prefix (map (char_norm cs) as) (map (char_norm cs) bs)"
  by (induction cs as bs rule: same_chars.induct) (auto simp: same_char_def char_norm_def)

lemma prefix_same_length: "length as = length bs \<Longrightarrow> prefix as bs \<longleftrightarrow> as = bs"
  by (auto simp: prefix_def)

lemma suffix_iff_drop: "length as \<le> length bs \<Longrightarrow> drop (length bs - length as) bs = as \<longleftrightarrow> suffix as bs"
  by (auto simp: suffix_def) (metis append_take_drop_id)

lemma norm_simps: "map (char_norm True) str = str" "map (char_norm False) str = ToLower_str str"
  by (simp_all add: char_norm_def ToLower_str_def)

lemma StartsWith_norm: "StartsWith str pat cs \<longleftrightarrow> prefix (map (char_norm cs) pat) (map (char_norm cs) str)"
  using same_chars_prefix [of pat str cs] prefix_length_le [of "map (char_norm cs) pat" "map (char_norm cs) str"]
  by (auto simp: StartsWith_def)

lemma EndsWith_norm: "EndsWith str pat cs \<longleftrightarrow> suffix (map (char_norm cs) pat) (map (char_norm cs) str)"
proof (cases "length pat \<le> length str")
  case True
  let ?n = "length str - length pat"
  have "EndsWith str pat cs \<longleftrightarrow> map (char_norm cs) pat = map (char_norm cs) (drop ?n str)"
    using True same_chars_prefix [of pat "drop ?n str" cs] prefix_same_length [of "map (char_norm cs) pat" "map (char_norm cs) (drop ?n str)"]
    by (simp add: EndsWith_def)
  also have "\<dots> \<longleftrightarrow> drop (length (map (char_norm cs) str) - length (map (char_norm cs) pat)) (map (char_norm cs) str)
      = map (char_norm cs) pat" by (auto simp: drop_map)
  also have "\<dots> \<longleftrightarrow> suffix (map (char_norm cs) pat) (map (char_norm cs) str)"
    using True by (intro suffix_iff_drop) simp
  finally show ?thesis .
next
  case False
  then show ?thesis using suffix_length_le [of "map (char_norm cs) pat" "map (char_norm cs) str"]
    by (auto simp: EndsWith_def)
qed

lemma StringEqual_norm: "StringEqual str pat cs \<longleftrightarrow> map (char_norm cs) str = map (char_norm cs) pat"
proof (cases "length str = length pat")
  case True
  then show ?thesis
    using same_chars_prefix [of str pat cs] prefix_same_length [of "map (char_norm cs) str" "map (char_norm cs) pat"]
    by (simp add: StringEqual_def)
next
  case False
  then show ?thesis by (auto simp: StringEqual_def dest: map_eq_imp_length_eq)
qed

text \<open>
  The comparison functions decide what their names say: \<^verbatim>\<open>StartsWith\<close> is the prefix relation and
  \<^verbatim>\<open>EndsWith\<close> the suffix relation on strings, \<^verbatim>\<open>StringEqual\<close> is equality, and without case
  sensitivity each is the same relation on the lower-case strings.
\<close>

lemma string_comparisons:
  "(StartsWith str pat True \<longleftrightarrow> prefix pat str) \<and>
   (StartsWith str pat False \<longleftrightarrow> prefix (ToLower_str pat) (ToLower_str str)) \<and>
   (EndsWith str pat True \<longleftrightarrow> suffix pat str) \<and>
   (EndsWith str pat False \<longleftrightarrow> suffix (ToLower_str pat) (ToLower_str str)) \<and>
   (StringEqual str pat True \<longleftrightarrow> str = pat) \<and>
   (StringEqual str pat False \<longleftrightarrow> ToLower_str str = ToLower_str pat)"
  by (simp add: StartsWith_norm EndsWith_norm StringEqual_norm norm_simps)

lemma split_loop_Cons:
  "split_loop b (c # str) =
     (if IsIn c b then split_loop b str
      else let word = until b (c # str) in word # split_loop b (drop (length word) (c # str)))"
proof (cases "IsIn c b")
  case True
  show ?thesis
  proof (cases "str = []")
    case False
    then show ?thesis using True
      by (simp add: split_loop.simps [of b "c # str"] split_loop.simps [of b str] Let_def)
  qed (use True in \<open>simp add: split_loop.simps until_def Let_def\<close>)
next
  case False
  then show ?thesis by (simp add: split_loop.simps [of b "c # str"] until_def Let_def)
qed

lemma split_loop_Nil [simp]: "split_loop b [] = []"
  by (simp add: split_loop.simps)

lemma until_drop: "drop (length (until b str)) str = dropWhile (\<lambda>c. \<not> IsIn c b) str"
  by (simp add: until_def dropWhile_eq_drop)

lemma split_loop_word:
  assumes "\<forall>c \<in> set w. \<not> IsIn c b" "w \<noteq> []" "rest = [] \<or> IsIn (hd rest) b"
  shows "split_loop b (w @ rest) = w # split_loop b rest"
proof -
  obtain c cs where w: "w = c # cs" using assms(2) by (cases w) auto
  have "until b (w @ rest) = w" unfolding until_def
    by (rule takeWhile_stop) (use assms in auto)
  then show ?thesis using w assms(1) split_loop_Cons [of b c "cs @ rest"] by (simp add: Let_def)
qed

lemma split_loop_break: "\<forall>c \<in> set g. IsIn c b \<Longrightarrow> split_loop b (g @ rest) = split_loop b rest"
  by (induction g) (simp_all add: split_loop_Cons)

text \<open>
  Splitting inverts joining: words that are not empty and hold no delimiter, joined with any
  glue that consists of delimiters, are split into the same words.
\<close>

lemma split_join:
  assumes "\<forall>w \<in> set ws. w \<noteq> [] \<and> FilterString w breakers = w"
    and "glue \<noteq> []" "FilterString glue breakers = []" "JoinString ws glue = Some str"
  shows "Split_by str breakers = ws"
proof -
  have words: "\<forall>c \<in> set w. \<not> IsIn c breakers" "w \<noteq> []" if "w \<in> set ws" for w
    using assms(1) that by (auto simp: FilterString_def filter_id_conv)
  have glue: "\<forall>c \<in> set glue. IsIn c breakers" using assms(3) by (simp add: FilterString_def filter_empty_conv)
  have rest: "split_loop breakers (join_rest vs glue) = vs \<and> (join_rest vs glue = [] \<or> IsIn (hd (join_rest vs glue)) breakers)"
    if "set vs \<subseteq> set ws" for vs
    using that
  proof (induction vs)
    case (Cons v vs)
    then have "split_loop breakers (v @ join_rest vs glue) = v # vs"
      using split_loop_word [of v breakers "join_rest vs glue"] words [of v] by auto
    then show ?case using glue assms(2) split_loop_break [OF glue, of "v @ join_rest vs glue"]
      by (cases glue) auto
  qed simp
  obtain w vs where ws: "ws = w # vs" using assms(4) by (cases ws) (auto simp: JoinString_def)
  then have "str = w @ join_rest vs glue" using assms(4) by (simp add: JoinString_def)
  moreover have "split_loop breakers (join_rest vs glue) = vs \<and>
      (join_rest vs glue = [] \<or> IsIn (hd (join_rest vs glue)) breakers)"
    using rest [of vs] ws by auto
  ultimately show ?thesis
    using split_loop_word [of w breakers "join_rest vs glue"] words [of w] ws
    by (simp add: Split_by_def)
qed

lemma split_join_witness: "Split_by ''ab, c'' '', '' = [''ab'', ''c'']"
  by (rule split_join [where glue = "'', ''"])
     (simp_all add: FilterString_def IsIn_def JoinString_def)

text \<open>Stripping removes delimiters only, and all of them at both ends.\<close>

lemma Strip_spec:
  "\<exists>l r. str = l @ Strip str chars @ r \<and> (\<forall>c \<in> set (l @ r). IsIn c chars)"
proof -
  let ?p = "\<lambda>x. IsIn x chars"
  let ?m = "dropWhile ?p str"
  have m: "?m = Strip str chars @ rev (takeWhile ?p (rev ?m))"
    unfolding Strip_def skip_back_suffix skip_while_dropWhile
    by (metis rev_append rev_rev_ident takeWhile_dropWhile_id)
  have "str = takeWhile ?p str @ Strip str chars @ rev (takeWhile ?p (rev ?m))"
    by (metis m takeWhile_dropWhile_id)
  moreover have "\<forall>c \<in> set (takeWhile ?p str @ rev (takeWhile ?p (rev ?m))). IsIn c chars"
    by (auto dest: set_takeWhileD)
  ultimately show ?thesis by blast
qed

end
