(* ===== verification/Binary_Buffer.thy ===== *)
theory Binary_Buffer
  imports Byte_Words
begin

text \<open>
  \<^verbatim>\<open>binary_buffer.h\<close>: a memory block with a get and a put position, and its refinement to the list of
  the bytes between them. Memory that \<^verbatim>\<open>malloc\<close> and \<^verbatim>\<open>realloc\<close> hand out holds arbitrary bytes,
  given by the parameter \<open>junk\<close>; sizes are \<^verbatim>\<open>size_t\<close> values, and where the code adds a size that
  its caller chose the sum wraps around.
\<close>

section \<open>The buffer\<close>

text \<open>The memory is \<^const>\<open>None\<close> for a null pointer; its length is \<^verbatim>\<open>pend_\<close>.\<close>

record binary_buffer =
  mem :: "byte list option"
  const_buf :: bool
  gpos :: nat
  ppos :: nat

definition GROW_SIZE :: nat where "GROW_SIZE = 1024"
definition RESERVED_HEADER_SPACE :: nat where "RESERVED_HEADER_SPACE = 64"
definition SHRINK_WITH_GET :: bool where "SHRINK_WITH_GET = False"

datatype 'a outcome = Done 'a | Aborts | Undefined

definition malloc :: "(nat \<Rightarrow> byte) \<Rightarrow> nat \<Rightarrow> byte list" where
  "malloc junk n = map junk [0..<n]"

definition realloc :: "(nat \<Rightarrow> byte) \<Rightarrow> byte list \<Rightarrow> nat \<Rightarrow> byte list" where
  "realloc junk m n = take n m @ drop (length m) (malloc junk n)"

definition block :: "binary_buffer \<Rightarrow> byte list" where
  "block b = (case mem b of None \<Rightarrow> [] | Some m \<Rightarrow> m)"

definition pend :: "binary_buffer \<Rightarrow> nat" where
  "pend b = length (block b)"

text \<open>\<^verbatim>\<open>memcpy\<close> into the block.\<close>

definition overwrite :: "nat \<Rightarrow> byte list \<Rightarrow> byte list \<Rightarrow> byte list" where
  "overwrite pos bs m = take pos m @ bs @ drop (pos + length bs) m"

definition BinaryBuffer :: binary_buffer where
  "BinaryBuffer = \<lparr>mem = None, const_buf = False, gpos = 0, ppos = 0\<rparr>"

definition InitOstream :: "(nat \<Rightarrow> byte) \<Rightarrow> binary_buffer \<Rightarrow> binary_buffer outcome" where
  "InitOstream junk b =
     (if mem b \<noteq> None then Aborts
      else Done (b\<lparr>mem := Some (malloc junk (RESERVED_HEADER_SPACE * 2)), const_buf := False,
                  gpos := RESERVED_HEADER_SPACE, ppos := RESERVED_HEADER_SPACE\<rparr>))"

definition BinaryBuffer_const :: "byte list \<Rightarrow> binary_buffer" where
  "BinaryBuffer_const bs = \<lparr>mem = Some bs, const_buf = True, gpos = 0, ppos = length bs\<rparr>"

definition BinaryBuffer_size :: "(nat \<Rightarrow> byte) \<Rightarrow> nat \<Rightarrow> binary_buffer" where
  "BinaryBuffer_size junk n = \<lparr>mem = Some (malloc junk n), const_buf = False, gpos = 0, ppos = 0\<rparr>"

text \<open>The move constructor returns the new buffer and what is left of the old one.\<close>

definition BinaryBuffer_move :: "binary_buffer \<Rightarrow> binary_buffer \<times> binary_buffer" where
  "BinaryBuffer_move rhs =
     (rhs, rhs\<lparr>mem := None, const_buf := False, gpos := 0, ppos := 0\<rparr>)"

definition Buffer_Swap :: "binary_buffer \<Rightarrow> binary_buffer \<Rightarrow> binary_buffer \<times> binary_buffer" where
  "Buffer_Swap a b = (b, a)"

definition SetBuf_const :: "byte list \<Rightarrow> binary_buffer \<Rightarrow> binary_buffer" where
  "SetBuf_const bs b = b\<lparr>const_buf := True, mem := Some bs, ppos := length bs, gpos := 0\<rparr>"

definition SetBuf :: "byte list \<Rightarrow> binary_buffer \<Rightarrow> binary_buffer" where
  "SetBuf bs b = b\<lparr>const_buf := False, mem := Some bs, ppos := length bs, gpos := 0\<rparr>"

definition GetSize :: "binary_buffer \<Rightarrow> nat" where
  "GetSize b = ppos b - gpos b"

definition GetBuf :: "binary_buffer \<Rightarrow> byte list" where
  "GetBuf b = drop (gpos b) (block b)"

text \<open>A buffer without memory is initialised before the first write.\<close>

definition init_if_null :: "(nat \<Rightarrow> byte) \<Rightarrow> binary_buffer \<Rightarrow> binary_buffer outcome" where
  "init_if_null junk b = (if mem b = None then InitOstream junk b else Done b)"

definition bind_outcome :: "'a outcome \<Rightarrow> ('a \<Rightarrow> 'b outcome) \<Rightarrow> 'b outcome" where
  "bind_outcome m f = (case m of Done x \<Rightarrow> f x | Aborts \<Rightarrow> Aborts | Undefined \<Rightarrow> Undefined)"

definition Buffer_Write :: "(nat \<Rightarrow> byte) \<Rightarrow> byte list \<Rightarrow> binary_buffer \<Rightarrow> binary_buffer outcome" where
  "Buffer_Write junk buf b =
     (if const_buf b then Aborts
      else bind_outcome (init_if_null junk b) (\<lambda>b.
        let new_size = length buf + ppos b;
            b = (if new_size > pend b
                 then b\<lparr>mem := Some (realloc junk (block b) (max new_size (ppos b * 2)))\<rparr> else b)
        in Done (b\<lparr>mem := Some (overwrite (ppos b) buf (block b)), ppos := ppos b + length buf\<rparr>)))"

text \<open>\<^verbatim>\<open>Read\<close> of a size that the caller chose: the sum in its check is a \<^verbatim>\<open>size_t\<close>.\<close>

definition Buffer_Read :: "nat \<Rightarrow> binary_buffer \<Rightarrow> (byte list \<times> binary_buffer) outcome" where
  "Buffer_Read n b =
     (if \<not> (gpos b + n) mod 2 ^ 64 \<le> ppos b then Aborts
      else if gpos b + n > pend b then Undefined
      else let data = take n (drop (gpos b) (block b)); b = b\<lparr>gpos := gpos b + n\<rparr> in
           if gpos b > GROW_SIZE \<and> SHRINK_WITH_GET \<and> \<not> const_buf b
           then Done (data, b\<lparr>mem := Some (take (pend b - gpos b) (drop (gpos b) (block b))),
                              ppos := ppos b - gpos b, gpos := 0\<rparr>)
           else Done (data, b))"

definition WriteHead :: "(nat \<Rightarrow> byte) \<Rightarrow> byte list \<Rightarrow> binary_buffer \<Rightarrow> binary_buffer outcome" where
  "WriteHead junk buf b =
     (if const_buf b then Aborts
      else bind_outcome (init_if_null junk b) (\<lambda>b.
        let b = (if gpos b < length buf
                 then let new_size = max (length buf + ppos b) (ppos b + RESERVED_HEADER_SPACE);
                          new_gpos = new_size - (ppos b - gpos b)
                      in b\<lparr>mem := Some (overwrite new_gpos (take (ppos b - gpos b) (GetBuf b)) (malloc junk new_size)),
                           gpos := new_gpos, ppos := new_size\<rparr>
                 else b)
        in Done (b\<lparr>gpos := gpos b - length buf,
                  mem := Some (overwrite (gpos b - length buf) buf (block b))\<rparr>)))"

text \<open>\<^verbatim>\<open>DetachBuf\<close> gives the user a block that starts with its own address and goes on with the contents;
  the addresses of the block before the call and of the one that is handed out are parameters.
  It returns the block, the size and the emptied buffer.\<close>

definition DetachBuf :: "(nat \<Rightarrow> byte) \<Rightarrow> u64 \<Rightarrow> u64 \<Rightarrow> binary_buffer
    \<Rightarrow> (byte list \<times> nat \<times> binary_buffer) outcome" where
  "DetachBuf junk orig_addr addr b =
     bind_outcome
       (if const_buf b then Done (store64 addr @ take (GetSize b) (GetBuf b))
        else bind_outcome (WriteHead junk (store64 orig_addr) b) (\<lambda>b.
          Done (take (GetSize b)
                 (if orig_addr \<noteq> addr then store64 addr @ drop 8 (GetBuf b) else GetBuf b))))
       (\<lambda>detached. Done (detached, GetSize b,
          b\<lparr>mem := None, const_buf := False, ppos := 0, gpos := 0\<rparr>))"

text \<open>\<^verbatim>\<open>FreeDetachedBuf\<close> frees the address it finds before the contents.\<close>

definition freed_address :: "byte list \<Rightarrow> u64" where
  "freed_address detached = load64 (take 8 detached)"

section \<open>The contract of a byte buffer\<close>

text \<open>Contents that grow at both ends and are consumed from the front.\<close>

locale byte_deque =
  fixes inv :: "'b \<Rightarrow> bool"
    and contents :: "'b \<Rightarrow> byte list"
    and append_back :: "byte list \<Rightarrow> 'b \<Rightarrow> 'b outcome"
    and append_front :: "byte list \<Rightarrow> 'b \<Rightarrow> 'b outcome"
    and take_front :: "nat \<Rightarrow> 'b \<Rightarrow> (byte list \<times> 'b) outcome"
  assumes push_back: "inv b \<Longrightarrow> \<exists>b'. append_back bs b = Done b' \<and> inv b' \<and> contents b' = contents b @ bs"
    and push_front: "inv b \<Longrightarrow> \<exists>b'. append_front bs b = Done b' \<and> inv b' \<and> contents b' = bs @ contents b"
    and pop_front: "inv b \<Longrightarrow> n \<le> length (contents b) \<Longrightarrow>
      \<exists>b'. take_front n b = Done (take n (contents b), b') \<and> inv b' \<and> contents b' = drop n (contents b)"
begin

text \<open>What is written at the back is read at the front, after what was there.\<close>

lemma fifo:
  assumes "inv b" "append_back bs b = Done b'" "take_front (length (contents b)) b' = Done (xs, b'')"
    and "take_front (length bs) b'' = Done (ys, b''')"
  shows "xs = contents b \<and> ys = bs \<and> contents b''' = []"
proof -
  have b': "inv b'" "contents b' = contents b @ bs" using push_back [OF assms(1), of bs] assms(2) by auto
  with pop_front [OF b'(1), of "length (contents b)"] assms(3)
  have b'': "inv b''" "contents b'' = bs" "xs = contents b" by auto
  with pop_front [OF b''(1), of "length bs"] assms(4) show ?thesis by auto
qed

end

section \<open>Refinement\<close>

definition buf_contents :: "binary_buffer \<Rightarrow> byte list" where
  "buf_contents b = take (ppos b - gpos b) (drop (gpos b) (block b))"

definition buf_wf :: "binary_buffer \<Rightarrow> bool" where
  "buf_wf b \<longleftrightarrow> gpos b \<le> ppos b \<and> ppos b \<le> pend b"

lemma length_malloc [simp]: "length (malloc junk n) = n"
  by (simp add: malloc_def)

lemma length_realloc [simp]: "length (realloc junk m n) = n"
  by (auto simp: realloc_def min_def)

lemma take_realloc: "k \<le> length m \<Longrightarrow> k \<le> n \<Longrightarrow> take k (realloc junk m n) = take k m"
  by (simp add: realloc_def min_def)

lemma take_overwrite: "pos + length bs \<le> length m \<Longrightarrow> take pos (overwrite pos bs m) = take pos m"
  by (simp add: overwrite_def)

lemma drop_overwrite:
  "pos + length bs \<le> length m \<Longrightarrow> drop pos (overwrite pos bs m) = bs @ drop (pos + length bs) m"
  by (simp add: overwrite_def)

lemma length_overwrite: "pos + length bs \<le> length m \<Longrightarrow> length (overwrite pos bs m) = length m"
  by (simp add: overwrite_def)

lemma init_if_null_done:
  assumes "buf_wf b" "\<not> const_buf b"
  obtains b' m where "init_if_null junk b = Done b'" "buf_wf b'" "\<not> const_buf b'" "mem b' = Some m"
    "buf_contents b' = buf_contents b"
proof (cases "mem b")
  case None
  then have z: "gpos b = 0" "ppos b = 0" using assms(1) by (auto simp: buf_wf_def pend_def block_def)
  show ?thesis
    by (rule that [of "b\<lparr>mem := Some (malloc junk 128), const_buf := False, gpos := 64, ppos := 64\<rparr>" "malloc junk 128"])
       (simp_all add: None z init_if_null_def InitOstream_def buf_wf_def buf_contents_def pend_def block_def
          RESERVED_HEADER_SPACE_def)
next
  case (Some m)
  show ?thesis by (rule that [of b m]) (use Some assms in \<open>simp_all add: init_if_null_def\<close>)
qed

lemma Buffer_Write_refines:
  assumes "buf_wf b" "\<not> const_buf b"
  shows "\<exists>b'. Buffer_Write junk bs b = Done b' \<and> (buf_wf b' \<and> \<not> const_buf b') \<and>
    buf_contents b' = buf_contents b @ bs"
proof -
  obtain b0 m where b0: "init_if_null junk b = Done b0" "buf_wf b0" "\<not> const_buf b0" "mem b0 = Some m"
    "buf_contents b0 = buf_contents b" using init_if_null_done [OF assms, of junk] by metis
  let ?new = "length bs + ppos b0"
  let ?m = "if ?new > length m then realloc junk m (max ?new (ppos b0 * 2)) else m"
  have wf: "gpos b0 \<le> ppos b0" "ppos b0 \<le> length m" using b0(2,4) by (auto simp: buf_wf_def pend_def block_def)
  have m: "take (ppos b0) ?m = take (ppos b0) m" "ppos b0 + length bs \<le> length ?m"
    using wf by (auto simp: take_realloc)
  let ?b = "b0\<lparr>mem := Some (overwrite (ppos b0) bs ?m), ppos := ppos b0 + length bs\<rparr>"
  have "Buffer_Write junk bs b = Done ?b"
    using assms(2) b0 by (simp add: Buffer_Write_def bind_outcome_def Let_def pend_def block_def)
  moreover have "buf_wf ?b \<and> \<not> const_buf ?b"
    using wf m b0(3) by (auto simp: buf_wf_def pend_def block_def length_overwrite)
  moreover have "buf_contents ?b = buf_contents b0 @ bs"
  proof -
    have "take (ppos b0 + length bs) (overwrite (ppos b0) bs ?m) = take (ppos b0) m @ bs"
      using wf m by (simp add: overwrite_def)
    then have "drop (gpos b0) (take (ppos b0 + length bs) (overwrite (ppos b0) bs ?m)) = drop (gpos b0) (take (ppos b0) m) @ bs"
      using wf by simp
    then show ?thesis using b0(4) by (simp add: buf_contents_def block_def drop_take)
  qed
  ultimately show ?thesis using b0(5) by auto
qed

lemma WriteHead_refines:
  assumes "buf_wf b" "\<not> const_buf b"
  shows "\<exists>b'. WriteHead junk bs b = Done b' \<and> (buf_wf b' \<and> \<not> const_buf b') \<and>
    buf_contents b' = bs @ buf_contents b"
proof -
  obtain b0 m where b0: "init_if_null junk b = Done b0" "buf_wf b0" "\<not> const_buf b0" "mem b0 = Some m"
    "buf_contents b0 = buf_contents b" using init_if_null_done [OF assms, of junk] by metis
  have wf: "gpos b0 \<le> ppos b0" "ppos b0 \<le> length m" using b0(2,4) by (auto simp: buf_wf_def pend_def block_def)
  define b1 where "b1 = (if gpos b0 < length bs
                 then let new_size = max (length bs + ppos b0) (ppos b0 + RESERVED_HEADER_SPACE);
                          new_gpos = new_size - (ppos b0 - gpos b0)
                      in b0\<lparr>mem := Some (overwrite new_gpos (take (ppos b0 - gpos b0) (GetBuf b0)) (malloc junk new_size)),
                           gpos := new_gpos, ppos := new_size\<rparr>
                 else b0)"
  have b1: "buf_wf b1" "\<not> const_buf b1" "buf_contents b1 = buf_contents b0" "length bs \<le> gpos b1" "mem b1 \<noteq> None"
  proof -
    let ?k = "ppos b0 - gpos b0"
    let ?data = "take ?k (GetBuf b0)"
    let ?n = "max (length bs + ppos b0) (ppos b0 + RESERVED_HEADER_SPACE)"
    let ?m = "overwrite (?n - ?k) ?data (malloc junk ?n)"
    have data: "length ?data = ?k" "?data = buf_contents b0"
      using wf b0(4) by (simp_all add: GetBuf_def block_def buf_contents_def)
    have len: "length ?m = ?n" using data(1) by (intro trans [OF length_overwrite]) auto
    have drop: "drop (?n - ?k) ?m = ?data" using data(1) by (subst drop_overwrite) auto
    show "buf_wf b1" "\<not> const_buf b1" "buf_contents b1 = buf_contents b0" "length bs \<le> gpos b1" "mem b1 \<noteq> None"
      using b0(2,3,4) len drop data(2)
      by (auto simp: b1_def Let_def buf_wf_def pend_def block_def buf_contents_def)
  qed
  let ?b = "b1\<lparr>gpos := gpos b1 - length bs, mem := Some (overwrite (gpos b1 - length bs) bs (block b1))\<rparr>"
  have "WriteHead junk bs b = Done ?b"
    using assms(2) b0(1) by (simp add: WriteHead_def bind_outcome_def b1_def Let_def)
  moreover have "buf_wf ?b \<and> \<not> const_buf ?b"
    using b1 by (auto simp: buf_wf_def pend_def length_overwrite) (simp add: block_def length_overwrite)
  moreover have "buf_contents ?b = bs @ buf_contents b1"
  proof -
    have l: "ppos b1 - (gpos b1 - length bs) = length bs + (ppos b1 - gpos b1)" "gpos b1 \<le> length (block b1)"
      using b1(1,4) by (auto simp: buf_wf_def pend_def)
    have "block ?b = overwrite (gpos b1 - length bs) bs (block b1)" by (simp add: block_def)
    then have "buf_contents ?b = take (length bs + (ppos b1 - gpos b1))
        (drop (gpos b1 - length bs) (overwrite (gpos b1 - length bs) bs (block b1)))"
      using l(1) by (simp add: buf_contents_def)
    also have "drop (gpos b1 - length bs) (overwrite (gpos b1 - length bs) bs (block b1)) = bs @ drop (gpos b1) (block b1)"
      using b1(4) l(2) by (subst drop_overwrite) auto
    finally show ?thesis by (simp add: buf_contents_def)
  qed
  ultimately show ?thesis using b0(5) b1(3) by auto
qed

lemma Buffer_Read_refines:
  assumes "buf_wf b" "n \<le> length (buf_contents b)"
  shows "\<exists>b'. Buffer_Read n b = Done (take n (buf_contents b), b') \<and> (buf_wf b' \<and> const_buf b' = const_buf b) \<and>
    buf_contents b' = drop n (buf_contents b)"
proof -
  have n: "gpos b + n \<le> ppos b" "ppos b \<le> length (block b)"
    using assms by (auto simp: buf_wf_def pend_def buf_contents_def)
  then have "(gpos b + n) mod 2 ^ 64 \<le> ppos b" by (meson mod_less_eq_dividend order_trans)
  then have "Buffer_Read n b = Done (take n (drop (gpos b) (block b)), b\<lparr>gpos := gpos b + n\<rparr>)"
    using n by (simp add: Buffer_Read_def SHRINK_WITH_GET_def pend_def Let_def)
  moreover have "take n (drop (gpos b) (block b)) = take n (buf_contents b)"
    using n by (simp add: buf_contents_def min_def)
  ultimately show ?thesis
    using n by (auto simp: buf_wf_def pend_def buf_contents_def block_def drop_take add.commute)
qed

interpretation bb: byte_deque "\<lambda>b. buf_wf b \<and> \<not> const_buf b" buf_contents "Buffer_Write junk" "WriteHead junk" Buffer_Read
  for junk
  by unfold_locales (use Buffer_Write_refines WriteHead_refines Buffer_Read_refines in blast)+

section \<open>Properties\<close>

fun write_all :: "(nat \<Rightarrow> byte) \<Rightarrow> (bool \<times> byte list) list \<Rightarrow> binary_buffer \<Rightarrow> binary_buffer outcome" where
  "write_all junk [] b = Done b"
| "write_all junk ((front, bs) # ws) b =
     bind_outcome (if front then WriteHead junk bs b else Buffer_Write junk bs b) (write_all junk ws)"

fun written :: "(bool \<times> byte list) list \<Rightarrow> byte list \<Rightarrow> byte list" where
  "written [] c = c"
| "written ((front, bs) # ws) c = written ws (if front then bs @ c else c @ bs)"

lemma write_all_refines:
  "buf_wf b \<and> \<not> const_buf b \<Longrightarrow> \<exists>b'. write_all junk ws b = Done b' \<and> (buf_wf b' \<and> \<not> const_buf b') \<and>
    buf_contents b' = written ws (buf_contents b)"
proof (induction ws arbitrary: b)
  case (Cons w ws)
  obtain front bs where w: "w = (front, bs)" by (cases w)
  obtain b1 where b1: "(if front then WriteHead junk bs b else Buffer_Write junk bs b) = Done b1"
    "buf_wf b1 \<and> \<not> const_buf b1" "buf_contents b1 = (if front then bs @ buf_contents b else buf_contents b @ bs)"
    using bb.push_back [OF Cons.prems, of junk bs] bb.push_front [OF Cons.prems, of junk bs] by (cases front) auto
  from Cons.IH [OF b1(2)] show ?case by (simp add: w b1(1,3) bind_outcome_def)
qed simp

text \<open>
  C12. A binary buffer is a list of bytes: whatever sequence of writes at its end and at its head is
  made on a new buffer, whatever the memory held and however often it was reallocated, the buffer
  then holds exactly the written bytes in their order; reading takes them from the front in
  pieces of any size, a read of more than there is aborts, and detaching hands out exactly the
  contents, after the address to be freed.
\<close>

theorem binary_buffer_refines:
  "\<exists>b. write_all junk ws BinaryBuffer = Done b \<and> GetSize b = length (written ws []) \<and>
    (\<forall>n. if n \<le> GetSize b
         then \<exists>b2. Buffer_Read n b = Done (take n (written ws []), b2) \<and> buf_contents b2 = drop n (written ws [])
         else n + gpos b \<ge> 2 ^ 64 \<or> Buffer_Read n b = Aborts) \<and>
    (\<exists>b3. DetachBuf junk orig addr b = Done (store64 addr @ written ws [], GetSize b, b3) \<and> GetSize b3 = 0)"
proof -
  have "buf_wf BinaryBuffer \<and> \<not> const_buf BinaryBuffer" "buf_contents BinaryBuffer = []"
    by (simp_all add: BinaryBuffer_def buf_wf_def buf_contents_def)
  then obtain b where b: "write_all junk ws BinaryBuffer = Done b" "buf_wf b" "\<not> const_buf b" "buf_contents b = written ws []"
    using write_all_refines [of BinaryBuffer junk ws] by auto
  have size: "GetSize b' = length (buf_contents b')" if "buf_wf b'" for b'
    using that by (auto simp: GetSize_def buf_contents_def buf_wf_def pend_def)
  have "Buffer_Read n b = Aborts" if "\<not> n \<le> GetSize b" "\<not> n + gpos b \<ge> 2 ^ 64" for n
    using that b(2) by (auto simp: Buffer_Read_def GetSize_def buf_wf_def add.commute mod_less)
  moreover have "\<exists>b2. Buffer_Read n b = Done (take n (written ws []), b2) \<and> buf_contents b2 = drop n (written ws [])"
    if "n \<le> GetSize b" for n
    using Buffer_Read_refines [OF b(2), of n] that size [OF b(2)] b(4) by auto
  moreover have "\<exists>b3. DetachBuf junk orig addr b = Done (store64 addr @ written ws [], GetSize b, b3) \<and> GetSize b3 = 0"
  proof -
    obtain b1 where b1: "WriteHead junk (store64 orig) b = Done b1" "buf_wf b1" "buf_contents b1 = store64 orig @ written ws []"
      using WriteHead_refines [OF b(2,3), of junk "store64 orig"] b(4) by auto
    have "take (GetSize b1) (GetBuf b1) = store64 orig @ written ws []"
      using b1(3) by (simp add: GetSize_def GetBuf_def buf_contents_def)
    moreover have g: "GetSize b1 = 8 + length (written ws [])" using size [OF b1(2)] b1(3) by simp
    ultimately have "take (GetSize b1) (store64 addr @ drop 8 (GetBuf b1)) = store64 addr @ written ws []"
      by (metis append_eq_append_conv_if drop_take length_store(2) append_same_eq take_append take_all
          append_take_drop_id diff_add_inverse le_add1 append_eq_conv_conj)
    then show ?thesis using b(3) b1(1) \<open>take (GetSize b1) (GetBuf b1) = _\<close>
      by (auto simp: DetachBuf_def bind_outcome_def GetSize_def)
  qed
  ultimately show ?thesis using b(1,4) size [OF b(2)] by auto
qed

end
