(* ===== verification/Binary_Codec.thy ===== *)
theory Binary_Codec
  imports Byte_Words "HOL-Library.List_Lexorder" "HOL-Library.Char_ord"
begin

text \<open>
  \<^verbatim>\<open>binary_read_write_helper.h\<close>: readers and writers of plain data, pairs, triples and containers. A
  writer returns the count it reports and the bytes it has written; a reader gets the destination's old
  value and the bytes left in the stream and returns the count it reports (0 for a failure), the
  new value and what is left. The locale \<open>binary_type\<close> is the contract of the pair
  \<^verbatim>\<open>BinaryReader<StreamT, T>\<close>, \<^verbatim>\<open>BinaryWriter<StreamT, T>\<close> on which the readers of composed types rely.
  The two reads of a pair stand in one sum, whose order of evaluation the language leaves open; the model
  takes it from left to right.
\<close>

section \<open>Plain data\<close>

text \<open>A type that is copied with \<^verbatim>\<open>memcpy\<close> is given by its size and its bytes in memory. A short
  read overwrites the first bytes only.\<close>

definition pod_write :: "nat \<Rightarrow> ('a \<Rightarrow> byte list) \<Rightarrow> 'a \<Rightarrow> nat \<times> byte list" where
  "pod_write n enc d = (n, enc d)"

definition pod_read :: "nat \<Rightarrow> ('a \<Rightarrow> byte list) \<Rightarrow> (byte list \<Rightarrow> 'a) \<Rightarrow> 'a \<Rightarrow> byte list
    \<Rightarrow> nat \<times> 'a \<times> byte list" where
  "pod_read n enc dec d s =
     (let got = take n s in (length got, dec (got @ drop (length got) (enc d)), drop n s))"

definition write_size :: "nat \<Rightarrow> nat \<times> byte list" where
  "write_size n = pod_write 8 store64 (of_nat n)"

definition read_size :: "u64 \<Rightarrow> byte list \<Rightarrow> nat \<times> u64 \<times> byte list" where
  "read_size = pod_read 8 store64 load64"

section \<open>Pairs and triples\<close>

definition pair_read where
  "pair_read rd1 rd2 d s =
     (let (r1, x, s1) = rd1 (fst d) s; (r2, y, s2) = rd2 (snd d) s1
      in (r1 + r2 :: nat, (x, y), s2))"

definition pair_write where
  "pair_write wr1 wr2 d =
     (let (n1, b1) = wr1 (fst d); (n2, b2) = wr2 (snd d) in (n1 + n2 :: nat, b1 @ b2))"

definition tuple_read where
  "tuple_read rd1 rd2 rd3 d s =
     (case d of (d1, d2, d3) \<Rightarrow>
        let (r1, x, s1) = rd1 d1 s; (r2, y, s2) = rd2 d2 s1; (r3, z, s3) = rd3 d3 s2
        in (r1 + r2 + r3 :: nat, (x, y, z), s3))"

definition tuple_write where
  "tuple_write wr1 wr2 wr3 d =
     (case d of (d1, d2, d3) \<Rightarrow>
        let (n1, b1) = wr1 d1; (n2, b2) = wr2 d2; (n3, b3) = wr3 d3
        in (n1 + n2 + n3 :: nat, b1 @ b2 @ b3))"

text \<open>\<^verbatim>\<open>DecodeBinaryAsType\<close> reads one type and converts the value to another.\<close>

definition DecodeBinaryAsType :: "('a \<Rightarrow> byte list \<Rightarrow> nat \<times> 'a \<times> byte list) \<Rightarrow> ('a \<Rightarrow> 'b) \<Rightarrow> 'a \<Rightarrow> byte list
    \<Rightarrow> nat \<times> 'b \<times> byte list" where
  "DecodeBinaryAsType rd static_cast v s = (let (ret, v, s) = rd v s in (ret, static_cast v, s))"

section \<open>Sequential containers\<close>

definition resize_elems :: "'a \<Rightarrow> nat \<Rightarrow> 'a list \<Rightarrow> 'a list" where
  "resize_elems dflt n xs = take n xs @ replicate (n - length xs) dflt"

fun chunks :: "nat \<Rightarrow> nat \<Rightarrow> byte list \<Rightarrow> byte list list" where
  "chunks n 0 bs = []"
| "chunks n (Suc k) bs = take n bs # chunks n k (drop n bs)"

text \<open>Elements that are copied with \<^verbatim>\<open>memcpy\<close>: one read into the resized container. \<open>junk\<close> is the
  uninitialised size, which a short read leaves in part.\<close>

definition vec_pod_read :: "nat \<Rightarrow> ('a \<Rightarrow> byte list) \<Rightarrow> (byte list \<Rightarrow> 'a) \<Rightarrow> 'a \<Rightarrow> u64 \<Rightarrow> 'a list \<Rightarrow> byte list
    \<Rightarrow> nat \<times> 'a list \<times> byte list" where
  "vec_pod_read n enc dec dflt junk d s =
     (let (r, size, s1) = read_size junk s in
      if r = 0 then (0, d, s1)
      else let d1 = resize_elems dflt (unat size) d;
               want = unat size * n;
               got = take want s1;
               bytes = got @ drop (length got) (concat (map enc d1))
           in (if length got = want then length got + 8 else 0,
               map dec (chunks n (unat size) bytes), drop want s1))"

definition vec_pod_write :: "nat \<Rightarrow> ('a \<Rightarrow> byte list) \<Rightarrow> 'a list \<Rightarrow> nat \<times> byte list" where
  "vec_pod_write n enc d =
     (8 + n * length d, snd (write_size (length d)) @ concat (map enc d))"

text \<open>Other elements: one read for each place of the resized container, until one fails.\<close>

fun read_elems :: "('a \<Rightarrow> byte list \<Rightarrow> nat \<times> 'a \<times> byte list) \<Rightarrow> 'a list \<Rightarrow> byte list
    \<Rightarrow> nat option \<times> 'a list \<times> byte list" where
  "read_elems rd [] s = (Some 0, [], s)"
| "read_elems rd (d # ds) s =
     (let (r, x, s1) = rd d s in
      if r = 0 then (None, x # ds, s1)
      else let (t, xs, s2) = read_elems rd ds s1 in (map_option (\<lambda>b. r + b) t, x # xs, s2))"

definition vec_read :: "('a \<Rightarrow> byte list \<Rightarrow> nat \<times> 'a \<times> byte list) \<Rightarrow> 'a \<Rightarrow> u64 \<Rightarrow> 'a list \<Rightarrow> byte list
    \<Rightarrow> nat \<times> 'a list \<times> byte list" where
  "vec_read rd dflt junk d s =
     (let (r, size, s1) = read_size junk s in
      if r = 0 then (0, d, s1)
      else let (t, xs, s2) = read_elems rd (resize_elems dflt (unat size) d) s1
           in (case t of None \<Rightarrow> 0 | Some b \<Rightarrow> 8 + b, xs, s2))"

fun write_elems :: "('a \<Rightarrow> nat \<times> byte list) \<Rightarrow> 'a list \<Rightarrow> nat \<times> byte list" where
  "write_elems wr [] = (0, [])"
| "write_elems wr (x # xs) =
     (let (n, b) = wr x; (m, c) = write_elems wr xs in (n + m, b @ c))"

definition vec_write :: "('a \<Rightarrow> nat \<times> byte list) \<Rightarrow> 'a list \<Rightarrow> nat \<times> byte list" where
  "vec_write wr d =
     (let (n, b) = write_size (length d); (m, c) = write_elems wr d in (n + m, b @ c))"

section \<open>Other containers\<close>

text \<open>The container's \<^verbatim>\<open>insert\<close> and its elements in iteration order are parameters; every element is
  read into a fresh value \<open>e0\<close>, and the container is not cleared.\<close>

fun read_inserts :: "('e \<Rightarrow> byte list \<Rightarrow> nat \<times> 'e \<times> byte list) \<Rightarrow> ('e \<Rightarrow> 'c \<Rightarrow> 'c) \<Rightarrow> 'e \<Rightarrow> nat \<Rightarrow> 'c
    \<Rightarrow> byte list \<Rightarrow> nat option \<times> 'c \<times> byte list" where
  "read_inserts rd ins e0 0 c s = (Some 0, c, s)"
| "read_inserts rd ins e0 (Suc k) c s =
     (let (r, e, s1) = rd e0 s in
      if r = 0 then (None, c, s1)
      else let (t, c', s2) = read_inserts rd ins e0 k (ins e c) s1 in (map_option (\<lambda>b. r + b) t, c', s2))"

definition set_read :: "('e \<Rightarrow> byte list \<Rightarrow> nat \<times> 'e \<times> byte list) \<Rightarrow> ('e \<Rightarrow> 'c \<Rightarrow> 'c) \<Rightarrow> 'e \<Rightarrow> 'c
    \<Rightarrow> byte list \<Rightarrow> nat \<times> 'c \<times> byte list" where
  "set_read rd ins e0 c s =
     (let (r, size, s1) = read_size 0 s in
      if r = 0 then (0, c, s1)
      else let (t, c', s2) = read_inserts rd ins e0 (unat size) c s1
           in (case t of None \<Rightarrow> 0 | Some b \<Rightarrow> r + b, c', s2))"

definition set_write :: "('e \<Rightarrow> nat \<times> byte list) \<Rightarrow> ('c \<Rightarrow> 'e list) \<Rightarrow> 'c \<Rightarrow> nat \<times> byte list" where
  "set_write wr elems c = vec_write wr (elems c)"

text \<open>\<^verbatim>\<open>std::map::insert\<close> and \<^verbatim>\<open>std::set::insert\<close> on the elements in the order of their keys: an element
  whose key is there already is not inserted.\<close>

fun ordered_insert :: "('e \<Rightarrow> 'k::linorder) \<Rightarrow> 'e \<Rightarrow> 'e list \<Rightarrow> 'e list" where
  "ordered_insert key e [] = [e]"
| "ordered_insert key e (x # xs) =
     (if key e < key x then e # x # xs
      else if key e = key x then x # xs
      else x # ordered_insert key e xs)"

section \<open>The contract of a serialisable type\<close>

locale binary_type =
  fixes wr :: "'a \<Rightarrow> nat \<times> byte list"
    and rd :: "'a \<Rightarrow> byte list \<Rightarrow> nat \<times> 'a \<times> byte list"
    and ok :: "'a \<Rightarrow> bool"
  assumes count: "ok x \<Longrightarrow> fst (wr x) = length (snd (wr x))"
    and not_empty: "ok x \<Longrightarrow> snd (wr x) \<noteq> []"
    and read_back: "ok x \<Longrightarrow> rd d (snd (wr x) @ rest) = (length (snd (wr x)), x, rest)"
begin

lemma write_elems_count:
  "\<forall>x \<in> set xs. ok x \<Longrightarrow> fst (write_elems wr xs) = length (snd (write_elems wr xs))"
  by (induction xs) (auto simp: count split_def Let_def)

lemma read_elems_back:
  "\<forall>x \<in> set xs. ok x \<Longrightarrow> length ds = length xs \<Longrightarrow>
    read_elems rd ds (snd (write_elems wr xs) @ rest) =
      (Some (length (snd (write_elems wr xs))), xs, rest)"
proof (induction xs arbitrary: ds)
  case (Cons x xs)
  then obtain d ds' where ds: "ds = d # ds'" by (cases ds) auto
  from Cons show ?case by (simp add: ds split_def Let_def read_back not_empty)
qed simp

lemma read_inserts_back:
  "\<forall>x \<in> set xs. ok x \<Longrightarrow>
    read_inserts rd ins e0 (length xs) c (snd (write_elems wr xs) @ rest) =
      (Some (length (snd (write_elems wr xs))), fold ins xs c, rest)"
  by (induction xs arbitrary: c) (simp_all add: split_def Let_def read_back not_empty)

end

lemma length_resized [simp]: "length (resize_elems dflt n xs) = n"
  by (simp add: resize_elems_def)

lemma read_size_back: "n < 2 ^ 64 \<Longrightarrow> read_size junk (snd (write_size n) @ rest) = (8, of_nat n, rest)"
  by (simp add: read_size_def write_size_def pod_read_def pod_write_def Let_def)

lemma write_size_parts: "fst (write_size n) = 8" "length (snd (write_size n)) = 8"
  by (simp_all add: write_size_def pod_write_def)

section \<open>Composed types\<close>

locale pod_type =
  fixes n :: nat and enc :: "'a \<Rightarrow> byte list" and dec :: "byte list \<Rightarrow> 'a"
  assumes pos: "0 < n" and enc_length: "length (enc x) = n" and dec_enc: "dec (enc x) = x"
begin

lemma concat_length: "length (concat (map enc xs)) = length xs * n"
  by (induction xs) (simp_all add: enc_length)

lemma chunks_concat: "map dec (chunks n (length xs) (concat (map enc xs) @ rest)) = xs"
  by (induction xs) (simp_all add: enc_length dec_enc)

lemma vec_pod_back:
  assumes "length xs < 2 ^ 64"
  shows "vec_pod_read n enc dec dflt junk d (snd (vec_pod_write n enc xs) @ rest) =
    (length (snd (vec_pod_write n enc xs)), xs, rest)"
proof -
  have "unat (of_nat (length xs) :: u64) = length xs" using assms by (simp add: unat_of_nat)
  then show ?thesis
    using read_size_back [OF assms, of junk "concat (map enc xs) @ rest"] chunks_concat [of xs "[]"]
    by (simp add: vec_pod_read_def vec_pod_write_def concat_length Let_def write_size_parts)
qed

end

sublocale pod_type \<subseteq> plain: binary_type "pod_write n enc" "pod_read n enc dec" "\<lambda>_. True"
proof unfold_locales
  fix x d rest
  show "fst (pod_write n enc x) = length (snd (pod_write n enc x))"
    by (simp add: pod_write_def enc_length)
  show "snd (pod_write n enc x) \<noteq> []"
    using pos enc_length [of x] by (auto simp: pod_write_def)
  show "pod_read n enc dec d (snd (pod_write n enc x) @ rest) = (length (snd (pod_write n enc x)), x, rest)"
    by (simp add: pod_write_def pod_read_def enc_length dec_enc Let_def)
qed

sublocale pod_type \<subseteq> vec: binary_type "vec_pod_write n enc" "vec_pod_read n enc dec dflt junk"
    "\<lambda>xs. length xs < 2 ^ 64" for dflt junk
proof unfold_locales
  fix xs :: "'a list" and d rest assume len: "length xs < 2 ^ 64"
  show "fst (vec_pod_write n enc xs) = length (snd (vec_pod_write n enc xs))"
    by (simp add: vec_pod_write_def concat_length write_size_parts)
  show "snd (vec_pod_write n enc xs) \<noteq> []"
    using write_size_parts(2) [of "length xs"] by (auto simp: vec_pod_write_def)
  show "vec_pod_read n enc dec dflt junk d (snd (vec_pod_write n enc xs) @ rest) =
    (length (snd (vec_pod_write n enc xs)), xs, rest)" by (rule vec_pod_back [OF len])
qed

locale binary_pair = a: binary_type wa ra oka + b: binary_type wb rb okb
  for wa :: "'a \<Rightarrow> nat \<times> byte list" and ra oka
    and wb :: "'b \<Rightarrow> nat \<times> byte list" and rb okb

sublocale binary_pair \<subseteq> pair: binary_type "pair_write wa wb" "pair_read ra rb"
    "\<lambda>p. oka (fst p) \<and> okb (snd p)"
  by unfold_locales
     (simp_all add: pair_write_def pair_read_def split_def Let_def a.count b.count a.not_empty
        a.read_back b.read_back)

text \<open>Containers of serialisable elements are serialisable.\<close>

lemma vec_binary_type:
  assumes "binary_type wr rd ok"
  shows "binary_type (vec_write wr) (vec_read rd dflt junk) (\<lambda>xs. length xs < 2 ^ 64 \<and> (\<forall>x \<in> set xs. ok x))"
proof
  fix xs d rest assume xs: "length xs < 2 ^ 64 \<and> (\<forall>x \<in> set xs. ok x)"
  have n: "unat (of_nat (length xs) :: u64) = length xs" using xs by (simp add: unat_of_nat)
  show "fst (vec_write wr xs) = length (snd (vec_write wr xs))"
    using binary_type.write_elems_count [OF assms] xs
    by (simp add: vec_write_def split_def Let_def write_size_parts)
  show "snd (vec_write wr xs) \<noteq> []"
    using write_size_parts(2) [of "length xs"] by (auto simp: vec_write_def split_def Let_def)
  show "vec_read rd dflt junk d (snd (vec_write wr xs) @ rest) = (length (snd (vec_write wr xs)), xs, rest)"
    using read_size_back [of "length xs" junk "snd (write_elems wr xs) @ rest"] xs n
      binary_type.read_elems_back [OF assms, of xs "resize_elems dflt (length xs) d" rest]
    by (simp add: vec_write_def vec_read_def split_def Let_def write_size_parts)
qed

lemma ordered_insert_last:
  "\<forall>x \<in> set xs. key x < key e \<Longrightarrow> ordered_insert key e xs = xs @ [e]"
  by (induction xs) auto

lemma ordered_fold:
  "sorted_wrt (\<lambda>a b. key a < key b) (ys @ xs) \<Longrightarrow> fold (ordered_insert key) xs ys = ys @ xs"
proof (induction xs arbitrary: ys)
  case (Cons x xs)
  then have "ordered_insert key x ys = ys @ [x]"
    by (intro ordered_insert_last) (auto simp: sorted_wrt_append)
  with Cons show ?case by simp
qed simp

lemma set_read_back:
  assumes "binary_type wr rd ok" "length xs < 2 ^ 64" "\<forall>x \<in> set xs. ok x"
  shows "set_read rd ins e0 c (snd (set_write wr (\<lambda>c. c) xs) @ rest) =
    (fst (set_write wr (\<lambda>c. c) xs), fold ins xs c, rest)"
proof -
  have n: "unat (of_nat (length xs) :: u64) = length xs" using assms(2) by (simp add: unat_of_nat)
  show ?thesis
    using read_size_back [OF assms(2), of 0 "snd (write_elems wr xs) @ rest"] n
      binary_type.read_inserts_back [OF assms(1,3), of ins e0 c rest]
      binary_type.write_elems_count [OF assms(1,3)]
    by (simp add: set_read_def set_write_def vec_write_def split_def Let_def write_size_parts)
qed

section \<open>Instances\<close>

definition char_bytes :: "char \<Rightarrow> byte list" where
  "char_bytes c = [word_of_nat (uchar c)]"

definition bytes_char :: "byte list \<Rightarrow> char" where
  "bytes_char bs = char_of (unat (hd bs))"

interpretation char_pod: pod_type 1 char_bytes bytes_char
proof
  show "bytes_char (char_bytes c) = c" for c
    using uchar_less [of c] by (simp add: bytes_char_def char_bytes_def unat_of_nat)
qed (simp_all add: char_bytes_def)

interpretation u64_pod: pod_type 8 store64 load64
  by unfold_locales simp_all

interpretation u32_pod: pod_type 4 store32 load32
  by unfold_locales simp_all

definition string_write :: "string \<Rightarrow> nat \<times> byte list" where
  "string_write = vec_pod_write 1 char_bytes"

definition string_read :: "u64 \<Rightarrow> string \<Rightarrow> byte list \<Rightarrow> nat \<times> string \<times> byte list" where
  "string_read junk = vec_pod_read 1 char_bytes bytes_char (CHR 0x00) junk"

text \<open>The readers and writers that the templates give for \<^verbatim>\<open>std::vector<uint64_t>\<close> and
  \<^verbatim>\<open>std::map<std::string, std::vector<uint64_t>>\<close>.\<close>

definition index_write :: "(string \<times> u64 list) list \<Rightarrow> nat \<times> byte list" where
  "index_write = set_write (pair_write string_write (vec_pod_write 8 store64)) (\<lambda>m. m)"

definition index_read :: "u64 \<Rightarrow> (string \<times> u64 list) list \<Rightarrow> byte list
    \<Rightarrow> nat \<times> (string \<times> u64 list) list \<times> byte list" where
  "index_read junk =
     set_read (pair_read (string_read junk) (vec_pod_read 8 store64 load64 0 junk)) (ordered_insert fst) ([], [])"

interpretation entry: binary_pair string_write "string_read junk" "\<lambda>xs. length xs < 2 ^ 64"
    "vec_pod_write 8 store64" "vec_pod_read 8 store64 load64 0 junk" "\<lambda>xs. length xs < 2 ^ 64" for junk
  unfolding binary_pair_def string_write_def string_read_def
  using char_pod.vec.binary_type_axioms u64_pod.vec.binary_type_axioms by blast

section \<open>Properties\<close>

text \<open>
  C13. Binary serialisation round trip, for a type that composes every reader and writer: a
  \<^verbatim>\<open>std::map<std::string, std::vector<uint64_t>>\<close> is written as bytes whose number is the count that
  the writer reports, and reading them, whatever follows in the stream, into an empty map gives
  back the map, reports the same count and consumes exactly these bytes. Reading into a map
  that is not empty inserts the entries: keys that are there already keep their old values.
\<close>

theorem binary_map_roundtrip:
  assumes "sorted_wrt (\<lambda>a b. fst a < fst b) m" and "length m < 2 ^ 64"
    and "\<forall>e \<in> set m. length (fst e) < 2 ^ 64 \<and> length (snd e) < 2 ^ 64"
  shows "fst (index_write m) = length (snd (index_write m)) \<and>
    index_read junk [] (snd (index_write m) @ rest) = (fst (index_write m), m, rest) \<and>
    index_read junk old (snd (index_write m) @ rest) =
      (fst (index_write m), fold (ordered_insert fst) m old, rest)"
proof -
  have e: "binary_type (pair_write string_write (vec_pod_write 8 store64))
      (pair_read (string_read junk) (vec_pod_read 8 store64 load64 0 junk))
      (\<lambda>p. length (fst p) < 2 ^ 64 \<and> length (snd p) < 2 ^ 64)"
    by (rule entry.pair.binary_type_axioms)
  have "fold (ordered_insert fst) m [] = m"
    using ordered_fold [of fst "[]" m] assms(1) by simp
  moreover have "fst (index_write m) = length (snd (index_write m))"
    using binary_type.write_elems_count [OF e, of m] assms(3)
    by (simp add: index_write_def set_write_def vec_write_def split_def Let_def write_size_parts)
  moreover have "index_read junk c (snd (index_write m) @ rest) =
      (fst (index_write m), fold (ordered_insert fst) m c, rest)" for c
    unfolding index_write_def index_read_def using set_read_back [OF e assms(2,3)] .
  ultimately show ?thesis by simp
qed

lemma binary_map_roundtrip_witness:
  "index_read 7 [] (snd (index_write [(''a'', [1, 2]), (''b'', [])]) @ [9]) =
     (fst (index_write [(''a'', [1, 2]), (''b'', [])]), [(''a'', [1, 2]), (''b'', [])], [9])"
  using binary_map_roundtrip [of "[(''a'', [1, 2]), (''b'', [])]" 7 "[9]" "[]"] by simp


end
