(* ===== verification/Stream_Buffers.thy ===== *)
theory Stream_Buffers
  imports Stream_Base
begin

text \<open>
  \<^verbatim>\<open>stream_buffer.h\<close>: the prefetching input buffer on top of any stream and the two output buffers
  that write in another thread. Of the two halves of a double buffer only the bytes that are valid
  are kept. A prefetch runs between the \<^verbatim>\<open>Push\<close> that asks for it and the \<^verbatim>\<open>Pop\<close> that takes its result,
  and nothing touches the stream or the prefetch buffer in between, so it is modelled at its
  \<^verbatim>\<open>Push\<close>; the writing thread of an output buffer may run at any time between two operations.
\<close>

section \<open>PrefetchingtStreamBuffer\<close>

text \<open>\<open>ahead\<close> is the result waiting in the queue \<^verbatim>\<open>prefetched_\<close>; without it a \<^verbatim>\<open>Pop\<close> waits for ever.\<close>

record 's prefetch_buffer =
  pf_stream :: "'s option"
  pf_running :: bool
  pf_buf :: string
  pf_capacity :: nat
  pf_offset :: nat
  pf_size :: nat
  pf_file_pos :: nat
  pf_good :: bool
  pf_ahead :: "string option"

text \<open>The constructor without arguments leaves \<^verbatim>\<open>stream_\<close> uninitialised, so there is no model of it; a
  buffer is first opened, whatever it was before. This is one such state.\<close>

definition prefetch_null :: "'s prefetch_buffer" where
  "prefetch_null = \<lparr>pf_stream = None, pf_running = False, pf_buf = [], pf_capacity = 0, pf_offset = 0,
     pf_size = 0, pf_file_pos = 0, pf_good = False, pf_ahead = None\<rparr>"

definition Prefetch_Close :: "'s prefetch_buffer \<Rightarrow> 's prefetch_buffer" where
  "Prefetch_Close b = b\<lparr>pf_capacity := 0, pf_offset := 0, pf_size := 0, pf_file_pos := 0,
     pf_running := False, pf_ahead := None\<rparr>"

text \<open>\<^verbatim>\<open>PrefetchBlock\<close>, the function of the prefetching stage: the request -1 (the flag) reads nothing.\<close>

definition PrefetchBlock :: "(nat \<Rightarrow> 's \<Rightarrow> string \<times> 's) \<Rightarrow> bool \<Rightarrow> nat \<Rightarrow> 's \<Rightarrow> string \<times> 's" where
  "PrefetchBlock rd stop cap s = (if stop then ([], s) else rd cap s)"

definition push_prefetch :: "(nat \<Rightarrow> 's \<Rightarrow> string \<times> 's) \<Rightarrow> bool \<Rightarrow> 's \<Rightarrow> 's prefetch_buffer \<Rightarrow> 's prefetch_buffer" where
  "push_prefetch rd stop s b =
     (let (data, s) = PrefetchBlock rd stop (pf_capacity b) s
      in b\<lparr>pf_stream := Some s, pf_ahead := Some data\<rparr>)"

definition Prefetch_Open :: "(nat \<Rightarrow> 's \<Rightarrow> string \<times> 's) \<Rightarrow> ('s \<Rightarrow> bool) \<Rightarrow> 's \<Rightarrow> nat \<Rightarrow> 's prefetch_buffer
    \<Rightarrow> 's prefetch_buffer" where
  "Prefetch_Open rd good stream buf_size b =
     (let b = (Prefetch_Close b)\<lparr>pf_stream := Some stream\<rparr> in
      if \<not> good stream then b\<lparr>pf_good := False\<rparr>
      else push_prefetch rd False stream
             (b\<lparr>pf_capacity := max (buf_size div 2) (64 * 1024), pf_offset := 0, pf_size := 0,
                pf_file_pos := 0, pf_running := True\<rparr>)
             \<lparr>pf_good := True\<rparr>)"

text \<open>The loop of \<^verbatim>\<open>Read\<close>. \<^const>\<open>None\<close> stands for a use of the missing queue of a buffer that is not
  running, and for waiting for ever; the flag of the result tells an early return from the end of
  the loop.\<close>

function read_from :: "(nat \<Rightarrow> 's \<Rightarrow> string \<times> 's) \<Rightarrow> nat \<Rightarrow> string \<Rightarrow> 's \<Rightarrow> 's prefetch_buffer
    \<Rightarrow> (string \<times> bool \<times> 's prefetch_buffer) option" where
  "read_from rd bytes_left got s b =
     (if bytes_left = 0 then Some (got, False, b)
      else if pf_offset b \<ge> pf_size b then
        (if \<not> pf_running b then None
         else case pf_ahead b of
           None \<Rightarrow> None
         | Some data \<Rightarrow>
             if length data = 0 then Some (got, True, (push_prefetch rd True s b)\<lparr>pf_good := False\<rparr>)
             else
               let d = length data; b = b\<lparr>pf_buf := data, pf_size := d, pf_offset := 0\<rparr> in
               if bytes_left > pf_capacity b then
                 let (more, s) = rd (bytes_left - d) s
                 in Some (got @ data @ more, False,
                      push_prefetch rd (d \<noteq> pf_capacity b) s (b\<lparr>pf_offset := d\<rparr>))
               else let b = push_prefetch rd (d \<noteq> pf_capacity b) s b
                    in read_from rd bytes_left got (the (pf_stream b)) b)
      else
        let to_copy = min bytes_left (pf_size b - pf_offset b)
        in read_from rd (bytes_left - to_copy) (got @ take to_copy (drop (pf_offset b) (pf_buf b))) s
             (b\<lparr>pf_offset := pf_offset b + to_copy\<rparr>))"
  by pat_completeness auto
termination
  by (relation "(\<lambda>(rd, n, got, s, b). n) <*mlex*> measure (\<lambda>(rd, n, got, s, b).
        if pf_offset b \<ge> pf_size b then 1 else 0)")
     (auto simp: wf_mlex mlex_iff push_prefetch_def split_def Let_def)

declare read_from.simps [simp del]

definition Prefetch_Read :: "(nat \<Rightarrow> 's \<Rightarrow> string \<times> 's) \<Rightarrow> nat \<Rightarrow> 's prefetch_buffer
    \<Rightarrow> (string \<times> 's prefetch_buffer) option" where
  "Prefetch_Read rd n b =
     (case pf_stream b of None \<Rightarrow> Some ([], b)
      | Some s \<Rightarrow>
          map_option (\<lambda>(data, early, b). (data, if early then b
             else b\<lparr>pf_file_pos := pf_file_pos b + length data\<rparr>)) (read_from rd n [] s b))"

text \<open>\<^verbatim>\<open>FillBuffer\<close>, for derived classes.\<close>

definition FillBuffer :: "(nat \<Rightarrow> 's \<Rightarrow> string \<times> 's) \<Rightarrow> 's \<Rightarrow> 's prefetch_buffer \<Rightarrow> (nat \<times> 's prefetch_buffer) option" where
  "FillBuffer rd s b =
     (if \<not> pf_running b then None
      else case pf_ahead b of
        None \<Rightarrow> None
      | Some data \<Rightarrow>
          let b = push_prefetch rd False s (if length data \<noteq> 0 then b\<lparr>pf_buf := data\<rparr> else b)
          in Some (length data, b\<lparr>pf_size := length data, pf_offset := 0\<rparr>))"

definition Prefetch_Offset :: "'s prefetch_buffer \<Rightarrow> nat" where
  "Prefetch_Offset b = pf_file_pos b"

definition Prefetch_Good :: "'s prefetch_buffer \<Rightarrow> bool" where
  "Prefetch_Good b = pf_good b"

section \<open>ThreadedOutputStreamBuffer\<close>

text \<open>\<open>ob_pending\<close> is what the writing thread has been asked to write and has not written yet; the token
  is in the queue exactly when there is no such request. \<open>ob_file\<close> is what the stream has got.\<close>

record output_buffer =
  ob_open :: bool
  ob_buf :: string
  ob_capacity :: nat
  ob_pending :: "string option"
  ob_file :: string

definition output_closed :: output_buffer where
  "output_closed = \<lparr>ob_open = False, ob_buf = [], ob_capacity = 0, ob_pending = None, ob_file = []\<rparr>"

text \<open>A step of the writing thread, \<^verbatim>\<open>WriteBufferToFile\<close>.\<close>

definition writer_runs :: "output_buffer \<Rightarrow> output_buffer" where
  "writer_runs b = (case ob_pending b of None \<Rightarrow> b
     | Some d \<Rightarrow> b\<lparr>ob_file := ob_file b @ d, ob_pending := None\<rparr>)"

text \<open>Waiting for the token, or for the stage to be clear, lets the writing thread finish first.\<close>

definition PushToWrite :: "output_buffer \<Rightarrow> output_buffer" where
  "PushToWrite b =
     (if ob_buf b \<noteq> [] then let b = writer_runs b in b\<lparr>ob_pending := Some (ob_buf b), ob_buf := []\<rparr> else b)"

definition Output_Flush :: "output_buffer \<Rightarrow> output_buffer" where
  "Output_Flush b = writer_runs (PushToWrite b)"

definition Output_Close :: "output_buffer \<Rightarrow> output_buffer" where
  "Output_Close b = (if \<not> ob_open b then b else (Output_Flush b)\<lparr>ob_capacity := 0\<rparr>)"

definition Output_Open :: "nat \<Rightarrow> output_buffer \<Rightarrow> output_buffer" where
  "Output_Open buf_size b =
     (Output_Close b)\<lparr>ob_open := True, ob_capacity := max (64 * 1024) (buf_size div 2), ob_buf := []\<rparr>"

definition Output_Write :: "string \<Rightarrow> output_buffer \<Rightarrow> output_buffer" where
  "Output_Write data b =
     (let b = (if length (ob_buf b) + length data \<ge> ob_capacity b then PushToWrite b else b) in
      if length data \<ge> ob_capacity b
      then let b = writer_runs b in b\<lparr>ob_file := ob_file b @ data\<rparr>
      else b\<lparr>ob_buf := ob_buf b @ data\<rparr>)"

section \<open>ThreadPoolOutputStreamBuffer\<close>

text \<open>Here the flag \<^verbatim>\<open>writing_\<close> is on exactly when a task with the other half is in the pool;
  \<^verbatim>\<open>WaitTillWriteDone\<close> waits for that task.\<close>

definition WaitTillWriteDone :: "output_buffer \<Rightarrow> output_buffer" where
  "WaitTillWriteDone b = writer_runs b"

definition PoolOutput_PushToWrite :: "output_buffer \<Rightarrow> output_buffer" where
  "PoolOutput_PushToWrite b =
     (if length (ob_buf b) \<noteq> 0
      then (WaitTillWriteDone b)\<lparr>ob_buf := [], ob_pending := Some (ob_buf b)\<rparr> else b)"

definition PoolOutput_Write :: "string \<Rightarrow> output_buffer \<Rightarrow> output_buffer" where
  "PoolOutput_Write data b =
     (let b = (if length (ob_buf b) + length data \<ge> ob_capacity b then PoolOutput_PushToWrite b else b) in
      if length data \<ge> ob_capacity b
      then let b = WaitTillWriteDone b in b\<lparr>ob_file := ob_file b @ data\<rparr>
      else b\<lparr>ob_buf := ob_buf b @ data\<rparr>)"

definition PoolOutput_Flush :: "output_buffer \<Rightarrow> output_buffer" where
  "PoolOutput_Flush b = WaitTillWriteDone (PoolOutput_PushToWrite b)"

definition PoolOutput_Close :: "output_buffer \<Rightarrow> output_buffer" where
  "PoolOutput_Close b = (if \<not> ob_open b then b else (PoolOutput_Flush b)\<lparr>ob_capacity := 0\<rparr>)"

text \<open>Opening without a pool throws, and the constructor with two arguments opens without one.\<close>

definition PoolOutput_Open :: "nat \<Rightarrow> bool \<Rightarrow> output_buffer \<Rightarrow> output_buffer option" where
  "PoolOutput_Open buf_size has_pool b =
     (if \<not> has_pool then None
      else Some ((PoolOutput_Close b)\<lparr>ob_open := True, ob_capacity := buf_size, ob_buf := []\<rparr>))"

definition ThreadPoolOutputStreamBuffer :: "nat \<Rightarrow> output_buffer option" where
  "ThreadPoolOutputStreamBuffer buf_size = PoolOutput_Open buf_size False output_closed"

section \<open>The input buffer reads what the stream would\<close>

text \<open>What a buffer will still deliver, and when it is in order.\<close>

definition remaining :: "('s \<Rightarrow> string) \<Rightarrow> 's prefetch_buffer \<Rightarrow> string" where
  "remaining rest b = drop (pf_offset b) (take (pf_size b) (pf_buf b)) @ the (pf_ahead b) @ rest (the (pf_stream b))"

definition buffer_inv :: "('s \<Rightarrow> string) \<Rightarrow> 's prefetch_buffer \<Rightarrow> bool" where
  "buffer_inv rest b \<longleftrightarrow> pf_running b \<and> pf_capacity b > 0 \<and> pf_stream b \<noteq> None \<and> pf_ahead b \<noteq> None \<and>
     pf_offset b \<le> pf_size b \<and> pf_size b \<le> length (pf_buf b) \<and>
     length (the (pf_ahead b)) \<le> pf_capacity b \<and>
     (length (the (pf_ahead b)) < pf_capacity b \<longrightarrow> rest (the (pf_stream b)) = [])"

text \<open>The contract that the prefetching buffer needs is stronger than that of an input stream: a short read
  means the end.\<close>

locale full_source = byte_source rd good rest
  for rd :: "nat \<Rightarrow> 's \<Rightarrow> string \<times> 's" and good :: "'s \<Rightarrow> bool" and rest :: "'s \<Rightarrow> string" +
  assumes rd_full: "length (fst (rd n s)) = min n (length (rest s))"
begin

lemma rd_take: "fst (rd n s) = take n (rest s)" "rest (snd (rd n s)) = drop n (rest s)"
proof -
  have "fst (rd n s) = take (length (fst (rd n s))) (rest s)"
    by (metis append_eq_conv_conj rd_data)
  then show f: "fst (rd n s) = take n (rest s)" by (simp add: rd_full min_def split: if_splits)
  show "rest (snd (rd n s)) = drop n (rest s)"
    by (metis append_take_drop_id f rd_data same_append_eq)
qed

lemma push_prefetch_inv:
  assumes "pf_running b" "pf_capacity b > 0" "pf_offset b \<le> pf_size b" "pf_size b \<le> length (pf_buf b)"
    and "stop \<Longrightarrow> rest s = []"
  shows "buffer_inv rest (push_prefetch rd stop s b)"
    and "remaining rest (push_prefetch rd stop s b) = drop (pf_offset b) (take (pf_size b) (pf_buf b)) @ rest s"
  using assms
  by (auto simp: buffer_inv_def remaining_def push_prefetch_def PrefetchBlock_def split_def Let_def rd_take)

lemma read_from_spec:
  assumes "buffer_inv rest b" "pf_stream b = Some s"
  shows "\<exists>early b'. read_from rd n got s b = Some (got @ take n (remaining rest b), early, b') \<and>
    buffer_inv rest b' \<and> remaining rest b' = drop n (remaining rest b) \<and>
    (early \<longrightarrow> length (remaining rest b) < n \<and> \<not> pf_good b') \<and>
    pf_file_pos b' = pf_file_pos b \<and> pf_capacity b' = pf_capacity b"
  using assms
proof (induction n arbitrary: got b s rule: less_induct)
  case (less n)
  show ?case
  proof (cases "n = 0")
    case True
    then show ?thesis using less.prems by (intro exI [of _ False]) (simp add: read_from.simps)
  next
    case n: False
    \<comment> \<open>bytes are left in the buffer\<close>
    have copy: "\<exists>early b'. read_from rd n got s b = Some (got @ take n (remaining rest b), early, b') \<and>
        buffer_inv rest b' \<and> remaining rest b' = drop n (remaining rest b) \<and>
        (early \<longrightarrow> length (remaining rest b) < n \<and> \<not> pf_good b') \<and>
        pf_file_pos b' = pf_file_pos b \<and> pf_capacity b' = pf_capacity b"
      if inv: "buffer_inv rest b" "pf_stream b = Some s" and left: "pf_offset b < pf_size b" for b s got
    proof -
      let ?k = "min n (pf_size b - pf_offset b)"
      let ?b = "b\<lparr>pf_offset := pf_offset b + ?k\<rparr>"
      have k: "0 < ?k" "?k \<le> n" "?k \<le> pf_size b - pf_offset b" "pf_size b \<le> length (pf_buf b)"
        using n left inv(1) by (auto simp: buffer_inv_def)
      have inv': "buffer_inv rest ?b" "pf_stream ?b = Some s" using inv k(3) left by (auto simp: buffer_inv_def)
      have rem: "take ?k (drop (pf_offset b) (pf_buf b)) = take ?k (remaining rest b)"
        "remaining rest ?b = drop ?k (remaining rest b)"
        using k(3,4) by (auto simp: remaining_def drop_take min_def add.commute)
      have "read_from rd n got s b = read_from rd (n - ?k) (got @ take ?k (remaining rest b)) s ?b"
        using n left rem(1) by (simp add: read_from.simps [of rd n got s b] Let_def)
      moreover have "take ?k (remaining rest b) @ take (n - ?k) (drop ?k (remaining rest b)) = take n (remaining rest b)"
        using k(2) by (metis le_add_diff_inverse take_add)
      moreover have "drop (n - ?k) (drop ?k (remaining rest b)) = drop n (remaining rest b)" using k(2) by simp
      moreover have "length (drop ?k (remaining rest b)) < n - ?k \<Longrightarrow> length (remaining rest b) < n" by simp
      ultimately show ?thesis
        using less.IH [OF _ inv', of "n - ?k" "got @ take ?k (remaining rest b)"] n k(1,2) rem(2)
        by (auto simp del: min_less_iff_conj)
    qed
    show ?thesis
    proof (cases "pf_offset b \<ge> pf_size b")
      case False
      then show ?thesis using copy [OF less.prems] by simp
    next
      case empty: True
      obtain data where data: "pf_ahead b = Some data" using less.prems(1) by (auto simp: buffer_inv_def)
      have inv: "pf_running b" "pf_capacity b > 0" "pf_offset b \<le> pf_size b" "pf_size b \<le> length (pf_buf b)"
        "length data \<le> pf_capacity b" "length data < pf_capacity b \<Longrightarrow> rest s = []"
        using less.prems data by (auto simp: buffer_inv_def)
      have rem: "remaining rest b = data @ rest s" using empty less.prems(2) data by (simp add: remaining_def)
      let ?b = "b\<lparr>pf_buf := data, pf_size := length data, pf_offset := 0\<rparr>"
      let ?stop = "length data \<noteq> pf_capacity b"
      consider "data = []" | "data \<noteq> []" "n > pf_capacity b" | "data \<noteq> []" "\<not> n > pf_capacity b" by blast
      then show ?thesis
      proof cases
        case 1
        then have eof: "rest s = []" using inv by simp
        let ?e = "(push_prefetch rd True s b)\<lparr>pf_good := False\<rparr>"
        have "buffer_inv rest ?e" "remaining rest ?e = []"
          using push_prefetch_inv [OF inv(1-4), of True s] eof empty
          by (simp_all add: buffer_inv_def remaining_def)
        moreover have "read_from rd n got s b = Some (got, True, ?e)"
          using n empty inv(1) data 1 by (simp add: read_from.simps [of rd n got s b])
        moreover have "pf_file_pos ?e = pf_file_pos b" "pf_capacity ?e = pf_capacity b"
          by (simp_all add: push_prefetch_def split_def Let_def)
        ultimately show ?thesis using rem 1 eof n by (intro exI [of _ True] exI [of _ ?e]) simp
      next
        case 2
        let ?s = "snd (rd (n - length data) s)"
        let ?e = "push_prefetch rd ?stop ?s (?b\<lparr>pf_offset := length data\<rparr>)"
        have "?stop \<Longrightarrow> rest ?s = []" using inv(5,6) by (simp add: rd_take)
        then have "buffer_inv rest ?e" "remaining rest ?e = rest ?s"
          using push_prefetch_inv [of "?b\<lparr>pf_offset := length data\<rparr>" ?stop ?s] inv by simp_all
        moreover have "read_from rd n got s b = Some (got @ data @ take (n - length data) (rest s), False, ?e)"
          using n empty inv(1) data 2 by (simp add: read_from.simps [of rd n got s b] Let_def split_def rd_take)
        moreover have "pf_file_pos ?e = pf_file_pos b" "pf_capacity ?e = pf_capacity b"
          by (simp_all add: push_prefetch_def split_def Let_def)
        moreover have "length data < n" using 2 inv(5) by simp
        ultimately show ?thesis using rem by (intro exI [of _ False] exI [of _ ?e]) (simp add: rd_take)
      next
        case 3
        let ?e = "push_prefetch rd ?stop s ?b"
        have "?stop \<Longrightarrow> rest s = []" using inv(5,6) by simp
        then have e: "buffer_inv rest ?e" "remaining rest ?e = data @ rest s"
          using push_prefetch_inv [of ?b ?stop s] inv by simp_all
        have frame: "pf_file_pos ?e = pf_file_pos b" "pf_capacity ?e = pf_capacity b" "pf_offset ?e < pf_size ?e"
          "pf_stream ?e = Some (the (pf_stream ?e))"
          using 3 by (simp_all add: push_prefetch_def split_def Let_def)
        have "read_from rd n got s b = read_from rd n got (the (pf_stream ?e)) ?e"
          using n empty inv(1) data 3 by (simp add: read_from.simps [of rd n got s b] Let_def)
        then show ?thesis using copy [OF e(1) frame(4,3), of got] e(2) rem frame(1,2) by simp
      qed
    qed
  qed
qed

lemma Prefetch_Read_spec:
  assumes "buffer_inv rest b"
  shows "\<exists>b'. Prefetch_Read rd n b = Some (take n (remaining rest b), b') \<and> buffer_inv rest b' \<and>
    remaining rest b' = drop n (remaining rest b)"
proof -
  obtain s where s: "pf_stream b = Some s" using assms by (auto simp: buffer_inv_def)
  from read_from_spec [OF assms s, of n "[]"] obtain early b' where
    r: "read_from rd n [] s b = Some (take n (remaining rest b), early, b')" "buffer_inv rest b'"
      "remaining rest b' = drop n (remaining rest b)" by auto
  have "buffer_inv rest (b'\<lparr>pf_file_pos := p\<rparr>)" "remaining rest (b'\<lparr>pf_file_pos := p\<rparr>) = remaining rest b'" for p
    using r(2) by (simp_all add: buffer_inv_def remaining_def)
  with r s show ?thesis by (simp add: Prefetch_Read_def)
qed

lemma Prefetch_Open_spec:
  assumes "good s"
  shows "buffer_inv rest (Prefetch_Open rd good s n b)" "remaining rest (Prefetch_Open rd good s n b) = rest s"
proof -
  let ?b = "(Prefetch_Close b)\<lparr>pf_stream := Some s, pf_capacity := max (n div 2) (64 * 1024), pf_offset := 0,
    pf_size := 0, pf_file_pos := 0, pf_running := True\<rparr>"
  have o: "Prefetch_Open rd good s n b = (push_prefetch rd False s ?b)\<lparr>pf_good := True\<rparr>"
    using assms by (simp add: Prefetch_Open_def Let_def)
  have "buffer_inv rest (push_prefetch rd False s ?b)" "remaining rest (push_prefetch rd False s ?b) = rest s"
    using push_prefetch_inv [of ?b False s] by simp_all
  then show "buffer_inv rest (Prefetch_Open rd good s n b)" "remaining rest (Prefetch_Open rd good s n b) = rest s"
    unfolding o by (simp_all add: buffer_inv_def remaining_def)
qed

end

interpretation full: full_source MemRead MemGood mem_rest
  by unfold_locales (auto simp: MemRead_def mem_rest_def Let_def min_def)

section \<open>The output buffer writes what it was given\<close>

datatype output_event = O_write string | O_flush | O_writer

fun output_op :: "bool \<Rightarrow> output_event \<Rightarrow> output_buffer \<Rightarrow> output_buffer" where
  "output_op pool (O_write d) b = (if pool then PoolOutput_Write d b else Output_Write d b)"
| "output_op pool O_flush b = (if pool then PoolOutput_Flush b else Output_Flush b)"
| "output_op pool O_writer b = writer_runs b"

lemma pool_ops:
  "PoolOutput_PushToWrite b = PushToWrite b" "PoolOutput_Write d b = Output_Write d b"
  "PoolOutput_Flush b = Output_Flush b" "PoolOutput_Close b = Output_Close b"
proof -
  show p: "PoolOutput_PushToWrite b = PushToWrite b" for b
    by (simp add: PoolOutput_PushToWrite_def PushToWrite_def WaitTillWriteDone_def Let_def writer_runs_def
        split: option.splits)
  show "PoolOutput_Write d b = Output_Write d b"
    unfolding PoolOutput_Write_def Output_Write_def WaitTillWriteDone_def p ..
  show f: "PoolOutput_Flush b = Output_Flush b" for b
    by (simp add: PoolOutput_Flush_def Output_Flush_def WaitTillWriteDone_def p)
  show "PoolOutput_Close b = Output_Close b"
    by (simp add: PoolOutput_Close_def Output_Close_def f)
qed

definition given :: "output_buffer \<Rightarrow> string" where
  "given b = ob_file b @ (case ob_pending b of None \<Rightarrow> [] | Some d \<Rightarrow> d) @ ob_buf b"

fun op_data :: "output_event \<Rightarrow> string" where
  "op_data (O_write d) = d"
| "op_data _ = []"

lemma writer_runs_simps [simp]: "given (writer_runs b) = given b" "ob_pending (writer_runs b) = None"
    "ob_buf (writer_runs b) = ob_buf b" "ob_capacity (writer_runs b) = ob_capacity b"
    "ob_open (writer_runs b) = ob_open b"
  by (auto simp: writer_runs_def given_def split: option.splits)

lemma PushToWrite_simps [simp]: "given (PushToWrite b) = given b" "ob_buf (PushToWrite b) = []"
    "ob_capacity (PushToWrite b) = ob_capacity b" "ob_open (PushToWrite b) = ob_open b"
proof -
  have f: "ob_file (writer_runs b) @ ob_buf b = given b"
    using writer_runs_simps(1) [of b] by (simp only: given_def writer_runs_simps) simp
  then show "given (PushToWrite b) = given b"
    by (simp add: PushToWrite_def Let_def) (simp add: given_def)
qed (simp_all add: PushToWrite_def Let_def)

lemma given_op: "given (output_op pool p b) = given b @ op_data p"
proof (cases p)
  case (O_write d)
  have direct: "given ((writer_runs c)\<lparr>ob_file := ob_file (writer_runs c) @ d\<rparr>) = given c @ d" if "ob_buf c = []" for c
    using that writer_runs_simps(1) [of c] by (simp add: given_def)
  have "given (c\<lparr>ob_buf := ob_buf c @ d\<rparr>) = given c @ d" for c by (simp add: given_def)
  then show ?thesis using O_write direct
    by (auto simp: pool_ops Output_Write_def Let_def)
qed (simp_all add: pool_ops Output_Flush_def)

lemma given_ops: "given (fold (output_op pool) ps b) = given b @ concat (map op_data ps)"
  by (induction ps arbitrary: b) (simp_all add: given_op)

section \<open>Properties\<close>

fun reads :: "(nat \<Rightarrow> 's \<Rightarrow> string \<times> 's) \<Rightarrow> nat list \<Rightarrow> 's prefetch_buffer \<Rightarrow> string list option" where
  "reads rd [] b = Some []"
| "reads rd (n # ns) b =
     Option.bind (Prefetch_Read rd n b) (\<lambda>(data, b). map_option (\<lambda>ds. data # ds) (reads rd ns b))"

fun slices :: "nat list \<Rightarrow> string \<Rightarrow> string list" where
  "slices [] str = []"
| "slices (n # ns) str = take n str # slices ns (drop n str)"

lemma reads_slices:
  "buffer_inv mem_rest b \<Longrightarrow> reads MemRead ns b = Some (slices ns (remaining mem_rest b))"
proof (induction ns arbitrary: b)
  case (Cons n ns)
  from full.Prefetch_Read_spec [OF Cons.prems, of n] obtain b' where
    "Prefetch_Read MemRead n b = Some (take n (remaining mem_rest b), b')" "buffer_inv mem_rest b'"
    "remaining mem_rest b' = drop n (remaining mem_rest b)" by blast
  with Cons.IH [of b'] show ?case by simp
qed simp

text \<open>
  C14. Prefetching is transparent: reading any sequence of sizes, smaller or larger than the buffer,
  through a prefetching buffer of any size opened on a stream that is good returns exactly the
  successive slices of the stream, and never waits for a prefetch that was not asked for.
\<close>

theorem prefetch_transparent:
  assumes "MemGood s"
  shows "reads MemRead ns (Prefetch_Open MemRead MemGood s buf_size b) = Some (slices ns (mem_rest s))"
  using reads_slices [OF full.Prefetch_Open_spec(1) [OF assms]] full.Prefetch_Open_spec(2) [OF assms]
  by simp

lemma prefetch_transparent_witness:
  "reads MemRead [2, 5] (Prefetch_Open MemRead MemGood (InputMemoryStream ''abcd'') 10 prefetch_null) = Some [''ab'', ''cd'']"
  using prefetch_transparent [of "InputMemoryStream ''abcd''" "[2, 5]" 10 prefetch_null]
  by (simp add: MemGood_def InputMemoryStream_def mem_rest_def)

text \<open>
  The read that meets the end of the stream returns without counting its bytes: the offset then
  stays behind what was read, here at 0 after all three bytes; and reading from a buffer that was
  opened on a stream that is not good uses the queue that was never made.
\<close>

lemma prefetch_offset_at_end:
  "map_option (\<lambda>(data, b). (data, Prefetch_Offset b))
     (Prefetch_Read MemRead 10 (Prefetch_Open MemRead MemGood (InputMemoryStream ''abc'') 0 prefetch_null)) =
     Some (''abc'', 0) \<and>
   Prefetch_Read MemRead 10 (Prefetch_Open MemRead MemGood (InputMemoryStream []) 0 prefetch_null) = None"
proof -
  have open3: "Prefetch_Open MemRead MemGood (InputMemoryStream ''abc'') 0 prefetch_null =
    \<lparr>pf_stream = Some \<lparr>ms_data = ''abc'', ms_offset = 3\<rparr>, pf_running = True, pf_buf = [], pf_capacity = 65536,
      pf_offset = 0, pf_size = 0, pf_file_pos = 0, pf_good = True, pf_ahead = Some ''abc''\<rparr>"
    by (simp add: Prefetch_Open_def Prefetch_Close_def prefetch_null_def MemGood_def InputMemoryStream_def
        push_prefetch_def PrefetchBlock_def MemRead_def)
  have open0: "Prefetch_Open MemRead MemGood (InputMemoryStream []) 0 prefetch_null =
    \<lparr>pf_stream = Some \<lparr>ms_data = [], ms_offset = 0\<rparr>, pf_running = False, pf_buf = [], pf_capacity = 0,
      pf_offset = 0, pf_size = 0, pf_file_pos = 0, pf_good = False, pf_ahead = None\<rparr>"
    by (simp add: Prefetch_Open_def Prefetch_Close_def prefetch_null_def MemGood_def InputMemoryStream_def)
  show ?thesis
    unfolding open3 open0
    by (simp add: Prefetch_Read_def Prefetch_Offset_def read_from.simps push_prefetch_def PrefetchBlock_def
        MemRead_def Let_def)
qed

text \<open>
  C15. The buffered output loses and reorders nothing: whatever is written in whatever pieces, small or
  larger than the buffer, and whenever the writing thread gets to run, after \<^verbatim>\<open>Flush\<close> (or
  \<^verbatim>\<open>Close\<close>) the stream has received exactly the concatenation of what was written.
\<close>

theorem output_in_order:
  assumes "Some b = (if pool then PoolOutput_Open buf_size True output_closed
      else Some (Output_Open buf_size output_closed))"
  shows "ob_file (output_op pool O_flush (fold (output_op pool) ps b)) = concat (map op_data ps) \<and>
    ob_file ((if pool then PoolOutput_Close else Output_Close) (fold (output_op pool) ps b)) = concat (map op_data ps)"
proof -
  have b: "given b = []" "ob_open b"
    using assms by (auto simp: Output_Open_def PoolOutput_Open_def pool_ops Output_Close_def output_closed_def
        given_def split: if_splits)
  have "given (Output_Flush c) = given c" for c by (simp add: Output_Flush_def)
  moreover have "given (Output_Flush c) = ob_file (Output_Flush c)" for c
    unfolding given_def [of "Output_Flush c"] by (simp add: Output_Flush_def)
  ultimately have flush: "ob_file (Output_Flush c) = given c" for c by metis
  have "ob_open (output_op pool p c) = ob_open c" for p c
    by (cases p) (auto simp: pool_ops Output_Write_def Output_Flush_def Let_def)
  then have "ob_open (fold (output_op pool) ps c) = ob_open c" for c
    by (induction ps arbitrary: c) simp_all
  then show ?thesis using b flush given_ops [of pool ps b]
    by (cases pool) (simp_all add: pool_ops Output_Close_def)
qed

lemma output_in_order_witness:
  "ob_file (Output_Flush (fold (output_op False) [O_write ''ab'', O_writer, O_write ''c'']
     (Output_Open 0 output_closed))) = ''abc''"
  using output_in_order [of "Output_Open 0 output_closed" False 0 "[O_write ''ab'', O_writer, O_write ''c'']"]
  by simp

end
