(* ===== verification/Multi_Disk.thy ===== *)
theory Multi_Disk
  imports Stream_Base
begin

text \<open>
  \<^verbatim>\<open>multi_disk_stream.h\<close>: a file that is cut into chunks which are dealt out in turn to several part
  files. The writer appends to the parts; the reader follows the same order and can seek. A part
  file is its contents for the writer and, for the reader, a stream that reads like
  \<^verbatim>\<open>InputMemoryStream\<close>; the meta file, a list of paths, is the list of the parts.
\<close>

section \<open>Writing\<close>

definition CHUNK_SIZE :: nat where
  "CHUNK_SIZE = 1024 * 256"

record multi_out =
  mo_files :: "string list"
  mo_size :: nat

text \<open>What \<^verbatim>\<open>Size\<close> says of a part file that was just opened to append: a stream without buffer asks the
  file, \<^verbatim>\<open>OutputBufferedFileStream\<close> starts to count at 0.\<close>

definition opened_size :: "nat \<Rightarrow> string \<Rightarrow> nat" where
  "opened_size buf_size part = (if buf_size = 0 then length part else 0)"

definition open_part :: "bool \<Rightarrow> string \<Rightarrow> string" where
  "open_part app part = (if app then part else [])"

text \<open>\<^verbatim>\<open>Open\<close> of an existing file, given the contents of its parts: the meta file must not be empty. \<open>app\<close>
  is the mode; the other one truncates.\<close>

definition MultiOut_Open :: "bool \<Rightarrow> nat \<Rightarrow> string list \<Rightarrow> multi_out option" where
  "MultiOut_Open app buffer_size parts =
     (if parts = [] then None
      else Some \<lparr>mo_files = map (open_part app) parts,
                 mo_size = (if app then sum_list (map (opened_size (buffer_size div length parts)) parts)
                            else 0)\<rparr>)"

text \<open>\<^verbatim>\<open>Open\<close> of a new file; \<open>parts\<close> are the contents of the part files after those of an old file of this
  name are removed.\<close>

definition MultiOut_Open_new :: "bool \<Rightarrow> string list \<Rightarrow> multi_out" where
  "MultiOut_Open_new app parts = \<lparr>mo_files = map (open_part app) parts, mo_size = 0\<rparr>"

text \<open>The loop of \<^verbatim>\<open>Write\<close>; \<open>buf\<close> is what is left to write. Without files the remainder divides by
  zero.\<close>

function write_chunks :: "string \<Rightarrow> multi_out \<Rightarrow> multi_out option" where
  "write_chunks buf st =
     (if buf = [] then Some st
      else if mo_files st = [] then None
      else let part = (mo_size st div CHUNK_SIZE) mod length (mo_files st);
               part_off = mo_size st mod CHUNK_SIZE;
               s = min (length buf) (CHUNK_SIZE - part_off)
           in write_chunks (drop s buf)
                (st\<lparr>mo_files := (mo_files st)[part := mo_files st ! part @ take s buf],
                    mo_size := mo_size st + s\<rparr>))"
  by pat_completeness auto
termination
  by (relation "measure (\<lambda>(buf, st). length buf)") (auto simp: CHUNK_SIZE_def)

declare write_chunks.simps [simp del]

definition MultiOut_Write :: "string \<Rightarrow> multi_out \<Rightarrow> multi_out option" where
  "MultiOut_Write buf st = write_chunks buf st"

definition MultiOut_Close :: "multi_out \<Rightarrow> multi_out" where
  "MultiOut_Close st = \<lparr>mo_files = [], mo_size = 0\<rparr>"

text \<open>\<^verbatim>\<open>Size\<close> throws when the file is not open.\<close>

definition MultiOut_Size :: "multi_out \<Rightarrow> nat option" where
  "MultiOut_Size st = (if mo_files st = [] then None else Some (mo_size st))"

section \<open>Reading\<close>

record multi_in =
  mi_files :: "memory_stream list"
  mi_off :: nat
  mi_size :: nat

definition multi_closed :: multi_in where
  "multi_closed = \<lparr>mi_files = [], mi_off = 0, mi_size = 0\<rparr>"

text \<open>An empty meta file is an error. What is open already stays open.\<close>

definition MultiIn_Open :: "string list \<Rightarrow> multi_in \<Rightarrow> multi_in option" where
  "MultiIn_Open parts st =
     (if parts = [] then None
      else Some \<lparr>mi_files = mi_files st @ map InputMemoryStream parts, mi_off = 0,
                 mi_size = mi_size st + sum_list (map length parts)\<rparr>)"

definition MultiIn_Close :: "multi_in \<Rightarrow> multi_in" where
  "MultiIn_Close st = multi_closed"

text \<open>The loop of \<^verbatim>\<open>Read\<close>, which may not end.\<close>

partial_function (option) read_chunks :: "nat \<Rightarrow> string \<Rightarrow> multi_in \<Rightarrow> (string \<times> multi_in) option" where
  "read_chunks left got st =
     (if left = 0 then Some (got, st)
      else if mi_files st = [] then None
      else let part = (mi_off st div CHUNK_SIZE) mod length (mi_files st);
               to_read = min left (CHUNK_SIZE - mi_off st mod CHUNK_SIZE);
               r = MemRead to_read (mi_files st ! part);
               n = length (fst r);
               st' = st\<lparr>mi_files := (mi_files st)[part := snd r], mi_off := mi_off st + n\<rparr>
           in if n < to_read \<and> mi_off st' < mi_size st' then Some (got @ fst r, st')
              else read_chunks (left - n) (got @ fst r) st')"

definition MultiIn_Read :: "nat \<Rightarrow> multi_in \<Rightarrow> (string \<times> multi_in) option" where
  "MultiIn_Read n st = read_chunks n [] st"

definition MultiIn_Good :: "multi_in \<Rightarrow> bool" where
  "MultiIn_Good st \<longleftrightarrow> mi_files st \<noteq> [] \<and> mi_off st < mi_size st"

text \<open>\<^verbatim>\<open>Seek\<close> throws when the file is not open; the part files of the model can always seek.\<close>

definition seek_part :: "nat \<Rightarrow> nat \<Rightarrow> nat \<Rightarrow> nat" where
  "seek_part n_parts offset i =
     (let n_blocks = offset div CHUNK_SIZE; segmented_part = n_blocks mod n_parts;
          blocks_per_part = n_blocks div n_parts; seek_off = blocks_per_part * CHUNK_SIZE
      in if i < segmented_part then seek_off + CHUNK_SIZE
         else if i = segmented_part then seek_off + offset mod CHUNK_SIZE else seek_off)"

definition MultiIn_Seek :: "nat \<Rightarrow> multi_in \<Rightarrow> (bool \<times> multi_in) option" where
  "MultiIn_Seek offset st =
     (if mi_files st = [] then None
      else if offset \<le> mi_size st
      then Some (True, st\<lparr>mi_off := offset,
             mi_files := map (\<lambda>i. (mi_files st ! i)\<lparr>ms_offset := seek_part (length (mi_files st)) offset i\<rparr>)
                           [0..<length (mi_files st)]\<rparr>)
      else Some (False, st))"

section \<open>The striping\<close>

text \<open>The bytes of the file that belong to part \<open>p\<close> of \<open>P\<close>, in their order; \<open>k\<close> is the offset of the
  first byte.\<close>

definition owns :: "nat \<Rightarrow> nat \<Rightarrow> nat \<Rightarrow> bool" where
  "owns P p k \<longleftrightarrow> (k div CHUNK_SIZE) mod P = p"

fun stripe :: "nat \<Rightarrow> nat \<Rightarrow> nat \<Rightarrow> string \<Rightarrow> string" where
  "stripe P p k [] = []"
| "stripe P p k (c # cs) = (if owns P p k then c # stripe P p (k + 1) cs else stripe P p (k + 1) cs)"

lemma stripe_append: "stripe P p k (xs @ ys) = stripe P p k xs @ stripe P p (k + length xs) ys"
  by (induction xs arbitrary: k) simp_all

lemma chunk_pos: "0 < CHUNK_SIZE"
  by (simp add: CHUNK_SIZE_def)

lemma chunk_room: "0 < CHUNK_SIZE - k mod CHUNK_SIZE" "k mod CHUNK_SIZE < CHUNK_SIZE"
  using chunk_pos by simp_all

lemma same_chunk: "k mod C + j < C \<Longrightarrow> (k + j) div C = k div (C::nat)"
proof -
  assume "k mod C + j < C"
  moreover have "k + j = k div C * C + (k mod C + j)" by (metis add.assoc div_mult_mod_eq)
  ultimately show ?thesis by (metis div_less div_mult_self3 add.left_neutral add.commute add_lessD1 not_less_zero div_mult_self1)
qed

lemma stripe_chunk:
  assumes "k mod CHUNK_SIZE + length xs \<le> CHUNK_SIZE"
  shows "stripe P p k xs = (if owns P p k then xs else [])"
proof -
  have "stripe P p (k + i) xs = (if owns P p k then xs else [])"
    if "k mod CHUNK_SIZE + i + length xs \<le> CHUNK_SIZE" for i
    using that
  proof (induction xs arbitrary: i)
    case (Cons x xs)
    then have "owns P p (k + i) \<longleftrightarrow> owns P p k"
      unfolding owns_def by (subst same_chunk) auto
    with Cons.IH [of "i + 1"] Cons.prems show ?case by simp
  qed simp
  from this [of 0] assms show ?thesis by simp
qed

definition stripes :: "nat \<Rightarrow> string \<Rightarrow> string list" where
  "stripes P data = map (\<lambda>p. stripe P p 0 data) [0..<P]"

lemma stripes_append:
  assumes "length data mod CHUNK_SIZE + length xs \<le> CHUNK_SIZE" "0 < P"
  defines "part \<equiv> (length data div CHUNK_SIZE) mod P"
  shows "stripes P (data @ xs) = (stripes P data)[part := stripes P data ! part @ xs]"
proof (rule nth_equalityI)
  fix i assume "i < length (stripes P (data @ xs))"
  moreover have "part < P" using assms(2) by (simp add: part_def)
  ultimately show "stripes P (data @ xs) ! i = (stripes P data)[part := stripes P data ! part @ xs] ! i"
    using stripe_chunk [OF assms(1), of P i]
    by (auto simp: stripes_def stripe_append nth_list_update owns_def part_def)
qed (simp add: stripes_def)

lemma length_stripes [simp]: "length (stripes P data) = P"
  by (simp add: stripes_def)

lemma stripes_nth [simp]: "p < P \<Longrightarrow> stripes P data ! p = stripe P p 0 data"
  by (simp add: stripes_def)

lemma write_chunks_spec:
  "0 < P \<Longrightarrow> write_chunks buf \<lparr>mo_files = stripes P data, mo_size = length data\<rparr> =
    Some \<lparr>mo_files = stripes P (data @ buf), mo_size = length (data @ buf)\<rparr>"
proof (induction buf arbitrary: data rule: length_induct)
  case (1 buf)
  show ?case
  proof (cases "buf = []")
    case True
    then show ?thesis by (simp add: write_chunks.simps)
  next
    case False
    let ?s = "min (length buf) (CHUNK_SIZE - length data mod CHUNK_SIZE)"
    let ?part = "(length data div CHUNK_SIZE) mod P"
    have s: "0 < ?s" "?s \<le> length buf" "length data mod CHUNK_SIZE + ?s \<le> CHUNK_SIZE"
      using False chunk_room [of "length data"] by (auto simp: min_def)
    have ne: "stripes P data \<noteq> []" using 1(2) by (metis length_stripes less_numeral_extra(3) list.size(3))
    have "stripes P (data @ take ?s buf) = (stripes P data)[?part := stripes P data ! ?part @ take ?s buf]"
      using s by (intro stripes_append) (auto simp: 1(2))
    then have "write_chunks buf \<lparr>mo_files = stripes P data, mo_size = length data\<rparr> =
      write_chunks (drop ?s buf) \<lparr>mo_files = stripes P (data @ take ?s buf), mo_size = length (data @ take ?s buf)\<rparr>"
      using False ne s(2) by (simp add: write_chunks.simps [of buf] Let_def min_absorb2)
    moreover have "length (drop ?s buf) < length buf" using s(1,2) by simp
    ultimately show ?thesis using 1(1) 1(2) by (metis append.assoc append_take_drop_id)
  qed
qed

section \<open>Reading follows the stripes\<close>

text \<open>The reader stands at an offset when every part stands behind its share of the bytes before it.\<close>

definition at_offset :: "nat \<Rightarrow> string \<Rightarrow> nat \<Rightarrow> multi_in" where
  "at_offset P data off = \<lparr>mi_files = map (\<lambda>p. \<lparr>ms_data = stripe P p 0 data,
     ms_offset = length (stripe P p 0 (take off data))\<rparr>) [0..<P], mi_off = off, mi_size = length data\<rparr>"

lemma part_rest:
  assumes "off \<le> length data"
  shows "drop (length (stripe P p 0 (take off data))) (stripe P p 0 data) = stripe P p off (drop off data)"
proof -
  have "stripe P p 0 data = stripe P p 0 (take off data) @ stripe P p off (drop off data)"
    using stripe_append [of P p 0 "take off data" "drop off data"] assms by simp
  then show ?thesis by (metis append_eq_conv_conj)
qed

lemma read_part:
  fixes left :: nat
  assumes "0 < P" "off \<le> length data"
  defines "part \<equiv> (off div CHUNK_SIZE) mod P"
    and "n \<equiv> min left (CHUNK_SIZE - off mod CHUNK_SIZE)"
  shows "take n (stripe P part off (drop off data)) = take n (drop off data)"
proof -
  let ?x = "take n (drop off data)"
  have own: "owns P part off" by (simp add: owns_def part_def)
  have "off mod CHUNK_SIZE + length ?x \<le> CHUNK_SIZE"
    using chunk_room [of off] by (auto simp: n_def min_def)
  then have x: "stripe P part off ?x = ?x" using own by (simp add: stripe_chunk)
  have "stripe P part off (drop off data) = ?x @ stripe P part (off + length ?x) (drop n (drop off data))"
    using stripe_append [of P part off ?x "drop n (drop off data)"] x by (metis append_take_drop_id)
  moreover have "length ?x = n \<or> drop n (drop off data) = []" by auto
  ultimately show ?thesis by auto
qed

lemma at_offset_simps [simp]: "length (mi_files (at_offset P data off)) = P"
    "mi_off (at_offset P data off) = off" "mi_size (at_offset P data off) = length data"
    "mi_files (at_offset P data off) = [] \<longleftrightarrow> P = 0"
  by (simp_all add: at_offset_def)

definition next_bytes :: "nat \<Rightarrow> string \<Rightarrow> nat \<Rightarrow> string" where
  "next_bytes left data off = take (min left (CHUNK_SIZE - off mod CHUNK_SIZE)) (drop off data)"

lemma part_read:
  fixes left :: nat
  assumes "0 < P" "off \<le> length data"
  defines "st \<equiv> at_offset P data off"
  defines "part \<equiv> (off div CHUNK_SIZE) mod P" and "x \<equiv> next_bytes left data off"
  defines "r \<equiv> MemRead (min left (CHUNK_SIZE - off mod CHUNK_SIZE)) (mi_files st ! part)"
  shows "fst r = x" "st\<lparr>mi_files := (mi_files st)[part := snd r], mi_off := off + length x\<rparr> = at_offset P data (off + length x)"
proof -
  have part: "part < P" using assms(1) by (simp add: part_def)
  then have f: "mi_files st ! part = \<lparr>ms_data = stripe P part 0 data, ms_offset = length (stripe P part 0 (take off data))\<rparr>"
    by (simp add: at_offset_def st_def)
  show x: "fst r = x"
    using part_rest [OF assms(2), of P part] read_part [OF assms(1,2), of left, folded part_def]
    by (simp add: f r_def MemRead_take x_def next_bytes_def)
  then have s: "snd r = (mi_files st ! part)\<lparr>ms_offset := ms_offset (mi_files st ! part) + length x\<rparr>"
    by (auto simp: r_def MemRead_take)
  have chunk: "off mod CHUNK_SIZE + length x \<le> CHUNK_SIZE"
    using chunk_room [of off] by (auto simp: x_def next_bytes_def min_def)
  have more: "take (off + length x) data = take off data @ x"
    by (auto simp: take_add x_def next_bytes_def min_def)
  have "stripe P p 0 (take (off + length x) data) = stripe P p 0 (take off data) @ (if p = part then x else [])" for p
    using stripe_chunk [OF chunk, of P p] assms(2) by (auto simp: more stripe_append owns_def part_def)
  then have "(mi_files st)[part := snd r] = mi_files (at_offset P data (off + length x))"
    unfolding s f using part by (intro nth_equalityI) (auto simp: at_offset_def st_def nth_list_update)
  then show "st\<lparr>mi_files := (mi_files st)[part := snd r], mi_off := off + length x\<rparr> = at_offset P data (off + length x)"
    by (simp add: at_offset_def st_def)
qed

text \<open>One round of the loop, for any continuation \<open>go\<close>.\<close>

definition read_round where
  "read_round go left got st =
     (if left = 0 then Some (got, st)
      else if mi_files st = [] then None
      else let part = (mi_off st div CHUNK_SIZE) mod length (mi_files st);
               to_read = min left (CHUNK_SIZE - mi_off st mod CHUNK_SIZE);
               r = MemRead to_read (mi_files st ! part);
               n = length (fst r);
               st' = st\<lparr>mi_files := (mi_files st)[part := snd r], mi_off := mi_off st + n\<rparr>
           in if n < to_read \<and> mi_off st' < mi_size st' then Some (got @ fst r, st')
              else go (left - n) (got @ fst r) st')"

lemma read_round_at:
  fixes left :: nat
  assumes "0 < P" "off \<le> length data" "0 < left"
  defines "x \<equiv> next_bytes left data off"
  shows "read_round go left got (at_offset P data off) = go (left - length x) (got @ x) (at_offset P data (off + length x))"
proof -
  have "\<not> (length x < min left (CHUNK_SIZE - off mod CHUNK_SIZE) \<and> off + length x < length data)"
    using assms(2) by (auto simp: x_def next_bytes_def min_def)
  then show ?thesis
    using part_read [OF assms(1,2), of left] assms(1,3) by (auto simp: read_round_def Let_def x_def)
qed

lemma read_chunks_round: "read_chunks left got st = read_round read_chunks left got st"
  by (subst read_chunks.simps) (simp add: read_round_def)

lemma read_chunks_spec:
  "0 < P \<Longrightarrow> off + n \<le> length data \<Longrightarrow>
    read_chunks n got (at_offset P data off) = Some (got @ take n (drop off data), at_offset P data (off + n))"
proof (induction n arbitrary: off got rule: less_induct)
  case (less n)
  show ?case
  proof (cases "n = 0")
    case True
    then show ?thesis by (simp add: read_chunks.simps)
  next
    case False
    let ?x = "next_bytes n data off"
    have len: "0 < length ?x" "length ?x \<le> n" "take (length ?x) (drop off data) = ?x"
      using False less.prems(2) chunk_room [of off] by (auto simp: next_bytes_def min_def)
    then have "?x @ take (n - length ?x) (drop (off + length ?x) data) = take n (drop off data)"
      by (metis add.commute drop_drop le_add_diff_inverse take_add)
    with less.IH [of "n - length ?x" "off + length ?x" "got @ ?x"] len less.prems False show ?thesis
      by (subst read_chunks_round) (simp add: read_round_at)
  qed
qed

lemma read_chunks_within:
  assumes "0 < P" "read_chunks left got st = Some y"
  shows "\<forall>off \<le> length data. st = at_offset P data off \<longrightarrow> left + off \<le> length data"
  using assms(2)
proof (rule read_chunks.raw_induct [where
      P = "\<lambda>left _ st _. \<forall>off \<le> length data. st = at_offset P data off \<longrightarrow> left + off \<le> length data", rotated])
  fix go left got st y
  assume IH: "\<And>left got st y. go left got st = Some y \<Longrightarrow>
      \<forall>off \<le> length data. st = at_offset P data off \<longrightarrow> left + off \<le> length data"
    and body: "(if left = 0 then Some (got, st)
      else if mi_files st = [] then None
      else let part = (mi_off st div CHUNK_SIZE) mod length (mi_files st);
               to_read = min left (CHUNK_SIZE - mi_off st mod CHUNK_SIZE);
               r = MemRead to_read (mi_files st ! part);
               n = length (fst r);
               st' = st\<lparr>mi_files := (mi_files st)[part := snd r], mi_off := mi_off st + n\<rparr>
           in if n < to_read \<and> mi_off st' < mi_size st' then Some (got @ fst r, st')
              else go (left - n) (got @ fst r) st') = Some y"
  have step: "read_round go left got st = Some y" unfolding read_round_def by (rule body)
  show "\<forall>off \<le> length data. st = at_offset P data off \<longrightarrow> left + off \<le> length data"
  proof (intro allI impI)
    fix off assume off: "off \<le> length data" "st = at_offset P data off"
    let ?x = "next_bytes left data off"
    have x: "off + length ?x \<le> length data" "length ?x \<le> left"
      using off(1) by (auto simp: next_bytes_def min_def)
    show "left + off \<le> length data"
    proof (cases "left = 0")
      case False
      then have "go (left - length ?x) (got @ ?x) (at_offset P data (off + length ?x)) = Some y"
        using step off by (simp add: read_round_at assms(1))
      from IH [OF this] x show ?thesis by auto
    qed (use off in simp)
  qed
qed

section \<open>Opening and seeking\<close>

lemma seek_part_Suc:
  "0 < P \<Longrightarrow> i < P \<Longrightarrow> seek_part P (Suc off) i = seek_part P off i + (if owns P i off then 1 else 0)"
  using chunk_room [of off]
  by (auto simp: seek_part_def Let_def owns_def div_Suc mod_Suc)

lemma seek_part_stripe:
  "0 < P \<Longrightarrow> i < P \<Longrightarrow> off \<le> length data \<Longrightarrow> length (stripe P i 0 (take off data)) = seek_part P off i"
proof (induction off)
  case 0
  then show ?case by (simp add: seek_part_def)
next
  case (Suc off)
  then have "take (Suc off) data = take off data @ [data ! off]" by (simp add: take_Suc_conv_app_nth)
  then show ?case using Suc by (simp add: stripe_append seek_part_Suc)
qed

lemma stripes_total: "0 < P \<Longrightarrow> sum_list (map length (stripes P data)) = length data"
proof -
  assume P: "0 < P"
  have "(\<Sum>p = 0..<P. length (stripe P p k data)) = length data" for k
  proof (induction data arbitrary: k)
    case (Cons c cs)
    let ?n = "(k div CHUNK_SIZE) mod P"
    have "(\<Sum>p = 0..<P. length (stripe P p k (c # cs))) =
        (\<Sum>p = 0..<P. (if p = ?n then 1 else 0) + length (stripe P p (Suc k) cs))"
      by (intro sum.cong) (auto simp: owns_def)
    also have "\<dots> = Suc (length cs)"
      using P by (subst sum.distrib) (simp add: Cons.IH)
    finally show ?case by simp
  qed simp
  from this [of 0] show ?thesis
    by (simp add: stripes_def o_def interv_sum_list_conv_sum_set_nat)
qed

lemma at_offset_0: "0 < P \<Longrightarrow> MultiIn_Open (stripes P data) multi_closed = Some (at_offset P data 0)"
  using stripes_total [of P data]
  by (auto simp: MultiIn_Open_def at_offset_def multi_closed_def InputMemoryStream_def stripes_def o_def)

lemma Seek_at_offset:
  assumes "0 < P" "k \<le> length data"
  shows "MultiIn_Seek k (at_offset P data off) = Some (True, at_offset P data k)"
proof -
  have "map (\<lambda>i. (mi_files (at_offset P data off) ! i)\<lparr>ms_offset := seek_part P k i\<rparr>) [0..<P] =
      mi_files (at_offset P data k)"
    using assms by (intro nth_equalityI) (auto simp: at_offset_def seek_part_stripe)
  then show ?thesis using assms by (auto simp: MultiIn_Seek_def at_offset_def)
qed

lemma truncated_stripes: "map (open_part False) parts = stripes (length parts) []"
  by (rule nth_equalityI) (simp_all add: open_part_def stripes_def)

text \<open>Several writes in a row.\<close>

fun write_all :: "string list \<Rightarrow> multi_out \<Rightarrow> multi_out option" where
  "write_all [] st = Some st"
| "write_all (d # ds) st = Option.bind (MultiOut_Write d st) (write_all ds)"

lemma write_all_spec:
  "0 < P \<Longrightarrow> write_all ds \<lparr>mo_files = stripes P data, mo_size = length data\<rparr> =
    Some \<lparr>mo_files = stripes P (data @ concat ds), mo_size = length (data @ concat ds)\<rparr>"
  by (induction ds arbitrary: data) (simp_all add: MultiOut_Write_def write_chunks_spec del: length_append)

text \<open>
  C8. A file that was written in any pieces over any number of part files, whatever the part files held
  before, is read back: after a seek to any offset, a read of any number of bytes that the file still
  has there returns exactly these bytes and leaves the reader behind them.
\<close>

theorem multi_disk_roundtrip:
  assumes "parts \<noteq> []" "k + n \<le> length (concat pieces)"
  shows "\<exists>written opened sought after.
    write_all pieces (MultiOut_Open_new False parts) = Some written \<and>
    MultiOut_Size written = Some (length (concat pieces)) \<and>
    MultiIn_Open (mo_files written) multi_closed = Some opened \<and>
    MultiIn_Seek k opened = Some (True, sought) \<and>
    MultiIn_Read n sought = Some (take n (drop k (concat pieces)), after) \<and>
    mi_off after = k + n"
proof -
  let ?P = "length parts" and ?data = "concat pieces"
  have P: "0 < ?P" using assms(1) by simp
  have w: "write_all pieces (MultiOut_Open_new False parts) =
      Some \<lparr>mo_files = stripes ?P ?data, mo_size = length ?data\<rparr>"
    using write_all_spec [OF P, of pieces "[]"] by (simp add: MultiOut_Open_new_def truncated_stripes)
  have "stripes ?P ?data \<noteq> []" using assms(1) by (metis length_stripes length_0_conv)
  moreover have "MultiIn_Read n (at_offset ?P ?data k) = Some (take n (drop k ?data), at_offset ?P ?data (k + n))"
    using read_chunks_spec [OF P assms(2), of "[]"] by (simp add: MultiIn_Read_def)
  moreover have "MultiIn_Seek k (at_offset ?P ?data 0) = Some (True, at_offset ?P ?data k)"
    using assms(2) by (intro Seek_at_offset [OF P]) simp
  ultimately show ?thesis
    by (intro exI conjI) (rule w, simp add: MultiOut_Size_def, simp add: at_offset_0 [OF P], assumption+, simp)
qed

lemma multi_disk_roundtrip_witness:
  "\<exists>written opened sought after.
    write_all [''ab'', ''cde''] (MultiOut_Open_new False [''old'', '''']) = Some written \<and>
    MultiOut_Size written = Some 5 \<and>
    MultiIn_Open (mo_files written) multi_closed = Some opened \<and>
    MultiIn_Seek 1 opened = Some (True, sought) \<and>
    MultiIn_Read 3 sought = Some (''bcd'', after) \<and> mi_off after = 4"
  using multi_disk_roundtrip [of "[''old'', '''']" 1 3 "[''ab'', ''cde'']"] by (simp add: numeral_eq_Suc)

text \<open>
  A read that asks for more than the file has left never returns: once the parts are exhausted the
  loop waits for bytes that do not come.
\<close>

lemma multi_disk_read_past_end:
  assumes "parts \<noteq> []" "k \<le> length data" "length data < k + n"
  shows "\<exists>written opened sought.
    MultiOut_Write data (MultiOut_Open_new False parts) = Some written \<and>
    MultiIn_Open (mo_files written) multi_closed = Some opened \<and>
    MultiIn_Seek k opened = Some (True, sought) \<and> MultiIn_Read n sought = None"
proof -
  have P: "0 < length parts" using assms(1) by simp
  have "MultiIn_Read n (at_offset (length parts) data k) = None"
    using read_chunks_within [OF P, where data = data and st = "at_offset (length parts) data k" and left = n] assms(2,3)
    by (cases "read_chunks n [] (at_offset (length parts) data k)") (force simp: MultiIn_Read_def)+
  then show ?thesis
    using write_chunks_spec [OF P, of data "[]"] at_offset_0 [OF P, of data] Seek_at_offset [OF P assms(2)]
    by (auto simp: MultiOut_Open_new_def truncated_stripes MultiOut_Write_def)
qed

lemma multi_disk_read_past_end_witness:
  "\<exists>written opened sought.
    MultiOut_Write ''abc'' (MultiOut_Open_new False ['''']) = Some written \<and>
    MultiIn_Open (mo_files written) multi_closed = Some opened \<and>
    MultiIn_Seek 1 opened = Some (True, sought) \<and> MultiIn_Read 4 sought = None"
  using multi_disk_read_past_end [of "['''']" 1 "''abc''" 4] by simp

text \<open>
  Appending to an existing file through buffered part streams starts again at the first part,
  because a buffered stream reports the size 0 when it is opened: with a full chunk in the first of two
  parts the next byte goes behind that chunk instead of into the second part.
\<close>

lemma multi_disk_append_restarts:
  assumes "length chunk = CHUNK_SIZE" "2 \<le> buffer_size"
  shows "\<exists>opened written.
    MultiOut_Open True buffer_size (stripes 2 chunk) = Some opened \<and>
    MultiOut_Write [c] opened = Some written \<and>
    mo_files written = [chunk @ [c], []] \<and> stripes 2 (chunk @ [c]) = [chunk, [c]]"
proof -
  have s: "stripe 2 p 0 chunk = (if p = 0 then chunk else [])" for p
    using stripe_chunk [of 0 chunk 2 p] assms(1) by (auto simp: owns_def)
  have c: "stripe 2 p CHUNK_SIZE [c] = (if p = 1 then [c] else [])" for p
    using chunk_pos by (auto simp: owns_def)
  have st: "stripes 2 chunk = [chunk, []]" by (simp add: stripes_def s upt_conv_Cons)
  moreover have "stripes 2 (chunk @ [c]) = [chunk, [c]]"
    using assms(1) c by (simp add: stripes_def s stripe_append upt_conv_Cons)
  moreover have "buffer_size div Suc (Suc 0) \<noteq> 0" using assms(2) by (simp flip: numeral_2_eq_2)
  then have "MultiOut_Open True buffer_size (stripes 2 chunk) = Some \<lparr>mo_files = [chunk, []], mo_size = 0\<rparr>"
    by (simp add: st MultiOut_Open_def open_part_def opened_size_def)
  moreover have "MultiOut_Write [c] \<lparr>mo_files = [chunk, []], mo_size = 0\<rparr> = Some \<lparr>mo_files = [chunk @ [c], []], mo_size = 1\<rparr>"
    using chunk_pos by (simp add: MultiOut_Write_def write_chunks.simps CHUNK_SIZE_def)
  ultimately show ?thesis by auto
qed

lemma multi_disk_append_restarts_witness:
  "\<exists>opened written.
    MultiOut_Open True 64 (stripes 2 (replicate CHUNK_SIZE CHR ''a'')) = Some opened \<and>
    MultiOut_Write ''b'' opened = Some written \<and>
    mo_files written = [replicate CHUNK_SIZE CHR ''a'' @ ''b'', []] \<and>
    stripes 2 (replicate CHUNK_SIZE CHR ''a'' @ ''b'') = [replicate CHUNK_SIZE CHR ''a'', ''b'']"
  using multi_disk_append_restarts [of "replicate CHUNK_SIZE CHR ''a''" 64 "CHR ''b''"] by simp

end
