(* ===== verification/Text_Dir.thy ===== *)
theory Text_Dir
  imports Stream_Base
begin

text \<open>
  \<^verbatim>\<open>text_dir_stream.h\<close>: the files of a directory as one stream of lines that several readers share. A
  reader gets every \<open>n\<close>-th file as a whole; the files that are left over are cut into blocks which are
  dealt out to the readers, and a reader of a part of a file begins and ends at line breaks. A file is
  named by its place in the listing and given by its contents, a stream that can seek; the
  shortcut for many small HDFS files is left out.
\<close>

section \<open>The plan of a reader\<close>

record file_range =
  fr_path :: nat
  fr_off :: nat
  fr_size :: nat

definition dir_block_size :: "bool \<Rightarrow> nat \<Rightarrow> nat \<Rightarrow> nat" where
  "dir_block_size ndebug buf_size n_parallel =
     (if ndebug then max (64 * 1024) (buf_size div n_parallel) else buf_size div n_parallel)"

text \<open>\<^verbatim>\<open>std::upper_bound\<close> and \<^verbatim>\<open>std::lower_bound\<close> on a sorted list, as indices.\<close>

definition upper_bound :: "nat list \<Rightarrow> nat \<Rightarrow> nat" where
  "upper_bound xs v = length (takeWhile (\<lambda>x. x \<le> v) xs)"

definition lower_bound :: "nat list \<Rightarrow> nat \<Rightarrow> nat" where
  "lower_bound xs v = length (takeWhile (\<lambda>x. x < v) xs)"

text \<open>\<^verbatim>\<open>file_block_start\<close>: the first block of every file, and the number of all blocks.\<close>

fun file_block_start :: "nat \<Rightarrow> nat \<Rightarrow> nat list \<Rightarrow> nat list" where
  "file_block_start bs n [] = [n]"
| "file_block_start bs n (s # ss) = n # file_block_start bs (n + (s + bs - 1) div bs) ss"

text \<open>The part of the \<open>i\<close>-th left-over file for a reader of the blocks from \<open>start_b\<close> to \<open>end_b\<close>.\<close>

definition left_over_part :: "nat \<Rightarrow> nat list \<Rightarrow> nat \<Rightarrow> nat list \<Rightarrow> nat \<Rightarrow> nat \<Rightarrow> nat \<Rightarrow> nat \<Rightarrow> nat \<Rightarrow> file_range option" where
  "left_over_part bs sizes base starts start_b end_b start_f end_f i =
     (let first_block_id = starts ! i;
          fsize = sizes ! (i + base);
          beg = (if i = start_f then (start_b - first_block_id) * bs else 0);
          fin = (if i = end_f - 1 then (end_b - first_block_id) * bs else starts ! (i + 1) * bs);
          s = min fin fsize - min beg fsize
      in if s = 0 then None else Some \<lparr>fr_path = i + base, fr_off = beg, fr_size = s\<rparr>)"

definition start_file :: "nat list \<Rightarrow> nat \<Rightarrow> nat" where
  "start_file starts start_b = upper_bound starts start_b - 1"

definition end_file :: "nat list \<Rightarrow> nat \<Rightarrow> nat" where
  "end_file starts end_b =
     (let it = lower_bound starts end_b in if it = length starts then length starts - 1 else it)"

text \<open>What \<^verbatim>\<open>Open\<close> gives to the read stage, and \<^verbatim>\<open>total_files_\<close>, a \<^verbatim>\<open>size_t\<close>.\<close>

definition dir_plan :: "nat \<Rightarrow> nat \<Rightarrow> nat \<Rightarrow> bool \<Rightarrow> nat list \<Rightarrow> file_range list \<times> nat" where
  "dir_plan n_readers rid bs support_seek sizes =
     (let per = length sizes div n_readers;
          whole = map (\<lambda>i. let fid = i * n_readers + rid in \<lparr>fr_path = fid, fr_off = 0, fr_size = sizes ! fid\<rparr>)
                      [0..<per];
          left_over = length sizes mod n_readers
      in if support_seek then
           let starts = file_block_start bs 0 (map (\<lambda>i. sizes ! (i + per * n_readers)) [0..<left_over]);
               total_blocks = last starts;
               per_reader = (total_blocks + n_readers - 1) div n_readers;
               start_b = per_reader * rid;
               start_f = start_file starts start_b;
               end_b = per_reader * (rid + 1);
               end_f = end_file starts end_b
           in (whole @ List.map_filter
                 (left_over_part bs sizes (n_readers * per) starts start_b end_b start_f end_f) [start_f..<end_f],
               (per + 2 ^ 64 + end_f - start_f) mod 2 ^ 64)
         else if rid < left_over then
           let fid = n_readers * per + rid
           in (whole @ [\<lparr>fr_path = fid, fr_off = 0, fr_size = sizes ! fid\<rparr>], per + 1)
         else (whole, per))"

text \<open>\<^verbatim>\<open>Open\<close>: an empty listing is an error.\<close>

definition Dir_Open :: "nat \<Rightarrow> nat \<Rightarrow> nat \<Rightarrow> bool \<Rightarrow> nat list \<Rightarrow> (file_range list \<times> nat) option" where
  "Dir_Open n_readers rid bs support_seek sizes =
     (let n_readers = (if n_readers \<le> 0 then 1 else n_readers) in
      if sizes = [] then None else Some (dir_plan n_readers rid bs support_seek sizes))"

section \<open>The read stage\<close>

text \<open>The part of a block behind its first line break, and whether there was none.\<close>

definition drop_head :: "string \<Rightarrow> string \<times> bool" where
  "drop_head block =
     (if CHR 0x0A \<in> set block then (tl (dropWhile (\<lambda>c. c \<noteq> CHR 0x0A) block), False) else ([], True))"

text \<open>A block up to its last line break, and the rest.\<close>

definition split_last :: "string \<Rightarrow> string \<times> string" where
  "split_last block =
     (let n = length (dropWhile (\<lambda>c. c \<noteq> CHR 0x0A) (rev block)) in (take n block, drop n block))"

lemma MemRead_less: "(d, s') = MemRead n s \<Longrightarrow> d \<noteq> [] \<Longrightarrow> length (mem_rest s') < length (mem_rest s)"
  by (auto simp: MemRead_def mem_rest_def Let_def split: if_splits)

text \<open>The loop that completes the last line: it reads on to the next line break, which it drops.\<close>

function read_tail :: "string \<Rightarrow> memory_stream \<Rightarrow> string" where
  "read_tail block s =
     (let (d, s) = MemRead 1024 s in
      if d = [] then block
      else if CHR 0x0A \<in> set d then block @ takeWhile (\<lambda>c. c \<noteq> CHR 0x0A) d
      else read_tail (block @ d) s)"
  by pat_completeness auto
termination
  by (relation "measure (\<lambda>(b, s). length (mem_rest s))") (auto dest: MemRead_less)

declare read_tail.simps [simp del]

text \<open>The loop of \<^verbatim>\<open>ReadFileIntoBuffer\<close>: the blocks that are not empty, before their line break is added.\<close>

function read_range :: "nat \<Rightarrow> nat \<Rightarrow> nat \<Rightarrow> string \<Rightarrow> nat \<Rightarrow> bool \<Rightarrow> memory_stream \<Rightarrow> string list" where
  "read_range bs off sz left_over bytes_read partial_head s =
     (let (d, s) = MemRead (min bs (sz - bytes_read)) s;
          r = length d;
          block = left_over @ d;
          bytes_read = bytes_read + r;
          eof_reached = (r = 0 \<or> bytes_read = sz);
          (block, partial_head) =
            (if partial_head then if off \<noteq> 0 then drop_head block else (block, False) else (block, False));
          (block, left_over) =
            (if bytes_read = sz then (if \<not> partial_head \<and> r \<noteq> 0 then read_tail block s else block, [])
             else split_last block);
          out = (if block \<noteq> [] then [block] else [])
      in if eof_reached then out
         else out @ read_range bs off sz left_over bytes_read partial_head s)"
  by pat_completeness auto
termination
  by (relation "measure (\<lambda>(bs, off, sz, left_over, k, ph, s). length (mem_rest s))")
     (simp, clarsimp split del: if_split simp del: length_greater_0_conv, erule MemRead_less, simp)

declare read_range.simps [simp del]

definition end_line :: "string \<Rightarrow> string" where
  "end_line block = (if last block \<noteq> CHR 0x0A then block @ [CHR 0x0A] else block)"

text \<open>\<^verbatim>\<open>ReadFileIntoBuffer\<close>: what it pushes into \<^verbatim>\<open>contents_\<close>, with the empty block at the end, and what it
  adds to \<^verbatim>\<open>total_bytes_read_\<close>.\<close>

definition ReadFileIntoBuffer :: "nat \<Rightarrow> string \<Rightarrow> file_range \<Rightarrow> string list \<times> nat" where
  "ReadFileIntoBuffer bs data fr =
     (let s = InputMemoryStream data;
          s = (if fr_off fr \<noteq> 0 then s\<lparr>ms_offset := fr_off fr\<rparr> else s);
          blocks = read_range bs (fr_off fr) (fr_size fr) [] 0 True s
      in (map end_line blocks @ [[]], sum_list (map length blocks)))"

section \<open>Reading\<close>

text \<open>\<open>ds_queue\<close> is what \<^verbatim>\<open>contents_\<close> still gets; a \<^verbatim>\<open>Pop\<close> beyond it waits for ever.\<close>

record dir_stream =
  ds_queue :: "string list"
  ds_block :: string
  ds_offset :: nat
  ds_files_read :: nat
  ds_total_files :: nat

function dir_read :: "nat \<Rightarrow> string \<Rightarrow> dir_stream \<Rightarrow> (string \<times> dir_stream) option" where
  "dir_read left got st =
     (if left = 0 then Some (got, st)
      else if ds_offset st < length (ds_block st) then
        let n = min (length (ds_block st) - ds_offset st) left
        in dir_read (left - n) (got @ take n (drop (ds_offset st) (ds_block st))) (st\<lparr>ds_offset := ds_offset st + n\<rparr>)
      else if ds_files_read st = ds_total_files st then Some (got, st)
      else case ds_queue st of
        [] \<Rightarrow> None
      | b # bs \<Rightarrow>
          let st = st\<lparr>ds_queue := bs, ds_block := b, ds_offset := 0\<rparr> in
          if b = [] then
            let st = st\<lparr>ds_files_read := ds_files_read st + 1\<rparr> in
            if ds_files_read st = ds_total_files st then Some (got, st) else dir_read left got st
          else dir_read left got st)"
  by pat_completeness auto
termination
  by (relation "(\<lambda>(n, g, st). length (ds_queue st)) <*mlex*> measure (\<lambda>(n, g, st). n)")
     (auto simp: wf_mlex mlex_iff)

declare dir_read.simps [simp del]

definition Dir_Read :: "nat \<Rightarrow> dir_stream \<Rightarrow> (string \<times> dir_stream) option" where
  "Dir_Read n st = dir_read n [] st"

definition Dir_Good :: "dir_stream \<Rightarrow> bool" where
  "Dir_Good st \<longleftrightarrow> ds_total_files st \<noteq> 0"

text \<open>A stream right after \<^verbatim>\<open>Open\<close>, for a queue that will get the blocks \<open>q\<close>.\<close>

definition opened_dir :: "string list \<Rightarrow> nat \<Rightarrow> dir_stream" where
  "opened_dir q n_files = \<lparr>ds_queue = q, ds_block = [], ds_offset = 0, ds_files_read = 0, ds_total_files = n_files\<rparr>"

section \<open>Lines and ranges\<close>

text \<open>The first line that starts at \<open>x\<close> or later, where the line at the offset 0 belongs to \<open>0\<close> and any
  other line to the byte before it.\<close>

definition line_start :: "nat \<Rightarrow> string \<Rightarrow> nat" where
  "line_start x t =
     (if x = 0 then 0 else min (length t) (x + length (takeWhile (\<lambda>c. c \<noteq> CHR 0x0A) (drop x t)) + 1))"

definition with_nl :: "string \<Rightarrow> string" where
  "with_nl t = (if t = [] then [] else end_line t)"

text \<open>A text without its empty lines; \<open>squeeze_from\<close> knows whether it is at the start of a line.\<close>

fun squeeze_from :: "bool \<Rightarrow> string \<Rightarrow> string" where
  "squeeze_from start [] = []"
| "squeeze_from start (c # cs) =
     (if c = CHR 0x0A then (if start then squeeze_from True cs else c # squeeze_from True cs)
      else c # squeeze_from False cs)"

definition squeeze :: "string \<Rightarrow> string" where
  "squeeze t = squeeze_from True t"

definition whole_lines :: "string \<Rightarrow> bool" where
  "whole_lines t \<longleftrightarrow> t = [] \<or> last t = CHR 0x0A"

lemma squeeze_from_append:
  "squeeze_from b (x @ y) = squeeze_from b x @ squeeze_from (if x = [] then b else last x = CHR 0x0A) y"
  by (induction x arbitrary: b) auto

lemma squeeze_append: "whole_lines x \<Longrightarrow> squeeze (x @ y) = squeeze x @ squeeze y"
  by (auto simp: squeeze_def squeeze_from_append whole_lines_def)

lemma squeeze_end_line: "x \<noteq> [] \<Longrightarrow> squeeze (end_line x) = squeeze (x @ [CHR 0x0A])"
  by (auto simp: end_line_def squeeze_def squeeze_from_append)

lemma end_line_whole: "whole_lines (end_line x)"
  by (auto simp: end_line_def whole_lines_def)

lemma with_nl_whole: "whole_lines (with_nl x)"
  by (simp add: with_nl_def end_line_whole) (simp add: whole_lines_def)

lemma end_line_id: "whole_lines x \<Longrightarrow> x \<noteq> [] \<Longrightarrow> end_line x = x"
  by (auto simp: end_line_def whole_lines_def)

lemma with_nl_append: "whole_lines x \<Longrightarrow> with_nl (x @ y) = x @ with_nl y"
  by (auto simp: with_nl_def end_line_def whole_lines_def)

lemma read_tail_spec:
  "read_tail block \<lparr>ms_data = t, ms_offset = p\<rparr> = block @ takeWhile (\<lambda>c. c \<noteq> CHR 0x0A) (drop p t)"
proof (induction "length t - p" arbitrary: block p rule: less_induct)
  case less
  let ?d = "take 1024 (drop p t)" and ?P = "\<lambda>c. c \<noteq> CHR 0x0A"
  have split: "drop p t = ?d @ drop (p + length ?d) t"
    by (metis append_take_drop_id append_eq_conv_conj drop_drop add.commute)
  show ?case
  proof (cases "?d = [] \<or> CHR 0x0A \<in> set ?d")
    case True
    have "takeWhile ?P (drop p t) = takeWhile ?P ?d"
    proof (cases "?d = []")
      case False
      with True show ?thesis by (subst split) (auto simp: takeWhile_append)
    qed simp
    then show ?thesis using True by (subst read_tail.simps) (auto simp: MemRead_take Let_def)
  next
    case False
    then have "takeWhile ?P (drop p t) = ?d @ takeWhile ?P (drop (p + length ?d) t)"
      by (subst split) (auto simp: takeWhile_append)
    moreover have "read_tail (block @ ?d) \<lparr>ms_data = t, ms_offset = p + length ?d\<rparr> =
        (block @ ?d) @ takeWhile ?P (drop (p + length ?d) t)"
      by (rule less) (use False in auto)
    ultimately show ?thesis using False by (subst read_tail.simps) (simp add: MemRead_take Let_def)
  qed
qed

lemma drop_head_cases:
  "CHR 0x0A \<notin> set d \<and> drop_head d = ([], True) \<or>
   (\<exists>x. CHR 0x0A \<notin> set x \<and> d = x @ CHR 0x0A # fst (drop_head d) \<and> \<not> snd (drop_head d))"
proof (cases "CHR 0x0A \<in> set d")
  case True
  from split_list_first [OF this] obtain x y where "d = x @ CHR 0x0A # y" "CHR 0x0A \<notin> set x" by blast
  then show ?thesis by (auto simp: drop_head_def dropWhile_append)
qed (simp add: drop_head_def)

lemma split_last_spec:
  "fst (split_last b) @ snd (split_last b) = b" "whole_lines (fst (split_last b))"
proof -
  let ?P = "\<lambda>c. c \<noteq> CHR 0x0A"
  have "b = rev (dropWhile ?P (rev b)) @ rev (takeWhile ?P (rev b))"
    by (metis rev_append rev_rev_ident takeWhile_dropWhile_id)
  then have t: "fst (split_last b) = rev (dropWhile ?P (rev b))"
    by (simp add: split_last_def Let_def) (metis append_eq_conv_conj length_rev)
  show "fst (split_last b) @ snd (split_last b) = b" by (simp add: split_last_def Let_def)
  show "whole_lines (fst (split_last b))"
    using hd_dropWhile [of ?P "rev b"] by (auto simp: t whole_lines_def last_rev)
qed

lemma line_start_ge: "x \<le> length t \<Longrightarrow> x \<le> line_start x t" "line_start x t \<le> length t"
  by (auto simp: line_start_def)

lemma line_start_after:
  "0 < x \<Longrightarrow> x \<le> length t \<Longrightarrow>
    slice t x (line_start x t) =
      takeWhile (\<lambda>c. c \<noteq> CHR 0x0A) (drop x t) @ (if CHR 0x0A \<in> set (drop x t) then [CHR 0x0A] else [])"
proof -
  assume x: "0 < x" "x \<le> length t"
  let ?u = "takeWhile (\<lambda>c. c \<noteq> CHR 0x0A) (drop x t)"
  have "slice t x (line_start x t) = take (length ?u + 1) (drop x t)"
    using x by (auto simp: slice_def line_start_def min_def)
  also have "\<dots> = ?u @ (if CHR 0x0A \<in> set (drop x t) then [CHR 0x0A] else [])"
  proof (cases "CHR 0x0A \<in> set (drop x t)")
    case True
    then obtain a b where "drop x t = a @ CHR 0x0A # b" "CHR 0x0A \<notin> set a" by (meson split_list_first)
    then show ?thesis by (simp add: takeWhile_until)
  next
    case False
    then have u: "?u = drop x t" by (intro takeWhile_all) metis
    show ?thesis unfolding u using False by simp
  qed
  finally show ?thesis .
qed

lemma slice_cut: "p \<le> q \<Longrightarrow> q \<le> r \<Longrightarrow> slice t p r = slice t p q @ slice t q r"
proof -
  assume "p \<le> q" "q \<le> r"
  then obtain a b where "q = p + a" "r = p + a + b" by (metis le_iff_add)
  then show ?thesis by (simp add: slice_def take_add add.commute)
qed

lemma line_start_skip:
  assumes "0 < p" "p \<le> q" "q \<le> length t" "CHR 0x0A \<notin> set (slice t p q)"
  shows "line_start p t = line_start q t"
proof -
  have "drop p t = slice t p q @ drop q t"
    using assms(2) by (metis slice_def append_take_drop_id drop_drop le_add_diff_inverse2)
  moreover have "length (slice t p q) = q - p" using assms(2,3) by (simp add: slice_def)
  ultimately have "length (takeWhile (\<lambda>c. c \<noteq> CHR 0x0A) (drop p t)) =
      (q - p) + length (takeWhile (\<lambda>c. c \<noteq> CHR 0x0A) (drop q t))"
    using assms(4) by (auto simp: takeWhile_append)
  then show ?thesis using assms(1,2) by (simp add: line_start_def)
qed

section \<open>One range\<close>

definition delivered :: "string list \<Rightarrow> string" where
  "delivered blocks = squeeze (concat (map end_line blocks))"

lemma last_block:
  assumes "0 < x" "x \<le> length t"
  shows "delivered (if b @ takeWhile (\<lambda>c. c \<noteq> CHR 0x0A) (drop x t) \<noteq> [] then [b @ takeWhile (\<lambda>c. c \<noteq> CHR 0x0A) (drop x t)] else []) =
    squeeze (with_nl (b @ slice t x (line_start x t)))"
proof -
  let ?u = "takeWhile (\<lambda>c. c \<noteq> CHR 0x0A) (drop x t)"
  have s: "slice t x (line_start x t) = ?u @ (if CHR 0x0A \<in> set (drop x t) then [CHR 0x0A] else [])"
    by (rule line_start_after [OF assms])
  show ?thesis
  proof (cases "CHR 0x0A \<in> set (drop x t)")
    case True
    have "end_line (b @ ?u @ [CHR 0x0A]) = b @ ?u @ [CHR 0x0A]" by (simp add: end_line_def)
    then have "squeeze (with_nl (b @ slice t x (line_start x t))) = squeeze ((b @ ?u) @ [CHR 0x0A])"
      using True by (simp add: s with_nl_def)
    moreover have "squeeze ([] @ [CHR 0x0A]) = []" by (simp add: squeeze_def)
    ultimately show ?thesis
      using squeeze_end_line [of "b @ ?u"] by (cases "b @ ?u = []") (simp_all add: delivered_def squeeze_def)
  qed (simp add: s delivered_def with_nl_def)
qed

lemma delivered_Cons:
  assumes "whole_lines b" "delivered blocks = squeeze (with_nl y)"
  shows "delivered ((if b \<noteq> [] then [b] else []) @ blocks) = squeeze (with_nl (b @ y))"
  using assms
  by (cases "b = []") (simp_all add: delivered_def with_nl_append squeeze_append end_line_id)

lemma read_range_step:
  fixes t lo :: string and ph :: bool
  assumes "0 < bs" "k < sz" "off + sz \<le> length t"
  defines "d \<equiv> take (min bs (sz - k)) (drop (off + k) t)"
  defines "block_ph \<equiv> (if ph \<and> off \<noteq> 0 then drop_head (lo @ d) else (lo @ d, False))"
  shows "read_range bs off sz lo k ph \<lparr>ms_data = t, ms_offset = off + k\<rparr> =
    (if k + length d = sz
     then (let b = (if \<not> snd block_ph then fst block_ph @ takeWhile (\<lambda>c. c \<noteq> CHR 0x0A) (drop (off + sz) t)
                    else fst block_ph) in if b \<noteq> [] then [b] else [])
     else (let (b, lo') = split_last (fst block_ph) in (if b \<noteq> [] then [b] else []) @
       read_range bs off sz lo' (k + length d) (snd block_ph) \<lparr>ms_data = t, ms_offset = off + (k + length d)\<rparr>))"
    and "0 < length d" "k + length d \<le> sz" "d = slice t (off + k) (off + (k + length d))"
proof -
  show d: "0 < length d" "k + length d \<le> sz" "d = slice t (off + k) (off + (k + length d))"
    using assms(1-3) by (auto simp: d_def slice_def min_def)
  then have "d \<noteq> []" by simp
  then show "read_range bs off sz lo k ph \<lparr>ms_data = t, ms_offset = off + k\<rparr> =
    (if k + length d = sz
     then (let b = (if \<not> snd block_ph then fst block_ph @ takeWhile (\<lambda>c. c \<noteq> CHR 0x0A) (drop (off + sz) t)
                    else fst block_ph) in if b \<noteq> [] then [b] else [])
     else (let (b, lo') = split_last (fst block_ph) in (if b \<noteq> [] then [b] else []) @
       read_range bs off sz lo' (k + length d) (snd block_ph) \<lparr>ms_data = t, ms_offset = off + (k + length d)\<rparr>))"
  proof -
    obtain b p where bp: "block_ph = (b, p)" by fastforce
    obtain x y where sl: "split_last b = (x, y)" by fastforce
    have M: "MemRead (min bs (sz - k)) \<lparr>ms_data = t, ms_offset = off + k\<rparr> =
        (d, \<lparr>ms_data = t, ms_offset = off + (k + length d)\<rparr>)"
      by (simp add: MemRead_take d_def add.assoc)
    have H: "(if ph then if 0 < off then drop_head (lo @ d) else (lo @ d, False) else (lo @ d, False)) = (b, p)"
      using bp by (auto simp: block_ph_def split: if_splits)
    show ?thesis
      using \<open>d \<noteq> []\<close>
      by (cases "k + length d = sz"; subst read_range.simps)
         (simp_all add: M H bp sl Let_def read_tail_spec split del: if_split cong: if_cong)
  qed
qed

lemma read_on:
  "0 < bs \<Longrightarrow> k < sz \<Longrightarrow> off + sz \<le> length t \<Longrightarrow>
    delivered (read_range bs off sz lo k False \<lparr>ms_data = t, ms_offset = off + k\<rparr>) =
      squeeze (with_nl (lo @ slice t (off + k) (line_start (off + sz) t)))"
proof (induction "sz - k" arbitrary: k lo rule: less_induct)
  case less
  define d where "d = take (min bs (sz - k)) (drop (off + k) t)"
  note step = read_range_step(1) [OF less(2-4), where ph = False and lo = lo, folded d_def, simplified]
    read_range_step(2-4) [OF less(2-4), folded d_def]
  have e: "off + sz \<le> line_start (off + sz) t" using less(4) by (intro line_start_ge)
  have cut: "slice t (off + k) (line_start (off + sz) t) =
      d @ slice t (off + (k + length d)) (line_start (off + sz) t)"
    using slice_cut [of "off + k" "off + (k + length d)" "line_start (off + sz) t" t] step(2,3) e
    by (simp flip: step(4))
  show ?case
  proof (cases "k + length d = sz")
    case True
    then show ?thesis
      using last_block [of "off + sz" t "lo @ d"] less(2-4) step(1,2) cut by (simp add: Let_def)
  next
    case False
    obtain b y where b: "split_last (lo @ d) = (b, y)" by fastforce
    have bz: "b @ y @ z = lo @ d @ z" for z
      using split_last_spec(1) [of "lo @ d"] b by (metis append.assoc fst_conv snd_conv)
    have "delivered (read_range bs off sz y (k + length d) False \<lparr>ms_data = t, ms_offset = off + (k + length d)\<rparr>) =
        squeeze (with_nl (y @ slice t (off + (k + length d)) (line_start (off + sz) t)))"
      using step(3) False less(2-4) by (intro less(1)) (use step(2) in linarith, auto)
    from delivered_Cons [OF _ this, of b] show ?thesis
      using step(1) False b cut split_last_spec(2) [of "lo @ d"] by (simp add: Let_def bz)
  qed
qed

lemma read_from_middle:
  "0 < bs \<Longrightarrow> k < sz \<Longrightarrow> off + sz \<le> length t \<Longrightarrow> 0 < off \<Longrightarrow>
    delivered (read_range bs off sz [] k True \<lparr>ms_data = t, ms_offset = off + k\<rparr>) =
      squeeze (with_nl (slice t (line_start (off + k) t) (line_start (off + sz) t)))"
proof (induction "sz - k" arbitrary: k rule: less_induct)
  case less
  define d where "d = take (min bs (sz - k)) (drop (off + k) t)"
  note step = read_range_step(1) [OF less(2-4), where ph = True and lo = "[]", folded d_def]
    read_range_step(2-4) [OF less(2-4), folded d_def]
  let ?q = "off + (k + length d)"
  have q: "?q \<le> off + sz" "off + k \<le> ?q" "?q \<le> length t" using step(2,3) less(4) by auto
  have e: "off + sz \<le> line_start (off + sz) t" using less(4) by (intro line_start_ge)
  from drop_head_cases [of d] show ?case
  proof (elim disjE exE conjE)
    assume nl: "CHR 0x0A \<notin> set d" "drop_head d = ([], True)"
    have skip: "line_start (off + k) t = line_start ?q t"
      using nl(1) step(4) q less(5) by (intro line_start_skip) auto
    show ?thesis
    proof (cases "k + length d = sz")
      case True
      then have "slice t (line_start (off + k) t) (line_start (off + sz) t) = []"
        by (simp add: skip slice_def)
      then show ?thesis using True step(1) nl(2) less(5) by (simp add: Let_def delivered_def with_nl_def squeeze_def)
    next
      case False
      then have "delivered (read_range bs off sz [] (k + length d) True \<lparr>ms_data = t, ms_offset = ?q\<rparr>) =
          squeeze (with_nl (slice t (line_start ?q t) (line_start (off + sz) t)))"
        using step(3) less(2-5) by (intro less(1)) (use step(2) less(3) in linarith, auto)
      then show ?thesis using False step(1) nl(2) less(5) skip by (simp add: Let_def split_last_def)
    qed
  next
    fix x assume x: "CHR 0x0A \<notin> set x" "d = x @ CHR 0x0A # fst (drop_head d)" "\<not> snd (drop_head d)"
    let ?b = "fst (drop_head d)"
    have dr: "drop (off + k) t = d @ drop ?q t"
      by (metis add.assoc append_eq_conv_conj append_take_drop_id d_def drop_drop add.commute)
    then have "takeWhile (\<lambda>c. c \<noteq> CHR 0x0A) (drop (off + k) t) = x"
      using x(1,2) takeWhile_until [of "CHR 0x0A" x "?b @ drop ?q t"] by (metis append.assoc append_Cons)
    moreover have len: "length d = length x + 1 + length ?b"
      using arg_cong [OF x(2), of length] by simp
    ultimately have s: "line_start (off + k) t = off + k + length x + 1"
      using q less(5) by (simp add: line_start_def)
    have "slice t (line_start (off + k) t) ?q = ?b"
    proof -
      have "drop (length x + 1) (drop (off + k) t) = ?b @ drop ?q t"
        using dr x(2) by (metis append.assoc append_Cons append_eq_conv_conj drop_drop add.commute plus_1_eq_Suc drop_Suc_Cons drop0)
      then show ?thesis
        unfolding slice_def s using len by (simp add: add.commute add.left_commute)
    qed
    then have cut: "slice t (line_start (off + k) t) (line_start (off + sz) t) =
        ?b @ slice t ?q (line_start (off + sz) t)"
      using slice_cut [of "line_start (off + k) t" ?q "line_start (off + sz) t" t] s len q e by auto
    show ?thesis
    proof (cases "k + length d = sz")
      case True
      then show ?thesis
        using last_block [of "off + sz" t ?b] less(2-5) step(1) cut x(3) by (simp add: Let_def)
    next
      case False
      obtain b y where b: "split_last ?b = (b, y)" by fastforce
      have bz: "b @ y @ z = ?b @ z" for z
        using split_last_spec(1) [of ?b] b by (metis append.assoc fst_conv snd_conv)
      have "delivered (read_range bs off sz y (k + length d) False \<lparr>ms_data = t, ms_offset = ?q\<rparr>) =
          squeeze (with_nl (y @ slice t ?q (line_start (off + sz) t)))"
        using step(2,3) False less(2-4) by (intro read_on) auto
      from delivered_Cons [OF _ this, of b] show ?thesis
        using step(1) False b cut x(3) less(5) split_last_spec(2) [of ?b] by (simp add: Let_def bz)
    qed
  qed
qed

lemma read_range_empty: "read_range bs off 0 [] 0 ph \<lparr>ms_data = t, ms_offset = p\<rparr> = []"
  by (subst read_range.simps) (simp add: MemRead_take Let_def drop_head_def)

lemma head_at_start: "read_range bs 0 sz lo k True s = read_range bs 0 sz lo k False s"
  by (subst (1 2) read_range.simps) simp

lemma range_delivered:
  assumes "0 < bs" "off + sz \<le> length t"
  shows "squeeze (concat (fst (ReadFileIntoBuffer bs t \<lparr>fr_path = p, fr_off = off, fr_size = sz\<rparr>))) =
    squeeze (with_nl (slice t (line_start off t) (line_start (off + sz) t)))"
proof -
  have s: "squeeze (concat (fst (ReadFileIntoBuffer bs t \<lparr>fr_path = p, fr_off = off, fr_size = sz\<rparr>))) =
      delivered (read_range bs off sz [] 0 True \<lparr>ms_data = t, ms_offset = off\<rparr>)"
    by (simp add: ReadFileIntoBuffer_def Let_def delivered_def InputMemoryStream_def)
  show ?thesis
  proof (cases "sz = 0")
    case True
    then show ?thesis unfolding s by (simp add: read_range_empty delivered_def slice_def with_nl_def)
  next
    case False
    then show ?thesis
      unfolding s using read_from_middle [OF assms(1), of 0 sz off t] read_on [OF assms(1), of 0 sz off t "[]"] assms(2)
      by (cases "off = 0") (simp_all add: head_at_start line_start_def)
  qed
qed

lemma read_range_blocks: "b \<in> set (read_range bs off sz lo k ph s) \<Longrightarrow> b \<noteq> []"
proof (induction bs off sz lo k ph s rule: read_range.induct)
  case (1 bs off sz lo k ph s)
  obtain d s' where d: "MemRead (min bs (sz - k)) s = (d, s')" by fastforce
  obtain b0 p where h: "(if ph then if off \<noteq> 0 then drop_head (lo @ d) else (lo @ d, False) else (lo @ d, False)) = (b0, p)"
    by fastforce
  obtain b1 y where l: "(if k + length d = sz then (if \<not> p \<and> length d \<noteq> 0 then read_tail b0 s' else b0, [])
      else split_last b0) = (b1, y)" by fastforce
  have "read_range bs off sz lo k ph s = (if length d = 0 \<or> k + length d = sz then if b1 \<noteq> [] then [b1] else []
      else (if b1 \<noteq> [] then [b1] else []) @ read_range bs off sz y (k + length d) p s')"
    by (subst read_range.simps) (simp only: d h l Let_def prod.case)
  moreover have "b \<noteq> []" if "b \<in> set (read_range bs off sz y (k + length d) p s')" "\<not> (length d = 0 \<or> k + length d = sz)"
    using "1.IH" [OF refl d [symmetric] refl refl refl refl refl h [symmetric] refl l [symmetric] refl] that by blast
  ultimately show ?case using "1.prems" by (auto split: if_splits)
qed

text \<open>What is pushed for a range: blocks of whole lines, then the empty block.\<close>

lemma pushed_blocks:
  obtains bs' where "fst (ReadFileIntoBuffer bs t fr) = bs' @ [[]]"
    and "\<And>b. b \<in> set bs' \<Longrightarrow> b \<noteq> [] \<and> last b = CHR 0x0A"
proof
  let ?r = "read_range bs (fr_off fr) (fr_size fr) [] 0 True
      (if fr_off fr \<noteq> 0 then (InputMemoryStream t)\<lparr>ms_offset := fr_off fr\<rparr> else InputMemoryStream t)"
  show "fst (ReadFileIntoBuffer bs t fr) = map end_line ?r @ [[]]"
    by (simp add: ReadFileIntoBuffer_def Let_def)
  show "b \<noteq> [] \<and> last b = CHR 0x0A" if "b \<in> set (map end_line ?r)" for b
    using that by (auto simp: end_line_def dest: read_range_blocks)
qed

lemma pushed_whole: "whole_lines (concat (fst (ReadFileIntoBuffer bs t fr)))"
proof -
  obtain bs' where b: "fst (ReadFileIntoBuffer bs t fr) = bs' @ [[]]"
    "\<And>b. b \<in> set bs' \<Longrightarrow> b \<noteq> [] \<and> last b = CHR 0x0A" by (rule pushed_blocks) blast
  have "whole_lines (concat bs')" using b(2)
    by (induction bs' rule: rev_induct) (auto simp: whole_lines_def)
  then show ?thesis by (simp add: b(1))
qed

section \<open>Consecutive ranges\<close>

lemma line_start_mono:
  assumes "p \<le> q" "q \<le> length t"
  shows "line_start p t \<le> line_start q t"
proof (cases "p = 0 \<or> CHR 0x0A \<notin> set (slice t p q)")
  case True
  then show ?thesis using assms line_start_skip [of p q t] by (auto simp: line_start_def)
next
  case False
  then have "length (takeWhile (\<lambda>c. c \<noteq> CHR 0x0A) (drop p t)) < q - p"
    using takeWhile_newline(1) [of "q - p" "drop p t"] assms by (simp add: slice_def)
  then have "line_start p t \<le> q" using assms False by (simp add: line_start_def)
  also have "q \<le> line_start q t" using assms(2) by (rule line_start_ge)
  finally show ?thesis .
qed

lemma line_start_whole:
  assumes "p \<le> length t"
  shows "line_start p t = length t \<or> whole_lines (take (line_start p t) t)"
proof (cases "p = 0 \<or> CHR 0x0A \<notin> set (drop p t)")
  case True
  show ?thesis
  proof (cases "p = 0")
    case False
    with True have tw: "takeWhile (\<lambda>c. c \<noteq> CHR 0x0A) (drop p t) = drop p t"
      by (intro takeWhile_all) metis
    show ?thesis unfolding line_start_def tw using assms False by simp
  qed (simp add: line_start_def whole_lines_def)
next
  case False
  then obtain a b where ab: "drop p t = a @ CHR 0x0A # b" "CHR 0x0A \<notin> set a" by (meson split_list_first)
  have "length t - p = length a + 1 + length b" using arg_cong [OF ab(1), of length] by simp
  then have "Suc (p + length a) \<le> length t" by simp
  then have "line_start p t = p + (length a + 1)"
    using False ab by (simp add: line_start_def takeWhile_until min_absorb2)
  then have "take (line_start p t) t = take p t @ a @ [CHR 0x0A]"
    using take_add [of p "length a + 1" t] by (simp add: ab(1))
  then show ?thesis by (simp add: whole_lines_def)
qed

lemma ranges_cover:
  assumes "x 0 = 0" "\<And>r. r < n \<Longrightarrow> x r \<le> x (Suc r)" "x n = length t"
  shows "concat (map (\<lambda>r. squeeze (with_nl (slice t (line_start (x r) t) (line_start (x (Suc r)) t)))) [0..<n]) =
    squeeze (with_nl t)"
proof -
  have le: "x k \<le> length t" if "k \<le> n" for k
  proof -
    from that have "x k \<le> x n"
      by (induction rule: inc_induct) (use assms(2) order_trans in blast)+
    then show ?thesis using assms(3) by simp
  qed
  have "concat (map (\<lambda>r. squeeze (with_nl (slice t (line_start (x r) t) (line_start (x (Suc r)) t)))) [0..<k]) =
      squeeze (with_nl (take (line_start (x k) t) t))" if "k \<le> n" for k
    using that
  proof (induction k)
    case 0
    then show ?case using assms(1) by (simp add: line_start_def with_nl_def squeeze_def)
  next
    case (Suc k)
    let ?p = "line_start (x k) t" and ?q = "line_start (x (Suc k)) t"
    have pq: "?p \<le> ?q" "?q \<le> length t"
      using Suc.prems assms(2) [of k] le [of "Suc k"] line_start_mono line_start_ge by auto
    then have split: "take ?q t = take ?p t @ slice t ?p ?q"
      using take_add [of ?p "?q - ?p" t] by (simp add: slice_def)
    have "?p = length t \<or> whole_lines (take ?p t)"
      using Suc.prems by (intro line_start_whole le) simp
    moreover have "slice t ?p ?q = []" if "?p = length t" using that by (simp add: slice_def)
    ultimately have "squeeze (with_nl (take ?p t)) @ squeeze (with_nl (slice t ?p ?q)) = squeeze (with_nl (take ?q t))"
      unfolding split
    proof (cases "whole_lines (take ?p t)")
      case True
      then have "with_nl (take ?p t) = take ?p t" by (auto simp: with_nl_def end_line_id)
      then show "squeeze (with_nl (take ?p t)) @ squeeze (with_nl (slice t ?p ?q)) =
          squeeze (with_nl (take ?p t @ slice t ?p ?q))"
        using True by (simp add: with_nl_append squeeze_append)
    qed (simp add: with_nl_def squeeze_def)
    then show ?case using Suc by simp
  qed
  from this [of n] show ?thesis using assms(3) by (simp add: line_start_def)
qed

section \<open>The plan covers the files\<close>

lemma below_upper_bound: "sorted xs \<Longrightarrow> i < upper_bound xs v \<longleftrightarrow> i < length xs \<and> xs ! i \<le> v"
proof (induction xs arbitrary: i)
  case (Cons x xs)
  have "upper_bound (x # xs) v = (if x \<le> v then Suc (upper_bound xs v) else 0)" by (simp add: upper_bound_def)
  then show ?case using Cons by (cases i) (auto dest!: nth_mem)
qed (simp add: upper_bound_def)

lemma below_lower_bound: "sorted xs \<Longrightarrow> i < lower_bound xs v \<longleftrightarrow> i < length xs \<and> xs ! i < v"
proof (induction xs arbitrary: i)
  case (Cons x xs)
  have "lower_bound (x # xs) v = (if x < v then Suc (lower_bound xs v) else 0)" by (simp add: lower_bound_def)
  then show ?case using Cons by (cases i) (auto dest!: nth_mem)
qed (simp add: lower_bound_def)

lemma length_starts [simp]: "length (file_block_start bs n ss) = Suc (length ss)"
  by (induction ss arbitrary: n) simp_all

lemma starts_0 [simp]: "file_block_start bs n ss ! 0 = n"
  by (cases ss) simp_all

lemma starts_Suc:
  "i < length ss \<Longrightarrow> file_block_start bs n ss ! Suc i = file_block_start bs n ss ! i + (ss ! i + bs - 1) div bs"
proof (induction ss arbitrary: n i)
  case (Cons s ss)
  then show ?case by (cases i) auto
qed simp

lemma starts_ge: "x \<in> set (file_block_start bs n ss) \<Longrightarrow> n \<le> x"
  by (induction ss arbitrary: n) (auto, fastforce)

lemma starts_sorted: "sorted (file_block_start bs n ss)"
proof (induction ss arbitrary: n)
  case (Cons s ss)
  then show ?case by (auto dest!: starts_ge)
qed simp

lemma blocks_enough: "0 < bs \<Longrightarrow> s \<le> (s + bs - 1) div bs * (bs::nat)"
proof -
  assume "0 < bs"
  then have "s + bs - 1 < ((s + bs - 1) div bs + 1) * bs" by (simp add: dividend_less_div_times)
  then show ?thesis using \<open>0 < bs\<close> by (simp add: algebra_simps)
qed

lemma end_file_le: "end_file xs v \<le> i \<Longrightarrow> Suc i < length xs \<Longrightarrow> lower_bound xs v \<le> i"
  by (simp add: end_file_def Let_def split: if_splits)

lemma end_file_gt:
  "i < end_file xs v \<Longrightarrow> Suc i < length xs \<Longrightarrow> i < lower_bound xs v"
  "end_file xs v \<le> lower_bound xs v"
  by (auto simp: end_file_def Let_def split: if_splits)

text \<open>Where the reader \<open>r\<close> begins in the file \<open>i\<close> of size \<open>fs\<close>, when every reader has \<open>k\<close> blocks.\<close>

definition cut :: "nat \<Rightarrow> nat list \<Rightarrow> nat \<Rightarrow> nat \<Rightarrow> nat \<Rightarrow> nat \<Rightarrow> nat" where
  "cut bs starts k fs i r = min fs ((k * r - starts ! i) * bs)"

lemma cut_mono: "cut bs starts k fs i r \<le> cut bs starts k fs i (Suc r)"
  unfolding cut_def by (intro min.mono mult_le_mono diff_le_mono) simp_all

lemma left_over_cut:
  fixes bs n base :: nat and sizes ss :: "nat list" and k r i :: nat
  defines "starts \<equiv> file_block_start bs n ss"
  assumes "n = 0" "0 < bs" "i < length ss" "sizes ! (i + base) = ss ! i"
  defines "sf \<equiv> start_file starts (k * r)" and "ef \<equiv> end_file starts (k * (r + 1))"
  defines "c \<equiv> cut bs starts k (ss ! i) i"
  shows "(if sf \<le> i \<and> i < ef then left_over_part bs sizes base starts (k * r) (k * (r + 1)) sf ef i else None) =
    (if c (Suc r) - c r = 0 then None else Some \<lparr>fr_path = i + base, fr_off = c r, fr_size = c (Suc r) - c r\<rparr>)"
proof -
  let ?fs = "ss ! i" and ?ub = "upper_bound starts (k * r)" and ?lb = "lower_bound starts (k * (r + 1))"
  have sorted: "sorted starts" by (simp add: starts_def starts_sorted)
  note ub = below_upper_bound [OF sorted] and lb = below_lower_bound [OF sorted]
  have len: "length starts = Suc (length ss)" by (simp add: starts_def)
  have "starts ! 0 \<le> k * r" using assms(2) by (simp add: starts_def)
  then have "0 < ?ub" by (simp add: ub len)
  have blocks: "starts ! Suc i - starts ! i = (?fs + bs - 1) div bs" "starts ! i \<le> starts ! Suc i"
    using assms(4) by (simp_all add: starts_def starts_Suc)
  have full: "?fs \<le> (x - starts ! i) * bs" if "starts ! Suc i \<le> x" for x
  proof -
    have "?fs \<le> (starts ! Suc i - starts ! i) * bs" using blocks_enough [OF assms(3), of ?fs] blocks(1) by simp
    also have "\<dots> \<le> (x - starts ! i) * bs" by (intro mult_le_mono diff_le_mono that le_refl)
    finally show ?thesis .
  qed
  show ?thesis
  proof (cases "sf \<le> i \<and> i < ef")
    case False
    have "c (Suc r) = c r"
    proof (cases "i < sf")
      case True
      then have "Suc i < ?ub" using \<open>0 < ?ub\<close> by (auto simp: sf_def start_file_def)
      then have "starts ! Suc i \<le> k * r" by (simp add: ub)
      then have "?fs \<le> (k * r - starts ! i) * bs" "?fs \<le> (k * Suc r - starts ! i) * bs"
        by (auto intro!: full elim: order_trans)
      then show ?thesis by (simp add: c_def cut_def)
    next
      case False
      with \<open>\<not> (sf \<le> i \<and> i < ef)\<close> have "ef \<le> i" by simp
      then have "?lb \<le> i" unfolding ef_def by (rule end_file_le) (simp add: len assms(4))
      then have "\<not> starts ! i < k * (r + 1)" using lb [of i "k * (r + 1)"] assms(4) len by linarith
      then show ?thesis by (simp add: c_def cut_def)
    qed
    then show ?thesis using False by auto
  next
    case True
    have il: "i < ?lb" "ef \<le> ?lb" using True end_file_gt(1) [of i starts] end_file_gt(2) [of starts] by (auto simp: ef_def len assms(4))
    then have first: "starts ! i < k * (r + 1)" by (simp add: lb)
    have beg: "min (if i = sf then (k * r - starts ! i) * bs else 0) ?fs = c r"
    proof (cases "i = sf")
      case False
      then have "?ub \<le> i" using True by (auto simp: sf_def start_file_def)
      then have "k * r < starts ! i" using ub [of i "k * r"] assms(4) len by linarith
      then show ?thesis using False by (simp add: c_def cut_def)
    qed (simp add: c_def cut_def min.commute)
    have fin: "min (if i = ef - 1 then (k * (r + 1) - starts ! i) * bs else starts ! (i + 1) * bs) ?fs = c (Suc r)"
    proof (cases "i = ef - 1")
      case False
      then have "Suc i < ?lb" using True il by auto
      then have "starts ! Suc i < k * (r + 1)" by (simp add: lb)
      then have "?fs \<le> (k * (r + 1) - starts ! i) * bs" by (intro full) simp
      moreover have "?fs \<le> starts ! Suc i * bs"
        using full [of "starts ! Suc i"] by (meson diff_le_self le_refl mult_le_mono1 order_trans)
      ultimately show ?thesis using False by (simp add: c_def cut_def)
    qed (simp add: c_def cut_def min.commute)
    define b e where "b = (if i = sf then (k * r - starts ! i) * bs else 0)"
      and "e = (if i = ef - 1 then (k * (r + 1) - starts ! i) * bs else starts ! (i + 1) * bs)"
    have "min e ?fs - min b ?fs = c (Suc r) - c r" by (simp only: beg [folded b_def] fin [folded e_def])
    moreover have "c r = b" if "c (Suc r) - c r \<noteq> 0"
      using that fin [folded e_def] by (simp flip: beg [folded b_def]) (simp add: min_def split: if_splits)
    moreover have "left_over_part bs sizes base starts (k * r) (k * (r + 1)) sf ef i =
        (let s = min e ?fs - min b ?fs in if s = 0 then None else Some \<lparr>fr_path = i + base, fr_off = b, fr_size = s\<rparr>)"
      by (simp only: left_over_part_def Let_def assms(5) b_def e_def)
    ultimately show ?thesis using True by (simp only: Let_def if_P simp_thms) simp
  qed
qed

text \<open>What the ranges of a plan deliver of the file \<open>i\<close>.\<close>

definition range_text :: "nat \<Rightarrow> string list \<Rightarrow> file_range \<Rightarrow> string" where
  "range_text bs files fr = concat (fst (ReadFileIntoBuffer bs (files ! fr_path fr) fr))"

definition file_text :: "nat \<Rightarrow> string list \<Rightarrow> nat \<Rightarrow> file_range list \<Rightarrow> string" where
  "file_text bs files i frs = concat (map (range_text bs files) (filter (\<lambda>fr. fr_path fr = i) frs))"

lemma squeeze_concat: "\<forall>x \<in> set xs. whole_lines x \<Longrightarrow> squeeze (concat xs) = concat (map squeeze xs)"
  by (induction xs) (auto simp: squeeze_append, simp add: squeeze_def)

lemma whole_append: "whole_lines x \<Longrightarrow> whole_lines y \<Longrightarrow> whole_lines (x @ y)"
  by (auto simp: whole_lines_def last_append)

lemma whole_concat: "\<forall>x \<in> set xs. whole_lines x \<Longrightarrow> whole_lines (concat xs)"
  by (induction xs) (simp_all add: whole_append, simp add: whole_lines_def)

lemma file_text_whole: "whole_lines (file_text bs files i frs)"
  unfolding file_text_def by (rule whole_concat) (auto simp: range_text_def pushed_whole)

lemma file_text_append: "file_text bs files i (xs @ ys) = file_text bs files i xs @ file_text bs files i ys"
  by (simp add: file_text_def)

lemma concat_one: "m < n \<Longrightarrow> concat (map (\<lambda>r. if r = m then x else []) [0..<n]) = x"
proof (induction n)
  case (Suc n)
  have "concat (map (\<lambda>r. if r = m then x else []) [0..<m]) = []" by simp
  with Suc show ?case by (cases "m = n") auto
qed simp

lemma filter_whole:
  "r < n \<Longrightarrow> filter (\<lambda>j. j * n + r = i) [0..<per] = (if r = i mod n \<and> i div n < per then [i div n] else [])"
proof (induction per)
  case (Suc per)
  have "per * n + r = i \<longleftrightarrow> i div n = per \<and> r = i mod n"
    using Suc.prems by (metis add.commute div_mult_mod_eq div_mult_self3 div_less add_0 mod_less mod_mult_self3 not_less0)
  then show ?case using Suc by (auto simp: less_Suc_eq)
qed simp

lemma map_filter_append: "List.map_filter f (xs @ ys) = List.map_filter f xs @ List.map_filter f ys"
  by (simp add: List.map_filter_def)

lemma filter_map_filter:
  assumes "\<And>j y. f j = Some y \<Longrightarrow> fr_path y = j + base"
  shows "filter (\<lambda>fr. fr_path fr = i + base) (List.map_filter f [a..<b]) =
    (case (if a \<le> i \<and> i < b then f i else None) of None \<Rightarrow> [] | Some y \<Rightarrow> [y])"
proof (induction b)
  case 0
  then show ?case by (simp add: List.map_filter_simps)
next
  case (Suc b)
  show ?case
  proof (cases "i = b")
    case True
    then show ?thesis using Suc assms [of b] by (cases "f b") (auto simp: map_filter_append List.map_filter_simps)
  next
    case False
    then have "(a \<le> i \<and> i < Suc b) = (a \<le> i \<and> i < b)" by auto
    then show ?thesis using Suc assms [of b] False by (cases "f b") (auto simp: map_filter_append List.map_filter_simps)
  qed
qed
lemma filter_other:
  assumes "\<And>j y. f j = Some y \<Longrightarrow> base \<le> fr_path y" "i < base"
  shows "filter (\<lambda>fr. fr_path fr = i) (List.map_filter f js) = []"
  using assms by (fastforce simp: List.map_filter_def filter_empty_conv)

lemma left_over_part_path:
  "left_over_part bs sizes base starts sb eb sf ef j = Some y \<Longrightarrow> fr_path y = j + base"
  by (auto simp: left_over_part_def Let_def split: if_splits)

lemma whole_file:
  assumes bs: "0 < bs" and n: "0 < n" and "i < length files div n * n"
  shows "squeeze (concat (map (\<lambda>r. file_text bs files i
      (map (\<lambda>j. let fid = j * n + r in \<lparr>fr_path = fid, fr_off = 0, fr_size = map length files ! fid\<rparr>) [0..<length files div n]))
      [0..<n])) = squeeze (with_nl (files ! i))"
proof -
  let ?per = "length files div n"
  have i: "i div n < ?per" "i < length files"
    using assms n by (auto simp: div_less_iff_less_mult) (metis div_mult_mod_eq less_le_trans le_add1)
  let ?x = "range_text bs files \<lparr>fr_path = i, fr_off = 0, fr_size = length (files ! i)\<rparr>"
  have "file_text bs files i (map (\<lambda>j. let fid = j * n + r in
      \<lparr>fr_path = fid, fr_off = 0, fr_size = map length files ! fid\<rparr>) [0..<?per]) = (if r = i mod n then ?x else [])"
    if "r < n" for r
    using filter_whole [OF that, of i ?per] i by (simp add: file_text_def filter_map o_def Let_def)
  then have "concat (map (\<lambda>r. file_text bs files i (map (\<lambda>j. let fid = j * n + r in
      \<lparr>fr_path = fid, fr_off = 0, fr_size = map length files ! fid\<rparr>) [0..<?per])) [0..<n]) =
      concat (map (\<lambda>r. if r = i mod n then ?x else []) [0..<n])"
    by (intro arg_cong [where f = concat] map_cong) auto
  also have "\<dots> = ?x" using n by (intro concat_one) simp
  also have "squeeze ?x = squeeze (with_nl (files ! i))"
    using range_delivered [OF bs, of 0 "length (files ! i)" "files ! i" i]
    by (simp add: range_text_def line_start_def slice_def)
  finally show ?thesis .
qed

lemma left_over_file:
  assumes bs: "0 < bs" and n: "0 < n" and i: "i < length ss"
    and ss: "ss = map (\<lambda>j. length (files ! (j + base))) [0..<length ss]" "length files = base + length ss"
  defines "starts \<equiv> file_block_start bs 0 ss"
  defines "k \<equiv> (last starts + n - 1) div n"
  shows "squeeze (concat (map (\<lambda>r. file_text bs files (i + base)
      (List.map_filter (left_over_part bs (map length files) base starts (k * r) (k * (r + 1))
          (start_file starts (k * r)) (end_file starts (k * (r + 1))))
        [start_file starts (k * r)..<end_file starts (k * (r + 1))])) [0..<n])) =
    squeeze (with_nl (files ! (i + base)))"
proof -
  let ?t = "files ! (i + base)" and ?c = "cut bs starts k (ss ! i) i"
  have "ss ! i = length ?t" by (subst ss(1)) (simp add: i)
  then have fs: "ss ! i = length ?t" "map length files ! (i + base) = ss ! i" using i ss(2) by simp_all
  have one: "squeeze (file_text bs files (i + base) (List.map_filter (left_over_part bs (map length files) base starts (k * r) (k * (r + 1))
          (start_file starts (k * r)) (end_file starts (k * (r + 1))))
        [start_file starts (k * r)..<end_file starts (k * (r + 1))])) =
      squeeze (with_nl (slice ?t (line_start (?c r) ?t) (line_start (?c (Suc r)) ?t)))" for r
  proof -
    note part = left_over_cut [where n = 0 and k = k and r = r and ss = ss and bs = bs and sizes = "map length files"
        and base = base and i = i, folded starts_def, OF refl bs i fs(2)]
    have fltr: "filter (\<lambda>fr. fr_path fr = i + base) (List.map_filter (left_over_part bs (map length files) base starts (k * r) (k * (r + 1))
          (start_file starts (k * r)) (end_file starts (k * (r + 1))))
        [start_file starts (k * r)..<end_file starts (k * (r + 1))]) =
        (case (if ?c (Suc r) - ?c r = 0 then None else Some \<lparr>fr_path = i + base, fr_off = ?c r, fr_size = ?c (Suc r) - ?c r\<rparr>) of
           None \<Rightarrow> [] | Some y \<Rightarrow> [y])"
      unfolding part [symmetric] by (rule filter_map_filter) (rule left_over_part_path)
    have "?c (Suc r) \<le> length ?t" by (simp add: cut_def fs(1))
    moreover have "?c r \<le> ?c (Suc r)" by (rule cut_mono)
    moreover have "squeeze (with_nl (slice ?t x x)) = []" for x
      by (simp add: slice_def with_nl_def squeeze_def)
    ultimately show ?thesis
      unfolding file_text_def fltr
      using range_delivered [OF bs, of "?c r" "?c (Suc r) - ?c r" ?t "i + base"]
      by (cases "?c (Suc r) = ?c r") (simp_all add: range_text_def squeeze_def)
  qed
  have len: "length starts = Suc (length ss)" by (simp add: starts_def)
  have "starts ! Suc i \<le> last starts"
    using sorted_nth_mono [OF starts_sorted, of "Suc i" "length ss" bs 0 ss] i
    by (simp add: last_conv_nth starts_def flip: length_0_conv)
  moreover have "last starts \<le> k * n"
    using blocks_enough [OF n, of "last starts"] by (simp add: k_def)
  ultimately have "(ss ! i + bs - 1) div bs \<le> k * n - starts ! i"
    using i by (simp add: starts_def starts_Suc)
  then have "ss ! i \<le> (k * n - starts ! i) * bs"
    using blocks_enough [OF bs, of "ss ! i"] by (meson mult_le_mono1 order_trans)
  then have "?c n = length ?t" by (simp add: cut_def fs(1))
  moreover have "?c 0 = 0" by (simp add: cut_def)
  ultimately show ?thesis
    using ranges_cover [of ?c n ?t] cut_mono [of bs starts k "ss ! i" i] one
    by (subst squeeze_concat) (auto simp: file_text_whole o_def)
qed

text \<open>
  C7. Every line of every file of the directory reaches exactly one of the readers: whatever the
  number of readers, the block size and the sizes of the files, and whether the files can be cut or
  not, what the plans of all readers deliver of a file is, put together in the order of the readers,
  the text of the file with a line break at its end, up to empty lines.
\<close>

theorem text_dir_complete:
  assumes "0 < bs" "0 < n_readers" "i < length files"
  shows "squeeze (concat (map (\<lambda>r. file_text bs files i (fst (dir_plan n_readers r bs seek (map length files))))
      [0..<n_readers])) = squeeze (with_nl (files ! i))"
proof -
  let ?n = n_readers and ?per = "length files div n_readers" and ?sizes = "map length files"
  let ?base = "?n * ?per" and ?L = "length files mod ?n"
  define whole where "whole r = map (\<lambda>j. let fid = j * ?n + r in \<lparr>fr_path = fid, fr_off = 0, fr_size = ?sizes ! fid\<rparr>) [0..<?per]" for r
  define ss where "ss = map (\<lambda>j. length (files ! (j + ?base))) [0..<?L]"
  define starts where "starts = file_block_start bs 0 ss"
  define k where "k = (last starts + ?n - 1) div ?n"
  define parts where "parts r = (if seek then List.map_filter (left_over_part bs ?sizes ?base starts (k * r) (k * (r + 1))
          (start_file starts (k * r)) (end_file starts (k * (r + 1))))
        [start_file starts (k * r)..<end_file starts (k * (r + 1))]
      else if r < ?L then [\<lparr>fr_path = ?base + r, fr_off = 0, fr_size = ?sizes ! (?base + r)\<rparr>] else [])" for r
  have L: "length files = ?base + ?L" by simp
  have "map (\<lambda>i. ?sizes ! (i + ?per * ?n)) [0..<?L] = ss"
    unfolding ss_def
  proof (intro map_cong refl)
    fix x assume "x \<in> set [0..<?L]"
    then have "x + ?base < length files" using L by (metis add.commute atLeastLessThan_iff atLeast_upt nat_add_left_cancel_less set_upt)
    then show "?sizes ! (x + ?per * ?n) = length (files ! (x + ?base))" by (simp add: mult.commute)
  qed
  then have plan: "fst (dir_plan ?n r bs seek ?sizes) = whole r @ parts r" for r
    unfolding dir_plan_def Let_def whole_def parts_def k_def starts_def by simp
  have both: "file_text bs files i (fst (dir_plan ?n r bs seek ?sizes)) = file_text bs files i (whole r) @ file_text bs files i (parts r)" for r
    by (simp add: plan file_text_append)
  show ?thesis
  proof (cases "i < ?per * ?n")
    case True
    then have "i < ?base" by (simp add: mult.commute)
    have "filter (\<lambda>fr. fr_path fr = i) (parts r) = []" for r
    proof (cases seek)
      case True
      then show ?thesis
        unfolding parts_def by (simp, intro filter_other [OF _ \<open>i < ?base\<close>]) (auto dest!: left_over_part_path)
    qed (use \<open>i < ?base\<close> in \<open>auto simp: parts_def\<close>)
    then have "file_text bs files i (parts r) = []" for r by (simp add: file_text_def)
    then show ?thesis using whole_file [OF assms(1,2) True] by (simp add: both whole_def)
  next
    case False
    then obtain j where j: "i = j + ?base" "j < ?L"
      using assms(3) L by (metis add.commute le_Suc_ex mult.commute nat_add_left_cancel_less not_less)
    have "fr_path fr < ?base" if "fr \<in> set (whole r)" "r < ?n" for fr r
    proof -
      from that obtain q where q: "q < ?per" "fr_path fr = q * ?n + r" by (auto simp: whole_def Let_def)
      then have "fr_path fr < (q + 1) * ?n" using that(2) by simp
      also have "\<dots> \<le> ?base" using q(1) by (metis Suc_eq_plus1 Suc_leI mult.commute mult_le_mono2)
      finally show ?thesis .
    qed
    then have w: "file_text bs files i (whole r) = []" if "r < ?n" for r
      using that j(1) by (fastforce simp: file_text_def filter_empty_conv)
    have t: "map (\<lambda>r. file_text bs files i (fst (dir_plan ?n r bs seek ?sizes))) [0..<?n] =
        map (\<lambda>r. file_text bs files (j + ?base) (parts r)) [0..<?n]"
      by (intro map_cong refl) (simp add: both w flip: j(1))
    show ?thesis
    proof (cases seek)
      case True
      have "j < length ss" "length files = ?base + length ss" "ss = map (\<lambda>j. length (files ! (j + ?base))) [0..<length ss]"
        using j(2) L by (simp_all add: ss_def)
      from left_over_file [OF assms(1,2) this(1,3,2), folded starts_def, folded k_def] True
      show ?thesis unfolding t by (simp add: parts_def j(1))
    next
      case False
      let ?x = "range_text bs files \<lparr>fr_path = ?base + j, fr_off = 0, fr_size = length (files ! (?base + j))\<rparr>"
      have "file_text bs files (j + ?base) (parts r) = (if r = j then ?x else [])" for r
        using False j assms(3) by (auto simp: file_text_def parts_def add.commute)
      then have "concat (map (\<lambda>r. file_text bs files (j + ?base) (parts r)) [0..<?n]) =
          concat (map (\<lambda>r. if r = j then ?x else []) [0..<?n])" by presburger
      also have "?L < ?n" using assms(2) by simp
      then have "concat (map (\<lambda>r. if r = j then ?x else []) [0..<?n]) = ?x"
        using j(2) by (intro concat_one) linarith
      finally have "concat (map (\<lambda>r. file_text bs files (j + ?base) (parts r)) [0..<?n]) = ?x" .
      then show ?thesis unfolding t
        using range_delivered [OF assms(1), of 0 "length (files ! i)" "files ! i" i] j(1)
        by (simp add: range_text_def line_start_def slice_def add.commute)
    qed
  qed
qed

lemma text_dir_complete_witness:
  "squeeze (concat (map (\<lambda>r. file_text 2 [[CHR ''a'', CHR 0x0A, CHR 0x0A, CHR ''b'']] 0
      (fst (dir_plan 2 r 2 True (map length [[CHR ''a'', CHR 0x0A, CHR 0x0A, CHR ''b'']])))) [0..<2])) =
    [CHR ''a'', CHR 0x0A, CHR ''b'', CHR 0x0A]"
  using text_dir_complete [of 2 2 0 "[[CHR ''a'', CHR 0x0A, CHR 0x0A, CHR ''b'']]" True]
  by (simp add: squeeze_def with_nl_def end_line_def)

section \<open>Reading to the end\<close>

definition dir_rest :: "dir_stream \<Rightarrow> string" where
  "dir_rest st = drop (ds_offset st) (ds_block st) @ concat (ds_queue st)"

definition marks :: "string list \<Rightarrow> nat" where
  "marks q = length (filter (\<lambda>b. b = []) q)"

definition dir_ok :: "dir_stream \<Rightarrow> bool" where
  "dir_ok st \<longleftrightarrow> marks (ds_queue st) + ds_files_read st = ds_total_files st \<and>
     (ds_queue st \<noteq> [] \<longrightarrow> last (ds_queue st) = [])"

lemma marks_simps [simp]: "marks [] = 0" "marks (b # q) = (if b = [] then Suc (marks q) else marks q)"
    "marks (xs @ ys) = marks xs + marks ys"
  by (simp_all add: marks_def)

lemma no_marks: "marks q = 0 \<Longrightarrow> q \<noteq> [] \<Longrightarrow> last q \<noteq> []"
  by (auto simp: marks_def filter_empty_conv)

lemma dir_read_spec:
  "dir_ok st \<Longrightarrow> \<exists>st'. dir_read n got st = Some (got @ take n (dir_rest st), st') \<and> dir_ok st' \<and> dir_rest st' = drop n (dir_rest st)"
proof (induction n got st rule: dir_read.induct)
  case (1 n got st)
  consider "n = 0" | "n \<noteq> 0" "ds_offset st < length (ds_block st)"
    | "n \<noteq> 0" "\<not> ds_offset st < length (ds_block st)" "ds_files_read st = ds_total_files st"
    | b bs where "n \<noteq> 0" "\<not> ds_offset st < length (ds_block st)" "ds_files_read st \<noteq> ds_total_files st" "ds_queue st = b # bs"
    | "ds_files_read st \<noteq> ds_total_files st" "ds_queue st = []"
    by (cases "ds_queue st") blast+
  then show ?case
  proof cases
    case 2
    let ?m = "min (length (ds_block st) - ds_offset st) n" and ?d = "drop (ds_offset st) (ds_block st)"
    let ?st = "st\<lparr>ds_offset := ds_offset st + ?m\<rparr>"
    have ok: "dir_ok ?st" using 1(4) by (simp add: dir_ok_def)
    have rest: "dir_rest st = take ?m ?d @ dir_rest ?st" by (simp add: dir_rest_def add.commute)
    obtain st' where "dir_read (n - ?m) (got @ take ?m ?d) ?st = Some ((got @ take ?m ?d) @ take (n - ?m) (dir_rest ?st), st')"
      "dir_ok st'" "dir_rest st' = drop (n - ?m) (dir_rest ?st)"
      using 1(1) [OF 2 refl ok] by blast
    moreover have "length (take ?m ?d) = ?m" by simp
    ultimately show ?thesis
      using 2 unfolding rest by (subst dir_read.simps) (simp add: Let_def)
  next
    case 3
    then have "ds_queue st = []" using 1(4) no_marks [of "ds_queue st"] by (auto simp: dir_ok_def)
    then show ?thesis using 3 1(4) by (subst dir_read.simps) (simp add: dir_rest_def)
  next
    case 4
    let ?st = "st\<lparr>ds_queue := bs, ds_block := b, ds_offset := 0\<rparr>"
    let ?st' = "?st\<lparr>ds_files_read := ds_files_read ?st + 1\<rparr>"
    have rest: "dir_rest ?st = dir_rest st" "dir_rest ?st' = dir_rest st" using 4 by (simp_all add: dir_rest_def)
    show ?thesis
    proof (cases "b = []")
      case True
      then have ok: "dir_ok ?st'" using 1(4) 4 by (auto simp: dir_ok_def split: if_splits)
      show ?thesis
      proof (cases "ds_files_read st + 1 = ds_total_files st")
        case True
        then have "bs = []" using ok no_marks [of bs] by (auto simp: dir_ok_def)
        then show ?thesis using True 4 \<open>b = []\<close> ok by (subst dir_read.simps) (simp add: dir_rest_def Let_def)
      next
        case False
        then have "ds_files_read ?st' \<noteq> ds_total_files ?st'" by simp
        then show ?thesis
          using 1(2) [OF 4(1-4) refl True refl _ ok] 4 True rest(2) by (subst dir_read.simps) (simp add: Let_def)
      qed
    next
      case False
      then have "dir_ok ?st" using 1(4) 4 by (auto simp: dir_ok_def split: if_splits)
      then show ?thesis
        using 1(3) [OF 4(1-4) refl False] 4 False rest(1) by (subst dir_read.simps) (simp add: Let_def)
    qed
  qed (use 1(4) in \<open>auto simp: dir_read.simps dir_ok_def\<close>)
qed

text \<open>Fewer end marks than files: once the blocks are read the reader waits for ever.\<close>

lemma dir_read_waits:
  "marks (ds_queue st) + ds_files_read st < ds_total_files st \<Longrightarrow> length (dir_rest st) < n \<Longrightarrow> dir_read n got st = None"
proof (induction n got st rule: dir_read.induct)
  case (1 n got st)
  consider "n \<noteq> 0" "ds_offset st < length (ds_block st)"
    | b bs where "n \<noteq> 0" "\<not> ds_offset st < length (ds_block st)" "ds_files_read st \<noteq> ds_total_files st" "ds_queue st = b # bs"
    | "n \<noteq> 0" "\<not> ds_offset st < length (ds_block st)" "ds_files_read st \<noteq> ds_total_files st" "ds_queue st = []"
    using "1.prems" by (cases "ds_queue st") auto
  then show ?case
  proof cases
    case 1
    let ?m = "min (length (ds_block st) - ds_offset st) n"
    have "dir_read (n - ?m) (got @ take ?m (drop (ds_offset st) (ds_block st))) (st\<lparr>ds_offset := ds_offset st + ?m\<rparr>) = None"
      using "1.prems" 1 by (intro "1.IH"(1) [OF 1 refl]) (auto simp: dir_rest_def min_def)
    then show ?thesis using 1 by (subst dir_read.simps) (simp add: Let_def)
  next
    case 2
    let ?st = "st\<lparr>ds_queue := bs, ds_block := b, ds_offset := 0\<rparr>"
    let ?st' = "?st\<lparr>ds_files_read := ds_files_read ?st + 1\<rparr>"
    show ?thesis
    proof (cases "b = []")
      case True
      then have "ds_files_read ?st' \<noteq> ds_total_files ?st'" using "1.prems" 2 by simp
      then have "dir_read n got ?st' = None"
        using "1.prems" 2 True by (intro "1.IH"(2) [OF 2 refl True refl]) (auto simp: dir_rest_def)
      then show ?thesis using 2 True \<open>ds_files_read ?st' \<noteq> ds_total_files ?st'\<close>
        by (subst dir_read.simps) (simp add: Let_def)
    next
      case False
      then have "dir_read n got ?st = None"
        using "1.prems" 2 by (intro "1.IH"(3) [OF 2 refl False]) (auto simp: dir_rest_def)
      then show ?thesis using 2 False by (subst dir_read.simps) (simp add: Let_def)
    qed
  qed (simp add: dir_read.simps)
qed

definition dir_contents :: "nat \<Rightarrow> string list \<Rightarrow> file_range list \<Rightarrow> string list" where
  "dir_contents bs files frs = concat (map (\<lambda>fr. fst (ReadFileIntoBuffer bs (files ! fr_path fr) fr)) frs)"

lemma marks_pushed: "marks (fst (ReadFileIntoBuffer bs t fr)) = 1"
proof -
  obtain bs' where b: "fst (ReadFileIntoBuffer bs t fr) = bs' @ [[]]"
    "\<And>b. b \<in> set bs' \<Longrightarrow> b \<noteq> [] \<and> last b = CHR 0x0A" by (rule pushed_blocks) blast
  then have "marks bs' = 0" by (auto simp: marks_def filter_empty_conv)
  then show ?thesis by (simp add: b(1))
qed

lemma last_pushed: "last (fst (ReadFileIntoBuffer bs t fr)) = []" "fst (ReadFileIntoBuffer bs t fr) \<noteq> []"
  by (simp_all add: ReadFileIntoBuffer_def Let_def)

lemma contents_ok:
  "marks (dir_contents bs files frs) = length frs" "frs \<noteq> [] \<Longrightarrow> last (dir_contents bs files frs) = []"
proof -
  show "marks (dir_contents bs files frs) = length frs"
    by (induction frs) (simp_all add: dir_contents_def marks_pushed)
  show "frs \<noteq> [] \<Longrightarrow> last (dir_contents bs files frs) = []"
    by (induction frs rule: rev_induct) (simp_all add: dir_contents_def last_pushed)
qed

lemma concat_contents: "concat (dir_contents bs files frs) = concat (map (range_text bs files) frs)"
  by (induction frs) (simp_all add: dir_contents_def range_text_def)

text \<open>
  One reader gets the whole directory: after \<^verbatim>\<open>Open\<close>, with the read stage running its ranges one
  after the other, reads of any size return the consecutive pieces of the lines of all files
  in the order of the listing, up to empty lines, and the read at the end returns what is left.
\<close>

lemma text_dir_single_reader:
  assumes "0 < bs" "files \<noteq> []" "length files < 2 ^ 64"
  shows "\<exists>frs total. Dir_Open 1 0 bs seek (map length files) = Some (frs, total) \<and>
    squeeze (concat (dir_contents bs files frs)) = squeeze (concat (map with_nl files)) \<and>
    (\<forall>m n. \<exists>st st'. Dir_Read m (opened_dir (dir_contents bs files frs) total) = Some (take m (concat (dir_contents bs files frs)), st) \<and>
      Dir_Read n st = Some (take n (drop m (concat (dir_contents bs files frs))), st'))"
proof -
  define frs where "frs = map (\<lambda>i. \<lparr>fr_path = i, fr_off = 0, fr_size = length (files ! i)\<rparr>) [0..<length files]"
  let ?q = "dir_contents bs files frs" and ?total = "length files"
  have frs_eq: "map (\<lambda>i. \<lparr>fr_path = i, fr_off = 0, fr_size = map length files ! i\<rparr>) [0..<length files] = frs"
    by (simp add: frs_def)
  have "Dir_Open 1 0 bs seek (map length files) = Some (frs, ?total)"
    using assms(2,3)
    by (simp add: Dir_Open_def dir_plan_def Let_def frs_eq start_file_def end_file_def upper_bound_def lower_bound_def
        List.map_filter_simps)
  moreover have "squeeze (concat ?q) = squeeze (concat (map with_nl files))"
  proof -
    have "concat ?q = concat (map (\<lambda>i. range_text bs files \<lparr>fr_path = i, fr_off = 0, fr_size = length (files ! i)\<rparr>) [0..<length files])"
      by (simp add: concat_contents frs_def o_def)
    also have "squeeze \<dots> = concat (map (\<lambda>i. squeeze (with_nl (files ! i))) [0..<length files])"
    proof -
      have "squeeze (range_text bs files \<lparr>fr_path = i, fr_off = 0, fr_size = length (files ! i)\<rparr>) = squeeze (with_nl (files ! i))" for i
        using range_delivered [OF assms(1), of 0 "length (files ! i)" "files ! i" i]
        by (simp add: range_text_def line_start_def slice_def)
      then show ?thesis by (subst squeeze_concat) (auto simp: range_text_def pushed_whole o_def)
    qed
    also have "map (\<lambda>i. squeeze (with_nl (files ! i))) [0..<length files] = map (squeeze \<circ> with_nl) files"
      by (rule nth_equalityI) simp_all
    also have "concat (map (squeeze \<circ> with_nl) files) = squeeze (concat (map with_nl files))"
      by (subst squeeze_concat) (auto simp: with_nl_whole)
    finally show ?thesis .
  qed
  moreover have ok: "dir_ok (opened_dir ?q ?total)"
    using contents_ok(1) [of bs files frs] contents_ok(2) [of frs bs files] assms(2) by (auto simp: dir_ok_def opened_dir_def frs_def)
  have rest: "dir_rest (opened_dir ?q ?total) = concat ?q" by (simp add: dir_rest_def opened_dir_def)
  have "\<exists>st st'. Dir_Read m (opened_dir ?q ?total) = Some (take m (concat ?q), st) \<and> Dir_Read n st = Some (take n (drop m (concat ?q)), st')" for m n
    using dir_read_spec [OF ok, of m "[]"] dir_read_spec [of _ n "[]"] unfolding rest Dir_Read_def by fastforce
  ultimately show ?thesis by blast
qed

lemma text_dir_single_reader_witness:
  "\<exists>frs total. Dir_Open 1 0 4 True (map length [''ab'', ''c'']) = Some (frs, total) \<and>
    squeeze (concat (dir_contents 4 [''ab'', ''c''] frs)) = squeeze (concat (map with_nl [''ab'', ''c''])) \<and>
    (\<forall>m n. \<exists>st st'. Dir_Read m (opened_dir (dir_contents 4 [''ab'', ''c''] frs) total) = Some (take m (concat (dir_contents 4 [''ab'', ''c''] frs)), st) \<and>
      Dir_Read n st = Some (take n (drop m (concat (dir_contents 4 [''ab'', ''c''] frs))), st'))"
  by (rule text_dir_single_reader) simp_all

lemma dir_plan_parts:
  assumes "length sizes div n = 0" "map (\<lambda>i. sizes ! i) [0..<length sizes mod n] = ss"
    and "file_block_start bs 0 ss = starts" "(last starts + n - 1) div n = k"
    and "start_file starts (k * r) = sf" "end_file starts (k * (r + 1)) = ef"
    and "List.map_filter (left_over_part bs sizes 0 starts (k * r) (k * (r + 1)) sf ef) [sf..<ef] = parts"
  shows "dir_plan n r bs True sizes = (parts, (2 ^ 64 + ef - sf) mod 2 ^ 64)"
  using assms by (simp add: dir_plan_def Let_def)

lemmas plan_steps = start_file_def end_file_def upper_bound_def lower_bound_def left_over_part_def Let_def
  List.map_filter_simps upt_rec_numeral upt_conv_Cons

text \<open>
  An empty file among those that are cut makes a reader wait for ever: it is counted but never
  given to the read stage. Here the second of four readers shares three files of three, no and three
  bytes in blocks of one byte; and when the only file is empty the count of the second of two readers
  wraps around.
\<close>

lemma text_dir_empty_file_waits:
  "(\<exists>frs. Dir_Open 4 1 1 True [3, 0, 3] = Some (frs, 3) \<and> length frs = 2 \<and>
      Dir_Read 100 (opened_dir (dir_contents 1 [''abc'', [], ''xyz''] frs) 3) = None) \<and>
   Dir_Open 2 1 1 True [0] = Some ([], 2 ^ 64 - 1)"
proof -
  let ?frs = "[\<lparr>fr_path = 0, fr_off = 2, fr_size = 1\<rparr>, \<lparr>fr_path = 2, fr_off = 0, fr_size = 1\<rparr>]"
  have "Dir_Open 4 1 1 True [3, 0, 3] = Some (?frs, 3)"
    using dir_plan_parts [of "[3, 0, 3]" 4 "[3, 0, 3]" 1 "[0, 3, 3, 6]" 2 1 0 3 ?frs]
    by (simp add: Dir_Open_def) (simp add: plan_steps)
  moreover have "length (concat (dir_contents 1 [''abc'', [], ''xyz''] ?frs)) < 100"
    by code_simp
  then have "Dir_Read 100 (opened_dir (dir_contents 1 [''abc'', [], ''xyz''] ?frs) 3) = None"
    using contents_ok(1) [of 1 "[''abc'', [], ''xyz'']" ?frs]
    by (simp add: Dir_Read_def dir_read_waits opened_dir_def dir_rest_def)
  moreover have "Dir_Open 2 1 1 True [0] = Some ([], 2 ^ 64 - 1)"
    by (simp add: Dir_Open_def dir_plan_def Let_def start_file_def end_file_def upper_bound_def lower_bound_def)
  ultimately show ?thesis by auto
qed

text \<open>The empty line at the place where a file is cut is lost.\<close>

lemma cut_loses_empty_line:
  "concat (map (\<lambda>r. file_text 2 [[CHR ''a'', CHR 0x0A, CHR 0x0A, CHR ''b'']] 0 (fst (dir_plan 2 r 2 True [4]))) [0..<2]) =
    [CHR ''a'', CHR 0x0A, CHR ''b'', CHR 0x0A]"
proof -
  have "fst (dir_plan 2 0 2 True [4]) = [\<lparr>fr_path = 0, fr_off = 0, fr_size = 2\<rparr>]"
    "fst (dir_plan 2 1 2 True [4]) = [\<lparr>fr_path = 0, fr_off = 2, fr_size = 2\<rparr>]"
    using dir_plan_parts [of "[4]" 2 "[4]" 2 "[0, 2]" 1 0 0 1] dir_plan_parts [of "[4]" 2 "[4]" 2 "[0, 2]" 1 1 0 1]
    by (simp_all add: plan_steps)
  moreover have "file_text 2 [[CHR ''a'', CHR 0x0A, CHR 0x0A, CHR ''b'']] 0 [\<lparr>fr_path = 0, fr_off = 0, fr_size = 2\<rparr>] = [CHR ''a'', CHR 0x0A]"
    "file_text 2 [[CHR ''a'', CHR 0x0A, CHR 0x0A, CHR ''b'']] 0 [\<lparr>fr_path = 0, fr_off = 2, fr_size = 2\<rparr>] = [CHR ''b'', CHR 0x0A]"
    by code_simp+
  ultimately show ?thesis by (simp add: numeral_2_eq_2)
qed

end
