(* ===== verification/Arg_Options.thy ===== *)
theory Arg_Options
  imports String_Util "HOL-Library.List_Lexorder" "HOL-Library.Char_ord"
begin

text \<open>
  \<^verbatim>\<open>option.h\<close>: one option of a command line or a configuration file, with its default, bounds and
  possible values, its check and its help text. The template parameter is one of the types that have a
  parser of their own, and a value carries its type. An \<^verbatim>\<open>OptionRef\<close> writes its value to a
  variable of the caller, which is a component of the option here.
\<close>

section \<open>Values\<close>

datatype opt_type = T_bool | T_int | T_string

datatype opt_value = V_bool bool | V_int int | V_string string

fun value_key :: "opt_value \<Rightarrow> nat \<times> int \<times> string" where
  "value_key (V_bool b) = (0, of_bool b, [])"
| "value_key (V_int n) = (1, n, [])"
| "value_key (V_string s) = (2, 0, s)"

lemma value_key_inject: "value_key x = value_key y \<longleftrightarrow> x = y"
  by (cases x; cases y) auto

text \<open>The order of the values of each type: \<^verbatim>\<open>false\<close> before \<^verbatim>\<open>true\<close>, strings by their bytes.\<close>

instantiation opt_value :: linorder
begin

definition less_eq_opt_value :: "opt_value \<Rightarrow> opt_value \<Rightarrow> bool" where
  "less_eq_opt_value x y \<longleftrightarrow>
     (case (value_key x, value_key y) of ((a, b, c), (a', b', c')) \<Rightarrow>
        a < a' \<or> a = a' \<and> (b < b' \<or> b = b' \<and> c \<le> c'))"

definition less_opt_value :: "opt_value \<Rightarrow> opt_value \<Rightarrow> bool" where
  "less_opt_value x y \<longleftrightarrow> x \<le> y \<and> \<not> y \<le> x"

instance
  by standard
     (auto simp: less_opt_value_def less_eq_opt_value_def split: prod.splits simp flip: value_key_inject)

end

lemma value_order [simp]:
  "V_bool a < V_bool b \<longleftrightarrow> \<not> a \<and> b" "V_int m < V_int n \<longleftrightarrow> m < n" "V_string s < V_string t \<longleftrightarrow> s < t"
  by (auto simp: less_opt_value_def less_eq_opt_value_def)

text \<open>\<^verbatim>\<open>sscanf\<close> with \<^verbatim>\<open>"%d"\<close>, as the C library reads it: the digits in 64 bits, cut off at the bounds, and
  the lower half of the result.\<close>

definition clamp64 :: "int \<Rightarrow> int" where
  "clamp64 n = max (- (2 ^ 63)) (min (2 ^ 63 - 1) n)"

definition to_int32 :: "int \<Rightarrow> int" where
  "to_int32 n = (n + 2 ^ 31) mod 2 ^ 32 - 2 ^ 31"

definition scan_int :: "string \<Rightarrow> int option" where
  "scan_int str =
     (let s = dropWhile (\<lambda>c. IsIn c (map char_of [9, 10, 11, 12, 13, 32 :: nat])) str;
          neg = (s \<noteq> [] \<and> hd s = CHR ''-'');
          s = (if s \<noteq> [] \<and> (hd s = CHR ''-'' \<or> hd s = CHR ''+'') then tl s else s);
          ds = takeWhile IsDigits s;
          n = foldl (\<lambda>n c. 10 * n + (schar c - 48)) 0 ds
      in if ds = [] then None else Some (to_int32 (clamp64 (if neg then - n else n))))"

fun ParseString :: "opt_type \<Rightarrow> string \<Rightarrow> opt_value option" where
  "ParseString T_bool str = map_option V_bool (ParseString_bool str)"
| "ParseString T_int str = map_option V_int (scan_int str)"
| "ParseString T_string str = map_option V_string (ParseString_string str)"

text \<open>\<^verbatim>\<open>ToString\<close>, undefined for the least integer.\<close>

fun print_value :: "opt_value \<Rightarrow> string option" where
  "print_value (V_bool b) = Some (if b then ''1'' else ''0'')"
| "print_value (V_int n) = PrintSigned 32 n"
| "print_value (V_string s) = Some s"

definition print_values :: "opt_value list \<Rightarrow> string option" where
  "print_values vs =
     (if \<exists>v \<in> set vs. print_value v = None then None
      else Some (ContainerPrinter (\<lambda>v. the (print_value v)) vs))"

section \<open>Options\<close>

text \<open>\<open>co_value\<close> is \<^const>\<open>None\<close> while it is uninitialised; \<open>co_ref\<close> is the variable of an \<^verbatim>\<open>OptionRef\<close>.
  The possible values are a \<^verbatim>\<open>std::set\<close>, so they are sorted and without duplicates.\<close>

record cmd_option =
  co_type :: opt_type
  co_keys :: "string list"
  co_value_string :: "string option"
  co_preserve :: bool
  co_min :: "opt_value option"
  co_max :: "opt_value option"
  co_default :: "opt_value option"
  co_comment :: string
  co_possible :: "opt_value list"
  co_checked :: bool
  co_value :: "opt_value option"
  co_ref :: "opt_value option"

definition Option :: "opt_type \<Rightarrow> string list \<Rightarrow> cmd_option" where
  "Option t keys = \<lparr>co_type = t, co_keys = keys, co_value_string = None, co_preserve = False, co_min = None,
     co_max = None, co_default = None, co_comment = [], co_possible = [], co_checked = False,
     co_value = None, co_ref = None\<rparr>"

definition OptionRef :: "opt_type \<Rightarrow> opt_value \<Rightarrow> string list \<Rightarrow> cmd_option" where
  "OptionRef t v keys = (Option t keys)\<lparr>co_ref := Some v\<rparr>"

definition SetPreserve :: "bool \<Rightarrow> cmd_option \<Rightarrow> cmd_option" where
  "SetPreserve p opt = opt\<lparr>co_preserve := p\<rparr>"

definition SetDefault :: "opt_value \<Rightarrow> cmd_option \<Rightarrow> cmd_option" where
  "SetDefault v opt = opt\<lparr>co_default := Some v\<rparr>"

definition SetMin :: "opt_value \<Rightarrow> cmd_option \<Rightarrow> cmd_option" where
  "SetMin v opt = opt\<lparr>co_min := Some v\<rparr>"

definition SetMax :: "opt_value \<Rightarrow> cmd_option \<Rightarrow> cmd_option" where
  "SetMax v opt = opt\<lparr>co_max := Some v\<rparr>"

definition SetPossibleValues :: "opt_value list \<Rightarrow> cmd_option \<Rightarrow> cmd_option" where
  "SetPossibleValues vs opt = opt\<lparr>co_possible := foldr insort_insert vs (co_possible opt)\<rparr>"

definition Comment :: "string \<Rightarrow> cmd_option \<Rightarrow> cmd_option" where
  "Comment msg opt = opt\<lparr>co_comment := msg\<rparr>"

definition SetValueString :: "string \<Rightarrow> cmd_option \<Rightarrow> cmd_option" where
  "SetValueString v opt = opt\<lparr>co_value_string := Some v\<rparr>"

text \<open>The loop of \<^verbatim>\<open>StrKeys\<close>.\<close>

fun str_keys_loop :: "bool \<Rightarrow> string list \<Rightarrow> string" where
  "str_keys_loop first [] = []"
| "str_keys_loop first (k # ks) = (if first then [] else '' ,'') @ k @ str_keys_loop False ks"

definition StrKeys :: "cmd_option \<Rightarrow> string" where
  "StrKeys opt = ''('' @ str_keys_loop True (co_keys opt) @ '')''"

datatype opt_error = NoValueString string | NotParsed string | Required
  | LessThanMin opt_value opt_value | LargerThanMax opt_value opt_value | NotPossible string

definition ValueString :: "cmd_option \<Rightarrow> opt_error + string" where
  "ValueString opt = (case co_value_string opt of None \<Rightarrow> Inl (NoValueString (StrKeys opt)) | Some s \<Rightarrow> Inr s)"

section \<open>Checking\<close>

definition SetValueRef :: "opt_value \<Rightarrow> cmd_option \<Rightarrow> cmd_option" where
  "SetValueRef v opt = (case co_ref opt of None \<Rightarrow> opt | Some _ \<Rightarrow> opt\<lparr>co_ref := Some v\<rparr>)"

definition below_min :: "opt_value \<Rightarrow> cmd_option \<Rightarrow> bool" where
  "below_min v opt \<longleftrightarrow> (case co_min opt of None \<Rightarrow> False | Some m \<Rightarrow> v < m)"

definition above_max :: "opt_value \<Rightarrow> cmd_option \<Rightarrow> bool" where
  "above_max v opt \<longleftrightarrow> (case co_max opt of None \<Rightarrow> False | Some m \<Rightarrow> v > m)"

text \<open>The tests on a value: the error they throw, if any, and the option they leave.\<close>

definition check_value :: "opt_value \<Rightarrow> cmd_option \<Rightarrow> opt_error option \<times> cmd_option" where
  "check_value v opt =
     (if below_min v opt then (Some (LessThanMin (the (co_min opt)) v), opt)
      else if above_max v opt then (Some (LargerThanMax (the (co_max opt)) v), opt)
      else if co_possible opt \<noteq> [] \<and> v \<notin> set (co_possible opt) then
        (case ValueString opt of Inl e \<Rightarrow> (Some e, opt) | Inr s \<Rightarrow> (Some (NotPossible s), opt))
      else (None, SetValueRef v opt))"

definition Check :: "cmd_option \<Rightarrow> opt_error option \<times> cmd_option" where
  "Check opt =
     (if co_checked opt then (None, opt)
      else
        let opt = opt\<lparr>co_checked := True\<rparr>;
            opt = (case co_default opt of None \<Rightarrow> opt | Some d \<Rightarrow> opt\<lparr>co_value := Some d\<rparr>)
        in case co_value_string opt of
             Some str \<Rightarrow>
               (case ParseString (co_type opt) str of
                  None \<Rightarrow> (Some (NotParsed str), opt)
                | Some v \<Rightarrow> check_value v (opt\<lparr>co_value := Some v\<rparr>))
           | None \<Rightarrow>
               (case co_default opt of None \<Rightarrow> (Some Required, opt) | Some d \<Rightarrow> check_value d opt))"

text \<open>\<^verbatim>\<open>Value\<close>; the result \<^const>\<open>None\<close> is an uninitialised value.\<close>

definition Value :: "cmd_option \<Rightarrow> (opt_error + opt_value option) \<times> cmd_option" where
  "Value opt = (case Check opt of (Some e, opt) \<Rightarrow> (Inl e, opt) | (None, opt) \<Rightarrow> (Inr (co_value opt), opt))"

section \<open>The help text\<close>

text \<open>\<^verbatim>\<open>GetComment\<close>.\<close>

definition GetComment :: "cmd_option \<Rightarrow> string option" where
  "GetComment opt =
     (let ret = co_comment opt;
          ret = (if ret \<noteq> [] \<and> last ret \<noteq> CHR ''.'' then ret @ ''.'' else ret)
      in Option.bind
           (case co_default opt of
              None \<Rightarrow> Some ret
            | Some d \<Rightarrow> map_option (\<lambda>s. (if ret \<noteq> [] then ret @ '' '' else ret) @ ''Default='' @
                            (if s = [] then [CHR 0x22, CHR 0x22] else s) @ ''. '') (print_value d))
           (\<lambda>ret. if co_possible opt = [] then Some ret
             else map_option (\<lambda>s. (if ret \<noteq> [] then ret @ '' '' else ret) @ ''Possible values: '' @ s)
                    (print_values (co_possible opt))))"

text \<open>\<^verbatim>\<open>find_last_of(' ', p) + 1\<close>, which is 0 when there is none.\<close>

definition after_last_blank :: "string \<Rightarrow> nat \<Rightarrow> nat" where
  "after_last_blank str p = length (dropWhile (\<lambda>c. c \<noteq> CHR '' '') (rev (take (p + 1) str)))"

definition break_point :: "nat \<Rightarrow> string \<Rightarrow> nat \<Rightarrow> nat" where
  "break_point width comment start =
     (if start + width < length comment then
        let bp = after_last_blank comment (start + width)
        in if bp \<le> start then min (start + width) (length comment) else bp
      else length comment)"

text \<open>The loop that breaks the comment into lines; with a width of 0 it may not end.\<close>

partial_function (option) wrap_comment :: "nat \<Rightarrow> nat \<Rightarrow> string \<Rightarrow> nat \<Rightarrow> string \<Rightarrow> string option" where
  "wrap_comment width indent comment start ret =
     (if start < length comment then
        let bp = break_point width comment start;
            ret = ret @ take (bp - start) (drop start comment)
        in wrap_comment width indent comment bp
             (if bp < length comment then ret @ [CHR 0x0A] @ replicate indent (CHR '' '') else ret)
      else Some ret)"

fun option_names :: "string list \<Rightarrow> string \<times> string \<Rightarrow> string \<times> string" where
  "option_names [] names = names"
| "option_names (key # keys) (short_option, long_option) =
     option_names keys (if length key = 1 then (''-'' @ key, long_option) else (short_option, ''--'' @ key))"

definition help_head :: "nat \<Rightarrow> nat \<Rightarrow> cmd_option \<Rightarrow> string" where
  "help_head space_before options_width opt =
     (let (short_option, long_option) = option_names (co_keys opt) ([], []);
          ret = replicate space_before (CHR '' '') @ short_option @
                (if long_option \<noteq> [] then (if short_option \<noteq> [] then '', '' else []) @ long_option else [])
      in if length ret \<le> space_before + options_width
         then ret @ replicate (space_before + options_width - length ret) (CHR '' '')
         else ret @ [CHR 0x0A] @ replicate (space_before + options_width) (CHR '' ''))"

definition HelpString :: "nat \<Rightarrow> nat \<Rightarrow> nat \<Rightarrow> cmd_option \<Rightarrow> string option" where
  "HelpString space_before options_width comment_width opt =
     Option.bind (GetComment opt) (\<lambda>comment.
       wrap_comment comment_width (space_before + options_width) comment 0
         (help_head space_before options_width opt))"

section \<open>Properties\<close>

lemma break_point_bounds:
  assumes "0 < width" "start < length comment"
  shows "start < break_point width comment start" "break_point width comment start \<le> length comment"
    "break_point width comment start \<le> start + width + 1"
proof -
  have "after_last_blank comment (start + width) \<le> start + width + 1" "after_last_blank comment (start + width) \<le> length comment"
    using length_dropWhile_le [of "\<lambda>c. c \<noteq> CHR '' ''" "rev (take (start + width + 1) comment)"]
    by (simp_all add: after_last_blank_def)
  then show "start < break_point width comment start" "break_point width comment start \<le> length comment"
    "break_point width comment start \<le> start + width + 1"
    using assms by (auto simp: break_point_def Let_def)
qed

fun joined_lines :: "string \<Rightarrow> string list \<Rightarrow> string" where
  "joined_lines sep [] = []"
| "joined_lines sep [x] = x"
| "joined_lines sep (x # y # ys) = x @ sep @ joined_lines sep (y # ys)"

lemma wrap_comment_spec:
  assumes "0 < width"
  shows "start \<le> length comment \<Longrightarrow> \<exists>ls. wrap_comment width indent comment start ret =
      Some (ret @ joined_lines (CHR 0x0A # replicate indent (CHR '' '')) ls) \<and> concat ls = drop start comment \<and>
    (\<forall>l \<in> set ls. l \<noteq> [] \<and> length l \<le> width + 1)"
proof (induction "length comment - start" arbitrary: start ret rule: less_induct)
  case less
  let ?sep = "CHR 0x0A # replicate indent (CHR '' '')"
  show ?case
  proof (cases "start < length comment")
    case False
    then show ?thesis by (subst wrap_comment.simps) (auto intro: exI [of _ "[]"])
  next
    case True
    define bp where "bp = break_point width comment start"
    note b = break_point_bounds [OF assms True, folded bp_def]
    let ?l = "take (bp - start) (drop start comment)"
    let ?ret = "if bp < length comment then (ret @ ?l) @ ?sep else ret @ ?l"
    have cut: "?l @ drop bp comment = drop start comment"
      using b(1) by (metis append_take_drop_id drop_drop le_add_diff_inverse2 less_imp_le)
    have l: "?l \<noteq> []" "length ?l \<le> width + 1" using b True by auto
    obtain ls where ls: "wrap_comment width indent comment bp ?ret = Some (?ret @ joined_lines ?sep ls)"
      "concat ls = drop bp comment" "\<forall>l \<in> set ls. l \<noteq> [] \<and> length l \<le> width + 1"
      using less(1) [of bp ?ret] b True by (metis diff_less_mono2)
    have "concat ls = [] \<longleftrightarrow> ls = []" using ls(3) by (cases ls) auto
    then have "ls = [] \<longleftrightarrow> \<not> bp < length comment" by (simp add: ls(2) not_less)
    then have "?ret @ joined_lines ?sep ls = ret @ joined_lines ?sep (?l # ls)"
      by (cases ls) auto
    moreover have "wrap_comment width indent comment start ret = wrap_comment width indent comment bp ?ret"
      by (subst wrap_comment.simps) (simp only: Let_def bp_def [symmetric] True if_True append_assoc append_Cons append_Nil)
    ultimately have "wrap_comment width indent comment start ret = Some (ret @ joined_lines ?sep (?l # ls))"
      using ls(1) by simp
    then show ?thesis using ls(2,3) l cut by (intro exI [of _ "?l # ls"]) simp
  qed
qed

text \<open>
  The help text of an option is complete and well laid out: for every line width but 0 it ends (with a
  text unless printing a bound value is undefined), it is the names of the option followed by
  lines that together are exactly the comment, and no line is longer than the width and the blank at
  which it was broken.
\<close>

lemma help_text_wrapped:
  assumes "0 < comment_width" "GetComment opt = Some comment"
  shows "\<exists>ls. HelpString space_before options_width comment_width opt =
      Some (help_head space_before options_width opt @
            joined_lines (CHR 0x0A # replicate (space_before + options_width) (CHR '' '')) ls) \<and>
    concat ls = comment \<and> (\<forall>l \<in> set ls. l \<noteq> [] \<and> length l \<le> comment_width + 1)"
  using wrap_comment_spec [OF assms(1), of 0 comment "space_before + options_width" "help_head space_before options_width opt"]
  by (simp add: HelpString_def assms(2))

lemma help_text_wrapped_witness:
  "\<exists>ls. HelpString 4 20 56 (Comment ''Print'' (Option T_bool [''help'', ''h''])) =
      Some (help_head 4 20 (Comment ''Print'' (Option T_bool [''help'', ''h''])) @
            joined_lines (CHR 0x0A # replicate (4 + 20) (CHR '' '')) ls) \<and>
    concat ls = ''Print.'' \<and> (\<forall>l \<in> set ls. l \<noteq> [] \<and> length l \<le> 56 + 1)"
  by (rule help_text_wrapped) (simp_all add: GetComment_def Comment_def Option_def)

definition acceptable :: "cmd_option \<Rightarrow> opt_value \<Rightarrow> bool" where
  "acceptable opt v \<longleftrightarrow> \<not> below_min v opt \<and> \<not> above_max v opt \<and> (co_possible opt = [] \<or> v \<in> set (co_possible opt))"

text \<open>The value an option is given: its value string parsed, or its default.\<close>

definition given_value :: "cmd_option \<Rightarrow> opt_value option" where
  "given_value opt = (case co_value_string opt of Some str \<Rightarrow> ParseString (co_type opt) str | None \<Rightarrow> co_default opt)"

lemma check_value_None:
  "fst (check_value v opt) = None \<longleftrightarrow> acceptable opt v"
  "acceptable opt v \<Longrightarrow> snd (check_value v opt) = SetValueRef v opt"
  by (auto simp: check_value_def acceptable_def split: sum.splits)

lemma SetValueRef_simps [simp]: "co_value (SetValueRef v opt) = co_value opt"
    "co_checked (SetValueRef v opt) = co_checked opt"
    "co_ref (SetValueRef v opt) = map_option (\<lambda>_. v) (co_ref opt)"
  by (auto simp: SetValueRef_def split: option.splits)

lemma acceptable_cong [simp]: "acceptable (opt\<lparr>co_value := x\<rparr>) v = acceptable opt v"
    "acceptable (opt\<lparr>co_checked := y\<rparr>) v = acceptable opt v"
  by (simp_all add: acceptable_def below_min_def above_max_def)

text \<open>
  The check of an option that was not checked before succeeds exactly when the option has a value,
  from its value string or else from its default, that parses, lies between the bounds and is one of the
  possible values; then \<^verbatim>\<open>Value\<close> is this value, now and at every later call, and the variable
  of an \<^verbatim>\<open>OptionRef\<close> holds it.
\<close>

lemma option_check:
  "(if co_checked opt then Check opt = (None, opt)
    else case given_value opt of
      None \<Rightarrow> fst (Check opt) \<noteq> None
    | Some v \<Rightarrow>
        if acceptable opt v
        then \<exists>opt'. Check opt = (None, opt') \<and> Value opt = (Inr (Some v), opt') \<and> Value opt' = (Inr (Some v), opt') \<and>
          co_ref opt' = map_option (\<lambda>_. v) (co_ref opt)
        else fst (Check opt) \<noteq> None)"
proof (cases "co_checked opt")
  case True
  then show ?thesis by (simp add: Check_def)
next
  case False
  define o1 where "o1 = opt\<lparr>co_checked := True\<rparr>"
  define o2 where "o2 = (case co_default opt of None \<Rightarrow> o1 | Some d \<Rightarrow> o1\<lparr>co_value := Some d\<rparr>)"
  have o2: "co_checked o2" "co_ref o2 = co_ref opt" for v x
    by (auto simp: o2_def o1_def split: option.splits)
  have "acceptable o1 v = acceptable opt v" for v unfolding o1_def by simp
  then have acc2: "acceptable o2 v = acceptable opt v" for v by (simp add: o2_def split: option.splits)
  have check: "Check opt = (case co_value_string opt of
      Some str \<Rightarrow> (case ParseString (co_type opt) str of None \<Rightarrow> (Some (NotParsed str), o2) | Some v \<Rightarrow> check_value v (o2\<lparr>co_value := Some v\<rparr>))
    | None \<Rightarrow> (case co_default opt of None \<Rightarrow> (Some Required, o2) | Some d \<Rightarrow> check_value d o2))"
    using False by (auto simp: Check_def o1_def o2_def Let_def split: option.splits)
  show ?thesis
  proof (cases "given_value opt")
    case None
    then show ?thesis using False by (auto simp: check given_value_def split: option.splits)
  next
    case (Some v)
    then have c: "Check opt = check_value v (o2\<lparr>co_value := Some v\<rparr>)"
      unfolding check given_value_def by (auto simp: o2_def split: option.splits)
    have acc: "acceptable (o2\<lparr>co_value := Some v\<rparr>) v = acceptable opt v" by (simp add: acc2)
    show ?thesis
    proof (cases "acceptable opt v")
      case True
      let ?o = "SetValueRef v (o2\<lparr>co_value := Some v\<rparr>)"
      have "Check opt = (None, ?o)"
        using check_value_None [where v = v and opt = "o2\<lparr>co_value := Some v\<rparr>"] True acc by (simp add: c prod_eq_iff)
      moreover have "Check ?o = (None, ?o)" by (simp add: Check_def o2)
      ultimately show ?thesis using False Some True by (auto simp: Value_def o2)
    next
      case f: False
      then show ?thesis
        using check_value_None(1) [of v "o2\<lparr>co_value := Some v\<rparr>"] acc False Some by (simp add: c)
    qed
  qed
qed

text \<open>A check that has failed is not repeated: the second \<^verbatim>\<open>Value\<close> of a required option returns an
  uninitialised value, and of an option out of its bounds the value that was refused.\<close>

lemma failed_check_forgotten:
  "(let opt = Option T_int [''size'']; (r1, opt) = Value opt; (r2, opt) = Value opt in r1 = Inl Required \<and> r2 = Inr None) \<and>
   (let opt = SetValueString ''9'' (SetMax (V_int 5) (Option T_int [''size''])); (r1, opt) = Value opt; (r2, opt) = Value opt
    in r1 = Inl (LargerThanMax (V_int 5) (V_int 9)) \<and> r2 = Inr (Some (V_int 9)))"
  by code_simp

end
