(* ===== verification/Arg_Parser.thy ===== *)
theory Arg_Parser
  imports Arg_Options
begin

text \<open>
  \<^verbatim>\<open>configuration.h\<close>: the options of a program, the parser of its command line and the final check. An
  option object is its place in \<open>cf_heap\<close>, to which the names, the positions and the list of all options
  refer; the configurations added as children are owned by their parent. Reading JSON is left out.
\<close>

section \<open>Configurations\<close>

record config =
  cf_heap :: "cmd_option list"
  cf_named :: "string \<rightharpoonup> nat"
  cf_positional :: "nat list"
  cf_bool :: "string set"
  cf_index :: nat
  cf_options :: "nat list"
  cf_builtin_help :: bool
  cf_exit_after_help :: bool

datatype config_error =
    NameDuplicated string
  | ChildDuplicated string
  | Unrecognized string
  | ValueMissing string
  | NameNotFound string
  | PositionNotFound nat
  | FailedOption string opt_error
  | FailedValue opt_error
  | FailedChild string config_error

text \<open>The loop over the keys in \<^verbatim>\<open>AddOption\<close>: the names that were entered before a duplicate stay.\<close>

fun add_names :: "nat \<Rightarrow> string list \<Rightarrow> (string \<rightharpoonup> nat) \<Rightarrow> config_error option \<times> (string \<rightharpoonup> nat)" where
  "add_names i [] m = (None, m)"
| "add_names i (key # keys) m =
     (case m key of None \<Rightarrow> add_names i keys (m(key \<mapsto> i)) | Some _ \<Rightarrow> (Some (NameDuplicated key), m))"

definition AddOption :: "cmd_option \<Rightarrow> config \<Rightarrow> (config_error + nat) \<times> config" where
  "AddOption opt c =
     (let i = length (cf_heap c); c = c\<lparr>cf_heap := cf_heap c @ [opt]\<rparr> in
      if co_keys opt = []
      then (Inr i, c\<lparr>cf_positional := cf_positional c @ [i], cf_options := cf_options c @ [i]\<rparr>)
      else case add_names i (co_keys opt) (cf_named c) of
             (Some e, m) \<Rightarrow> (Inl e, c\<lparr>cf_named := m\<rparr>)
           | (None, m) \<Rightarrow> (Inr i, c\<lparr>cf_named := m, cf_options := cf_options c @ [i]\<rparr>))"

definition update_option :: "nat \<Rightarrow> (cmd_option \<Rightarrow> cmd_option) \<Rightarrow> config \<Rightarrow> config" where
  "update_option i f c = c\<lparr>cf_heap := (cf_heap c)[i := f (cf_heap c ! i)]\<rparr>"

definition no_options :: config where
  "no_options = \<lparr>cf_heap = [], cf_named = Map.empty, cf_positional = [], cf_bool = {}, cf_index = 0,
     cf_options = [], cf_builtin_help = False, cf_exit_after_help = True\<rparr>"

text \<open>\<^verbatim>\<open>Add\<close> and \<^verbatim>\<open>AddBinary\<close>, without and with a variable of the caller; the keys are separated by
  commas.\<close>

definition Add :: "opt_type \<Rightarrow> string \<Rightarrow> config \<Rightarrow> (config_error + nat) \<times> config" where
  "Add t option_str c = AddOption (Option t (Split_by option_str '','')) c"

definition Add_ref :: "opt_type \<Rightarrow> opt_value \<Rightarrow> string \<Rightarrow> bool \<Rightarrow> config \<Rightarrow> (config_error + nat) \<times> config" where
  "Add_ref t v option_str has_default c =
     (let opt = OptionRef t v (Split_by option_str '','')
      in AddOption (if has_default then SetDefault v opt else opt) c)"

definition add_binary :: "cmd_option \<Rightarrow> config \<Rightarrow> (config_error + nat) \<times> config" where
  "add_binary opt c =
     (case AddOption opt c of
        (Inl e, c) \<Rightarrow> (Inl e, c)
      | (Inr i, c) \<Rightarrow> (Inr i, c\<lparr>cf_bool := cf_bool c \<union> set (co_keys opt)\<rparr>))"

definition AddBinary :: "string \<Rightarrow> config \<Rightarrow> (config_error + nat) \<times> config" where
  "AddBinary option_str c = add_binary (SetDefault (V_bool False) (Option T_bool (Split_by option_str '',''))) c"

definition AddBinary_ref :: "bool \<Rightarrow> string \<Rightarrow> bool \<Rightarrow> config \<Rightarrow> (config_error + nat) \<times> config" where
  "AddBinary_ref v option_str has_default c =
     add_binary (SetDefault (V_bool (if has_default then v else False))
       (OptionRef T_bool (V_bool v) (Split_by option_str '',''))) c"

definition Configuration_new :: config where
  "Configuration_new =
     (case Add T_string [] no_options of
        (Inr i, c) \<Rightarrow> update_option i (SetPreserve True \<circ> SetDefault (V_string ''Unknown'')) c
      | (Inl _, c) \<Rightarrow> c)"

section \<open>Parsing a command line\<close>

definition dash :: "string \<Rightarrow> bool" where
  "dash arg \<longleftrightarrow> arg \<noteq> [] \<and> hd arg = CHR ''-''"

definition key_str :: "string \<Rightarrow> string" where
  "key_str arg = (if dash (tl arg) then tl (tl arg) else tl arg)"

text \<open>The loop over \<^verbatim>\<open>argv\<close> on the arguments with their flags in \<^verbatim>\<open>taken\<close>. The result is an error
  or the new flags.\<close>

fun keep_flags :: "bool list \<Rightarrow> (config_error + bool list) \<times> config \<Rightarrow> (config_error + bool list) \<times> config" where
  "keep_flags fs (Inl e, c) = (Inl e, c)"
| "keep_flags fs (Inr gs, c) = (Inr (fs @ gs), c)"

fun parse_args :: "bool \<Rightarrow> (string \<times> bool) list \<Rightarrow> config \<Rightarrow> (config_error + bool list) \<times> config" where
  "parse_args permissive [] c = (Inr [], c)"
| "parse_args permissive ((arg, True) # rest) c = keep_flags [True] (parse_args permissive rest c)"
| "parse_args permissive ((arg, False) # rest) c =
     (if dash arg then
        case cf_named c (key_str arg) of
          None \<Rightarrow>
            if permissive then
              (case rest of
                 [] \<Rightarrow> keep_flags [False] (parse_args permissive rest c)
               | (arg2, f2) # rest2 \<Rightarrow>
                   if \<not> dash arg2 then keep_flags [False, f2] (parse_args permissive rest2 c)
                   else keep_flags [False] (parse_args permissive rest c))
            else (Inl (Unrecognized arg), c)
        | Some i \<Rightarrow>
            let p = co_preserve (cf_heap c ! i) in
            if key_str arg \<notin> cf_bool c then
              (case rest of
                 [] \<Rightarrow> (Inl (ValueMissing arg), c)
               | (arg2, f2) # rest2 \<Rightarrow>
                   keep_flags (if p then [False, f2] else [True, True])
                     (parse_args permissive rest2 (update_option i (SetValueString arg2) c)))
            else keep_flags [\<not> p] (parse_args permissive rest (update_option i (SetValueString ''true'') c))
      else if cf_index c \<ge> length (cf_positional c) then keep_flags [False] (parse_args permissive rest c)
      else
        let i = cf_positional c ! cf_index c; c = c\<lparr>cf_index := cf_index c + 1\<rparr>
        in keep_flags [\<not> co_preserve (cf_heap c ! i)]
             (parse_args permissive rest (update_option i (SetValueString arg) c)))"

definition add_help :: "config \<Rightarrow> config_error option \<times> config" where
  "add_help c =
     (if cf_named c ''help'' = None then
        (case AddBinary ''help,h'' c of
           (Inl e, c) \<Rightarrow> (Some e, c)
         | (Inr i, c) \<Rightarrow>
             (None, (update_option i (SetPreserve True \<circ> SetDefault (V_bool False) \<circ> Comment ''Print this help message'') c)
                      \<lparr>cf_builtin_help := True\<rparr>))
      else (None, c))"

definition Parse :: "string list \<Rightarrow> bool \<Rightarrow> bool list \<Rightarrow> config \<Rightarrow> (config_error + bool list) \<times> config" where
  "Parse argv permissive taken c =
     (case add_help c of
        (Some e, c) \<Rightarrow> (Inl e, c)
      | (None, c) \<Rightarrow>
          parse_args permissive (zip argv (if taken = [] then replicate (length argv) False else taken)) c)"

text \<open>The arguments that are left.\<close>

definition untaken :: "string list \<Rightarrow> bool list \<Rightarrow> string list" where
  "untaken argv taken = map fst (filter (\<lambda>(a, t). \<not> t) (zip argv taken))"

definition ParseAndRemove :: "string list \<Rightarrow> config \<Rightarrow> (config_error + string list) \<times> config" where
  "ParseAndRemove argv c =
     (case Parse argv True [] c of
        (Inl e, c) \<Rightarrow> (Inl e, c)
      | (Inr taken, c) \<Rightarrow> (Inr (untaken argv taken), c))"

section \<open>Values and the final check\<close>

definition option_value :: "nat \<Rightarrow> config \<Rightarrow> (config_error + opt_value option) \<times> config" where
  "option_value i c =
     (case Value (cf_heap c ! i) of
        (Inl e, opt) \<Rightarrow> (Inl (FailedValue e), update_option i (\<lambda>_. opt) c)
      | (Inr v, opt) \<Rightarrow> (Inr v, update_option i (\<lambda>_. opt) c))"

definition GetValue :: "string \<Rightarrow> config \<Rightarrow> (config_error + opt_value option) \<times> config" where
  "GetValue name c =
     (case cf_named c name of None \<Rightarrow> (Inl (NameNotFound name), c) | Some i \<Rightarrow> option_value i c)"

definition GetValue_at :: "nat \<Rightarrow> config \<Rightarrow> (config_error + opt_value option) \<times> config" where
  "GetValue_at position c =
     (if position \<ge> length (cf_positional c) then (Inl (PositionNotFound position), c)
      else option_value (cf_positional c ! position) c)"

fun check_options :: "nat list \<Rightarrow> config \<Rightarrow> config_error option \<times> config" where
  "check_options [] c = (None, c)"
| "check_options (i # is) c =
     (case Check (cf_heap c ! i) of
        (Some e, opt) \<Rightarrow> (Some (FailedOption (StrKeys opt) e), update_option i (\<lambda>_. opt) c)
      | (None, opt) \<Rightarrow> check_options is (update_option i (\<lambda>_. opt) c))"

text \<open>\<^verbatim>\<open>Finalize\<close> returns, throws or, when the user asked for help, ends the program. The children are
  checked in the order of their prefixes.\<close>

datatype configuration = Configuration config "(string \<times> configuration) list"

datatype finish_result = Finished | Threw config_error | Exited

definition finalize_own :: "config \<Rightarrow> finish_result \<times> config" where
  "finalize_own c =
     (let (h, c) = (if cf_builtin_help c then GetValue ''help'' c else (Inr (Some (V_bool False)), c)) in
      case h of
        Inl e \<Rightarrow> (Threw e, c)
      | Inr v \<Rightarrow>
          if v = Some (V_bool True) \<and> cf_exit_after_help c then (Exited, c)
          else case check_options (cf_options c) c of (Some e, c) \<Rightarrow> (Threw e, c) | (None, c) \<Rightarrow> (Finished, c))"

fun Finalize :: "configuration \<Rightarrow> finish_result \<times> configuration"
  and finalize_children :: "(string \<times> configuration) list \<Rightarrow> finish_result \<times> (string \<times> configuration) list" where
  "Finalize (Configuration c children) =
     (case finalize_own c of
        (Finished, c) \<Rightarrow>
          (case finalize_children children of (r, children) \<Rightarrow> (r, Configuration c children))
      | (r, c) \<Rightarrow> (r, Configuration c children))"
| "finalize_children [] = (Finished, [])"
| "finalize_children ((pfx, child) # rest) =
     (case Finalize child of
        (Finished, child) \<Rightarrow> (case finalize_children rest of (r, rest) \<Rightarrow> (r, (pfx, child) # rest))
      | (Threw e, child) \<Rightarrow> (Threw (FailedChild pfx e), (pfx, child) # rest)
      | (Exited, child) \<Rightarrow> (Exited, (pfx, child) # rest))"

fun AddChild :: "configuration \<Rightarrow> string \<Rightarrow> configuration \<Rightarrow> config_error option \<times> configuration" where
  "AddChild child pfx (Configuration c children) =
     (if pfx \<in> fst ` set children \<or> cf_named c pfx \<noteq> None
      then (Some (ChildDuplicated pfx), Configuration c children)
      else (None, Configuration c (insort_key fst (pfx, child) children)))"

definition ParseAndFinalize :: "string list \<Rightarrow> configuration \<Rightarrow> finish_result \<times> configuration" where
  "ParseAndFinalize argv conf =
     (case conf of Configuration c children \<Rightarrow>
        (case Parse argv False [] c of
           (Inl e, c) \<Rightarrow> (Threw e, Configuration c children)
         | (Inr _, c) \<Rightarrow> Finalize (Configuration c children)))"

text \<open>\<^verbatim>\<open>HelpString\<close> of all options with keys.\<close>

fun help_loop :: "config \<Rightarrow> nat list \<Rightarrow> string option" where
  "help_loop c [] = Some []"
| "help_loop c (i # is) =
     (if co_keys (cf_heap c ! i) = [] then help_loop c is
      else Option.bind (HelpString 4 20 56 (cf_heap c ! i)) (\<lambda>h. map_option (\<lambda>t. h @ [CHR 0x0A] @ t) (help_loop c is)))"

definition HelpString_all :: "config \<Rightarrow> string option" where
  "HelpString_all c = map_option (\<lambda>t. ''Available command line options:'' @ [CHR 0x0A] @ t) (help_loop c (cf_options c))"

section \<open>What a command line means\<close>

text \<open>
  The items of a command line: a key with its value, a flag, a positional argument, and a key that is not
  known with or without a value, which only the permissive mode passes over. Keys take one dash or two.
\<close>

datatype arg_item =
    Keyed bool string string
  | Flag bool string
  | Positional string
  | Foreign string
  | ForeignValue string string

fun key_arg :: "bool \<Rightarrow> string \<Rightarrow> string" where
  "key_arg long key = (if long then ''--'' else ''-'') @ key"

fun render :: "arg_item \<Rightarrow> string list" where
  "render (Keyed long key v) = [key_arg long key, v]"
| "render (Flag long key) = [key_arg long key]"
| "render (Positional v) = [v]"
| "render (Foreign arg) = [arg]"
| "render (ForeignValue arg v) = [arg, v]"

definition key_ok :: "bool \<Rightarrow> string \<Rightarrow> bool" where
  "key_ok long key \<longleftrightarrow> long \<or> \<not> dash key"

fun item_ok :: "bool \<Rightarrow> config \<Rightarrow> arg_item \<Rightarrow> bool" where
  "item_ok permissive c (Keyed long key v) \<longleftrightarrow> key_ok long key \<and> cf_named c key \<noteq> None \<and> key \<notin> cf_bool c"
| "item_ok permissive c (Flag long key) \<longleftrightarrow> key_ok long key \<and> cf_named c key \<noteq> None \<and> key \<in> cf_bool c"
| "item_ok permissive c (Positional v) \<longleftrightarrow> \<not> dash v"
| "item_ok permissive c (Foreign arg) \<longleftrightarrow> permissive \<and> dash arg \<and> cf_named c (key_str arg) = None"
| "item_ok permissive c (ForeignValue arg v) \<longleftrightarrow> permissive \<and> dash arg \<and> cf_named c (key_str arg) = None \<and> \<not> dash v"

text \<open>A foreign key without a value is followed by an argument with a dash or by nothing.\<close>

fun items_ok :: "bool \<Rightarrow> config \<Rightarrow> arg_item list \<Rightarrow> string list \<Rightarrow> bool" where
  "items_ok permissive c [] rest \<longleftrightarrow> True"
| "items_ok permissive c (item # items) rest \<longleftrightarrow>
     item_ok permissive c item \<and> items_ok permissive c items rest \<and>
     (case item of
        Foreign _ \<Rightarrow> (case concat (map render items) @ rest of [] \<Rightarrow> True | a # _ \<Rightarrow> dash a)
      | _ \<Rightarrow> True)"

text \<open>What the items say: which option gets which value string, and which arguments are left. The number
  is the position of the next positional option.\<close>

fun assigned :: "config \<Rightarrow> nat \<Rightarrow> arg_item list \<Rightarrow> (nat \<times> string) list" where
  "assigned c n [] = []"
| "assigned c n (Keyed long key v # items) = (the (cf_named c key), v) # assigned c n items"
| "assigned c n (Flag long key # items) = (the (cf_named c key), ''true'') # assigned c n items"
| "assigned c n (Positional v # items) =
     (if n < length (cf_positional c) then (cf_positional c ! n, v) # assigned c (n + 1) items
      else assigned c n items)"
| "assigned c n (Foreign _ # items) = assigned c n items"
| "assigned c n (ForeignValue _ _ # items) = assigned c n items"

fun left_args :: "config \<Rightarrow> nat \<Rightarrow> arg_item list \<Rightarrow> string list" where
  "left_args c n [] = []"
| "left_args c n (Keyed long key v # items) =
     (if co_preserve (cf_heap c ! the (cf_named c key)) then [key_arg long key, v] else []) @ left_args c n items"
| "left_args c n (Flag long key # items) =
     (if co_preserve (cf_heap c ! the (cf_named c key)) then [key_arg long key] else []) @ left_args c n items"
| "left_args c n (Positional v # items) =
     (if n < length (cf_positional c)
      then (if co_preserve (cf_heap c ! (cf_positional c ! n)) then [v] else []) @ left_args c (n + 1) items
      else v # left_args c n items)"
| "left_args c n (Foreign arg # items) = arg # left_args c n items"
| "left_args c n (ForeignValue arg v # items) = arg # v # left_args c n items"

fun positions :: "arg_item list \<Rightarrow> nat" where
  "positions [] = 0"
| "positions (Positional v # items) = Suc (positions items)"
| "positions (_ # items) = positions items"

definition assign :: "(nat \<times> string) \<Rightarrow> config \<Rightarrow> config" where
  "assign = (\<lambda>(i, v). update_option i (SetValueString v))"

lemma key_arg_simps [simp]:
  "dash (key_arg long key)" "key_ok long key \<Longrightarrow> key_str (key_arg long key) = key"
  by (auto simp: dash_def key_str_def key_ok_def)

declare key_arg.simps [simp del]

lemma assign_simps [simp]:
  "cf_named (assign a c) = cf_named c" "cf_positional (assign a c) = cf_positional c"
  "cf_bool (assign a c) = cf_bool c" "cf_index (assign a c) = cf_index c" "cf_options (assign a c) = cf_options c"
  "cf_builtin_help (assign a c) = cf_builtin_help c"
  "length (cf_heap (assign a c)) = length (cf_heap c)"
  "i < length (cf_heap c) \<Longrightarrow> cf_heap (assign a c) ! i =
    (if i = fst a then SetValueString (snd a) (cf_heap c ! i) else cf_heap c ! i)"
  by (auto simp: assign_def update_option_def split: prod.splits)

lemma assign_preserve [simp]: "co_preserve (cf_heap (assign a c) ! i) = co_preserve (cf_heap c ! i)"
proof (cases "i < length (cf_heap c)")
  case True
  then show ?thesis by (simp add: SetValueString_def)
next
  case False
  then have "cf_heap (assign a c) ! i = cf_heap c ! i"
    by (cases a; cases "fst a = i") (auto simp: assign_def update_option_def list_update_beyond not_less)
  then show ?thesis by simp
qed

lemma assigned_assign [simp]: "assigned (assign a c) n items = assigned c n items"
  by (induction c n items rule: assigned.induct) simp_all

lemma assigned_index [simp]: "assigned (c\<lparr>cf_index := k\<rparr>) n items = assigned c n items"
  by (induction c n items rule: assigned.induct) simp_all

lemma items_ok_assign [simp]: "items_ok p (assign a c) items rest = items_ok p c items rest"
proof (induction items)
  case (Cons item items)
  then show ?case by (cases item) simp_all
qed simp

lemma items_ok_index [simp]: "items_ok p (c\<lparr>cf_index := k\<rparr>) items rest = items_ok p c items rest"
proof (induction items)
  case (Cons item items)
  then show ?case by (cases item) simp_all
qed simp

fun item_flags :: "config \<Rightarrow> nat \<Rightarrow> arg_item list \<Rightarrow> bool list" where
  "item_flags c n [] = []"
| "item_flags c n (Keyed long key v # items) =
     (let t = \<not> co_preserve (cf_heap c ! the (cf_named c key)) in t # t # item_flags c n items)"
| "item_flags c n (Flag long key # items) =
     (\<not> co_preserve (cf_heap c ! the (cf_named c key))) # item_flags c n items"
| "item_flags c n (Positional v # items) =
     (if n < length (cf_positional c)
      then (\<not> co_preserve (cf_heap c ! (cf_positional c ! n))) # item_flags c (n + 1) items
      else False # item_flags c n items)"
| "item_flags c n (Foreign arg # items) = False # item_flags c n items"
| "item_flags c n (ForeignValue arg v # items) = False # False # item_flags c n items"

lemma item_flags_assign [simp]: "item_flags (assign a c) n items = item_flags c n items"
  by (induction c n items rule: item_flags.induct) simp_all

lemma item_flags_index [simp]: "item_flags (c\<lparr>cf_index := k\<rparr>) n items = item_flags c n items"
  by (induction c n items rule: item_flags.induct) simp_all

lemma untaken_flags:
  "length (item_flags c n items) = length (concat (map render items))"
  "untaken (concat (map render items)) (item_flags c n items) = left_args c n items"
  by (induction c n items rule: left_args.induct) (simp_all add: untaken_def Let_def)

text \<open>The configuration after the items.\<close>

definition after_items :: "config \<Rightarrow> arg_item list \<Rightarrow> config" where
  "after_items c items = (fold assign (assigned c (cf_index c) items) c)
     \<lparr>cf_index := (if cf_index c < length (cf_positional c)
        then min (length (cf_positional c)) (cf_index c + positions items) else cf_index c)\<rparr>"

lemma assign_index: "assign a (c\<lparr>cf_index := k\<rparr>) = (assign a c)\<lparr>cf_index := k\<rparr>"
  by (cases a) (simp add: assign_def update_option_def)

lemma fold_assign_index: "fold assign as (c\<lparr>cf_index := k\<rparr>) = (fold assign as c)\<lparr>cf_index := k\<rparr>"
  by (induction as arbitrary: c) (simp_all add: assign_index)

lemma keep_flags_twice [simp]: "keep_flags fs (keep_flags gs r) = keep_flags (fs @ gs) r"
  "keep_flags [] r = r"
  by (cases "(gs, r)" rule: keep_flags.cases; simp) (cases "([] :: bool list, r)" rule: keep_flags.cases; simp)

lemma after_items_Cons:
  "after_items c [] = c"
  "after_items c (Keyed long key v # items) = after_items (assign (the (cf_named c key), v) c) items"
  "after_items c (Flag long key # items) = after_items (assign (the (cf_named c key), ''true'') c) items"
  "after_items c (Foreign arg # items) = after_items c items"
  "after_items c (ForeignValue arg v # items) = after_items c items"
  "\<not> cf_index c < length (cf_positional c) \<Longrightarrow> after_items c (Positional v # items) = after_items c items"
  "cf_index c < length (cf_positional c) \<Longrightarrow> after_items c (Positional v # items) =
     after_items (assign (cf_positional c ! cf_index c, v) (c\<lparr>cf_index := cf_index c + 1\<rparr>)) items"
  by (auto simp: after_items_def assign_index fold_assign_index)

lemma assign_eq: "update_option i (SetValueString v) c = assign (i, v) c"
  by (simp add: assign_def)

lemma parse_foreign:
  assumes "dash arg" "cf_named c (key_str arg) = None" "case args of [] \<Rightarrow> True | a # _ \<Rightarrow> dash a"
  shows "parse_args True ((arg, False) # map (\<lambda>a. (a, False)) args) c =
    keep_flags [False] (parse_args True (map (\<lambda>a. (a, False)) args) c)"
  using assms by (cases args) auto

lemma parse_args_items:
  assumes "items_ok p c items rest"
  shows "parse_args p (map (\<lambda>a. (a, False)) (concat (map render items) @ rest)) c =
    keep_flags (item_flags c (cf_index c) items) (parse_args p (map (\<lambda>a. (a, False)) rest) (after_items c items))"
  using assms
proof (induction items arbitrary: c)
  case Nil
  then show ?case by (simp add: after_items_Cons)
next
  case (Cons item items)
  show ?case
  proof (cases item)
    case (Keyed long key v)
    then show ?thesis using Cons by (auto simp: after_items_Cons Let_def assign_eq)
  next
    case (Flag long key)
    then show ?thesis using Cons by (auto simp: after_items_Cons Let_def assign_eq)
  next
    case (Positional v)
    then show ?thesis using Cons by (auto simp: after_items_Cons Let_def assign_eq)
  next
    case (Foreign arg)
    then have "p" "parse_args True (map (\<lambda>a. (a, False)) (concat (map render (item # items)) @ rest)) c =
        keep_flags [False] (parse_args True (map (\<lambda>a. (a, False)) (concat (map render items) @ rest)) c)"
      using Cons(2) parse_foreign [of arg c "concat (map render items) @ rest"] by auto
    then show ?thesis using Cons Foreign by (simp add: after_items_Cons del: map_append)
  next
    case (ForeignValue arg v)
    then show ?thesis using Cons by (auto simp: after_items_Cons)
  qed
qed

lemma SetValueString_twice [simp]: "SetValueString v (SetValueString w opt) = SetValueString v opt"
  by (simp add: SetValueString_def)

lemma fold_assign_heap:
  "i < length (cf_heap c) \<Longrightarrow> cf_heap (fold assign as c) ! i =
    (case map_of (rev as) i of None \<Rightarrow> cf_heap c ! i | Some v \<Rightarrow> SetValueString v (cf_heap c ! i))"
  by (induction as arbitrary: c) (auto simp: map_add_def split: option.splits)

lemma fold_assign_simps [simp]:
  "cf_named (fold assign as c) = cf_named c" "cf_options (fold assign as c) = cf_options c"
  "cf_bool (fold assign as c) = cf_bool c" "length (cf_heap (fold assign as c)) = length (cf_heap c)"
  by (induction as arbitrary: c) simp_all

lemma zip_untaken: "zip argv (replicate (length argv) False) = map (\<lambda>a. (a, False)) argv"
  by (induction argv) simp_all

lemma Parse_items:
  assumes "add_help c = (None, c1)" "items_ok p c1 items rest"
  shows "Parse (concat (map render items) @ rest) p [] c =
    keep_flags (item_flags c1 (cf_index c1) items) (parse_args p (map (\<lambda>a. (a, False)) rest) (after_items c1 items))"
  using parse_args_items [OF assms(2)] assms(1)
  by (simp add: Parse_def zip_untaken [of "concat (map render items) @ rest", simplified])

text \<open>
  C25. A command line means what its items say: parsing and removing gives every option the last value
  that an item names for it, \<^verbatim>\<open>true\<close> for a flag and the next positional argument for a
  positional option, changes nothing else in any option, and leaves, in their order, exactly the
  arguments of preserved options, the foreign ones and the surplus positional ones.
\<close>

theorem command_line_parsed:
  assumes "add_help c = (None, c1)" "items_ok True c1 items []"
  shows "\<exists>c2. ParseAndRemove (concat (map render items)) c = (Inr (left_args c1 (cf_index c1) items), c2) \<and>
    cf_named c2 = cf_named c1 \<and> cf_options c2 = cf_options c1 \<and>
    (\<forall>i < length (cf_heap c1). cf_heap c2 ! i =
       (case map_of (rev (assigned c1 (cf_index c1) items)) i of
          None \<Rightarrow> cf_heap c1 ! i
        | Some v \<Rightarrow> SetValueString v (cf_heap c1 ! i)))"
proof -
  have "Parse (concat (map render items)) True [] c =
      (Inr (item_flags c1 (cf_index c1) items), after_items c1 items)"
    using Parse_items [OF assms] by simp
  then have "ParseAndRemove (concat (map render items)) c = (Inr (left_args c1 (cf_index c1) items), after_items c1 items)"
    by (simp add: ParseAndRemove_def untaken_flags)
  then show ?thesis by (auto simp: after_items_def fold_assign_heap)
qed

definition sample_config :: config where
  "sample_config = snd (add_help (snd (Add T_int ''size,s'' (snd (AddBinary ''verbose'' Configuration_new)))))"

lemma sample_config_helped: "add_help sample_config = (None, sample_config)"
proof -
  have "cf_named sample_config ''help'' \<noteq> None" by code_simp
  then show ?thesis by (simp only: add_help_def if_False)
qed

lemma command_line_parsed_witness:
  "\<exists>c2. ParseAndRemove [''prog'', ''--size'', ''7'', ''--other'', ''x'', ''-s'', ''8'', ''--verbose'', ''rest''] sample_config =
      (Inr [''prog'', ''--other'', ''x'', ''rest''], c2) \<and>
    cf_heap c2 ! 2 = SetValueString ''8'' (cf_heap sample_config ! 2)"
proof -
  let ?items = "[Positional ''prog'', Keyed True ''size'' ''7'', ForeignValue ''--other'' ''x'', Keyed False ''s'' ''8'',
    Flag True ''verbose'', Positional ''rest'']"
  have ok: "items_ok True sample_config ?items []" by code_simp
  have args: "concat (map render ?items) =
      [''prog'', ''--size'', ''7'', ''--other'', ''x'', ''-s'', ''8'', ''--verbose'', ''rest'']" by code_simp
  have left: "left_args sample_config (cf_index sample_config) ?items = [''prog'', ''--other'', ''x'', ''rest'']" by code_simp
  have given: "map_of (rev (assigned sample_config (cf_index sample_config) ?items)) 2 = Some ''8''" by code_simp
  have len: "2 < length (cf_heap sample_config)" by code_simp
  show ?thesis
    using command_line_parsed [OF sample_config_helped ok, unfolded args left] len given by auto
qed

lemma items_ok_strict: "items_ok False c items rest \<Longrightarrow> items_ok False c items rest'"
proof (induction items)
  case (Cons item items)
  then show ?case by (cases item) simp_all
qed simp

text \<open>
  What is wrong with a command line is reported at its place: after items that mean something, a key
  that no option has is refused, and so is a key at the end whose option needs a value. The options
  before it keep what they were given.
\<close>

lemma command_line_errors:
  assumes "add_help c = (None, c1)" "items_ok False c1 items []" "dash arg"
    "cf_named c1 (key_str arg) = None \<or> rest = [] \<and> key_str arg \<notin> cf_bool c1"
  shows "Parse (concat (map render items) @ arg # rest) False [] c =
    (Inl (if cf_named c1 (key_str arg) = None then Unrecognized arg else ValueMissing arg), after_items c1 items)"
proof -
  have same: "cf_named (after_items c1 items) = cf_named c1" "cf_bool (after_items c1 items) = cf_bool c1"
    by (simp_all add: after_items_def)
  have "parse_args False (map (\<lambda>a. (a, False)) (arg # rest)) (after_items c1 items) =
      (Inl (if cf_named c1 (key_str arg) = None then Unrecognized arg else ValueMissing arg), after_items c1 items)"
    using assms(3,4) same by (auto simp: Let_def split: option.splits)
  then show ?thesis using Parse_items [OF assms(1) items_ok_strict [OF assms(2)], of "arg # rest"] by simp
qed

lemma command_line_errors_witness:
  "fst (Parse [''prog'', ''--size'', ''7'', ''--colour'', ''red''] False [] sample_config) = Inl (Unrecognized ''--colour'')"
proof -
  have ok: "items_ok False sample_config [Positional ''prog'', Keyed True ''size'' ''7''] []" by code_simp
  have unknown: "cf_named sample_config (key_str ''--colour'') = None" by code_simp
  have args: "concat (map render [Positional ''prog'', Keyed True ''size'' ''7'']) @ ''--colour'' # [''red''] =
      [''prog'', ''--size'', ''7'', ''--colour'', ''red'']" by code_simp
  show ?thesis
    using command_line_errors [OF sample_config_helped ok _ disjI1 [OF unknown], of "[''red'']", unfolded args] unknown
    by (simp add: dash_def)
qed

text \<open>
  An option that is called \<^verbatim>\<open>h\<close> makes every parse fail: the help option that the
  parser adds by itself is called \<^verbatim>\<open>help\<close> and \<^verbatim>\<open>h\<close>. The name
  \<^verbatim>\<open>help\<close> stays behind, so a second attempt parses, but then \<^verbatim>\<open>--help\<close> asks
  for a value.
\<close>

lemma help_name_taken:
  assumes "cf_named c ''help'' = None" "cf_named c ''h'' \<noteq> None" "''help'' \<notin> cf_bool c"
  shows "fst (Parse argv permissive taken c) = Inl (NameDuplicated ''h'') \<and>
    fst (Parse [''--help''] permissive [] (snd (Parse argv permissive taken c))) = Inl (ValueMissing ''--help'')"
proof -
  have keys: "Split_by ''help,h'' '','' = [''help'', ''h'']" by code_simp
  obtain i where i: "cf_named c ''h'' = Some i" using assms(2) by blast
  let ?h = "SetDefault (V_bool False) (Option T_bool [''help'', ''h''])"
  let ?c = "c\<lparr>cf_heap := cf_heap c @ [?h], cf_named := (cf_named c)(''help'' \<mapsto> length (cf_heap c))\<rparr>"
  have "add_help c = (Some (NameDuplicated ''h''), ?c)"
    using assms(1) i by (simp add: add_help_def AddBinary_def add_binary_def AddOption_def keys SetDefault_def Option_def Let_def)
  then have p: "Parse argv permissive taken c = (Inl (NameDuplicated ''h''), ?c)" by (simp add: Parse_def)
  have "add_help ?c = (None, ?c)" by (simp add: add_help_def)
  then have "Parse [''--help''] permissive [] ?c = (Inl (ValueMissing ''--help''), ?c)"
    using assms(3) by (simp add: Parse_def dash_def key_str_def Let_def)
  then show ?thesis by (simp add: p)
qed

lemma help_name_taken_witness:
  "(let c = snd (Add T_string ''host,h'' Configuration_new)
    in fst (Parse [''prog'', ''-h'', ''localhost''] False [] c) = Inl (NameDuplicated ''h''))"
proof -
  let ?c = "snd (Add T_string ''host,h'' Configuration_new)"
  have "cf_named ?c ''help'' = None" "cf_named ?c ''h'' \<noteq> None" "''help'' \<notin> cf_bool ?c" by code_simp+
  from help_name_taken [OF this] show ?thesis by (simp add: Let_def)
qed

section \<open>The values after the check\<close>

lemma Check_stays: "Check opt = (None, opt') \<Longrightarrow> Check opt' = (None, opt')"
proof -
  assume c: "Check opt = (None, opt')"
  have "co_checked (snd (check_value v o1))" if "co_checked o1" for v o1
    using that by (auto simp: check_value_def SetValueRef_def split: sum.splits option.splits)
  then have "co_checked (snd (Check opt))"
    by (auto simp: Check_def Let_def split: option.splits)
  then show "Check opt' = (None, opt')" using c by (simp add: Check_def)
qed

lemma update_option_simps [simp]:
  "cf_named (update_option i f c) = cf_named c" "cf_options (update_option i f c) = cf_options c"
  "cf_positional (update_option i f c) = cf_positional c" "cf_exit_after_help (update_option i f c) = cf_exit_after_help c"
  "length (cf_heap (update_option i f c)) = length (cf_heap c)"
  "i < length (cf_heap c) \<Longrightarrow> cf_heap (update_option i f c) ! j = (if j = i then f (cf_heap c ! i) else cf_heap c ! j)"
  by (simp_all add: update_option_def nth_list_update)

text \<open>The loop of \<^verbatim>\<open>Finalize\<close> checks every option.\<close>

lemma check_options_spec:
  assumes "distinct is" "\<forall>i \<in> set is. i < length (cf_heap c)"
  shows "if \<forall>i \<in> set is. fst (Check (cf_heap c ! i)) = None
    then \<exists>c'. check_options is c = (None, c') \<and> length (cf_heap c') = length (cf_heap c) \<and>
      (\<forall>j. cf_heap c' ! j = (if j \<in> set is then snd (Check (cf_heap c ! j)) else cf_heap c ! j)) \<and>
      cf_options c' = cf_options c
    else fst (check_options is c) \<noteq> None"
  using assms
proof (induction "is" arbitrary: c)
  case (Cons i "is")
  show ?case
  proof (cases "Check (cf_heap c ! i)")
    case (Pair e opt)
    show ?thesis
    proof (cases e)
      case None
      let ?c = "update_option i (\<lambda>_. opt) c"
      have heap: "cf_heap ?c ! j = (if j = i then opt else cf_heap c ! j)" for j using Cons.prems by simp
      have "check_options (i # is) c = check_options is ?c" by (simp add: Pair None)
      moreover have "if \<forall>i \<in> set is. fst (Check (cf_heap ?c ! i)) = None
        then \<exists>c'. check_options is ?c = (None, c') \<and> length (cf_heap c') = length (cf_heap ?c) \<and>
          (\<forall>j. cf_heap c' ! j = (if j \<in> set is then snd (Check (cf_heap ?c ! j)) else cf_heap ?c ! j)) \<and>
          cf_options c' = cf_options ?c
        else fst (check_options is ?c) \<noteq> None"
        using Cons.prems by (intro Cons.IH) auto
      moreover have "cf_heap ?c ! j = cf_heap c ! j" if "j \<in> set is" for j
        using Cons.prems that by (auto simp: heap)
      ultimately show ?thesis
        using None Pair Cons.prems heap by (fastforce split: if_splits)
    next
      case (Some x)
      then show ?thesis by (simp add: Pair)
    qed
  qed
qed simp

lemma unchecked_option:
  assumes "\<not> co_checked opt"
  shows "fst (Check opt) = None \<longleftrightarrow> (\<exists>v. given_value opt = Some v \<and> acceptable opt v)"
    "Check opt = (None, opt') \<Longrightarrow> given_value opt = Some v \<Longrightarrow> Value opt' = (Inr (Some v), opt')"
  using option_check [of opt] assms by (auto split: option.splits if_splits)

fun value_type :: "opt_value \<Rightarrow> opt_type" where
  "value_type (V_bool _) = T_bool"
| "value_type (V_int _) = T_int"
| "value_type (V_string _) = T_string"

lemma ParseString_type: "ParseString t str = Some v \<Longrightarrow> value_type v = t"
  by (cases t) auto

text \<open>
  A configuration before the check: its options are distinct objects, none is checked, the defaults are
  of the options' types, and the built-in help is one of the options.
\<close>

definition fresh_option :: "cmd_option \<Rightarrow> bool" where
  "fresh_option opt \<longleftrightarrow> \<not> co_checked opt \<and>
     (case co_default opt of None \<Rightarrow> True | Some d \<Rightarrow> value_type d = co_type opt)"

definition node_ok :: "config \<Rightarrow> bool" where
  "node_ok c \<longleftrightarrow> distinct (cf_options c) \<and>
     (\<forall>i \<in> set (cf_options c). i < length (cf_heap c) \<and> fresh_option (cf_heap c ! i)) \<and>
     (cf_builtin_help c \<longrightarrow> (case cf_named c ''help'' of None \<Rightarrow> False | Some i \<Rightarrow> i \<in> set (cf_options c)))"

definition good_option :: "cmd_option \<Rightarrow> bool" where
  "good_option opt \<longleftrightarrow> (case given_value opt of None \<Rightarrow> False | Some v \<Rightarrow> acceptable opt v)"

definition asks_help :: "config \<Rightarrow> bool" where
  "asks_help c \<longleftrightarrow> cf_builtin_help c \<and> cf_exit_after_help c \<and>
     (case cf_named c ''help'' of None \<Rightarrow> False | Some i \<Rightarrow> given_value (cf_heap c ! i) = Some (V_bool True))"

text \<open>The configuration after the check: every option has the value it was given, of its type.\<close>

definition settled_values :: "config \<Rightarrow> config \<Rightarrow> bool" where
  "settled_values c c' \<longleftrightarrow> (\<forall>i \<in> set (cf_options c). \<exists>v. given_value (cf_heap c ! i) = Some v \<and>
     value_type v = co_type (cf_heap c ! i) \<and> acceptable (cf_heap c ! i) v \<and> option_value i c' = (Inr (Some v), c'))"

lemma given_value_type:
  "given_value opt = Some v \<Longrightarrow> case co_default opt of None \<Rightarrow> True | Some d \<Rightarrow> value_type d = co_type opt \<Longrightarrow>
    value_type v = co_type opt"
  by (auto simp: given_value_def ParseString_type split: option.splits)

lemma good_option_check: "\<not> co_checked opt \<Longrightarrow> fst (Check opt) = None \<longleftrightarrow> good_option opt"
  by (auto simp: unchecked_option(1) good_option_def split: option.splits)

lemma settled_if_checked:
  assumes "node_ok c" "\<forall>i \<in> set (cf_options c). Check (cf_heap c ! i) = (None, cf_heap c' ! i)"
  shows "settled_values c c'"
  unfolding settled_values_def
proof
  fix i assume i: "i \<in> set (cf_options c)"
  then have opt: "\<not> co_checked (cf_heap c ! i)"
      "case co_default (cf_heap c ! i) of None \<Rightarrow> True | Some d \<Rightarrow> value_type d = co_type (cf_heap c ! i)"
    using assms(1) by (auto simp: node_ok_def fresh_option_def)
  have check: "Check (cf_heap c ! i) = (None, cf_heap c' ! i)" using assms(2) i by blast
  then obtain v where v: "given_value (cf_heap c ! i) = Some v" "acceptable (cf_heap c ! i) v"
    using unchecked_option(1) [OF opt(1)] by auto
  have "Value (cf_heap c' ! i) = (Inr (Some v), cf_heap c' ! i)"
    by (rule unchecked_option(2) [OF opt(1) check v(1)])
  then have "option_value i c' = (Inr (Some v), c')" by (simp add: option_value_def update_option_def)
  then show "\<exists>v. given_value (cf_heap c ! i) = Some v \<and> value_type v = co_type (cf_heap c ! i) \<and>
      acceptable (cf_heap c ! i) v \<and> option_value i c' = (Inr (Some v), c')"
    using v given_value_type [OF v(1) opt(2)] by blast
qed

lemma checked_options:
  assumes "distinct (cf_options c)" "\<forall>i \<in> set (cf_options c). i < length (cf_heap c)"
    "\<forall>i \<in> set (cf_options c). fst (Check (cf_heap c ! i)) = None"
  obtains c' where "check_options (cf_options c) c = (None, c')"
    "\<forall>i \<in> set (cf_options c). Check (cf_heap c ! i) = (None, cf_heap c' ! i)"
proof -
  obtain c' where c': "check_options (cf_options c) c = (None, c')"
      "\<forall>j. cf_heap c' ! j = (if j \<in> set (cf_options c) then snd (Check (cf_heap c ! j)) else cf_heap c ! j)"
    using check_options_spec [OF assms(1,2)] assms(3) by auto
  moreover have "Check (cf_heap c ! i) = (None, cf_heap c' ! i)" if "i \<in> set (cf_options c)" for i
    using that assms(3) c'(2) by (simp add: prod_eq_iff)
  ultimately show thesis by (intro that) blast+
qed

definition checked_own :: "config \<Rightarrow> finish_result \<times> config" where
  "checked_own c = (case check_options (cf_options c) c of (Some e, c) \<Rightarrow> (Threw e, c) | (None, c) \<Rightarrow> (Finished, c))"

lemma checked_own_spec:
  assumes "distinct (cf_options c)" "\<forall>i \<in> set (cf_options c). i < length (cf_heap c)"
  shows "if \<forall>i \<in> set (cf_options c). fst (Check (cf_heap c ! i)) = None
    then \<exists>c'. checked_own c = (Finished, c') \<and> (\<forall>i \<in> set (cf_options c). Check (cf_heap c ! i) = (None, cf_heap c' ! i))
    else fst (checked_own c) \<noteq> Finished"
proof (cases "\<forall>i \<in> set (cf_options c). fst (Check (cf_heap c ! i)) = None")
  case True
  from checked_options [OF assms True] obtain c' where "check_options (cf_options c) c = (None, c')"
    "\<forall>i \<in> set (cf_options c). Check (cf_heap c ! i) = (None, cf_heap c' ! i)" .
  then show ?thesis using True by (auto simp: checked_own_def)
next
  case False
  then have "fst (check_options (cf_options c) c) \<noteq> None" using check_options_spec [OF assms] by (simp only: if_False not_False_eq_True)
  then obtain e c' where "check_options (cf_options c) c = (Some e, c')" by (cases "check_options (cf_options c) c") auto
  then show ?thesis using False by (simp add: checked_own_def)
qed

lemma finalize_own_spec:
  assumes "node_ok c"
  shows "if (\<forall>i \<in> set (cf_options c). good_option (cf_heap c ! i)) \<and> \<not> asks_help c
    then \<exists>c'. finalize_own c = (Finished, c') \<and> settled_values c c'
    else fst (finalize_own c) \<noteq> Finished"
proof -
  have dist: "distinct (cf_options c)" "\<forall>i \<in> set (cf_options c). i < length (cf_heap c)"
      "\<forall>i \<in> set (cf_options c). \<not> co_checked (cf_heap c ! i)"
    using assms by (auto simp: node_ok_def fresh_option_def)
  have good: "fst (Check (cf_heap c ! i)) = None \<longleftrightarrow> good_option (cf_heap c ! i)" if "i \<in> set (cf_options c)" for i
    using good_option_check dist(3) that by blast
  show ?thesis
  proof (cases "cf_builtin_help c")
    case False
    then have "finalize_own c = checked_own c" "\<not> asks_help c"
      by (simp_all add: finalize_own_def checked_own_def asks_help_def)
    then show ?thesis using checked_own_spec [OF dist(1,2)] good settled_if_checked [OF assms] by (auto split: if_splits)
  next
    case True
    then obtain h where h: "cf_named c ''help'' = Some h" "h \<in> set (cf_options c)"
      using assms by (auto simp: node_ok_def split: option.splits)
    obtain e opt where opt: "Check (cf_heap c ! h) = (e, opt)" by fastforce
    show ?thesis
    proof (cases e)
      case (Some x)
      then have "fst (finalize_own c) = Threw (FailedValue x)"
        using True h opt by (simp add: finalize_own_def GetValue_def option_value_def Value_def)
      moreover have "\<not> good_option (cf_heap c ! h)" using good [OF h(2)] opt Some by simp
      ultimately show ?thesis using h(2) by auto
    next
      case None
      let ?c = "update_option h (\<lambda>_. opt) c"
      obtain v where v: "given_value (cf_heap c ! h) = Some v"
        using opt None unchecked_option(1) [of "cf_heap c ! h"] dist(3) h(2) by auto
      have "Value opt = (Inr (Some v), opt)"
        using unchecked_option(2) [of "cf_heap c ! h" opt v] opt None v dist(3) h(2) by blast
      moreover have "Check opt = (None, opt)" using opt None by (auto intro: Check_stays)
      ultimately have val: "Value (cf_heap c ! h) = (Inr (Some v), opt)" using opt None by (simp add: Value_def)
      have own: "finalize_own c = (if asks_help c then (Exited, ?c) else checked_own ?c)"
        using True h v val
        by (auto simp: finalize_own_def GetValue_def option_value_def asks_help_def checked_own_def)
      have heap: "cf_heap ?c ! i = (if i = h then opt else cf_heap c ! i)" for i using dist(2) h(2) by simp
      have same: "Check (cf_heap ?c ! i) = (None, x) \<longleftrightarrow> Check (cf_heap c ! i) = (None, x)" for i x
        using opt None Check_stays [of "cf_heap c ! h" opt] by (auto simp: heap)
      have none: "fst (Check (cf_heap ?c ! i)) = None \<longleftrightarrow> fst (Check (cf_heap c ! i)) = None" for i
        using same [of i] by (cases "Check (cf_heap ?c ! i)"; cases "Check (cf_heap c ! i)") auto
      have "if \<forall>i \<in> set (cf_options ?c). fst (Check (cf_heap ?c ! i)) = None
        then \<exists>c'. checked_own ?c = (Finished, c') \<and> (\<forall>i \<in> set (cf_options ?c). Check (cf_heap ?c ! i) = (None, cf_heap c' ! i))
        else fst (checked_own ?c) \<noteq> Finished"
        using dist by (intro checked_own_spec) auto
      then show ?thesis
        using settled_if_checked [OF assms] good by (auto simp: own same none split: if_splits)
    qed
  qed
qed

fun nodes :: "configuration \<Rightarrow> config list"
  and child_nodes :: "(string \<times> configuration) list \<Rightarrow> config list" where
  "nodes (Configuration c children) = c # child_nodes children"
| "child_nodes [] = []"
| "child_nodes ((pfx, child) # rest) = nodes child @ child_nodes rest"

definition healthy :: "config \<Rightarrow> bool" where
  "healthy c \<longleftrightarrow> (\<forall>i \<in> set (cf_options c). good_option (cf_heap c ! i)) \<and> \<not> asks_help c"

lemma finalize_tree:
  "\<forall>c \<in> set (nodes t). node_ok c \<Longrightarrow>
    if \<forall>c \<in> set (nodes t). healthy c
    then \<exists>t'. Finalize t = (Finished, t') \<and> list_all2 settled_values (nodes t) (nodes t')
    else fst (Finalize t) \<noteq> Finished"
  "\<forall>c \<in> set (child_nodes ts). node_ok c \<Longrightarrow>
    if \<forall>c \<in> set (child_nodes ts). healthy c
    then \<exists>ts'. finalize_children ts = (Finished, ts') \<and> list_all2 settled_values (child_nodes ts) (child_nodes ts')
    else fst (finalize_children ts) \<noteq> Finished"
proof (induction t and ts rule: Finalize_finalize_children.induct)
  case (1 c children)
  have own: "if healthy c then \<exists>c'. finalize_own c = (Finished, c') \<and> settled_values c c' else fst (finalize_own c) \<noteq> Finished"
    using finalize_own_spec [of c] 1 by (auto simp: healthy_def split: if_splits)
  show ?case
  proof (cases "healthy c")
    case False
    then obtain r c' where "finalize_own c = (r, c')" "r \<noteq> Finished" using own by (cases "finalize_own c") auto
    then have "fst (Finalize (Configuration c children)) \<noteq> Finished" by (cases r) auto
    then show ?thesis using False by auto
  next
    case True
    then obtain c' where c': "finalize_own c = (Finished, c')" "settled_values c c'" using own by auto
    have children: "if \<forall>c \<in> set (child_nodes children). healthy c
      then \<exists>ts'. finalize_children children = (Finished, ts') \<and> list_all2 settled_values (child_nodes children) (child_nodes ts')
      else fst (finalize_children children) \<noteq> Finished"
      using 1 c'(1) by auto
    show ?thesis
    proof (cases "\<forall>c \<in> set (child_nodes children). healthy c")
      case all: True
      then obtain ts' where "finalize_children children = (Finished, ts')"
          "list_all2 settled_values (child_nodes children) (child_nodes ts')"
        using children by auto
      then show ?thesis using True all c' by auto
    next
      case bad: False
      then have "fst (finalize_children children) \<noteq> Finished" using children by simp
      then have "fst (Finalize (Configuration c children)) \<noteq> Finished"
        by (cases "finalize_children children") (simp add: c'(1))
      then show ?thesis using bad by auto
    qed
  qed
next
  case (3 pfx child rest)
  have child: "if \<forall>c \<in> set (nodes child). healthy c
    then \<exists>t'. Finalize child = (Finished, t') \<and> list_all2 settled_values (nodes child) (nodes t')
    else fst (Finalize child) \<noteq> Finished"
    using 3 by auto
  show ?case
  proof (cases "\<forall>c \<in> set (nodes child). healthy c")
    case False
    then obtain r t' where "Finalize child = (r, t')" "r \<noteq> Finished" using child [unfolded if_not_P [OF False]] by (cases "Finalize child") simp
    then have "fst (finalize_children ((pfx, child) # rest)) \<noteq> Finished" by (cases r) auto
    then show ?thesis using False by auto
  next
    case True
    then obtain t' where t': "Finalize child = (Finished, t')" "list_all2 settled_values (nodes child) (nodes t')" using child by auto
    have children: "if \<forall>c \<in> set (child_nodes rest). healthy c
      then \<exists>ts'. finalize_children rest = (Finished, ts') \<and> list_all2 settled_values (child_nodes rest) (child_nodes ts')
      else fst (finalize_children rest) \<noteq> Finished"
      using 3 t'(1) by auto
    show ?thesis
    proof (cases "\<forall>c \<in> set (child_nodes rest). healthy c")
      case all: True
      then obtain ts' where "finalize_children rest = (Finished, ts')"
          "list_all2 settled_values (child_nodes rest) (child_nodes ts')"
        using children by auto
      then show ?thesis using True all t' by (auto intro: list_all2_appendI)
    next
      case bad: False
      then have "fst (finalize_children rest) \<noteq> Finished" using children by simp
      then have "fst (finalize_children ((pfx, child) # rest)) \<noteq> Finished"
        by (cases "finalize_children rest") (simp add: t'(1))
      then show ?thesis using bad by auto
    qed
  qed
qed simp

text \<open>Building and parsing keep a configuration well formed.\<close>

lemma node_ok_update:
  assumes "node_ok c" "\<And>opt. fresh_option opt \<Longrightarrow> fresh_option (f opt)"
  shows "node_ok (update_option i f c)"
proof -
  have "cf_heap (update_option i f c) ! j = (if j = i then f (cf_heap c ! j) else cf_heap c ! j)"
    if "j < length (cf_heap c)" for j
    using that by (auto simp: update_option_def nth_list_update)
  moreover have "cf_builtin_help (update_option i f c) = cf_builtin_help c" by (simp add: update_option_def)
  ultimately show ?thesis using assms by (simp add: node_ok_def cong: option.case_cong)
qed

lemma node_ok_parse: "node_ok c \<Longrightarrow> node_ok (snd (parse_args p args c))"
proof (induction p args c rule: parse_args.induct)
  case (3 p arg rest c)
  have kept: "snd (keep_flags fs r) = snd r" for fs r by (cases "(fs, r)" rule: keep_flags.cases) auto
  have set: "node_ok c \<Longrightarrow> node_ok (update_option i (SetValueString v) c)" for i v c
    by (rule node_ok_update) (auto simp: fresh_option_def SetValueString_def split: option.splits)
  have index: "node_ok c \<Longrightarrow> node_ok (c\<lparr>cf_index := k\<rparr>)" for k c by (simp add: node_ok_def cong: option.case_cong)
  show ?case
    using 3 set index by (auto simp: kept Let_def split: option.splits list.splits prod.splits)
next
  case (2 p arg rest c)
  have kept: "snd (keep_flags fs r) = snd r" for fs r by (cases "(fs, r)" rule: keep_flags.cases) auto
  show ?case using 2 by (simp add: kept)
qed simp

lemma AddOption_ok:
  assumes "AddOption opt c = (Inr i, c')"
  shows "cf_heap c' = cf_heap c @ [opt]" "cf_options c' = cf_options c @ [i]" "i = length (cf_heap c)"
    "cf_builtin_help c' = cf_builtin_help c" "cf_bool c' = cf_bool c"
    "co_keys opt = [] \<or> add_names i (co_keys opt) (cf_named c) = (None, cf_named c')"
  using assms by (auto simp: AddOption_def Let_def split: if_splits option.splits prod.splits)

lemma add_names_spec: "add_names i keys m = (None, m') \<Longrightarrow> m' = (\<lambda>k. if k \<in> set keys then Some i else m k) \<and> (\<forall>k \<in> set keys. m k = None)"
  by (induction keys arbitrary: m) (fastforce split: option.splits if_splits)+

lemma node_ok_AddOption:
  assumes "node_ok c" "AddOption opt c = (Inr i, c')" "fresh_option opt"
  shows "node_ok c'"
proof -
  note a = AddOption_ok [OF assms(2)]
  have named: "cf_named c' ''help'' = cf_named c ''help'' \<or> cf_named c' ''help'' = Some i"
  proof (cases "co_keys opt = []")
    case True
    then show ?thesis using assms(2) by (auto simp: AddOption_def Let_def)
  next
    case False
    then show ?thesis using a(6) add_names_spec [of i "co_keys opt" "cf_named c" "cf_named c'"] by auto
  qed
  have old: "j < length (cf_heap c)" "fresh_option (cf_heap c ! j)" if "j \<in> set (cf_options c)" for j
    using that assms(1) by (auto simp: node_ok_def)
  have "distinct (cf_options c')" using assms(1) old(1) by (auto simp: a node_ok_def)
  moreover have "\<forall>j \<in> set (cf_options c'). j < length (cf_heap c') \<and> fresh_option (cf_heap c' ! j)"
    using old assms(3) by (auto simp: a nth_append less_SucI)
  moreover have "cf_builtin_help c' \<longrightarrow> (case cf_named c' ''help'' of None \<Rightarrow> False | Some i \<Rightarrow> i \<in> set (cf_options c'))"
    using named assms(1) by (auto simp: a node_ok_def split: option.splits)
  ultimately show ?thesis by (simp add: node_ok_def)
qed

lemma node_ok_help:
  assumes "node_ok c" "add_help c = (None, c')"
  shows "node_ok c'"
proof (cases "cf_named c ''help'' = None")
  case False
  then have "add_help c = (None, c)" by (simp only: add_help_def if_False)
  then show ?thesis using assms by simp
next
  case True
  let ?opt = "SetDefault (V_bool False) (Option T_bool (Split_by ''help,h'' '',''))"
  let ?f = "SetPreserve True \<circ> SetDefault (V_bool False) \<circ> Comment ''Print this help message''"
  obtain i c1 where add: "AddOption ?opt c = (Inr i, c1)"
      "c' = (update_option i ?f (c1\<lparr>cf_bool := cf_bool c1 \<union> set (co_keys ?opt)\<rparr>))\<lparr>cf_builtin_help := True\<rparr>"
    using assms(2) True by (auto simp: add_help_def AddBinary_def add_binary_def split: prod.splits sum.splits)
  have c1: "node_ok c1"
    by (rule node_ok_AddOption [OF assms(1) add(1)]) (simp add: SetDefault_def Option_def fresh_option_def)
  have keys: "co_keys ?opt = [''help'', ''h'']" by code_simp
  have "add_names i [''help'', ''h''] (cf_named c) = (None, cf_named c1)"
    using AddOption_ok(6) [OF add(1)] unfolding keys by simp
  then have named: "cf_named c1 ''help'' = Some i" using add_names_spec by fastforce
  have i: "i \<in> set (cf_options c1)" "i < length (cf_heap c1)" using AddOption_ok(1-3) [OF add(1)] by simp_all
  then have type: "co_type (cf_heap c1 ! i) = T_bool" using AddOption_ok(1,3) [OF add(1)] by (simp add: SetDefault_def Option_def)
  have heap: "cf_heap c' ! j = (if j = i then ?f (cf_heap c1 ! i) else cf_heap c1 ! j)" for j
    using i by (simp add: add(2) update_option_def nth_list_update)
  have "cf_options c' = cf_options c1" "cf_named c' = cf_named c1" "length (cf_heap c') = length (cf_heap c1)"
    by (simp_all add: add(2) update_option_def)
  then show ?thesis
    using c1 i named type by (auto simp: node_ok_def heap fresh_option_def SetPreserve_def SetDefault_def Comment_def)
qed

lemma node_ok_Parse: "node_ok c \<Longrightarrow> Parse argv p taken c = (Inr fs, c') \<Longrightarrow> node_ok c'"
proof -
  assume c: "node_ok c" and p: "Parse argv p taken c = (Inr fs, c')"
  then obtain c1 where c1: "add_help c = (None, c1)"
      "c' = snd (parse_args p (zip argv (if taken = [] then replicate (length argv) False else taken)) c1)"
    by (cases "add_help c"; cases "fst (add_help c)") (auto simp: Parse_def)
  then show "node_ok c'" using node_ok_parse node_ok_help [OF c] by blast
qed

text \<open>
  C26. The values of a configuration are its given values, of the right type. Of a tree of well-formed
  configurations that was parsed, \<^verbatim>\<open>Finalize\<close> returns exactly when nobody asks for
  help and every option has a value, from the command line or its default, that parses and is acceptable;
  then the value of each option is this value, it is of the option's type, and reading it never changes
  anything. In every other case the program is told, by an exception or by the help and the exit.
\<close>

theorem finalized_values:
  assumes "node_ok c" "\<forall>t \<in> set (map snd children). \<forall>c \<in> set (nodes t). node_ok c"
    "Parse argv permissive taken c = (Inr flags, c1)"
  shows "if \<forall>c \<in> set (nodes (Configuration c1 children)). healthy c
    then \<exists>t'. Finalize (Configuration c1 children) = (Finished, t') \<and> list_all2 settled_values (nodes (Configuration c1 children)) (nodes t')
    else fst (Finalize (Configuration c1 children)) \<noteq> Finished"
proof -
  have "set (child_nodes children) = (\<Union>t \<in> set (map snd children). set (nodes t))"
    by (induction children) auto
  then have "\<forall>c \<in> set (nodes (Configuration c1 children)). node_ok c"
    using node_ok_Parse [OF assms(1,3)] assms(2) by auto
  then show ?thesis by (rule finalize_tree(1))
qed

lemma finalized_values_witness:
  "fst (Finalize (Configuration (snd (Parse [''prog'', ''--size'', ''7''] False [] sample_config)) [])) = Finished \<and>
   fst (Finalize (Configuration (snd (Parse [''prog'', ''--size'', ''x''] False [] sample_config)) [])) \<noteq> Finished"
proof -
  have ok: "node_ok sample_config" by code_simp
  have parsed: "\<exists>flags. Parse [''prog'', ''--size'', v] False [] sample_config =
      (Inr flags, snd (Parse [''prog'', ''--size'', v] False [] sample_config))"
    if "\<exists>fs. fst (Parse [''prog'', ''--size'', v] False [] sample_config) = Inr fs" for v
    using that by (auto simp: prod_eq_iff)
  have flags: "fst (Parse [''prog'', ''--size'', ''7''] False [] sample_config) = Inr [False, True, True]"
    "fst (Parse [''prog'', ''--size'', ''x''] False [] sample_config) = Inr [False, True, True]" by code_simp+
  have good: "healthy (snd (Parse [''prog'', ''--size'', ''7''] False [] sample_config))"
    "\<not> healthy (snd (Parse [''prog'', ''--size'', ''x''] False [] sample_config))" by code_simp+
  obtain f1 f2 where p: "Parse [''prog'', ''--size'', ''7''] False [] sample_config =
      (Inr f1, snd (Parse [''prog'', ''--size'', ''7''] False [] sample_config))"
    "Parse [''prog'', ''--size'', ''x''] False [] sample_config =
      (Inr f2, snd (Parse [''prog'', ''--size'', ''x''] False [] sample_config))"
    using parsed flags by blast
  show ?thesis
    using finalized_values [OF ok _ p(1), of "[]"] finalized_values [OF ok _ p(2), of "[]"] good by (auto simp del: Finalize.simps)
qed

end
