(* ===== verification/Logging.thy ===== *)
theory Logging
  imports Prelude
begin

text \<open>
  \<^verbatim>\<open>logger.h\<close> and \<^verbatim>\<open>leveled_log_device.h\<close>: log devices, the formatters that cut a message into lines
  and put a head before each, the loggers with their level, and the manager whose loggers inherit from
  their parents. The clock and the values that a stream operator prints are arguments.
\<close>

section \<open>Log devices\<close>

text \<open>
  What is written is kept per sink: sink 0 is the console, the others are files. A file device has the
  number of its sink, a leveled device one device per level. \<open>lw_clock\<close> counts the readings of the clock.
\<close>

datatype log_device =
    ConsoleLogDevice
  | FileLogDevice nat
  | ConsoleAndFileLogDevice nat
  | LeveledLogDevice "log_device list"

record log_world =
  lw_sink :: "nat \<Rightarrow> string"
  lw_clock :: nat

definition LL_FATAL :: nat where "LL_FATAL = 1"
definition LL_ERROR :: nat where "LL_ERROR = 2"
definition LL_WARNING :: nat where "LL_WARNING = 3"
definition LL_INFO :: nat where "LL_INFO = 4"
definition LL_DEBUG :: nat where "LL_DEBUG = 5"
definition LL_LAST_INVALID :: nat where "LL_LAST_INVALID = 6"

definition sink_write :: "nat \<Rightarrow> string \<Rightarrow> log_world \<Rightarrow> log_world" where
  "sink_write i p w = w\<lparr>lw_sink := (lw_sink w)(i := lw_sink w i @ p)\<rparr>"

text \<open>\<^verbatim>\<open>WriteLine\<close> of the devices; a level that a leveled device does not have is out of bounds.\<close>

function dev_WriteLine :: "log_device \<Rightarrow> string \<Rightarrow> nat \<Rightarrow> log_world \<Rightarrow> log_world option" where
  "dev_WriteLine ConsoleLogDevice p level w = Some (sink_write 0 p w)"
| "dev_WriteLine (FileLogDevice i) p level w = Some (sink_write i p w)"
| "dev_WriteLine (ConsoleAndFileLogDevice i) p level w = Some (sink_write 0 p (sink_write i p w))"
| "dev_WriteLine (LeveledLogDevice devices) p level w =
     (if level < length devices then dev_WriteLine (devices ! level) p level w else None)"
  by pat_completeness auto

termination
  by (relation "measure (size \<circ> fst)") (auto simp: less_Suc_eq_le intro!: size_list_estimation' [OF nth_mem])

text \<open>
  The constructor of a leveled device from a map, given by its entries in the order of the levels: the
  slots up to each key get the device of the key, the rest gets the last device. It throws when the map
  is empty and is out of bounds when a key is.
\<close>

fun fill_levels :: "log_device list \<Rightarrow> nat \<Rightarrow> nat \<Rightarrow> log_device \<Rightarrow> log_device list option" where
  "fill_levels devs 0 l d = Some devs"
| "fill_levels devs (Suc n) l d =
     (if l < length devs then fill_levels (devs[l := d]) n (l + 1) d else None)"

fun level_loop :: "log_device list \<Rightarrow> nat \<Rightarrow> (nat \<times> log_device) list \<Rightarrow> (log_device list \<times> nat) option" where
  "level_loop devs l [] = Some (devs, l)"
| "level_loop devs l ((level, d) # rest) =
     Option.bind (fill_levels devs (Suc level - l) l d) (\<lambda>devs. level_loop devs (max l (Suc level)) rest)"

definition LeveledLogDevice_new :: "(nat \<times> log_device) list \<Rightarrow> log_device option" where
  "LeveledLogDevice_new devices =
     (if devices = [] then None
      else Option.bind (level_loop (replicate LL_LAST_INVALID ConsoleLogDevice) 0 devices) (\<lambda>(devs, l).
        map_option LeveledLogDevice (fill_levels devs (LL_LAST_INVALID - l) l (snd (last devices)))))"

section \<open>Formatters\<close>

text \<open>A character buffer of a fixed size; a write that leaves it has no result.\<close>

definition poke :: "string \<Rightarrow> nat \<Rightarrow> string \<Rightarrow> string option" where
  "poke buf off p =
     (if off + length p \<le> length buf then Some (take off buf @ p @ drop (off + length p) buf) else None)"

text \<open>\<^verbatim>\<open>strftime\<close> writes nothing that counts when the text and its terminator do not fit;
  \<^verbatim>\<open>snprintf\<close> cuts the text but returns its full length.\<close>

definition strftime :: "string \<Rightarrow> nat \<Rightarrow> string \<Rightarrow> nat \<times> string option" where
  "strftime buf buf_size txt =
     (if length txt + 1 \<le> buf_size then (length txt, poke buf 0 (txt @ [CHR 0x00])) else (0, Some buf))"

definition snprintf :: "string \<Rightarrow> nat \<Rightarrow> nat \<Rightarrow> string \<Rightarrow> nat \<times> string option" where
  "snprintf buf off n txt =
     (length txt, if n = 0 then Some buf else poke buf off (take (n - 1) txt @ [CHR 0x00]))"

text \<open>A reading of the clock: the local date and time in digits, and the milliseconds of the day.\<close>

fun digits :: "nat \<Rightarrow> nat \<Rightarrow> string" where
  "digits 0 n = []"
| "digits (Suc k) n = digits k (n div 10) @ [char_of (48 + n mod 10)]"

record clock_reading =
  cr_date :: "nat \<times> nat \<times> nat"
  cr_time :: "nat \<times> nat \<times> nat"
  cr_elapsed :: nat

definition date_text :: "clock_reading \<Rightarrow> string" where
  "date_text t = (case (cr_date t, cr_time t) of ((y, mo, d), (h, mi, s)) \<Rightarrow>
     digits 4 y @ digits 2 mo @ digits 2 d @ digits 2 h @ digits 2 mi @ digits 2 s)"

definition PrintTimeHead :: "clock_reading \<Rightarrow> string \<Rightarrow> nat \<Rightarrow> (nat \<times> string) option" where
  "PrintTimeHead t buf buf_size =
     (case strftime buf buf_size (date_text t) of
        (s, None) \<Rightarrow> None
      | (s, Some buf) \<Rightarrow>
          (case snprintf buf s (buf_size - s) (''.'' @ digits 3 (cr_elapsed t mod 1000) @ '': '') of
             (n, None) \<Rightarrow> None
           | (n, Some buf) \<Rightarrow> Some (s + n, buf)))"

definition PrintModuleName :: "string \<Rightarrow> nat \<Rightarrow> string \<Rightarrow> (nat \<times> string) option" where
  "PrintModuleName buf off module =
     (if module = [] then Some (0, buf)
      else Option.bind (poke buf off ''['') (\<lambda>buf.
        Option.bind (poke buf (off + 1) module) (\<lambda>buf.
          Option.bind (poke buf (off + 1 + length module) '']'') (\<lambda>buf.
            map_option (\<lambda>buf. (length module + 3, buf)) (poke buf (off + 1 + length module + 1) '' '')))))"

text \<open>The three formatters, by their \<^verbatim>\<open>WriteLine\<close>: the text they hand to the device. The
  buffer starts with unknown bytes.\<close>

datatype log_formatter = LogFormatter | TimedLogFormatter | TimedModuleLogFormatter

definition timed_line :: "clock_reading \<Rightarrow> (nat \<Rightarrow> char) \<Rightarrow> string \<Rightarrow> string option" where
  "timed_line t junk p =
     (if length p < 1000 then
        Option.bind (PrintTimeHead t (map junk [0..<1024]) 1024) (\<lambda>(hs, buf).
          map_option (take (length p + hs)) (poke buf hs p))
      else
        Option.bind (PrintTimeHead t (map junk [0..<length p + 24]) 24) (\<lambda>(hs, buf).
          map_option (take (length p + hs)) (poke buf hs p)))"

definition timed_module_line :: "clock_reading \<Rightarrow> (nat \<Rightarrow> char) \<Rightarrow> string \<Rightarrow> string \<Rightarrow> string option" where
  "timed_module_line t junk module p =
     (let (buf, size) =
        (if length p + length module < 1000 then (map junk [0..<1024], 1024)
         else (map junk [0..<length p + length module + 24], 24))
      in Option.bind (PrintTimeHead t buf size) (\<lambda>(hs, buf).
           Option.bind (PrintModuleName buf hs module) (\<lambda>(ms, buf).
             map_option (take (length p + (hs + ms))) (poke buf (hs + ms) p))))"

definition fmt_WriteLine ::
  "(nat \<Rightarrow> clock_reading) \<Rightarrow> (nat \<Rightarrow> char) \<Rightarrow> log_formatter \<Rightarrow> string \<Rightarrow> log_device \<Rightarrow> string \<Rightarrow> nat \<Rightarrow> log_world \<Rightarrow>
    log_world option" where
  "fmt_WriteLine clock junk f p device module level w =
     (case f of
        LogFormatter \<Rightarrow> dev_WriteLine device p level w
      | TimedLogFormatter \<Rightarrow>
          Option.bind (timed_line (clock (lw_clock w)) junk p)
            (\<lambda>line. dev_WriteLine device line level (w\<lparr>lw_clock := lw_clock w + 1\<rparr>))
      | TimedModuleLogFormatter \<Rightarrow>
          Option.bind (timed_module_line (clock (lw_clock w)) junk module p)
            (\<lambda>line. dev_WriteLine device line level (w\<lparr>lw_clock := lw_clock w + 1\<rparr>)))"

text \<open>
  \<^verbatim>\<open>LogFormatter::Write\<close> cuts a message after every run of line ends. One round of its loop
  takes the text up to the next line end and all line ends that follow.
\<close>

definition line_end :: "char \<Rightarrow> bool" where
  "line_end c \<longleftrightarrow> c = CHR 0x0D \<or> c = CHR 0x0A"

definition cut_line :: "string \<Rightarrow> string \<times> string" where
  "cut_line p =
     (let body = takeWhile (\<lambda>c. \<not> line_end c) p; rest = dropWhile (\<lambda>c. \<not> line_end c) p
      in (body @ takeWhile line_end rest, dropWhile line_end rest))"

lemma cut_line_append: "fst (cut_line p) @ snd (cut_line p) = p"
  by (simp add: cut_line_def Let_def)

lemma cut_line_shorter: "p \<noteq> [] \<Longrightarrow> fst (cut_line p) \<noteq> []"
  by (cases p) (auto simp: cut_line_def Let_def)

lemma cut_line_rest: "(line, rest) = cut_line p \<Longrightarrow> rest \<noteq> [] \<Longrightarrow> length rest < length p"
proof -
  assume c: "(line, rest) = cut_line p" "rest \<noteq> []"
  then have "p = line @ rest" using cut_line_append [of p] by (metis fst_conv snd_conv)
  moreover from this c have "line \<noteq> []" using cut_line_shorter [of p] by (metis append_is_Nil_conv fst_conv)
  ultimately show ?thesis by simp
qed

function fmt_loop ::
  "(string \<Rightarrow> log_world \<Rightarrow> log_world option) \<Rightarrow> string \<Rightarrow> log_world \<Rightarrow> log_world option" where
  "fmt_loop write p w =
     (let (line, rest) = cut_line p in
      Option.bind (if line \<noteq> [] then write line w else Some w) (\<lambda>w.
        if rest = [] then Some w else fmt_loop write rest w))"
  by pat_completeness auto
termination
  by (relation "measure (\<lambda>(f, p, w). length p)") (auto dest: cut_line_rest)

declare fmt_loop.simps [simp del]

definition fmt_Write ::
  "(nat \<Rightarrow> clock_reading) \<Rightarrow> (nat \<Rightarrow> char) \<Rightarrow> log_formatter \<Rightarrow> string \<Rightarrow> log_device \<Rightarrow> string \<Rightarrow> nat \<Rightarrow> log_world \<Rightarrow>
    log_world option" where
  "fmt_Write clock junk f p device module level w =
     fmt_loop (\<lambda>line. fmt_WriteLine clock junk f line device module level) p w"

section \<open>Loggers\<close>

record logger =
  lg_device :: log_device
  lg_formatter :: log_formatter
  lg_level :: nat
  lg_name :: string

datatype log_result = Logged log_world | Aborted log_world | OutOfBounds

text \<open>\<^verbatim>\<open>Logger::Write\<close>: messages above the level of the logger are dropped, a fatal one ends the
  program after it is written.\<close>

definition Logger_Write ::
  "(nat \<Rightarrow> clock_reading) \<Rightarrow> (nat \<Rightarrow> char) \<Rightarrow> logger \<Rightarrow> string \<Rightarrow> nat \<Rightarrow> log_world \<Rightarrow> log_result" where
  "Logger_Write clock junk lg d level w =
     (if level > lg_level lg then Logged w
      else case fmt_Write clock junk (lg_formatter lg) d (lg_device lg) (lg_name lg) level w of
             None \<Rightarrow> OutOfBounds
           | Some w \<Rightarrow> if level \<le> LL_FATAL then Aborted w else Logged w)"

text \<open>What the destructor of a \<^verbatim>\<open>LoggerStream\<close> writes: file, function and line go before the
  message when the logger shows debug messages.\<close>

definition stream_message :: "logger \<Rightarrow> bool \<Rightarrow> (string \<times> string \<times> string) option \<Rightarrow> string \<Rightarrow> string" where
  "stream_message lg append_newline debug_info oss =
     (let oss = (if append_newline then oss @ [CHR 0x0A] else oss)
      in case debug_info of
           Some (file, func, line) \<Rightarrow>
             if lg_level lg = LL_DEBUG then ''['' @ file @ '':'' @ func @ '':'' @ line @ ''] '' @ oss else oss
         | None \<Rightarrow> oss)"

definition LoggerStream_end ::
  "(nat \<Rightarrow> clock_reading) \<Rightarrow> (nat \<Rightarrow> char) \<Rightarrow> logger \<Rightarrow> bool \<Rightarrow> (string \<times> string \<times> string) option \<Rightarrow> nat \<Rightarrow> string \<Rightarrow>
    log_world \<Rightarrow> log_result" where
  "LoggerStream_end clock junk lg append_newline debug_info level oss w =
     Logger_Write clock junk lg (stream_message lg append_newline debug_info oss) level w"

text \<open>The manager. A logger that is not there is made as a copy of its parent, whose name ends before the
  last dot; the loggers are named, and the empty name is the root.\<close>

definition Logger_root :: logger where
  "Logger_root = \<lparr>lg_device = ConsoleLogDevice, lg_formatter = LogFormatter, lg_level = LL_INFO, lg_name = []\<rparr>"

definition LoggerManager :: "string \<rightharpoonup> logger" where
  "LoggerManager = [[] \<mapsto> Logger_root]"

definition parent_name :: "string \<Rightarrow> string" where
  "parent_name name =
     (if CHR ''.'' \<in> set name then rev (tl (dropWhile (\<lambda>c. c \<noteq> CHR ''.'') (rev name))) else [])"

lemma parent_name_shorter: "name \<noteq> [] \<Longrightarrow> length (parent_name name) < length name"
proof -
  assume n: "name \<noteq> []"
  have "length (dropWhile (\<lambda>c. c \<noteq> CHR ''.'') (rev name)) \<le> length name"
    by (metis length_dropWhile_le length_rev)
  moreover have "0 < length name" using n by simp
  ultimately have "length (dropWhile (\<lambda>c. c \<noteq> CHR ''.'') (rev name)) - 1 < length name" by linarith
  then show ?thesis using n by (simp add: parent_name_def)
qed

function GetNoLock :: "string \<Rightarrow> (string \<rightharpoonup> logger) \<Rightarrow> logger \<times> (string \<rightharpoonup> logger)" where
  "GetNoLock name m =
     (if name = [] then (the (m []), m)
      else case m name of
             Some lg \<Rightarrow> (lg, m)
           | None \<Rightarrow>
               let (parent, m) = GetNoLock (parent_name name) m;
                   lg = parent\<lparr>lg_name := name\<rparr>
               in (lg, m(name \<mapsto> lg)))"
  by pat_completeness auto

termination by (relation "measure (\<lambda>(name, m). length name)") (auto simp: parent_name_shorter)

declare GetNoLock.simps [simp del]

definition set_logger :: "string \<Rightarrow> (logger \<Rightarrow> logger) \<Rightarrow> (string \<rightharpoonup> logger) \<Rightarrow> (string \<rightharpoonup> logger)" where
  "set_logger name f m = m(name := map_option f (m name))"

section \<open>The lines that are written\<close>

lemma length_digits [simp]: "length (digits k n) = k"
  by (induction k arbitrary: n) simp_all

definition time_head :: "clock_reading \<Rightarrow> string" where
  "time_head t = date_text t @ ''.'' @ digits 3 (cr_elapsed t mod 1000) @ '': ''"

lemma length_date_text [simp]: "length (date_text t) = 14"
  by (simp add: date_text_def split: prod.splits)

lemma length_time_head [simp]: "length (time_head t) = 20"
  by (simp add: time_head_def)

lemma poke_some: "off + length p \<le> length buf \<Longrightarrow> poke buf off p = Some (take off buf @ p @ drop (off + length p) buf)"
  by (simp add: poke_def)

lemma PrintTimeHead_spec:
  assumes "21 \<le> buf_size" "buf_size \<le> length buf"
  shows "PrintTimeHead t buf buf_size = Some (20, time_head t @ [CHR 0x00] @ drop 21 buf)"
  using assms by (simp add: PrintTimeHead_def strftime_def snprintf_def poke_some time_head_def)

definition module_tag :: "string \<Rightarrow> string" where
  "module_tag module = (if module = [] then [] else ''['' @ module @ ''] '')"

lemma poke_behind:
  "off = length front \<Longrightarrow> length p \<le> length rest \<Longrightarrow> poke (front @ rest) off p = Some (front @ p @ drop (length p) rest)"
  by (simp add: poke_def)

lemma PrintModuleName_spec:
  assumes "off = length front" "length (module_tag module) \<le> length rest"
  shows "PrintModuleName (front @ rest) off module =
    Some (length (module_tag module), front @ module_tag module @ drop (length (module_tag module)) rest)"
proof (cases "module = []")
  case True
  then show ?thesis by (simp add: PrintModuleName_def module_tag_def)
next
  case False
  then have len: "length module + 3 \<le> length rest" using assms(2) by (simp add: module_tag_def)
  have p1: "poke (front @ rest) off ''['' = Some (front @ ''['' @ drop 1 rest)"
    using poke_behind [of off front "''[''" rest] assms(1) len by simp
  have p2: "poke (front @ ''['' @ drop 1 rest) (off + 1) module = Some ((front @ ''['' @ module) @ drop (1 + length module) rest)"
    using poke_behind [of "off + 1" "front @ ''[''" module "drop 1 rest"] assms(1) len by (simp add: ac_simps)
  have p3: "poke ((front @ ''['' @ module) @ drop (1 + length module) rest) (off + 1 + length module) '']'' =
      Some ((front @ ''['' @ module @ '']'') @ drop (2 + length module) rest)"
    using poke_behind [of "off + 1 + length module" "front @ ''['' @ module" "'']''" "drop (1 + length module) rest"] assms(1) len
    by (simp add: ac_simps)
  have p4: "poke ((front @ ''['' @ module @ '']'') @ drop (2 + length module) rest) (off + 1 + length module + 1) '' '' =
      Some ((front @ ''['' @ module @ ''] '') @ drop (3 + length module) rest)"
    using poke_behind [of "off + 1 + length module + 1" "front @ ''['' @ module @ '']''" "'' ''" "drop (2 + length module) rest"] assms(1) len
    by (simp add: ac_simps eval_nat_numeral)
  show ?thesis
    unfolding PrintModuleName_def if_not_P [OF False] p1 bind.bind_lunit p2 p3 p4 option.map
    using False by (simp add: module_tag_def ac_simps eval_nat_numeral)
qed

lemma timed_line_spec: "timed_line t junk p = Some (time_head t @ p)"
proof (cases "length p < 1000")
  case True
  then show ?thesis
    by (simp add: timed_line_def PrintTimeHead_spec poke_def)
next
  case False
  then show ?thesis
    by (simp add: timed_line_def PrintTimeHead_spec poke_def)
qed

lemma timed_module_line_spec: "timed_module_line t junk module p = Some (time_head t @ module_tag module @ p)"
proof -
  define cond where "cond = (length p + length module < 1000)"
  define buf where "buf = (if cond then map junk [0..<1024] else map junk [0..<length p + length module + 24])"
  define size where "size = (if cond then 1024 else 24 :: nat)"
  have size: "21 \<le> size" "size \<le> length buf" by (auto simp: size_def buf_def)
  have tag: "length (module_tag module) \<le> length module + 3" by (simp add: module_tag_def)
  have room: "20 + (length module + 3) + length p \<le> length buf" by (auto simp: buf_def cond_def)
  have "timed_module_line t junk module p =
      Option.bind (PrintTimeHead t buf size) (\<lambda>(hs, buf).
           Option.bind (PrintModuleName buf hs module) (\<lambda>(ms, buf).
             map_option (take (length p + (hs + ms))) (poke buf (hs + ms) p)))"
    by (simp add: timed_module_line_def buf_def size_def cond_def)
  also have "\<dots> = Option.bind (PrintModuleName (time_head t @ [CHR 0x00] @ drop 21 buf) 20 module) (\<lambda>(ms, buf).
             map_option (take (length p + (20 + ms))) (poke buf (20 + ms) p))"
    using PrintTimeHead_spec [OF size] by simp
  also have "\<dots> = map_option (take (length p + (20 + length (module_tag module))))
      (poke ((time_head t @ module_tag module) @ drop (length (module_tag module)) ([CHR 0x00] @ drop 21 buf))
        (20 + length (module_tag module)) p)"
    using PrintModuleName_spec [of 20 "time_head t" module "[CHR 0x00] @ drop 21 buf"] tag room by simp
  also have "\<dots> = Some (time_head t @ module_tag module @ p)"
    using poke_behind [of "20 + length (module_tag module)" "time_head t @ module_tag module" p
      "drop (length (module_tag module)) ([CHR 0x00] @ drop 21 buf)"] tag room by simp
  finally show ?thesis .
qed

text \<open>The sinks that a device writes a line of a level to.\<close>

function dev_sinks :: "log_device \<Rightarrow> nat \<Rightarrow> nat list option" where
  "dev_sinks ConsoleLogDevice level = Some [0]"
| "dev_sinks (FileLogDevice i) level = Some [i]"
| "dev_sinks (ConsoleAndFileLogDevice i) level = Some [i, 0]"
| "dev_sinks (LeveledLogDevice devices) level = (if level < length devices then dev_sinks (devices ! level) level else None)"
  by pat_completeness auto

termination
  by (relation "measure (size \<circ> fst)") (auto simp: less_Suc_eq_le intro!: size_list_estimation' [OF nth_mem])

lemma dev_WriteLine_sinks:
  "dev_WriteLine d p level w = map_option (\<lambda>is. fold (\<lambda>i. sink_write i p) is w) (dev_sinks d level)"
  by (induction d level arbitrary: w rule: dev_sinks.induct) simp_all

lemma fold_sink_write:
  "distinct is \<Longrightarrow> lw_sink (fold (\<lambda>i. sink_write i p) is w) j = lw_sink w j @ (if j \<in> set is then p else [])"
  "lw_clock (fold (\<lambda>i. sink_write i p) is w) = lw_clock w"
  by (induction "is" arbitrary: w) (auto simp: sink_write_def)

text \<open>The lines of a message.\<close>

function log_lines :: "string \<Rightarrow> string list" where
  "log_lines p = (if p = [] then [] else fst (cut_line p) # log_lines (snd (cut_line p)))"
  by pat_completeness auto

termination
proof (relation "measure length")
  fix p :: string assume "p \<noteq> []"
  then show "(snd (cut_line p), p) \<in> measure length"
    using cut_line_rest [of "fst (cut_line p)" "snd (cut_line p)" p] by (cases "snd (cut_line p) = []") auto
qed simp

declare log_lines.simps [simp del]

lemma log_lines_simps: "log_lines [] = []"
  "p \<noteq> [] \<Longrightarrow> log_lines p = fst (cut_line p) # log_lines (snd (cut_line p))"
  by (subst log_lines.simps, simp)+

lemma log_lines_concat: "concat (log_lines p) = p"
  by (induction p rule: log_lines.induct) (metis concat.simps cut_line_append log_lines_simps)

definition is_log_line :: "string \<Rightarrow> bool" where
  "is_log_line l \<longleftrightarrow> (let body = takeWhile (\<lambda>c. \<not> line_end c) l; ends = dropWhile (\<lambda>c. \<not> line_end c) l
     in l \<noteq> [] \<and> (\<forall>c \<in> set ends. line_end c))"

lemma log_lines_shape: "l \<in> set (log_lines p) \<Longrightarrow> is_log_line l"
proof (induction p rule: log_lines.induct)
  case (1 p)
  have cut: "is_log_line (fst (cut_line p))" if "p \<noteq> []"
  proof -
    let ?body = "takeWhile (\<lambda>c. \<not> line_end c) p" and ?rest = "dropWhile (\<lambda>c. \<not> line_end c) p"
    have "dropWhile (\<lambda>c. \<not> line_end c) (?body @ takeWhile line_end ?rest) = takeWhile line_end ?rest"
      by (rule dropWhile_stop) (auto dest: set_takeWhileD hd_in_set)
    then show ?thesis using cut_line_shorter [OF that]
      by (auto simp: is_log_line_def cut_line_def Let_def dest: set_takeWhileD)
  qed
  show ?case
  proof (cases "p = []")
    case False
    then show ?thesis using 1 cut by (auto simp: log_lines_simps(2) [OF False])
  qed (use 1 in \<open>simp add: log_lines_simps(1)\<close>)
qed

text \<open>The loop writes the lines one after the other.\<close>

fun write_lines :: "(string \<Rightarrow> log_world \<Rightarrow> log_world option) \<Rightarrow> string list \<Rightarrow> log_world \<Rightarrow> log_world option" where
  "write_lines f [] w = Some w"
| "write_lines f (l # ls) w = Option.bind (f l w) (write_lines f ls)"

lemma fmt_loop_lines: "fmt_loop f p w = write_lines f (log_lines p) w"
proof (induction f p w rule: fmt_loop.induct)
  case (1 f p w)
  show ?case
  proof (cases "p = []")
    case True
    then show ?thesis by (subst fmt_loop.simps) (simp add: cut_line_def log_lines_simps)
  next
    case False
    obtain line rest where c: "cut_line p = (line, rest)" by fastforce
    then have line: "line \<noteq> []" using cut_line_shorter [OF False] by simp
    have ih: "rest \<noteq> [] \<Longrightarrow> f line w = Some w1 \<Longrightarrow> fmt_loop f rest w1 = write_lines f (log_lines rest) w1" for w1
      using 1 [OF c [symmetric] refl] line by auto
    have "fmt_loop f p w = Option.bind (f line w) (\<lambda>w. if rest = [] then Some w else fmt_loop f rest w)"
      by (subst fmt_loop.simps) (simp add: c line)
    also have "\<dots> = Option.bind (f line w) (write_lines f (log_lines rest))"
      using ih by (cases "f line w") (auto simp: log_lines_simps(1))
    finally show ?thesis by (simp add: c log_lines_simps(2) [OF False])
  qed
qed

text \<open>The text that a formatter makes of the lines, and how often it reads the clock.\<close>

fun formatted :: "log_formatter \<Rightarrow> clock_reading \<Rightarrow> string \<Rightarrow> string \<Rightarrow> string" where
  "formatted LogFormatter t module l = l"
| "formatted TimedLogFormatter t module l = time_head t @ l"
| "formatted TimedModuleLogFormatter t module l = time_head t @ module_tag module @ l"

fun logged_text :: "(nat \<Rightarrow> clock_reading) \<Rightarrow> log_formatter \<Rightarrow> string \<Rightarrow> nat \<Rightarrow> string list \<Rightarrow> string" where
  "logged_text clock f module k [] = []"
| "logged_text clock f module k (l # ls) = formatted f (clock k) module l @ logged_text clock f module (k + 1) ls"

lemma logged_text_plain: "logged_text clock LogFormatter module k ls = concat ls"
  by (induction ls arbitrary: k) simp_all

lemma write_lines_text:
  assumes "dev_sinks dev level = Some is" "distinct is"
  shows "\<exists>w'. write_lines (\<lambda>line. fmt_WriteLine clock junk f line dev module level) ls w = Some w' \<and>
    (\<forall>j. lw_sink w' j = lw_sink w j @ (if j \<in> set is then logged_text clock f module (lw_clock w) ls else []))"
proof (induction ls arbitrary: w)
  case (Cons l ls)
  let ?c = "if f = LogFormatter then w else w\<lparr>lw_clock := lw_clock w + 1\<rparr>"
  let ?w = "fold (\<lambda>i. sink_write i (formatted f (clock (lw_clock w)) module l)) is ?c"
  have one: "fmt_WriteLine clock junk f l dev module level w = Some ?w"
    by (cases f) (simp_all add: fmt_WriteLine_def dev_WriteLine_sinks assms(1) timed_line_spec timed_module_line_spec)
  have sink: "lw_sink ?w j = lw_sink w j @ (if j \<in> set is then formatted f (clock (lw_clock w)) module l else [])" for j
    using fold_sink_write(1) [OF assms(2)] by simp
  have same: "logged_text clock f module (lw_clock ?w) ls = logged_text clock f module (lw_clock w + 1) ls"
    by (cases f) (simp_all add: fold_sink_write(2) logged_text_plain)
  obtain w' where "write_lines (\<lambda>line. fmt_WriteLine clock junk f line dev module level) ls ?w = Some w'"
      "\<forall>j. lw_sink w' j = lw_sink ?w j @ (if j \<in> set is then logged_text clock f module (lw_clock ?w) ls else [])"
    using Cons by blast
  then show ?case unfolding same by (auto simp: one sink)
qed simp

text \<open>A message is cut exactly behind its line ends.\<close>

definition well_cut :: "string list \<Rightarrow> bool" where
  "well_cut ls \<longleftrightarrow> list_all is_log_line ls \<and> (\<forall>l \<in> set (butlast ls). line_end (last l)) \<and>
     (\<forall>l \<in> set (tl ls). \<not> line_end (hd l))"

lemma cut_line_ends:
  "rest = snd (cut_line p) \<Longrightarrow> rest \<noteq> [] \<Longrightarrow> line_end (last (fst (cut_line p))) \<and> \<not> line_end (hd rest)"
proof -
  assume r: "rest = snd (cut_line p)" "rest \<noteq> []"
  let ?rest = "dropWhile (\<lambda>c. \<not> line_end c) p"
  have ne: "?rest \<noteq> []"
  proof
    assume "?rest = []"
    then show False using r by (simp add: cut_line_def Let_def del: dropWhile_eq_Nil_conv)
  qed
  have "line_end (hd ?rest)" using hd_dropWhile [OF ne] by simp
  then have ends: "takeWhile line_end ?rest \<noteq> []" using ne by (cases ?rest) simp_all
  then have "line_end (last (takeWhile line_end ?rest))" by (meson last_in_set set_takeWhileD)
  moreover have "rest = dropWhile line_end ?rest" using r(1) by (simp add: cut_line_def Let_def)
  moreover from this have "\<not> line_end (hd rest)" using hd_dropWhile [of line_end ?rest] r(2) by simp
  moreover have "last (fst (cut_line p)) = last (takeWhile line_end ?rest)" using ends by (simp add: cut_line_def Let_def)
  ultimately show ?thesis by simp
qed

lemma hd_log_lines:
  assumes "p \<noteq> []"
  shows "log_lines p \<noteq> []" "hd (hd (log_lines p)) = hd p"
proof -
  have "hd (fst (cut_line p)) = hd (fst (cut_line p) @ snd (cut_line p))"
    using cut_line_shorter [OF assms] by simp
  then show "log_lines p \<noteq> []" "hd (hd (log_lines p)) = hd p" using assms by (simp_all add: cut_line_append log_lines_simps)
qed

lemma well_cut_lines: "well_cut (log_lines p)"
proof (induction p rule: log_lines.induct)
  case (1 p)
  show ?case
  proof (cases "p = []")
    case True
    then show ?thesis by (simp add: well_cut_def log_lines_simps)
  next
    case False
    let ?rest = "snd (cut_line p)"
    have ih: "well_cut (log_lines ?rest)" using 1 False by blast
    have first: "is_log_line (fst (cut_line p))" using log_lines_shape [of "fst (cut_line p)" p] False by (simp add: log_lines_simps)
    show ?thesis
    proof (cases "?rest = []")
      case True
      then show ?thesis using False first by (simp add: well_cut_def log_lines_simps)
    next
      case rest: False
      note e = cut_line_ends [OF refl rest]
      obtain l ls where ls: "log_lines ?rest = l # ls" using hd_log_lines(1) [OF rest] by (cases "log_lines ?rest") auto
      have "\<not> line_end (hd l)" using hd_log_lines(2) [OF rest] e by (simp add: ls)
      moreover have "log_lines p = fst (cut_line p) # l # ls" using False by (simp add: ls log_lines_simps)
      ultimately show ?thesis
        using ih e first unfolding ls by (simp add: well_cut_def)
    qed
  qed
qed

text \<open>
  C27. A message that a logger accepts arrives complete on every sink of its device: it is cut exactly
  behind its runs of line ends, every line stands behind the head of its formatter, and joined without
  the heads the lines are the message. Nothing is written beyond the character buffers, no other sink
  changes, and messages above the level change nothing. A fatal message is written before the program is
  aborted.
\<close>

theorem logger_output:
  assumes "dev_sinks (lg_device lg) level = Some is" "distinct is"
  shows "if level > lg_level lg then Logger_Write clock junk lg d level w = Logged w
    else \<exists>w' ls. Logger_Write clock junk lg d level w = (if level \<le> LL_FATAL then Aborted w' else Logged w') \<and>
      concat ls = d \<and> well_cut ls \<and>
      (\<forall>j. lw_sink w' j = lw_sink w j @
         (if j \<in> set is then logged_text clock (lg_formatter lg) (lg_name lg) (lw_clock w) ls else []))"
proof (cases "level > lg_level lg")
  case True
  then show ?thesis by (simp add: Logger_Write_def)
next
  case False
  obtain w' where w': "write_lines (\<lambda>line. fmt_WriteLine clock junk (lg_formatter lg) line (lg_device lg) (lg_name lg) level)
      (log_lines d) w = Some w'"
    "\<forall>j. lw_sink w' j = lw_sink w j @
       (if j \<in> set is then logged_text clock (lg_formatter lg) (lg_name lg) (lw_clock w) (log_lines d) else [])"
    using write_lines_text [OF assms] by blast
  have "Logger_Write clock junk lg d level w = (if level \<le> LL_FATAL then Aborted w' else Logged w')"
    using False by (simp add: Logger_Write_def fmt_Write_def fmt_loop_lines w'(1))
  then show ?thesis using False w'(2) log_lines_concat [of d] well_cut_lines [of d] by auto
qed

definition net_logger :: logger where
  "net_logger = Logger_root\<lparr>lg_device := ConsoleAndFileLogDevice 1, lg_formatter := TimedModuleLogFormatter, lg_name := ''net''\<rparr>"

lemma logger_output_witness:
  "\<forall>clock junk w. \<exists>w' ls. Logger_Write clock junk net_logger ''up'' 4 w = Logged w' \<and> concat ls = ''up'' \<and> well_cut ls \<and>
     lw_sink w' 1 = lw_sink w 1 @ logged_text clock TimedModuleLogFormatter ''net'' (lw_clock w) ls \<and>
     lw_sink w' 2 = lw_sink w 2"
proof (intro allI)
  fix clock :: "nat \<Rightarrow> clock_reading" and junk :: "nat \<Rightarrow> char" and w :: log_world
  have lg: "lg_device net_logger = ConsoleAndFileLogDevice 1" "lg_formatter net_logger = TimedModuleLogFormatter"
      "lg_name net_logger = ''net''" "lg_level net_logger = 4"
    by (simp_all add: net_logger_def Logger_root_def LL_INFO_def)
  have sinks: "dev_sinks (lg_device net_logger) 4 = Some [1, 0]" by (simp add: lg)
  show "\<exists>w' ls. Logger_Write clock junk net_logger ''up'' 4 w = Logged w' \<and> concat ls = ''up'' \<and> well_cut ls \<and>
     lw_sink w' 1 = lw_sink w 1 @ logged_text clock TimedModuleLogFormatter ''net'' (lw_clock w) ls \<and>
     lw_sink w' 2 = lw_sink w 2"
    using logger_output [OF sinks, of clock junk "''up''" w] by (auto simp: lg LL_FATAL_def)
qed

section \<open>Leveled devices and inherited loggers\<close>

lemma fill_levels_spec:
  "l + n \<le> length devs \<Longrightarrow> fill_levels devs n l d = Some (take l devs @ replicate n d @ drop (l + n) devs)"
proof (induction n arbitrary: devs l)
  case (Suc n)
  then have "fill_levels devs (Suc n) l d = Some (take (l + 1) (devs[l := d]) @ replicate n d @ drop (l + 1 + n) (devs[l := d]))"
    by simp
  also have "take (l + 1) (devs[l := d]) = take l devs @ [d]"
    using Suc.prems by (simp add: take_Suc_conv_app_nth)
  finally show ?case by (simp add: replicate_app_Cons_same)
qed simp

definition level_device :: "(nat \<times> log_device) list \<Rightarrow> nat \<Rightarrow> log_device option" where
  "level_device devices l = map_option snd (find (\<lambda>(level, d). l \<le> level) devices)"

lemma level_loop_spec:
  assumes "sorted_wrt (<) (map fst devices)" "\<forall>(level, d) \<in> set devices. level < length devs" "l \<le> length devs"
  shows "\<exists>devs' l'. level_loop devs l devices = Some (devs', l') \<and> length devs' = length devs \<and> l \<le> l' \<and> l' \<le> length devs \<and>
    (\<forall>j < length devs. (j < l' \<longleftrightarrow> j < l \<or> level_device devices j \<noteq> None) \<and>
      devs' ! j = (if j < l then devs ! j else case level_device devices j of Some d \<Rightarrow> d | None \<Rightarrow> devs ! j))"
  using assms
proof (induction devices arbitrary: devs l)
  case Nil
  then show ?case by (simp add: level_device_def)
next
  case (Cons e devices)
  obtain level d where e: "e = (level, d)" by fastforce
  let ?n = "Suc level - l"
  let ?devs = "take l devs @ replicate ?n d @ drop (l + ?n) devs"
  have fill: "fill_levels devs ?n l d = Some ?devs" using Cons.prems e by (intro fill_levels_spec) auto
  have len: "length ?devs = length devs" using Cons.prems e by auto
  have nth: "?devs ! j = (if l \<le> j \<and> j \<le> level then d else devs ! j)" if "j < length devs" for j
    using that Cons.prems(3) by (auto simp: nth_append)
  have hyp: "sorted_wrt (<) (map fst devices)" "\<forall>(level, d) \<in> set devices. level < length ?devs" "max l (Suc level) \<le> length ?devs"
    using Cons.prems e unfolding len by auto
  obtain devs' l' where ih: "level_loop ?devs (max l (Suc level)) devices = Some (devs', l')"
      "length devs' = length ?devs" "max l (Suc level) \<le> l'" "l' \<le> length ?devs"
      "\<forall>j < length ?devs. (j < l' \<longleftrightarrow> j < max l (Suc level) \<or> level_device devices j \<noteq> None) \<and>
        devs' ! j = (if j < max l (Suc level) then ?devs ! j else case level_device devices j of Some d \<Rightarrow> d | None \<Rightarrow> ?devs ! j)"
    using Cons.IH [OF hyp] by blast
  have dev: "level_device (e # devices) j = (if j \<le> level then Some d else level_device devices j)" for j
    by (simp add: level_device_def e)
  have "level_loop devs l (e # devices) = Some (devs', l')"
    using ih(1) by (simp add: e fill del: fill_levels.simps)
  moreover have "(j < l' \<longleftrightarrow> j < l \<or> level_device (e # devices) j \<noteq> None) \<and>
      devs' ! j = (if j < l then devs ! j else case level_device (e # devices) j of Some d \<Rightarrow> d | None \<Rightarrow> devs ! j)"
    if "j < length devs" for j
  proof -
    have "(j < l' \<longleftrightarrow> j < max l (Suc level) \<or> level_device devices j \<noteq> None) \<and>
        devs' ! j = (if j < max l (Suc level) then ?devs ! j else case level_device devices j of Some d \<Rightarrow> d | None \<Rightarrow> ?devs ! j)"
      using ih(5) that unfolding len by blast
    then show ?thesis unfolding dev nth [OF that] by (auto simp: less_Suc_eq_le)
  qed
  ultimately show ?case using ih(2,3,4) unfolding len by auto
qed

text \<open>
  A leveled device sends a message to the device of the least level that the map has at or above the
  level of the message, and to the last device when there is none.
\<close>

lemma leveled_device_choice:
  assumes "sorted_wrt (<) (map fst devices)" "\<forall>(level, d) \<in> set devices. level < LL_LAST_INVALID" "devices \<noteq> []"
    "level < LL_LAST_INVALID"
  shows "\<exists>dev. LeveledLogDevice_new devices = Some dev \<and>
    dev_WriteLine dev p level w =
      dev_WriteLine (case level_device devices level of Some d \<Rightarrow> d | None \<Rightarrow> snd (last devices)) p level w"
proof -
  let ?devs = "replicate LL_LAST_INVALID ConsoleLogDevice"
  have hyp: "\<forall>(level, d) \<in> set devices. level < length ?devs" "0 \<le> length ?devs" using assms(2) by simp_all
  obtain devs l where loop: "level_loop ?devs 0 devices = Some (devs, l)" "length devs = LL_LAST_INVALID" "l \<le> LL_LAST_INVALID"
    "\<forall>j < LL_LAST_INVALID. (j < l \<longleftrightarrow> level_device devices j \<noteq> None) \<and>
      devs ! j = (case level_device devices j of Some d \<Rightarrow> d | None \<Rightarrow> ?devs ! j)"
    using level_loop_spec [OF assms(1) hyp] by auto
  let ?fin = "take l devs @ replicate (LL_LAST_INVALID - l) (snd (last devices)) @ drop (l + (LL_LAST_INVALID - l)) devs"
  have "fill_levels devs (LL_LAST_INVALID - l) l (snd (last devices)) = Some ?fin"
    using loop by (intro fill_levels_spec) simp
  then have new: "LeveledLogDevice_new devices = Some (LeveledLogDevice ?fin)"
    using assms(3) loop(1) by (simp add: LeveledLogDevice_new_def)
  have len: "level < length ?fin" using loop(2,3) assms(4) by simp
  have "?fin ! level = (case level_device devices level of Some d \<Rightarrow> d | None \<Rightarrow> snd (last devices))"
  proof -
    have "(level < l \<longleftrightarrow> level_device devices level \<noteq> None) \<and>
        devs ! level = (case level_device devices level of Some d \<Rightarrow> d | None \<Rightarrow> ?devs ! level)"
      using loop(4) assms(4) by blast
    then show ?thesis using loop(2,3) assms(4)
      by (cases "level_device devices level") (simp_all add: nth_append diff_less_mono)
  qed
  then have "dev_WriteLine (LeveledLogDevice ?fin) p level w =
      dev_WriteLine (case level_device devices level of Some d \<Rightarrow> d | None \<Rightarrow> snd (last devices)) p level w"
    unfolding dev_WriteLine.simps if_P [OF len] by (rule arg_cong [where f = "\<lambda>d. dev_WriteLine d p level w"])
  then show ?thesis using new by blast
qed

lemma leveled_device_choice_witness:
  "\<exists>dev. LeveledLogDevice_new [(3, ConsoleAndFileLogDevice 1), (4, FileLogDevice 2)] = Some dev \<and>
    dev_WriteLine dev ''x'' 5 w = dev_WriteLine (FileLogDevice 2) ''x'' 5 w"
  using leveled_device_choice [of "[(3, ConsoleAndFileLogDevice 1), (4, FileLogDevice 2)]" 5 "''x''" w]
  by (simp add: LL_LAST_INVALID_def level_device_def)

text \<open>The names from which a logger inherits, the nearest first.\<close>

function ancestors :: "string \<Rightarrow> string list" where
  "ancestors name = (if name = [] then [[]] else name # ancestors (parent_name name))"
  by pat_completeness auto

termination by (relation "measure length") (auto simp: parent_name_shorter)

declare ancestors.simps [simp del]

lemma ancestors_root: "[] \<in> set (ancestors name)"
  by (induction name rule: ancestors.induct) (subst ancestors.simps, auto)

definition nearest :: "(string \<rightharpoonup> logger) \<Rightarrow> string \<Rightarrow> logger" where
  "nearest m name = the (m (hd (dropWhile (\<lambda>a. m a = None) (ancestors name))))"

definition missing :: "(string \<rightharpoonup> logger) \<Rightarrow> string \<Rightarrow> string set" where
  "missing m name = set (takeWhile (\<lambda>a. m a = None) (ancestors name))"

definition loggers_ok :: "(string \<rightharpoonup> logger) \<Rightarrow> bool" where
  "loggers_ok m \<longleftrightarrow> m [] \<noteq> None \<and> (\<forall>n lg. m n = Some lg \<longrightarrow> lg_name lg = n)"

lemma nearest_simps:
  "m name \<noteq> None \<Longrightarrow> nearest m name = the (m name) \<and> missing m name = {}"
  "name \<noteq> [] \<Longrightarrow> m name = None \<Longrightarrow> nearest m name = nearest m (parent_name name) \<and>
     missing m name = insert name (missing m (parent_name name))"
proof -
  obtain r where r: "ancestors name = name # r" "name \<noteq> [] \<Longrightarrow> r = ancestors (parent_name name)"
    by (cases "name = []") (auto simp: ancestors.simps [of name] ancestors.simps [of "[]"])
  show "m name \<noteq> None \<Longrightarrow> nearest m name = the (m name) \<and> missing m name = {}"
    by (auto simp: nearest_def missing_def r(1))
  show "name \<noteq> [] \<Longrightarrow> m name = None \<Longrightarrow> nearest m name = nearest m (parent_name name) \<and>
     missing m name = insert name (missing m (parent_name name))"
    by (simp add: nearest_def missing_def r)
qed

lemma missing_shorter: "a \<in> missing m name \<Longrightarrow> length a \<le> length name"
proof -
  have "a \<in> set (ancestors name) \<Longrightarrow> length a \<le> length name"
  proof (induction name rule: ancestors.induct)
    case (1 name)
    then show ?case using parent_name_shorter [of name] by (subst (asm) ancestors.simps) (fastforce split: if_splits)
  qed
  then show "a \<in> missing m name \<Longrightarrow> length a \<le> length name" by (auto simp: missing_def dest: set_takeWhileD)
qed

lemma GetNoLock_spec:
  "loggers_ok m \<Longrightarrow> GetNoLock name m =
    ((nearest m name)\<lparr>lg_name := name\<rparr>,
     \<lambda>n. if n \<in> missing m name then Some ((nearest m name)\<lparr>lg_name := n\<rparr>) else m n)"
proof (induction name m rule: GetNoLock.induct)
  case (1 name m)
  show ?case
  proof (cases "m name")
    case (Some lg)
    moreover have "lg_name lg = name" using 1(2) Some by (simp add: loggers_ok_def)
    ultimately show ?thesis
      using nearest_simps(1) [of m name] by (subst GetNoLock.simps) auto
  next
    case None
    then have ne: "name \<noteq> []" using 1(2) by (auto simp: loggers_ok_def)
    note n = nearest_simps(2) [where m = m, OF ne None]
    let ?N = "nearest m (parent_name name)" and ?M = "missing m (parent_name name)"
    have "GetNoLock (parent_name name) m =
        (?N\<lparr>lg_name := parent_name name\<rparr>, \<lambda>n. if n \<in> ?M then Some (?N\<lparr>lg_name := n\<rparr>) else m n)"
      using 1 ne None by blast
    then have "GetNoLock name m = (?N\<lparr>lg_name := name\<rparr>,
        (\<lambda>n. if n \<in> ?M then Some (?N\<lparr>lg_name := n\<rparr>) else m n)(name \<mapsto> ?N\<lparr>lg_name := name\<rparr>))"
      by (subst GetNoLock.simps) (simp add: ne None Let_def)
    then show ?thesis by (simp add: n fun_eq_iff)
  qed
qed

text \<open>
  A logger inherits. Asking for a logger by its dotted name returns the logger itself if there is one,
  and otherwise the device, formatter and level of its nearest existing ancestor under the new name;
  the ancestors on the way are made the same way, no other logger changes, and asking again changes
  nothing.
\<close>

lemma loggers_inherit:
  assumes "loggers_ok m" "GetNoLock name m = (lg, m')"
  shows "lg = (nearest m name)\<lparr>lg_name := name\<rparr> \<and>
    m' = (\<lambda>n. if n \<in> missing m name then Some ((nearest m name)\<lparr>lg_name := n\<rparr>) else m n) \<and>
    loggers_ok m' \<and> m' name = Some lg \<and> GetNoLock name m' = (lg, m')"
proof -
  let ?m = "\<lambda>n. if n \<in> missing m name then Some ((nearest m name)\<lparr>lg_name := n\<rparr>) else m n"
  have lg: "lg = (nearest m name)\<lparr>lg_name := name\<rparr>" "m' = ?m" using GetNoLock_spec [OF assms(1), of name] assms(2) by simp_all
  have ok: "loggers_ok ?m" using assms(1) by (auto simp: loggers_ok_def split: if_splits)
  have "?m name = Some lg"
  proof (cases "m name")
    case None
    then have "name \<noteq> []" using assms(1) by (auto simp: loggers_ok_def)
    then show ?thesis using nearest_simps(2) [of name m] None by (simp add: lg(1))
  next
    case (Some x)
    then have "lg_name x = name" using assms(1) by (simp add: loggers_ok_def)
    then show ?thesis using nearest_simps(1) [of m name] Some by (simp add: lg(1))
  qed
  moreover from this have "GetNoLock name ?m = (lg, ?m)"
  proof -
    have none: "missing ?m name = {}" "nearest ?m name = lg" using nearest_simps(1) [of ?m name] \<open>?m name = Some lg\<close> by simp_all
    show ?thesis unfolding GetNoLock_spec [OF ok, of name] none by (simp add: lg(1))
  qed
  ultimately show ?thesis using lg ok by simp
qed

lemma loggers_inherit_witness:
  "let m = set_logger ''net'' (\<lambda>lg. lg\<lparr>lg_level := LL_DEBUG\<rparr>) (snd (GetNoLock ''net'' LoggerManager));
       lg = fst (GetNoLock ''net.http.client'' m)
   in lg_level lg = LL_DEBUG \<and> lg_name lg = ''net.http.client''"
proof -
  let ?m = "set_logger ''net'' (\<lambda>lg. lg\<lparr>lg_level := LL_DEBUG\<rparr>) (snd (GetNoLock ''net'' LoggerManager))"
  have ok0: "loggers_ok LoggerManager" by (simp add: loggers_ok_def LoggerManager_def Logger_root_def)
  have g: "GetNoLock ''net'' LoggerManager = (fst (GetNoLock ''net'' LoggerManager), snd (GetNoLock ''net'' LoggerManager))" by simp
  have ok: "loggers_ok ?m"
    using loggers_inherit [OF ok0 g] by (auto simp: set_logger_def loggers_ok_def)
  obtain lg m' where lg: "GetNoLock ''net.http.client'' ?m = (lg, m')" by fastforce
  have par: "parent_name ''net.http.client'' = ''net.http''" "parent_name ''net.http'' = ''net''" by code_simp+
  have "?m ''net'' \<noteq> None" "?m ''net.http'' = None" "?m ''net.http.client'' = None" "lg_level (the (?m ''net'')) = LL_DEBUG"
    by code_simp+
  then have "lg_level (nearest ?m ''net.http.client'') = LL_DEBUG"
    using nearest_simps(1) [of ?m "''net''"] nearest_simps(2) [of "''net.http''" ?m] nearest_simps(2) [of "''net.http.client''" ?m]
    by (simp add: par)
  then show ?thesis using loggers_inherit [OF ok lg] lg by (simp add: Let_def)
qed

end
