(* ===== verification/Log_Files.thy ===== *)
theory Log_Files
  imports Int_Text String_Util
begin

text \<open>
  \<^verbatim>\<open>rotating_file_log_device.h\<close>: a log that is written to files with increasing numbers, of which the
  oldest are removed. A directory is the list of its regular files, names and contents, in the order
  in which it is listed; a path is the name in this directory. What is written reaches the file at once.
\<close>

type_synonym directory = "(string \<times> string) list"

record rotating_log =
  rl_prefix :: string
  rl_max_size :: nat
  rl_max_files :: nat
  rl_idx :: int
  rl_size :: nat
  rl_dir :: directory

text \<open>The number of a log file; \<open>-1\<close> when the name is not one, and no result when the number overflows.\<close>

fun idx_loop :: "string \<Rightarrow> int \<Rightarrow> int option" where
  "idx_loop [] idx = Some idx"
| "idx_loop (c # cs) idx =
     (if schar c < schar (CHR ''0'') \<or> schar c > schar (CHR ''9'') then Some (- 1)
      else if in_range 64 (idx * 10 + schar c) then idx_loop cs (idx * 10 + schar c - schar (CHR ''0'')) else None)"

definition GetLogFileIdx :: "string \<Rightarrow> string \<Rightarrow> int option" where
  "GetLogFileIdx pre file_name =
     (if \<not> StartsWith file_name (pre @ ''.'') True then Some (- 1)
      else if length file_name \<le> length pre + 1 then Some (- 1)
      else idx_loop (drop (length pre + 1) file_name) 0)"

text \<open>\<^verbatim>\<open>std::to_string\<close> of a number that is not negative is its decimal form.\<close>

definition GetLogFilePath :: "string \<Rightarrow> int \<Rightarrow> string" where
  "GetLogFilePath pre idx = pre @ ''.'' @ PrintUintToBuffer idx"

text \<open>\<^verbatim>\<open>std::map::emplace\<close> keeps an entry that is there.\<close>

fun emplace :: "int \<Rightarrow> 'v \<Rightarrow> (int \<times> 'v) list \<Rightarrow> (int \<times> 'v) list" where
  "emplace k v [] = [(k, v)]"
| "emplace k v ((k', v') # m) =
     (if k < k' then (k, v) # (k', v') # m else if k = k' then (k', v') # m else (k', v') # emplace k v m)"

fun list_loop :: "string \<Rightarrow> directory \<Rightarrow> (int \<times> string) list \<Rightarrow> (int \<times> string) list option" where
  "list_loop pre [] m = Some m"
| "list_loop pre ((name, _) # dir) m =
     (case GetLogFileIdx pre name of
        None \<Rightarrow> None
      | Some idx \<Rightarrow> list_loop pre dir (if idx = - 1 then m else emplace idx name m))"

definition ListExistingLogFiles :: "string \<Rightarrow> directory \<Rightarrow> string list option" where
  "ListExistingLogFiles pre dir = map_option (map snd) (list_loop pre dir [])"

definition RemoveLogFilesIfNecessary :: "nat \<Rightarrow> string list \<Rightarrow> directory \<Rightarrow> directory" where
  "RemoveLogFilesIfNecessary max_n_files log_files dir =
     (if length log_files > max_n_files
      then filter (\<lambda>(name, _). name \<notin> set (take (length log_files - max_n_files) log_files)) dir
      else dir)"

text \<open>Opening a file to append creates it when it is not there; writing to an open file that was removed
  changes no file of the directory.\<close>

definition open_append :: "string \<Rightarrow> directory \<Rightarrow> directory" where
  "open_append name dir = (if name \<in> fst ` set dir then dir else dir @ [(name, [])])"

definition append_file :: "string \<Rightarrow> string \<Rightarrow> directory \<Rightarrow> directory" where
  "append_file name p dir = map (\<lambda>(n, c). (n, if n = name then c @ p else c)) dir"

definition RotateFile :: "rotating_log \<Rightarrow> rotating_log option" where
  "RotateFile s =
     (if \<not> in_range 64 (rl_idx s + 1) then None
      else
        let s = s\<lparr>rl_idx := rl_idx s + 1\<rparr>;
            s = s\<lparr>rl_dir := open_append (GetLogFilePath (rl_prefix s) (rl_idx s)) (rl_dir s), rl_size := 0\<rparr>
        in map_option (\<lambda>files. s\<lparr>rl_dir := RemoveLogFilesIfNecessary (rl_max_files s) files (rl_dir s)\<rparr>)
             (ListExistingLogFiles (rl_prefix s) (rl_dir s)))"

definition RotatingLog_WriteLine :: "string \<Rightarrow> rotating_log \<Rightarrow> rotating_log option" where
  "RotatingLog_WriteLine p s =
     (let s = s\<lparr>rl_dir := append_file (GetLogFilePath (rl_prefix s) (rl_idx s)) p (rl_dir s),
                rl_size := rl_size s + length p\<rparr>
      in if rl_size s \<ge> rl_max_size s then RotateFile s else Some s)"

definition RotatingFileLogDevice :: "directory \<Rightarrow> string \<Rightarrow> nat \<Rightarrow> nat \<Rightarrow> rotating_log option" where
  "RotatingFileLogDevice dir pre max_log_file_size max_n_files =
     (let n = max max_n_files 1 in
      Option.bind (ListExistingLogFiles pre dir) (\<lambda>log_files.
        Option.bind (if log_files = [] then Some 0 else GetLogFileIdx pre (last log_files)) (\<lambda>idx.
          let dir = (if log_files = [] then dir else RemoveLogFilesIfNecessary n log_files dir);
              (dir, idx, size) =
                (case map_of dir (GetLogFilePath pre idx) of
                   None \<Rightarrow> (dir, idx, 0)
                 | Some c \<Rightarrow>
                     if length c \<ge> max_log_file_size
                     then (RemoveLogFilesIfNecessary n (log_files @ [GetLogFilePath pre idx]) dir, idx + 1, 0)
                     else (dir, idx, length c))
          in Some \<lparr>rl_prefix = pre, rl_max_size = max max_log_file_size 1, rl_max_files = n, rl_idx = idx, rl_size = size,
                   rl_dir = open_append (GetLogFilePath pre idx) dir\<rparr>)))"

fun write_log :: "string list \<Rightarrow> rotating_log \<Rightarrow> rotating_log option" where
  "write_log [] s = Some s"
| "write_log (p # ps) s = Option.bind (RotatingLog_WriteLine p s) (write_log ps)"

section \<open>Names and numbers\<close>

lemma digit_test: "\<not> (schar c < schar (CHR ''0'') \<or> schar c > schar (CHR ''9'')) \<longleftrightarrow> IsDigits c"
  using uchar_less [of c] by (auto simp: IsDigits_uchar schar_def simp del: uchar_less)

lemma idx_loop_digits:
  "\<forall>c \<in> set cs. IsDigits c \<Longrightarrow> 0 \<le> d \<Longrightarrow> dec_from d cs < 10 ^ 17 \<Longrightarrow> idx_loop cs d = Some (dec_from d cs)"
proof (induction cs arbitrary: d)
  case (Cons c cs)
  have dig: "IsDigits c" "schar c = int (uchar c)" "schar c - schar (CHR ''0'') = int (uchar c) - 48"
      "48 \<le> uchar c" "uchar c \<le> 57"
    using Cons.prems(1) IsDigits_value [of c] by (auto simp: IsDigits_uchar schar_def)
  have ge: "d * 10 + (int (uchar c) - 48) \<le> dec_from (d * 10 + (int (uchar c) - 48)) cs"
    using Cons.prems(1,2) dig(4) by (intro dec_from_ge) auto
  have "in_range 64 (d * 10 + schar c)" using ge Cons.prems dig by simp
  moreover have "d * 10 + schar c - schar (CHR ''0'') = d * 10 + (int (uchar c) - 48)" using dig(3) by simp
  moreover have "idx_loop cs (d * 10 + (int (uchar c) - 48)) = Some (dec_from d (c # cs))"
    using Cons.IH [of "d * 10 + (int (uchar c) - 48)"] Cons.prems dig by simp
  moreover have "\<not> (schar c < schar (CHR ''0'') \<or> schar c > schar (CHR ''9''))" using dig(1) digit_test by blast
  ultimately show ?case unfolding idx_loop.simps by (simp only: if_False if_True not_False_eq_True)
qed simp

lemma GetLogFileIdx_path:
  assumes "0 \<le> i" "i < 10 ^ 17"
  shows "GetLogFileIdx pre (GetLogFilePath pre i) = Some i"
proof -
  have "StartsWith (pre @ ''.'' @ PrintUintToBuffer i) (pre @ ''.'') True"
    by (simp add: StartsWith_norm norm_simps)
  then show ?thesis
    using idx_loop_digits [of "PrintUintToBuffer i" 0] PrintUint_digits [OF assms(1)] PrintUint_value [OF assms(1)]
      PrintUint_nonempty [OF assms(1)] assms
    by (simp add: GetLogFileIdx_def GetLogFilePath_def)
qed

lemma path_inject: "0 \<le> i \<Longrightarrow> 0 \<le> j \<Longrightarrow> GetLogFilePath pre i = GetLogFilePath pre j \<longleftrightarrow> i = j"
proof
  assume n: "0 \<le> i" "0 \<le> j" and "GetLogFilePath pre i = GetLogFilePath pre j"
  then have "PrintUintToBuffer i = PrintUintToBuffer j" by (simp add: GetLogFilePath_def)
  then show "i = j" using PrintUint_value [OF n(1)] PrintUint_value [OF n(2)] by metis
qed simp

section \<open>The window of log files\<close>

text \<open>The numbers that a directory has log files for. In a well-formed directory no log file has a name
  with leading zeros or with a number near the limit.\<close>

definition idxs :: "string \<Rightarrow> directory \<Rightarrow> int set" where
  "idxs pre dir = {i. 0 \<le> i \<and> GetLogFilePath pre i \<in> fst ` set dir}"

definition dir_ok :: "string \<Rightarrow> directory \<Rightarrow> bool" where
  "dir_ok pre dir \<longleftrightarrow> distinct (map fst dir) \<and>
     (\<forall>name \<in> fst ` set dir. GetLogFileIdx pre name = Some (- 1) \<or>
        (\<exists>i. 0 \<le> i \<and> i < 10 ^ 17 \<and> name = GetLogFilePath pre i))"

lemma idx_loop_not_minus:
  "\<forall>c \<in> set cs. IsDigits c \<Longrightarrow> 0 \<le> d \<Longrightarrow> idx_loop cs d \<noteq> Some (- 1)"
proof (induction cs arbitrary: d)
  case (Cons c cs)
  have dig: "IsDigits c" using Cons.prems(1) by simp
  then have no: "\<not> (schar c < schar (CHR ''0'') \<or> schar c > schar (CHR ''9''))" using digit_test by blast
  then have "0 \<le> d * 10 + schar c - schar (CHR ''0'')" using Cons.prems(2) by linarith
  then have "idx_loop cs (d * 10 + schar c - schar (CHR ''0'')) \<noteq> Some (- 1)" using Cons by simp
  then show ?case unfolding idx_loop.simps if_not_P [OF no] by simp
qed simp

lemma path_not_minus:
  assumes "0 \<le> i"
  shows "GetLogFileIdx pre (GetLogFilePath pre i) \<noteq> Some (- 1)"
proof -
  have "StartsWith (pre @ ''.'' @ PrintUintToBuffer i) (pre @ ''.'') True" by (simp add: StartsWith_norm norm_simps)
  then have "GetLogFileIdx pre (GetLogFilePath pre i) = idx_loop (PrintUintToBuffer i) 0"
    using PrintUint_nonempty [OF assms] by (simp add: GetLogFileIdx_def GetLogFilePath_def)
  then show ?thesis using idx_loop_not_minus [OF PrintUint_digits [OF assms], of 0] by simp
qed

lemma idxs_bound:
  assumes "dir_ok pre dir" "i \<in> idxs pre dir"
  shows "0 \<le> i \<and> i < 10 ^ 17"
proof -
  have i: "0 \<le> i" "GetLogFilePath pre i \<in> fst ` set dir" using assms(2) by (simp_all add: idxs_def)
  then obtain j where j: "0 \<le> j" "j < 10 ^ 17" "GetLogFilePath pre i = GetLogFilePath pre j"
    using assms(1) path_not_minus [OF i(1)] unfolding dir_ok_def by blast
  then have "i = j" using path_inject [OF i(1) j(1)] by blast
  then show ?thesis using j by blast
qed

lemma finite_idxs: "finite (idxs pre dir)"
proof -
  have "inj_on (GetLogFilePath pre) (idxs pre dir)" by (rule inj_onI) (auto simp: idxs_def path_inject)
  moreover have "GetLogFilePath pre ` idxs pre dir \<subseteq> fst ` set dir" by (auto simp: idxs_def)
  ultimately show ?thesis by (meson finite_imageD finite_set finite_subset finite_imageI)
qed

lemma emplace_new:
  "sorted is \<Longrightarrow> i \<notin> set is \<Longrightarrow> emplace i (f i) (map (\<lambda>i. (i, f i)) is) = map (\<lambda>i. (i, f i)) (insort i is)"
  by (induction "is") auto

lemma list_loop_spec:
  assumes "dir_ok pre dir" "finite I" "I \<inter> idxs pre dir = {}"
  shows "list_loop pre dir (map (\<lambda>i. (i, GetLogFilePath pre i)) (sorted_list_of_set I)) =
    Some (map (\<lambda>i. (i, GetLogFilePath pre i)) (sorted_list_of_set (I \<union> idxs pre dir)))"
  using assms
proof (induction dir arbitrary: I)
  case Nil
  then show ?case by (simp add: idxs_def)
next
  case (Cons e dir)
  obtain name c where e: "e = (name, c)" by fastforce
  have ok: "dir_ok pre dir" using Cons.prems(1) by (simp add: dir_ok_def)
  show ?case
  proof (cases "GetLogFileIdx pre name = Some (- 1)")
    case True
    have "idxs pre (e # dir) = idxs pre dir"
    proof -
      have "GetLogFilePath pre i \<noteq> name" if "i \<in> idxs pre (e # dir)" for i
        using idxs_bound [OF Cons.prems(1) that] GetLogFileIdx_path [of i pre] True by auto
      then show ?thesis by (auto simp: idxs_def e)
    qed
    then show ?thesis using Cons ok True by (simp add: e)
  next
    case False
    then obtain i where i: "0 \<le> i" "i < 10 ^ 17" "name = GetLogFilePath pre i"
      using Cons.prems(1) by (auto simp: dir_ok_def e)
    have ins: "idxs pre (e # dir) = insert i (idxs pre dir)"
      using i by (auto simp: idxs_def e path_inject)
    have notin: "i \<notin> idxs pre dir" using Cons.prems(1) i by (auto simp: dir_ok_def idxs_def e)
    have new: "i \<notin> I" using Cons.prems(3) ins by auto
    have "emplace i (GetLogFilePath pre i) (map (\<lambda>i. (i, GetLogFilePath pre i)) (sorted_list_of_set I)) =
        map (\<lambda>i. (i, GetLogFilePath pre i)) (sorted_list_of_set (insert i I))"
      using new Cons.prems(2) emplace_new [of "sorted_list_of_set I" i "GetLogFilePath pre"] by simp
    moreover have "list_loop pre dir (map (\<lambda>i. (i, GetLogFilePath pre i)) (sorted_list_of_set (insert i I))) =
        Some (map (\<lambda>i. (i, GetLogFilePath pre i)) (sorted_list_of_set (insert i I \<union> idxs pre dir)))"
      using Cons.prems(2,3) ins notin by (intro Cons.IH [OF ok]) auto
    ultimately show ?thesis
      using GetLogFileIdx_path [OF i(1,2)] i(1) by (simp add: e i(3) ins [unfolded e i(3)])
  qed
qed

lemma ListExistingLogFiles_spec:
  "dir_ok pre dir \<Longrightarrow> ListExistingLogFiles pre dir = Some (map (GetLogFilePath pre) (sorted_list_of_set (idxs pre dir)))"
  using list_loop_spec [of pre dir "{}"] by (simp add: ListExistingLogFiles_def comp_def)

text \<open>The log as its readers see it: numbers and contents, the oldest file first.\<close>

definition window :: "string \<Rightarrow> directory \<Rightarrow> (int \<times> string) list" where
  "window pre dir = map (\<lambda>i. (i, the (map_of dir (GetLogFilePath pre i)))) (sorted_list_of_set (idxs pre dir))"

lemma append_file_simps [simp]:
  "map fst (append_file n p dir) = map fst dir"
  "fst ` set (append_file n p dir) = fst ` set dir"
  "map_of (append_file n p dir) m = map_option (\<lambda>c. if m = n then c @ p else c) (map_of dir m)"
  by (induction dir) (auto simp: append_file_def)

lemma append_file_ok [simp]:
  "dir_ok pre (append_file n p dir) = dir_ok pre dir" "idxs pre (append_file n p dir) = idxs pre dir"
  by (simp_all add: dir_ok_def idxs_def)

lemma open_append_new:
  assumes "dir_ok pre dir" "0 \<le> i" "i < 10 ^ 17" "i \<notin> idxs pre dir"
  shows "dir_ok pre (open_append (GetLogFilePath pre i) dir)"
    "idxs pre (open_append (GetLogFilePath pre i) dir) = insert i (idxs pre dir)"
    "map_of (open_append (GetLogFilePath pre i) dir) = (map_of dir)(GetLogFilePath pre i \<mapsto> [])"
proof -
  have new: "GetLogFilePath pre i \<notin> fst ` set dir" using assms(2,4) by (simp add: idxs_def)
  then have o: "open_append (GetLogFilePath pre i) dir = dir @ [(GetLogFilePath pre i, [])]" by (simp add: open_append_def)
  show "dir_ok pre (open_append (GetLogFilePath pre i) dir)" using assms new unfolding o dir_ok_def by auto
  show "idxs pre (open_append (GetLogFilePath pre i) dir) = insert i (idxs pre dir)"
    unfolding o idxs_def using assms(2) path_inject by auto
  show "map_of (open_append (GetLogFilePath pre i) dir) = (map_of dir)(GetLogFilePath pre i \<mapsto> [])"
    unfolding o using new by (auto simp: fun_eq_iff map_add_def dom_map_of_conv_image_fst split: option.splits) (metis domI dom_map_of_conv_image_fst)
qed

lemma map_of_filter_names:
  "map_of (filter (\<lambda>(n, _). n \<notin> S) dir) m = (if m \<in> S then None else map_of dir m)"
  by (induction dir) auto

text \<open>Removing the first files of a well-formed directory.\<close>

lemma remove_spec:
  assumes "dir_ok pre dir" "finite I" "\<forall>i \<in> I. 0 \<le> i" "idxs pre dir = set (drop j (sorted_list_of_set I))" "j \<le> card I - n"
  shows "dir_ok pre (RemoveLogFilesIfNecessary n (map (GetLogFilePath pre) (sorted_list_of_set I)) dir)"
    "idxs pre (RemoveLogFilesIfNecessary n (map (GetLogFilePath pre) (sorted_list_of_set I)) dir) = set (drop (card I - n) (sorted_list_of_set I))"
    "i \<in> set (drop (card I - n) (sorted_list_of_set I)) \<Longrightarrow>
      map_of (RemoveLogFilesIfNecessary n (map (GetLogFilePath pre) (sorted_list_of_set I)) dir) (GetLogFilePath pre i) = map_of dir (GetLogFilePath pre i)"
    "GetLogFileIdx pre m = Some (- 1) \<Longrightarrow> map_of (RemoveLogFilesIfNecessary n (map (GetLogFilePath pre) (sorted_list_of_set I)) dir) m = map_of dir m"
proof -
  let ?files = "map (GetLogFilePath pre) (sorted_list_of_set I)"
  let ?k = "card I - n" and ?l = "sorted_list_of_set I"
  have len: "length ?files = card I" by simp
  define S where "S = GetLogFilePath pre ` set (take ?k ?l)"
  have setS: "set (take (length ?files - n) ?files) = S" by (simp add: S_def take_map)
  have r: "RemoveLogFilesIfNecessary n ?files dir = filter (\<lambda>(name, _). name \<notin> S) dir"
  proof (cases "card I > n")
    case False
    then have "S = {}" by (simp add: S_def)
    then show ?thesis using False by (simp add: RemoveLogFilesIfNecessary_def len case_prod_beta)
  qed (simp add: RemoveLogFilesIfNecessary_def setS [unfolded len] len)
  have names: "fst ` set (filter (\<lambda>(name, _). name \<notin> S) dir) = fst ` set dir - S" by force
  have "distinct (map fst (filter (\<lambda>(name, _). name \<notin> S) dir))"
    using assms(1) by (simp add: dir_ok_def distinct_map_filter case_prod_beta)
  then show "dir_ok pre (RemoveLogFilesIfNecessary n ?files dir)" using assms(1) by (simp add: r dir_ok_def names)
  have dist: "distinct ?l" by simp
  have cut: "set (take ?k ?l) \<inter> set (drop ?k ?l) = {}" using dist by (simp add: set_take_disj_set_drop_if_distinct)
  have pos: "0 \<le> i" if "i \<in> set (take ?k ?l)" for i using in_set_takeD [OF that] assms(2,3) by simp
  have inS: "GetLogFilePath pre i \<in> S \<longleftrightarrow> i \<in> set (take ?k ?l)" if "0 \<le> i" for i
    using that pos path_inject [of i] unfolding S_def by auto
  have "idxs pre (filter (\<lambda>(name, _). name \<notin> S) dir) = idxs pre dir - set (take ?k ?l)"
    unfolding idxs_def names using inS by auto
  also have "\<dots> = set (drop ?k ?l)"
  proof -
    have "set (drop ?k ?l) \<subseteq> set (drop j ?l)" using assms(5) by (simp add: set_drop_subset_set_drop)
    moreover have "set ?l = set (take ?k ?l) \<union> set (drop ?k ?l)" by (metis append_take_drop_id set_append)
    moreover have "set (drop j ?l) \<subseteq> set ?l" by (rule set_drop_subset)
    ultimately show ?thesis using cut assms(4) by blast
  qed
  finally show "idxs pre (RemoveLogFilesIfNecessary n ?files dir) = set (drop ?k ?l)" by (simp only: r)
  show "map_of (RemoveLogFilesIfNecessary n ?files dir) (GetLogFilePath pre i) = map_of dir (GetLogFilePath pre i)"
    if "i \<in> set (drop ?k ?l)"
  proof -
    have "0 \<le> i" using in_set_dropD [OF that] assms(2,3) by simp
    then have "GetLogFilePath pre i \<notin> S" using inS cut that by blast
    then show ?thesis by (simp add: r map_of_filter_names)
  qed
  show "map_of (RemoveLogFilesIfNecessary n ?files dir) m = map_of dir m" if "GetLogFileIdx pre m = Some (- 1)"
  proof -
    have "m \<notin> S" using that path_not_minus pos by (auto simp: S_def)
    then show ?thesis by (simp add: r map_of_filter_names)
  qed
qed

definition rot_inv :: "rotating_log \<Rightarrow> bool" where
  "rot_inv s \<longleftrightarrow> dir_ok (rl_prefix s) (rl_dir s) \<and> 0 < rl_max_size s \<and> 0 < rl_max_files s \<and>
     rl_idx s \<in> idxs (rl_prefix s) (rl_dir s) \<and> (\<forall>i \<in> idxs (rl_prefix s) (rl_dir s). i \<le> rl_idx s) \<and>
     card (idxs (rl_prefix s) (rl_dir s)) \<le> rl_max_files s \<and>
     rl_size s = length (the (map_of (rl_dir s) (GetLogFilePath (rl_prefix s) (rl_idx s))))"

definition log_window :: "rotating_log \<Rightarrow> (int \<times> string) list" where
  "log_window s = window (rl_prefix s) (rl_dir s)"

text \<open>What writing a line does to the log, in the abstract: it is put at the end of the newest file, and
  when this file is full a new one is begun and only the newest files are kept.\<close>

definition add_line :: "nat \<Rightarrow> nat \<Rightarrow> string \<Rightarrow> (int \<times> string) list \<Rightarrow> (int \<times> string) list" where
  "add_line max_size max_files p fs =
     (let (i, c) = last fs; fs = butlast fs @ [(i, c @ p)]
      in if length (c @ p) \<ge> max_size then drop (length fs + 1 - max_files) (fs @ [(i + 1, [])]) else fs)"

lemma sorted_list_max:
  "finite I \<Longrightarrow> i \<in> I \<Longrightarrow> \<forall>j \<in> I. j \<le> i \<Longrightarrow> sorted_list_of_set I = sorted_list_of_set (I - {i}) @ [i]" for i :: int
proof -
  assume a: "finite I" "i \<in> I" "\<forall>j \<in> I. j \<le> i"
  have "sorted (sorted_list_of_set (I - {i}) @ [i])" using a by (simp add: sorted_append)
  moreover have "distinct (sorted_list_of_set (I - {i}) @ [i])" using a(1) by simp
  moreover have "set (sorted_list_of_set (I - {i}) @ [i]) = I" using a by auto
  ultimately show ?thesis using a(1) by (metis sorted_list_of_set.idem_if_sorted_distinct)
qed

lemma RotateFile_spec:
  assumes ok: "dir_ok (rl_prefix s) (rl_dir s)" and idx: "rl_idx s \<in> idxs (rl_prefix s) (rl_dir s)"
    and max: "\<forall>i \<in> idxs (rl_prefix s) (rl_dir s). i \<le> rl_idx s" and bound: "rl_idx s + 1 < 10 ^ 17"
    and pos: "0 < rl_max_size s" "0 < rl_max_files s"
  shows "\<exists>s'. RotateFile s = Some s' \<and> rot_inv s' \<and> rl_max_size s' = rl_max_size s \<and> rl_max_files s' = rl_max_files s \<and>
    rl_prefix s' = rl_prefix s \<and> rl_idx s' = rl_idx s + 1 \<and>
    log_window s' = drop (length (log_window s) + 1 - rl_max_files s) (log_window s @ [(rl_idx s + 1, [])]) \<and>
    (\<forall>m. GetLogFileIdx (rl_prefix s) m = Some (- 1) \<longrightarrow> map_of (rl_dir s') m = map_of (rl_dir s) m)"
proof -
  let ?p = "rl_prefix s" and ?i = "rl_idx s + 1" and ?n = "rl_max_files s"
  let ?I = "idxs ?p (rl_dir s)" and ?d = "open_append (GetLogFilePath ?p ?i) (rl_dir s)"
  have i0: "0 \<le> ?i" using idx by (simp add: idxs_def)
  have new: "?i \<notin> ?I" using max by force
  note o = open_append_new [OF ok i0 bound new]
  let ?J = "insert ?i ?I"
  have finI: "finite ?I" "finite ?J" using finite_idxs by simp_all
  have sJ: "sorted_list_of_set ?J = sorted_list_of_set ?I @ [?i]"
  proof -
    have "\<forall>j \<in> ?J. j \<le> ?i" using max by force
    then show ?thesis using sorted_list_max [of ?J ?i] finI new by simp
  qed
  have card: "card ?J = card ?I + 1" using finI new by simp
  let ?files = "map (GetLogFilePath ?p) (sorted_list_of_set ?J)"
  let ?r = "RemoveLogFilesIfNecessary ?n ?files ?d" and ?k = "card ?J - ?n"
  have nonneg: "\<forall>i \<in> ?J. 0 \<le> i" using i0 by (auto simp: idxs_def)
  have eqJ: "idxs ?p ?d = set (drop 0 (sorted_list_of_set ?J))" unfolding o(2) by (simp only: drop_0 set_sorted_list_of_set [OF finI(2)])
  note r = remove_spec [OF o(1) finI(2) nonneg eqJ, where n = ?n, OF le0]
  have k: "?k < card ?J" using card pos by simp
  have sK: "sorted_list_of_set (idxs ?p ?r) = drop ?k (sorted_list_of_set ?J)"
    using r(2) by (simp add: sorted_list_of_set.idem_if_sorted_distinct sorted_wrt_drop)
  have "drop ?k (sorted_list_of_set ?J) = drop ?k (sorted_list_of_set ?I) @ [?i]"
    unfolding sJ using k card finI by simp
  then have iK: "?i \<in> idxs ?p ?r" unfolding r(2) by simp
  define s' where "s' = s\<lparr>rl_idx := ?i, rl_size := 0, rl_dir := ?r\<rparr>"
  have rot: "RotateFile s = Some s'"
    using bound i0 ListExistingLogFiles_spec [OF o(1)] o(2) by (simp add: RotateFile_def s'_def Let_def)
  have content: "the (map_of ?r (GetLogFilePath ?p j)) = (if j = ?i then [] else the (map_of (rl_dir s) (GetLogFilePath ?p j)))"
    if "j \<in> idxs ?p ?r" for j
  proof -
    have "j \<in> set (drop ?k (sorted_list_of_set ?J))" using that r(2) by simp
    then have "map_of ?r (GetLogFilePath ?p j) = map_of ?d (GetLogFilePath ?p j)" using r(3) by simp
    moreover have "0 \<le> j" using that by (simp add: idxs_def)
    ultimately show ?thesis using o(3) path_inject [OF _ i0, of j] by simp
  qed
  have sub: "idxs ?p ?r \<subseteq> ?J" unfolding r(2)
    using set_drop_subset [of ?k "sorted_list_of_set ?J"] unfolding set_sorted_list_of_set [OF finI(2)] .
  have "card (idxs ?p ?r) \<le> ?n"
  proof -
    have "card (idxs ?p ?r) = length (sorted_list_of_set (idxs ?p ?r))" by simp
    then show ?thesis unfolding sK by simp
  qed
  moreover have "j \<le> ?i" if "j \<in> idxs ?p ?r" for j
  proof -
    have "j = ?i \<or> j \<in> ?I" using that sub by blast
    then show ?thesis using max by force
  qed
  ultimately have inv: "rot_inv s'"
    using r(1) pos iK content [OF iK] by (simp add: rot_inv_def s'_def)
  have old: "map (\<lambda>j. (j, if j = ?i then [] else the (map_of (rl_dir s) (GetLogFilePath ?p j)))) (sorted_list_of_set ?I) = log_window s"
    unfolding log_window_def window_def
  proof (rule map_cong [OF refl])
    fix j assume "j \<in> set (sorted_list_of_set ?I)"
    then have "j \<noteq> ?i" using new finI(1) by auto
    then show "(j, if j = ?i then [] else the (map_of (rl_dir s) (GetLogFilePath ?p j))) =
        (j, the (map_of (rl_dir s) (GetLogFilePath ?p j)))" by simp
  qed
  have sel: "rl_prefix s' = ?p" "rl_dir s' = ?r" by (simp_all add: s'_def)
  have "log_window s' = map (\<lambda>j. (j, the (map_of ?r (GetLogFilePath ?p j)))) (sorted_list_of_set (idxs ?p ?r))"
    unfolding log_window_def window_def sel ..
  also have "\<dots> = map (\<lambda>j. (j, if j = ?i then [] else the (map_of (rl_dir s) (GetLogFilePath ?p j)))) (sorted_list_of_set (idxs ?p ?r))"
  proof (rule map_cong [OF refl])
    fix j assume "j \<in> set (sorted_list_of_set (idxs ?p ?r))"
    then have "j \<in> idxs ?p ?r" using set_sorted_list_of_set [OF finite_idxs] by blast
    then show "(j, the (map_of ?r (GetLogFilePath ?p j))) =
        (j, if j = ?i then [] else the (map_of (rl_dir s) (GetLogFilePath ?p j)))"
      by (simp only: content)
  qed
  also have "\<dots> = map (\<lambda>j. (j, if j = ?i then [] else the (map_of (rl_dir s) (GetLogFilePath ?p j)))) (drop ?k (sorted_list_of_set ?J))"
    unfolding sK ..
  also have "\<dots> = drop ?k (map (\<lambda>j. (j, if j = ?i then [] else the (map_of (rl_dir s) (GetLogFilePath ?p j)))) (sorted_list_of_set ?I @ [?i]))"
    unfolding sJ drop_map ..
  also have "\<dots> = drop ?k (log_window s @ [(?i, [])])"
    unfolding map_append old by simp
  finally have "log_window s' = drop (length (log_window s) + 1 - ?n) (log_window s @ [(?i, [])])"
    using card by (simp add: log_window_def window_def)
  moreover have "map_of (rl_dir s') m = map_of (rl_dir s) m" if "GetLogFileIdx ?p m = Some (- 1)" for m
  proof -
    have "m \<noteq> GetLogFilePath ?p ?i" using that path_not_minus [OF i0] by auto
    then show ?thesis using r(4) [OF that] o(3) by (simp add: s'_def)
  qed
  ultimately show ?thesis using rot inv by (intro exI [of _ s']) (simp add: s'_def)
qed

lemma window_last:
  assumes "rot_inv s"
  shows "\<exists>W c. log_window s = W @ [(rl_idx s, c)] \<and> map_of (rl_dir s) (GetLogFilePath (rl_prefix s) (rl_idx s)) = Some c \<and>
    log_window (s\<lparr>rl_dir := append_file (GetLogFilePath (rl_prefix s) (rl_idx s)) p (rl_dir s)\<rparr>) = W @ [(rl_idx s, c @ p)]"
proof -
  let ?p = "rl_prefix s" and ?i = "rl_idx s" and ?d = "rl_dir s"
  let ?I = "idxs ?p ?d"
  have i: "?i \<in> ?I" "\<forall>j \<in> ?I. j \<le> ?i" using assms by (auto simp: rot_inv_def)
  have sl: "sorted_list_of_set ?I = sorted_list_of_set (?I - {?i}) @ [?i]"
    using sorted_list_max [OF finite_idxs i(1) i(2)] .
  have "GetLogFilePath ?p ?i \<in> dom (map_of ?d)" using i(1) by (simp add: idxs_def dom_map_of_conv_image_fst)
  then obtain c where c: "map_of ?d (GetLogFilePath ?p ?i) = Some c" by blast
  have same: "map (\<lambda>j. (j, the (map_of (append_file (GetLogFilePath ?p ?i) p ?d) (GetLogFilePath ?p j)))) (sorted_list_of_set (?I - {?i})) =
      map (\<lambda>j. (j, the (map_of ?d (GetLogFilePath ?p j)))) (sorted_list_of_set (?I - {?i}))"
  proof (rule map_cong [OF refl])
    fix j assume "j \<in> set (sorted_list_of_set (?I - {?i}))"
    then have j: "j \<in> ?I" "j \<noteq> ?i" using finite_idxs [of ?p ?d] by auto
    then have "0 \<le> j" "0 \<le> ?i" "GetLogFilePath ?p j \<in> fst ` set ?d" using i(1) by (simp_all add: idxs_def)
    moreover from this have "map_of ?d (GetLogFilePath ?p j) \<noteq> None" by (simp add: map_of_eq_None_iff)
    ultimately show "(j, the (map_of (append_file (GetLogFilePath ?p ?i) p ?d) (GetLogFilePath ?p j))) = (j, the (map_of ?d (GetLogFilePath ?p j)))"
      using j(2) path_inject by auto
  qed
  have "log_window (s\<lparr>rl_dir := append_file (GetLogFilePath ?p ?i) p ?d\<rparr>) =
      map (\<lambda>j. (j, the (map_of (append_file (GetLogFilePath ?p ?i) p ?d) (GetLogFilePath ?p j)))) (sorted_list_of_set ?I)"
    by (simp add: log_window_def window_def)
  also have "\<dots> = map (\<lambda>j. (j, the (map_of ?d (GetLogFilePath ?p j)))) (sorted_list_of_set (?I - {?i})) @ [(?i, c @ p)]"
    by (subst sl) (unfold map_append same, simp add: c)
  finally have "log_window (s\<lparr>rl_dir := append_file (GetLogFilePath ?p ?i) p ?d\<rparr>) =
      map (\<lambda>j. (j, the (map_of ?d (GetLogFilePath ?p j)))) (sorted_list_of_set (?I - {?i})) @ [(?i, c @ p)]" .
  moreover have "log_window s = map (\<lambda>j. (j, the (map_of ?d (GetLogFilePath ?p j)))) (sorted_list_of_set (?I - {?i})) @ [(?i, c)]"
    unfolding log_window_def window_def by (subst sl) (simp add: c)
  ultimately show ?thesis using c by blast
qed

lemma WriteLine_spec:
  assumes inv: "rot_inv s" and bound: "rl_idx s + 1 < 10 ^ 17"
  shows "\<exists>s'. RotatingLog_WriteLine p s = Some s' \<and> rot_inv s' \<and> rl_max_size s' = rl_max_size s \<and> rl_max_files s' = rl_max_files s \<and>
    rl_prefix s' = rl_prefix s \<and> rl_idx s' \<le> rl_idx s + 1 \<and>
    log_window s' = add_line (rl_max_size s) (rl_max_files s) p (log_window s) \<and>
    (\<forall>m. GetLogFileIdx (rl_prefix s) m = Some (- 1) \<longrightarrow> map_of (rl_dir s') m = map_of (rl_dir s) m)"
proof -
  let ?f = "GetLogFilePath (rl_prefix s) (rl_idx s)"
  define s1 where "s1 = s\<lparr>rl_dir := append_file ?f p (rl_dir s), rl_size := rl_size s + length p\<rparr>"
  obtain W c where W: "log_window s = W @ [(rl_idx s, c)]" "map_of (rl_dir s) ?f = Some c"
      "log_window (s\<lparr>rl_dir := append_file ?f p (rl_dir s)\<rparr>) = W @ [(rl_idx s, c @ p)]"
    using window_last [OF inv] by blast
  have w1: "log_window s1 = W @ [(rl_idx s, c @ p)]" using W(3) by (simp add: s1_def log_window_def)
  have size: "rl_size s = length c" using inv W(2) by (simp add: rot_inv_def)
  have add: "add_line (rl_max_size s) (rl_max_files s) p (log_window s) =
      (if length (c @ p) \<ge> rl_max_size s
       then drop (length (log_window s1) + 1 - rl_max_files s) (log_window s1 @ [(rl_idx s + 1, [])]) else log_window s1)"
    by (simp add: add_line_def W(1) w1 del: drop_append)
  have i0: "0 \<le> rl_idx s" using inv by (simp add: rot_inv_def idxs_def)
  have other: "map_of (rl_dir s1) m = map_of (rl_dir s) m" if "GetLogFileIdx (rl_prefix s) m = Some (- 1)" for m
  proof -
    have "m \<noteq> ?f" using that path_not_minus [OF i0] by auto
    then show ?thesis by (simp add: s1_def option.map_id [unfolded id_def] map_option.identity)
  qed
  have wr: "RotatingLog_WriteLine p s = (if length (c @ p) \<ge> rl_max_size s then RotateFile s1 else Some s1)"
    by (simp add: RotatingLog_WriteLine_def s1_def size Let_def)
  show ?thesis
  proof (cases "length (c @ p) \<ge> rl_max_size s")
    case False
    have "rot_inv s1" using inv W(2) by (simp add: rot_inv_def s1_def size)
    then show ?thesis using False other by (intro exI [of _ s1]) (simp add: wr add, simp add: s1_def)
  next
    case True
    have "dir_ok (rl_prefix s1) (rl_dir s1)" "rl_idx s1 \<in> idxs (rl_prefix s1) (rl_dir s1)"
        "\<forall>i \<in> idxs (rl_prefix s1) (rl_dir s1). i \<le> rl_idx s1" "rl_idx s1 + 1 < 10 ^ 17" "0 < rl_max_size s1" "0 < rl_max_files s1"
      using inv bound by (simp_all add: rot_inv_def s1_def)
    from RotateFile_spec [OF this] obtain s' where s': "RotateFile s1 = Some s'" "rot_inv s'"
        "rl_max_size s' = rl_max_size s1" "rl_max_files s' = rl_max_files s1" "rl_prefix s' = rl_prefix s1" "rl_idx s' = rl_idx s1 + 1"
        "log_window s' = drop (length (log_window s1) + 1 - rl_max_files s1) (log_window s1 @ [(rl_idx s1 + 1, [])])"
        "\<forall>m. GetLogFileIdx (rl_prefix s1) m = Some (- 1) \<longrightarrow> map_of (rl_dir s') m = map_of (rl_dir s1) m"
      by blast
    have sel: "rl_max_size s1 = rl_max_size s" "rl_max_files s1 = rl_max_files s" "rl_prefix s1 = rl_prefix s" "rl_idx s1 = rl_idx s"
      by (simp_all add: s1_def)
    have "log_window s' = add_line (rl_max_size s) (rl_max_files s) p (log_window s)"
      unfolding add s'(7) sel using True by simp
    then show ?thesis using True s' other unfolding wr sel by (intro exI [of _ s']) auto
  qed
qed

text \<open>No text is lost but with the oldest files, and only when there are too many of them.\<close>

lemma add_line_text:
  assumes "fs \<noteq> []" "0 < n"
  shows "add_line m n p fs \<noteq> []"
    "\<exists>d :: (int \<times> string) list. concat (map snd d) @ concat (map snd (add_line m n p fs)) = concat (map snd fs) @ p \<and>
      (d = [] \<or> length (add_line m n p fs) = n)"
proof -
  obtain W i c where fs: "fs = W @ [(i, c)]" using assms(1) by (metis append_butlast_last_id surj_pair)
  let ?l = "W @ [(i, c @ p)] @ [(i + 1, [])]"
  let ?k = "length W + 2 - n"
  have l: "concat (map snd ?l) = concat (map snd fs) @ p" by (simp add: fs)
  have k: "?k < length ?l" using assms(2) by simp
  have add: "add_line m n p fs = (if length (c @ p) \<ge> m then drop ?k ?l else W @ [(i, c @ p)])"
    by (simp add: add_line_def fs del: drop_append)
  have "drop ?k ?l \<noteq> []" using k by (simp only: drop_eq_Nil not_le)
  then show "add_line m n p fs \<noteq> []" by (simp add: add del: drop_append drop_eq_Nil)
  show "\<exists>d :: (int \<times> string) list. concat (map snd d) @ concat (map snd (add_line m n p fs)) = concat (map snd fs) @ p \<and>
      (d = [] \<or> length (add_line m n p fs) = n)"
  proof (cases "length (c @ p) \<ge> m")
    case True
    have "concat (map snd (take ?k ?l)) @ concat (map snd (drop ?k ?l)) = concat (map snd ?l)"
      by (metis append_take_drop_id concat_append map_append)
    then have "concat (map snd (take ?k ?l)) @ concat (map snd (drop ?k ?l)) = concat (map snd fs) @ p" by (simp only: l)
    moreover have "take ?k ?l = [] \<or> length (drop ?k ?l) = n" by auto
    ultimately show ?thesis unfolding add if_P [OF True] by blast
  next
    case False
    then show ?thesis unfolding add by (intro exI [of _ "[]"]) (simp add: fs)
  qed
qed

lemma add_line_length:
  assumes "fs \<noteq> []" "0 < n" "length fs \<le> n"
  shows "length (add_line m n p fs) \<le> n" "length fs \<le> length (add_line m n p fs)"
proof -
  obtain W i c where fs: "fs = W @ [(i, c)]" using assms(1) by (metis append_butlast_last_id surj_pair)
  then show "length (add_line m n p fs) \<le> n" "length fs \<le> length (add_line m n p fs)"
    using assms(2,3) by (auto simp: add_line_def Let_def)
qed

lemma add_lines_length:
  "fs \<noteq> [] \<Longrightarrow> 0 < n \<Longrightarrow> length fs \<le> n \<Longrightarrow>
    length fs \<le> length (fold (add_line m n) ps fs) \<and> length (fold (add_line m n) ps fs) \<le> n"
proof (induction ps arbitrary: fs)
  case (Cons p ps)
  let ?fs = "add_line m n p fs"
  have "length ?fs \<le> length (fold (add_line m n) ps ?fs) \<and> length (fold (add_line m n) ps ?fs) \<le> n"
    using add_line_text(1) [OF Cons.prems(1,2)] Cons.prems(2) add_line_length(1) [OF Cons.prems] by (rule Cons.IH)
  then show ?case using add_line_length(2) [OF Cons.prems, of m p] by simp
qed simp

lemma add_lines_text:
  assumes "fs \<noteq> []" "0 < n" "length fs \<le> n"
  shows "\<exists>d :: (int \<times> string) list. concat (map snd d) @ concat (map snd (fold (add_line m n) ps fs)) = concat (map snd fs) @ concat ps \<and>
    (d = [] \<or> length (fold (add_line m n) ps fs) = n)"
  using assms
proof (induction ps arbitrary: fs)
  case Nil
  then show ?case by (intro exI [of _ "[]"]) simp
next
  case (Cons p ps)
  let ?fs = "add_line m n p fs"
  have fs: "?fs \<noteq> []" "length ?fs \<le> n"
    using add_line_text(1) [OF Cons.prems(1,2)] add_line_length(1) [OF Cons.prems] by auto
  obtain d :: "(int \<times> string) list" where d: "concat (map snd d) @ concat (map snd ?fs) = concat (map snd fs) @ p" "d = [] \<or> length ?fs = n"
    using add_line_text(2) [OF Cons.prems(1,2), of m p] by blast
  obtain e :: "(int \<times> string) list" where e: "concat (map snd e) @ concat (map snd (fold (add_line m n) ps ?fs)) = concat (map snd ?fs) @ concat ps"
      "e = [] \<or> length (fold (add_line m n) ps ?fs) = n"
    using Cons.IH [OF fs(1) Cons.prems(2) fs(2)] by blast
  have "concat (map snd (d @ e)) @ concat (map snd (fold (add_line m n) (p # ps) fs)) = concat (map snd fs) @ concat (p # ps)"
    using arg_cong [OF d(1), of "\<lambda>x. x @ concat ps"] e(1) by simp
  moreover have "d @ e = [] \<or> length (fold (add_line m n) (p # ps) fs) = n"
    using d(2) e(2) add_lines_length [OF fs(1) Cons.prems(2) fs(2), of m ps] by auto
  ultimately show ?case by blast
qed

lemma write_log_spec:
  "rot_inv s \<Longrightarrow> rl_idx s + int (length ps) < 10 ^ 17 \<Longrightarrow>
    \<exists>s'. write_log ps s = Some s' \<and> rot_inv s' \<and>
      log_window s' = fold (add_line (rl_max_size s) (rl_max_files s)) ps (log_window s) \<and>
      (\<forall>m. GetLogFileIdx (rl_prefix s) m = Some (- 1) \<longrightarrow> map_of (rl_dir s') m = map_of (rl_dir s) m)"
proof (induction ps arbitrary: s)
  case (Cons p ps)
  have b: "rl_idx s + 1 < 10 ^ 17" using Cons.prems(2) by simp
  obtain s1 where s1: "RotatingLog_WriteLine p s = Some s1" "rot_inv s1" "rl_max_size s1 = rl_max_size s"
      "rl_max_files s1 = rl_max_files s" "rl_prefix s1 = rl_prefix s" "rl_idx s1 \<le> rl_idx s + 1"
      "log_window s1 = add_line (rl_max_size s) (rl_max_files s) p (log_window s)"
      "\<forall>m. GetLogFileIdx (rl_prefix s) m = Some (- 1) \<longrightarrow> map_of (rl_dir s1) m = map_of (rl_dir s) m"
    using WriteLine_spec [OF Cons.prems(1) b] by blast
  have "rl_idx s1 + int (length ps) < 10 ^ 17" using s1(6) Cons.prems(2) by simp
  then show ?case using Cons.IH [OF s1(2)] s1 by auto
qed simp

section \<open>Opening a log\<close>

lemma window_cong:
  assumes "idxs pre dir' = set (drop k (sorted_list_of_set (idxs pre dir)))"
    "\<And>i. i \<in> idxs pre dir' \<Longrightarrow> map_of dir' (GetLogFilePath pre i) = map_of dir (GetLogFilePath pre i)"
  shows "window pre dir' = drop k (window pre dir)"
proof -
  have sl: "sorted_list_of_set (idxs pre dir') = drop k (sorted_list_of_set (idxs pre dir))"
    unfolding assms(1) by (simp add: sorted_list_of_set.idem_if_sorted_distinct sorted_wrt_drop)
  have "window pre dir' = map (\<lambda>i. (i, the (map_of dir (GetLogFilePath pre i)))) (sorted_list_of_set (idxs pre dir'))"
    unfolding window_def by (rule map_cong [OF refl]) (simp add: assms(2) finite_idxs)
  then show ?thesis unfolding sl window_def drop_map .
qed

lemma window_open:
  assumes "dir_ok pre dir" "0 \<le> i" "i < 10 ^ 17" "\<forall>j \<in> idxs pre dir. j < i"
  shows "window pre (open_append (GetLogFilePath pre i) dir) = window pre dir @ [(i, [])]"
proof -
  let ?I = "idxs pre dir"
  have new: "i \<notin> ?I" using assms(4) by auto
  note o = open_append_new [OF assms(1-3) new]
  have sl: "sorted_list_of_set (insert i ?I) = sorted_list_of_set ?I @ [i]"
  proof -
    have "\<forall>j \<in> insert i ?I. j \<le> i" using assms(4) by force
    then show ?thesis using sorted_list_max [of "insert i ?I" i] finite_idxs [of pre dir] new by simp
  qed
  have "map (\<lambda>j. (j, the (map_of (open_append (GetLogFilePath pre i) dir) (GetLogFilePath pre j)))) (sorted_list_of_set ?I) =
      map (\<lambda>j. (j, the (map_of dir (GetLogFilePath pre j)))) (sorted_list_of_set ?I)"
  proof (rule map_cong [OF refl])
    fix j assume "j \<in> set (sorted_list_of_set ?I)"
    then have "j \<in> ?I" using finite_idxs [of pre dir] by simp
    then have "j \<noteq> i" "0 \<le> j" using new by (auto simp: idxs_def)
    then show "(j, the (map_of (open_append (GetLogFilePath pre i) dir) (GetLogFilePath pre j))) = (j, the (map_of dir (GetLogFilePath pre j)))"
      using path_inject [OF _ assms(2)] by (simp add: o(3))
  qed
  then show ?thesis unfolding window_def o(2) sl by (simp add: o(3))
qed

text \<open>The log that the constructor leaves of the window it finds.\<close>

definition open_window :: "nat \<Rightarrow> nat \<Rightarrow> (int \<times> string) list \<Rightarrow> (int \<times> string) list" where
  "open_window m n W =
     (if W = [] then [(0, [])]
      else let (i, c) = last W in
        if length c \<ge> m then drop (length W + 1 - n) (W @ [(i + 1, [])]) else drop (length W - n) W)"

lemma RotatingFileLogDevice_spec:
  assumes ok: "dir_ok pre dir" and bound: "\<forall>i \<in> idxs pre dir. i + 1 < 10 ^ 17"
  shows "\<exists>s. RotatingFileLogDevice dir pre m n = Some s \<and> rot_inv s \<and> rl_prefix s = pre \<and> rl_max_size s = max m 1 \<and>
    rl_max_files s = max n 1 \<and> log_window s = open_window m (max n 1) (window pre dir) \<and>
    (\<forall>f. GetLogFileIdx pre f = Some (- 1) \<longrightarrow> map_of (rl_dir s) f = map_of dir f)"
proof (cases "idxs pre dir = {}")
  case True
  have none: "map_of dir (GetLogFilePath pre 0) = None"
    using True by (auto simp: idxs_def map_of_eq_None_iff)
  let ?d = "open_append (GetLogFilePath pre 0) dir"
  define s where "s = \<lparr>rl_prefix = pre, rl_max_size = max m 1, rl_max_files = max n 1, rl_idx = 0, rl_size = 0, rl_dir = ?d\<rparr>"
  have o: "dir_ok pre ?d" "idxs pre ?d = {0}" "map_of ?d = (map_of dir)(GetLogFilePath pre 0 \<mapsto> [])"
    using open_append_new [OF ok, of 0] True by simp_all
  have "RotatingFileLogDevice dir pre m n = Some s"
    using ListExistingLogFiles_spec [OF ok] True none by (simp add: RotatingFileLogDevice_def s_def)
  moreover have "rot_inv s" using o by (simp add: rot_inv_def s_def less_max_iff_disj)
  moreover have "window pre ?d = [(0, [])]"
    using window_open [OF ok, of 0] True by (simp add: window_def)
  moreover have "f \<noteq> GetLogFilePath pre 0" if "GetLogFileIdx pre f = Some (- 1)" for f
    using that path_not_minus [of 0 pre] by auto
  ultimately show ?thesis
    using True o(3) by (intro exI [of _ s]) (auto simp: s_def log_window_def open_window_def window_def)
next
  case False
  let ?I = "idxs pre dir" and ?N = "max n 1"
  let ?l = "sorted_list_of_set ?I" and ?k = "card (idxs pre dir) - max n 1"
  let ?files = "map (GetLogFilePath pre) ?l"
  define i where "i = Max ?I"
  have fin: "finite ?I" by (rule finite_idxs)
  have i: "i \<in> ?I" "\<forall>j \<in> ?I. j \<le> i" using False fin by (simp_all add: i_def)
  have i0: "0 \<le> i" "i < 10 ^ 17" using idxs_bound [OF ok i(1)] by auto
  have l: "?l = sorted_list_of_set (?I - {i}) @ [i]" by (rule sorted_list_max [OF fin i])
  have len: "length ?l = card ?I" by simp
  have last: "last ?files = GetLogFilePath pre i" unfolding l by simp
  have nonneg: "\<forall>i \<in> ?I. 0 \<le> i" by (simp add: idxs_def)
  have all: "idxs pre dir = set (drop 0 ?l)" using fin by simp
  define d1 where "d1 = RemoveLogFilesIfNecessary ?N ?files dir"
  note r1 = remove_spec [OF ok fin nonneg all, where n = ?N, OF le0, folded d1_def]
  have "GetLogFilePath pre i \<in> dom (map_of dir)" using i(1) by (simp add: idxs_def dom_map_of_conv_image_fst)
  then obtain c where c: "map_of dir (GetLogFilePath pre i) = Some c" by blast
  have drop_l: "drop k ?l = drop k (sorted_list_of_set (?I - {i})) @ [i]" if "k < card ?I" for k
    using that fin i(1) by (subst l) (simp add: card_Diff_singleton)
  have k: "?k < card ?I" using fin False by (simp add: card_gt_0_iff)
  have kept: "i \<in> set (drop ?k ?l)" unfolding drop_l [OF k] by simp
  have c1: "map_of d1 (GetLogFilePath pre i) = Some c" using r1(3) [OF kept] c by simp
  have W1: "window pre d1 = drop ?k (window pre dir)"
    using r1(2,3) by (intro window_cong) auto
  have lastW: "window pre dir \<noteq> []" "last (window pre dir) = (i, c)" "length (window pre dir) = card ?I"
  proof -
    have "window pre dir = map (\<lambda>i. (i, the (map_of dir (GetLogFilePath pre i)))) (sorted_list_of_set (?I - {i})) @ [(i, c)]"
      unfolding window_def by (subst l) (simp add: c)
    then show "window pre dir \<noteq> []" "last (window pre dir) = (i, c)" by simp_all
    show "length (window pre dir) = card ?I" by (simp add: window_def)
  qed
  have idx: "GetLogFileIdx pre (last ?files) = Some i" unfolding last by (rule GetLogFileIdx_path [OF i0])
  have files: "ListExistingLogFiles pre dir = Some ?files" "?files \<noteq> []"
    using ListExistingLogFiles_spec [OF ok] False fin by simp_all
  show ?thesis
  proof (cases "length c \<ge> m")
    case small: False
    define s where "s = \<lparr>rl_prefix = pre, rl_max_size = max m 1, rl_max_files = ?N, rl_idx = i, rl_size = length c, rl_dir = d1\<rparr>"
    have "GetLogFilePath pre i \<in> fst ` set d1" using c1 by (metis domI dom_map_of_conv_image_fst)
    then have "open_append (GetLogFilePath pre i) d1 = d1" by (simp add: open_append_def)
    then have new: "RotatingFileLogDevice dir pre m n = Some s"
      using files idx c1 small by (simp add: RotatingFileLogDevice_def s_def d1_def [symmetric] Let_def del: One_nat_def)
    have "card (idxs pre d1) \<le> ?N"
      unfolding r1(2) using card_length [of "drop ?k ?l"] by simp
    moreover have "idxs pre d1 \<subseteq> ?I" unfolding r1(2) using set_drop_subset [of ?k ?l] fin by simp
    ultimately have "rot_inv s" using r1(1) kept r1(2) i(2) c1 by (auto simp: rot_inv_def s_def less_max_iff_disj)
    then show ?thesis using new small lastW r1(4) W1
      by (intro exI [of _ s]) (auto simp: s_def log_window_def open_window_def)
  next
    case full: True
    let ?k2 = "card ?I - (?N - 1)" and ?i = "i + 1"
    define d2 where "d2 = RemoveLogFilesIfNecessary (?N - 1) ?files d1"
    have eq: "RemoveLogFilesIfNecessary ?N (?files @ [GetLogFilePath pre i]) d1 = d2"
    proof -
      have n: "length (?files @ [GetLogFilePath pre i]) - ?N = length ?files - (?N - 1)"
          "length (?files @ [GetLogFilePath pre i]) > ?N \<longleftrightarrow> length ?files > ?N - 1" by auto
      have "take (length ?files - (?N - 1)) (?files @ [GetLogFilePath pre i]) = take (length ?files - (?N - 1)) ?files" by simp
      then show ?thesis unfolding d2_def RemoveLogFilesIfNecessary_def n by simp
    qed
    have le: "?k \<le> ?k2" by simp
    note r2 = remove_spec [OF r1(1) fin nonneg r1(2) le, folded d2_def]
    have sub: "set (drop ?k2 ?l) \<subseteq> set (drop ?k ?l)" using le by (rule set_drop_subset_set_drop)
    have "window pre d2 = drop ?k2 (window pre dir)"
    proof (rule window_cong)
      fix j assume "j \<in> idxs pre d2"
      then have "j \<in> set (drop ?k2 ?l)" using r2(2) by simp
      then show "map_of d2 (GetLogFilePath pre j) = map_of dir (GetLogFilePath pre j)" using r2(3) r1(3) sub by auto
    qed (rule r2(2))
    moreover have subI: "idxs pre d2 \<subseteq> ?I" unfolding r2(2) using set_drop_subset [of ?k2 ?l] fin by simp
    have below: "\<forall>j \<in> idxs pre d2. j < ?i" using subI i(2) by force
    have i1: "0 \<le> ?i" "?i < 10 ^ 17" using i0 bound i(1) by auto
    moreover note window_open [OF r2(1) i1 below]
    ultimately have W3: "window pre (open_append (GetLogFilePath pre ?i) d2) = drop ?k2 (window pre dir) @ [(?i, [])]" by simp
    have new_i: "?i \<notin> idxs pre d2" using below by auto
    note o = open_append_new [OF r2(1) i1 new_i]
    define s where "s = \<lparr>rl_prefix = pre, rl_max_size = max m 1, rl_max_files = ?N, rl_idx = ?i, rl_size = 0,
        rl_dir = open_append (GetLogFilePath pre ?i) d2\<rparr>"
    have new: "RotatingFileLogDevice dir pre m n = Some s"
      using files idx c1 full by (simp add: RotatingFileLogDevice_def s_def d1_def [symmetric] Let_def eq del: One_nat_def)
    have "card (idxs pre d2) \<le> ?N - 1"
      unfolding r2(2) using card_length [of "drop ?k2 ?l"] by simp
    then have "card (insert ?i (idxs pre d2)) \<le> ?N" using new_i finite_idxs [of pre d2] by simp
    then have "rot_inv s" using o below by (auto simp: rot_inv_def s_def less_max_iff_disj)
    moreover have "drop (length (window pre dir) + 1 - ?N) (window pre dir @ [(?i, [])]) = drop ?k2 (window pre dir) @ [(?i, [])]"
      using lastW(3) by (simp add: Suc_diff_le le_diff_conv)
    moreover have "f \<noteq> GetLogFilePath pre ?i" if "GetLogFileIdx pre f = Some (- 1)" for f
      using that path_not_minus [OF i1(1)] by auto
    ultimately show ?thesis using new full lastW(1,2) r2(4) r1(4) o(3) W3
      by (intro exI [of _ s]) (simp add: s_def log_window_def open_window_def)
  qed
qed

lemma open_window_last:
  assumes "0 < n"
  shows "open_window m n W \<noteq> [] \<and> length (open_window m n W) \<le> n \<and>
    (fst (last (open_window m n W)) = (if W = [] then 0 else fst (last W)) \<or>
     W \<noteq> [] \<and> fst (last (open_window m n W)) = fst (last W) + 1)"
proof (cases "W = []")
  case True
  then show ?thesis using assms by (simp add: open_window_def)
next
  case False
  then obtain V i c where W: "W = V @ [(i, c)]" by (metis append_butlast_last_id surj_pair)
  have "length V + 2 - n \<le> Suc (length V)" "length V + 1 - n \<le> length V" using assms by auto
  then show ?thesis using assms by (auto simp: open_window_def W Let_def)
qed

lemma window_fst: "i \<in> fst ` set (window pre dir) \<longleftrightarrow> i \<in> idxs pre dir"
  using finite_idxs [of pre dir] by (force simp: window_def)

lemma opened_and_written:
  assumes "dir_ok pre dir" "\<forall>i \<in> insert 0 (idxs pre dir). i + 1 + int (length ls) < 10 ^ 17"
  shows "\<exists>s s'. RotatingFileLogDevice dir pre m n = Some s \<and> write_log ls s = Some s' \<and> rot_inv s' \<and>
    log_window s = open_window m (max n 1) (window pre dir) \<and>
    log_window s' = fold (add_line (max m 1) (max n 1)) ls (log_window s) \<and>
    (\<forall>f. GetLogFileIdx pre f = Some (- 1) \<longrightarrow> map_of (rl_dir s') f = map_of dir f)"
proof -
  have b: "\<forall>i \<in> idxs pre dir. i + 1 < 10 ^ 17" using assms(2) by force
  obtain s where s: "RotatingFileLogDevice dir pre m n = Some s" "rot_inv s" "rl_prefix s = pre" "rl_max_size s = max m 1"
      "rl_max_files s = max n 1" "log_window s = open_window m (max n 1) (window pre dir)"
      "\<forall>f. GetLogFileIdx pre f = Some (- 1) \<longrightarrow> map_of (rl_dir s) f = map_of dir f"
    using RotatingFileLogDevice_spec [OF assms(1) b] by blast
  have "rl_idx s = fst (last (log_window s))" using window_last [OF s(2)] by force
  moreover have "fst (last (open_window m (max n 1) (window pre dir))) \<le> (if window pre dir = [] then 0 else fst (last (window pre dir))) + 1"
    using open_window_last [of "max n 1" m "window pre dir"] by (auto simp: less_max_iff_disj)
  moreover have "(if window pre dir = [] then 0 else fst (last (window pre dir))) \<in> insert 0 (idxs pre dir)"
    using window_fst [of "fst (last (window pre dir))" pre dir] by auto
  ultimately have "rl_idx s + int (length ls) < 10 ^ 17" using assms(2) s(6) by fastforce
  then obtain s' where "write_log ls s = Some s'" "rot_inv s'"
      "log_window s' = fold (add_line (max m 1) (max n 1)) ls (log_window s)"
      "\<forall>f. GetLogFileIdx pre f = Some (- 1) \<longrightarrow> map_of (rl_dir s') f = map_of (rl_dir s) f"
    using write_log_spec [OF s(2)] unfolding s(3,4,5) by blast
  then show ?thesis using s by auto
qed

text \<open>
  C28. The rotating log is a window of numbered files. Opened on a directory whose log files have plain
  numbers, the device shows the newest files that it finds, followed by a fresh one when the newest is
  full; every line then goes whole to the end of the newest file, a file that has become full is closed
  and the next number begun, only the allowed number of files is kept, and no file that is not a log
  file is touched.
\<close>

theorem rotating_log_window:
  assumes "dir_ok pre dir" "\<forall>i \<in> insert 0 (idxs pre dir). i + 1 + int (length ls) < 10 ^ 17"
  shows "\<exists>s s'. RotatingFileLogDevice dir pre m n = Some s \<and> write_log ls s = Some s' \<and>
    log_window s' = fold (add_line (max m 1) (max n 1)) ls (open_window m (max n 1) (window pre dir)) \<and>
    (\<forall>f. GetLogFileIdx pre f = Some (- 1) \<longrightarrow> map_of (rl_dir s') f = map_of dir f)"
  using opened_and_written [OF assms, of m n] by auto

definition log_dir :: directory where
  "log_dir = [(''app.9'', ''old''), (''notes'', ''n''), (''app.10'', ''full'')]"

lemma log_dir_ok: "dir_ok ''app'' log_dir" "idxs ''app'' log_dir = {9, 10}"
proof -
  have path: "GetLogFilePath ''app'' 9 = ''app.9''" "GetLogFilePath ''app'' 10 = ''app.10''" by code_simp+
  have plain: "GetLogFileIdx ''app'' ''notes'' = Some (- 1)" by code_simp
  show ok: "dir_ok ''app'' log_dir"
    unfolding dir_ok_def
  proof
    show "distinct (map fst log_dir)" by (simp add: log_dir_def)
    show "\<forall>name \<in> fst ` set log_dir. GetLogFileIdx ''app'' name = Some (- 1) \<or>
        (\<exists>i. 0 \<le> i \<and> i < 10 ^ 17 \<and> name = GetLogFilePath ''app'' i)"
      using plain path [symmetric] by (auto simp: log_dir_def intro: exI [of _ 9] exI [of _ 10])
  qed
  have "i = 9 \<or> i = 10" if "i \<in> idxs ''app'' log_dir" for i
  proof -
    have i: "0 \<le> i" "GetLogFilePath ''app'' i \<in> {''app.9'', ''notes'', ''app.10''}"
      using that by (auto simp: idxs_def log_dir_def)
    moreover have "GetLogFilePath ''app'' i \<noteq> ''notes''" using plain path_not_minus [OF i(1), of "''app''"] by auto
    ultimately show ?thesis using path_inject [of i 9 "''app''"] path_inject [of i 10 "''app''"] path by auto
  qed
  moreover have "9 \<in> idxs ''app'' log_dir" "10 \<in> idxs ''app'' log_dir" by (simp_all add: idxs_def path log_dir_def)
  ultimately show "idxs ''app'' log_dir = {9, 10}" by auto
qed

lemma rotating_log_window_witness:
  "\<exists>s s'. RotatingFileLogDevice log_dir ''app'' 4 2 = Some s \<and> write_log [''ab'', ''cde'', ''f''] s = Some s' \<and>
    log_window s' = [(11, ''abcde''), (12, ''f'')] \<and> map_of (rl_dir s') ''notes'' = Some ''n''"
proof -
  have path: "GetLogFilePath ''app'' 9 = ''app.9''" "GetLogFilePath ''app'' 10 = ''app.10''" by code_simp+
  have plain: "GetLogFileIdx ''app'' ''notes'' = Some (- 1)" by code_simp
  have W: "window ''app'' log_dir = [(9, ''old''), (10, ''full'')]"
    by (simp add: window_def log_dir_ok path) (simp add: log_dir_def)
  have b: "\<forall>i \<in> insert 0 (idxs ''app'' log_dir). i + 1 + int (length [''ab'', ''cde'', ''f'']) < 10 ^ 17"
    by (simp add: log_dir_ok)
  show ?thesis
    using rotating_log_window [OF log_dir_ok(1) b, of 4 2] plain
    by (simp add: W open_window_def add_line_def Let_def) (auto simp: log_dir_def)
qed

text \<open>
  C29. The log loses nothing but its oldest files: what was in the files that are kept at the opening,
  followed by all lines written, is the text of some removed files followed by the text of the files
  that are left, and a file is only removed when the allowed number is reached.
\<close>

theorem rotating_log_text:
  assumes "dir_ok pre dir" "\<forall>i \<in> insert 0 (idxs pre dir). i + 1 + int (length ls) < 10 ^ 17"
    "RotatingFileLogDevice dir pre m n = Some s" "write_log ls s = Some s'"
  shows "length (log_window s') \<le> max n 1 \<and>
    (\<exists>removed :: (int \<times> string) list. concat (map snd removed) @ concat (map snd (log_window s')) =
       concat (map snd (log_window s)) @ concat ls \<and> (removed = [] \<or> length (log_window s') = max n 1))"
proof -
  have w: "log_window s = open_window m (max n 1) (window pre dir)"
      "log_window s' = fold (add_line (max m 1) (max n 1)) ls (log_window s)"
    using opened_and_written [OF assms(1,2), of m n] assms(3,4) by auto
  have "0 < max n 1" by simp
  then have "log_window s \<noteq> []" "length (log_window s) \<le> max n 1"
    using open_window_last [of "max n 1" m "window pre dir"] unfolding w(1) by blast+
  then show ?thesis
    using add_lines_text [of "log_window s" "max n 1" "max m 1" ls] add_lines_length [of "log_window s" "max n 1" "max m 1" ls] \<open>0 < max n 1\<close>
    unfolding w(2) by blast
qed

lemma rotating_log_text_witness:
  "\<exists>s s'. RotatingFileLogDevice log_dir ''app'' 4 2 = Some s \<and> write_log [''ab'', ''cde'', ''f''] s = Some s' \<and>
    length (log_window s') \<le> 2"
proof -
  have b: "\<forall>i \<in> insert 0 (idxs ''app'' log_dir). i + 1 + int (length [''ab'', ''cde'', ''f'']) < 10 ^ 17"
    by (simp add: log_dir_ok)
  obtain s s' where "RotatingFileLogDevice log_dir ''app'' 4 2 = Some s" "write_log [''ab'', ''cde'', ''f''] s = Some s'"
    using opened_and_written [OF log_dir_ok(1) b, of 4 2] by blast
  then show ?thesis using rotating_log_text [OF log_dir_ok(1) b] by force
qed

end
