(* ===== verification/Text_Format.thy ===== *)
theory Text_Format
  imports Prelude
begin

text \<open>
  \<^verbatim>\<open>string_formatter.h\<close> and the line formatters of \<^verbatim>\<open>text_writer.h\<close>. A format string is the text
  before its terminator; the arguments are what \<^verbatim>\<open>ToString\<close> makes of them.
\<close>

section \<open>Format strings\<close>

text \<open>The three loops of \<^verbatim>\<open>MyPrintf\<close>: text up to the next open brace, the skipped name of the field up
  to its closing brace, and the text behind the last field, in which a brace is an error.\<close>

definition brace :: "char \<Rightarrow> bool" where
  "brace c \<longleftrightarrow> c = CHR 0x7B \<or> c = CHR 0x7D"

definition escaped :: "string \<Rightarrow> bool" where
  "escaped p \<longleftrightarrow> (case p of c # d # _ \<Rightarrow> c = CHR 0x5C \<and> brace d | _ \<Rightarrow> False)"

lemma escaped_simps [simp]: "\<not> escaped []" "\<not> escaped [c]" "escaped (c # d # p) \<longleftrightarrow> c = CHR 0x5C \<and> brace d"
  by (simp_all add: escaped_def)

function scan_open :: "string \<Rightarrow> string \<times> string" where
  "scan_open p =
     (if p = [] then ([], [])
      else if escaped p then (let (out, q) = scan_open (drop 2 p) in (p ! 1 # out, q))
      else if hd p \<noteq> CHR 0x7B then (let (out, q) = scan_open (tl p) in (hd p # out, q))
      else ([], tl p))"
  by pat_completeness auto
termination by (relation "measure length") auto

function scan_close :: "string \<Rightarrow> string" where
  "scan_close p =
     (if p = [] then []
      else if escaped p then scan_close (drop 2 p)
      else if hd p = CHR 0x7D then p else scan_close (tl p))"
  by pat_completeness auto
termination by (relation "measure length") auto

function scan_end :: "string \<Rightarrow> bool \<times> string" where
  "scan_end p =
     (if p = [] then (True, [])
      else if escaped p then (let (ok, out) = scan_end (drop 2 p) in (ok, p ! 1 # out))
      else if \<not> brace (hd p) then (let (ok, out) = scan_end (tl p) in (ok, hd p # out))
      else (False, []))"
  by pat_completeness auto
termination by (relation "measure length") auto

declare scan_open.simps [simp del] scan_close.simps [simp del] scan_end.simps [simp del]

fun MyPrintf :: "string \<Rightarrow> string \<Rightarrow> string list \<Rightarrow> bool \<times> string" where
  "MyPrintf buf format [] = (let (ok, out) = scan_end format in (ok, buf @ out))"
| "MyPrintf buf format (d # ds) =
     (let (out, p) = scan_open format; buf = (buf @ out) @ d
      in case scan_close p of [] \<Rightarrow> (False, buf) | _ # p \<Rightarrow> MyPrintf buf p ds)"

text \<open>A failed \<^verbatim>\<open>MyPrintf\<close> is a fatal error, which ends the program.\<close>

definition Append :: "string \<Rightarrow> string \<Rightarrow> string list \<Rightarrow> string option" where
  "Append buf format ds = (let (ok, buf) = MyPrintf buf format ds in if ok then Some buf else None)"

definition Format :: "string \<Rightarrow> string list \<Rightarrow> string option" where
  "Format format ds = Append [] format ds"

text \<open>The number of fields, which is counted without regard to what the braces enclose.\<close>

fun GetNumFields :: "string \<Rightarrow> bool \<Rightarrow> nat" where
  "GetNumFields [] skip = 0"
| "GetNumFields (c # p) True = GetNumFields p False"
| "GetNumFields (c # p) False =
     (if c = CHR 0x7B then 1 + GetNumFields p False
      else if c = CHR 0x5C then GetNumFields p True else GetNumFields p False)"

definition CheckNumFields :: "string \<Rightarrow> nat \<Rightarrow> bool" where
  "CheckNumFields p n_fields \<longleftrightarrow> GetNumFields p False = n_fields"

section \<open>Line formatters\<close>

text \<open>\<^verbatim>\<open>TextFileFormatter\<close> formats into its own buffer and writes that to the file; it returns the number
  of bytes.\<close>

definition TextFileFormatter_Write :: "string \<Rightarrow> string \<Rightarrow> string list \<Rightarrow> (nat \<times> string) option" where
  "TextFileFormatter_Write file format ds = map_option (\<lambda>buf. (length buf, file @ buf)) (Format format ds)"

text \<open>\<^verbatim>\<open>DeliminatedFormatter\<close> builds a format string; \<^verbatim>\<open>LineWriter\<close> writes the fields directly. A line
  has at least one field.\<close>

fun format_loop :: "char \<Rightarrow> nat \<Rightarrow> nat \<Rightarrow> string \<Rightarrow> string" where
  "format_loop delim i 0 format = format"
| "format_loop delim i (Suc n) format =
     format_loop delim (i + 1) n ((if i \<noteq> 0 then format @ [delim] else format) @ [CHR 0x7B, CHR 0x7D])"

definition DeliminatedFormatter :: "char \<Rightarrow> nat \<Rightarrow> string" where
  "DeliminatedFormatter delim n_fields = format_loop delim 0 n_fields [] @ [CHR 0x0A]"

fun LineWriter :: "char \<Rightarrow> string \<Rightarrow> string list \<Rightarrow> string" where
  "LineWriter delim buf [] = buf"
| "LineWriter delim buf [x] = (buf @ x) @ [CHR 0x0A]"
| "LineWriter delim buf (x # y # a) = LineWriter delim ((buf @ x) @ [delim]) (y # a)"

section \<open>What a format string means\<close>

text \<open>A format string is made of literal text, in which braces are escaped, and of fields with a name that
  is ignored.\<close>

datatype piece = Literal string | Field string

definition escape :: "string \<Rightarrow> string" where
  "escape lit = concat (map (\<lambda>c. if brace c then [CHR 0x5C, c] else [c]) lit)"

fun format_of :: "piece list \<Rightarrow> string" where
  "format_of [] = []"
| "format_of (Literal lit # ps) = escape lit @ format_of ps"
| "format_of (Field name # ps) = CHR 0x7B # escape name @ CHR 0x7D # format_of ps"

fun filled :: "piece list \<Rightarrow> string list \<Rightarrow> string" where
  "filled [] ds = []"
| "filled (Literal lit # ps) ds = lit @ filled ps ds"
| "filled (Field name # ps) ds = hd ds @ filled ps (tl ds)"

fun n_fields :: "piece list \<Rightarrow> nat" where
  "n_fields [] = 0"
| "n_fields (Literal lit # ps) = n_fields ps"
| "n_fields (Field name # ps) = Suc (n_fields ps)"

text \<open>A brace cannot follow a backslash that is meant literally.\<close>

fun no_backslash_end :: "string \<Rightarrow> bool" where
  "no_backslash_end lit \<longleftrightarrow> lit = [] \<or> last lit \<noteq> CHR 0x5C"

fun writable :: "piece list \<Rightarrow> bool" where
  "writable [] = True"
| "writable (Literal lit # ps) = (writable ps \<and> (case ps of [] \<Rightarrow> True | Literal _ # _ \<Rightarrow> False | Field _ # _ \<Rightarrow> no_backslash_end lit))"
| "writable (Field name # ps) = (no_backslash_end name \<and> writable ps)"

lemma escape_simps [simp]: "escape [] = []" "escape (c # lit) = (if brace c then CHR 0x5C # c # escape lit else c # escape lit)"
  by (simp_all add: escape_def)

text \<open>No escape begins where the escaped text meets a brace that is not escaped.\<close>

lemma escaped_escape:
  assumes "\<not> brace c" "c = CHR 0x5C \<longrightarrow> lit \<noteq> [] \<or> rest = [] \<or> \<not> brace (hd rest)"
  shows "\<not> escaped (c # escape lit @ rest)"
  using assms by (cases lit; cases rest) (auto simp: brace_def)

lemma scan_open_escape:
  "no_backslash_end lit \<or> rest = [] \<Longrightarrow> scan_open (escape lit @ rest) = (let (out, q) = scan_open rest in (lit @ out, q))"
proof (induction lit)
  case (Cons c lit)
  have ih: "scan_open (escape lit @ rest) = (let (out, q) = scan_open rest in (lit @ out, q))"
    using Cons by (cases lit) auto
  show ?case
  proof (cases "brace c")
    case True
    then show ?thesis by (subst scan_open.simps) (simp add: ih split: prod.splits)
  next
    case False
    have "\<not> escaped (c # escape lit @ rest)" using False Cons.prems by (intro escaped_escape) auto
    then show ?thesis using False ih by (subst scan_open.simps) (auto simp: brace_def split: prod.splits)
  qed
qed (simp split: prod.splits)

lemma scan_close_escape:
  "no_backslash_end lit \<Longrightarrow> scan_close (escape lit @ CHR 0x7D # rest) = CHR 0x7D # rest"
proof (induction lit)
  case Nil
  then show ?case by (subst scan_close.simps) (cases rest, auto)
next
  case (Cons c lit)
  have ih: "scan_close (escape lit @ CHR 0x7D # rest) = CHR 0x7D # rest" using Cons by (cases lit) auto
  show ?case
  proof (cases "brace c")
    case True
    then show ?thesis by (subst scan_close.simps) (simp add: ih)
  next
    case False
    have "\<not> escaped (c # escape lit @ CHR 0x7D # rest)" using False Cons.prems by (intro escaped_escape) auto
    then show ?thesis using False ih by (subst scan_close.simps) (auto simp: brace_def)
  qed
qed

lemma scan_end_escape: "scan_end (escape lit) = (True, lit)"
proof (induction lit)
  case Nil
  then show ?case by (simp add: scan_end.simps)
next
  case (Cons c lit)
  show ?case
  proof (cases "brace c")
    case True
    then show ?thesis by (subst scan_end.simps) (simp add: Cons)
  next
    case False
    have "\<not> escaped (c # escape lit @ [])" using False by (intro escaped_escape) auto
    then show ?thesis using False Cons by (subst scan_end.simps) simp
  qed
qed

lemma scan_open_field: "scan_open (CHR 0x7B # rest) = ([], rest)"
  by (subst scan_open.simps) (cases rest, auto)

text \<open>Literals that follow each other are one literal, so the pieces alternate.\<close>

lemma MyPrintf_pieces:
  "writable ps \<Longrightarrow> length ds = n_fields ps \<Longrightarrow> MyPrintf buf (format_of ps) ds = (True, buf @ filled ps ds)"
proof (induction ps arbitrary: buf ds rule: writable.induct)
  case 1
  then show ?case using scan_end_escape [of "[]"] by simp
next
  case (2 lit ps)
  show ?case
  proof (cases ps)
    case Nil
    then show ?thesis using 2 scan_end_escape [of lit] by simp
  next
    case (Cons p qs)
    then obtain name where p: "p = Field name" "no_backslash_end lit" using 2(2) by (cases p) auto
    obtain d es where ds: "ds = d # es" using 2(3) Cons p by (cases ds) auto
    let ?rest = "CHR 0x7B # escape name @ CHR 0x7D # format_of qs"
    have "scan_open (escape lit @ ?rest) = (lit, tl ?rest)"
      using scan_open_escape [of lit ?rest] p(2) by (simp add: scan_open_field)
    then have "MyPrintf buf (format_of (Literal lit # ps)) ds = MyPrintf ((buf @ lit)) (format_of ps) ds"
      by (simp add: Cons p(1) ds scan_open_field)
    also have "\<dots> = (True, (buf @ lit) @ filled ps ds)" using 2 Cons p(1) by simp
    finally show ?thesis by simp
  qed
next
  case (3 name ps)
  obtain d es where ds: "ds = d # es" using 3(3) by (cases ds) auto
  have "MyPrintf buf (format_of (Field name # ps)) ds = MyPrintf (buf @ d) (format_of ps) es"
    using 3(2) scan_close_escape [of name "format_of ps"] by (simp add: ds scan_open_field del: no_backslash_end.simps)
  also have "\<dots> = (True, (buf @ d) @ filled ps es)" using 3 ds by simp
  finally show ?case by (simp add: ds)
qed

lemma MyPrintf_few:
  "writable ps \<Longrightarrow> length ds < n_fields ps \<Longrightarrow> \<not> fst (MyPrintf buf (format_of ps) ds)"
proof (induction ps arbitrary: buf ds rule: writable.induct)
  case (2 lit ps)
  then obtain name qs where ps: "ps = Field name # qs" by (cases ps) (auto split: piece.splits)
  let ?rest = "CHR 0x7B # escape name @ CHR 0x7D # format_of qs"
  have nb: "no_backslash_end lit" using 2(2) ps by simp
  show ?case
  proof (cases ds)
    case Nil
    have "\<not> fst (scan_end (escape lit @ ?rest))"
      using nb
    proof (induction lit)
      case Nil
      then show ?case by (subst scan_end.simps) (auto simp: escaped_def brace_def split: list.splits)
    next
      case (Cons c lit)
      have ih: "\<not> fst (scan_end (escape lit @ ?rest))" using Cons by (cases lit) auto
      show ?case
      proof (cases "brace c")
        case True
        then show ?thesis using ih by (subst scan_end.simps) (auto split: prod.splits)
      next
        case False
        have "\<not> escaped (c # escape lit @ ?rest)" using False Cons.prems by (intro escaped_escape) auto
        then show ?thesis using ih False by (subst scan_end.simps) (auto split: prod.splits)
      qed
    qed
    then show ?thesis by (simp add: Nil ps case_prod_beta)
  next
    case (Cons d es)
    have "scan_open (escape lit @ ?rest) = (lit, tl ?rest)"
      using scan_open_escape [of lit ?rest] nb by (simp add: scan_open_field)
    then have "MyPrintf buf (format_of (Literal lit # ps)) ds = MyPrintf (buf @ lit) (format_of ps) ds"
      by (simp add: ps Cons scan_open_field)
    then show ?thesis using 2 ps by simp
  qed
next
  case (3 name ps)
  show ?case
  proof (cases ds)
    case Nil
    then show ?thesis by (subst Nil) (simp add: scan_end.simps [of "CHR 0x7B # _"] escaped_def brace_def split: list.splits)
  next
    case (Cons d es)
    have "MyPrintf buf (format_of (Field name # ps)) ds = MyPrintf (buf @ d) (format_of ps) es"
      using 3(2) scan_close_escape [of name "format_of ps"] by (simp add: Cons scan_open_field del: no_backslash_end.simps)
    then show ?thesis using 3 Cons by simp
  qed
qed simp

lemma MyPrintf_many:
  "writable ps \<Longrightarrow> n_fields ps < length ds \<Longrightarrow> \<not> fst (MyPrintf buf (format_of ps) ds)"
proof (induction ps arbitrary: buf ds rule: writable.induct)
  case 1
  then show ?case by (cases ds) (simp_all add: scan_open.simps [of "[]"] scan_close.simps [of "[]"])
next
  case (2 lit ps)
  then obtain d es where ds: "ds = d # es" by (cases ds) auto
  show ?case
  proof (cases ps)
    case Nil
    then show ?thesis
      using scan_open_escape [of lit "[]"] by (simp add: ds scan_open.simps [of "[]"] scan_close.simps [of "[]"])
  next
    case (Cons p qs)
    then obtain name where p: "p = Field name" "no_backslash_end lit" using 2(2) by (cases p) auto
    let ?rest = "CHR 0x7B # escape name @ CHR 0x7D # format_of qs"
    have "scan_open (escape lit @ ?rest) = (lit, tl ?rest)"
      using scan_open_escape [of lit ?rest] p(2) by (simp add: scan_open_field)
    then have "MyPrintf buf (format_of (Literal lit # ps)) ds = MyPrintf (buf @ lit) (format_of ps) ds"
      by (simp add: Cons p(1) ds scan_open_field)
    then show ?thesis using 2 Cons p by simp
  qed
next
  case (3 name ps)
  then obtain d es where ds: "ds = d # es" by (cases ds) auto
  have "MyPrintf buf (format_of (Field name # ps)) ds = MyPrintf (buf @ d) (format_of ps) es"
    using 3(2) scan_close_escape [of name "format_of ps"] by (simp add: ds scan_open_field del: no_backslash_end.simps)
  then show ?case using 3 ds by simp
qed

text \<open>
  C33. A format string does what it says: with one argument per field the result is the literal text with
  the escapes removed and the fields replaced by the arguments in their order, whatever stands between
  the braces of a field; with fewer or more arguments formatting fails.
\<close>

theorem format_fills:
  assumes "writable ps"
  shows "Format (format_of ps) ds = (if length ds = n_fields ps then Some (filled ps ds) else None)"
proof (cases "length ds = n_fields ps")
  case True
  then show ?thesis using MyPrintf_pieces [OF assms True, of "[]"] by (simp add: Format_def Append_def)
next
  case False
  then have "\<not> fst (MyPrintf [] (format_of ps) ds)"
    using MyPrintf_few [OF assms, of ds "[]"] MyPrintf_many [OF assms, of ds "[]"] by (meson linorder_neqE_nat)
  then show ?thesis using False by (simp add: Format_def Append_def case_prod_beta)
qed

lemma format_fills_witness:
  "Format ''{} -get {src}'' [''hdfs'', ''a.txt''] = Some ''hdfs -get a.txt''"
  using format_fills [of "[Field [], Literal '' -get '', Field ''src'']" "[''hdfs'', ''a.txt'']"] by (simp add: brace_def)

text \<open>The count of the fields is another one when a backslash stands before an escaped brace.\<close>

lemma field_count_differs:
  "\<not> CheckNumFields [CHR 0x5C, CHR 0x5C, CHR 0x7B] 0 \<and> Format [CHR 0x5C, CHR 0x5C, CHR 0x7B] [] = Some [CHR 0x5C, CHR 0x7B]"
  by code_simp

fun line_pieces :: "char \<Rightarrow> nat \<Rightarrow> piece list" where
  "line_pieces delim 0 = []"
| "line_pieces delim (Suc 0) = [Field [], Literal [CHR 0x0A]]"
| "line_pieces delim (Suc (Suc n)) = Field [] # Literal [delim] # line_pieces delim (Suc n)"

lemma format_loop_pieces:
  "i \<noteq> 0 \<Longrightarrow> \<not> brace delim \<Longrightarrow> format_loop delim i n f @ [CHR 0x0A] =
    f @ (if n = 0 then [CHR 0x0A] else delim # format_of (line_pieces delim n))"
proof (induction n arbitrary: i f)
  case (Suc n)
  have "format_loop delim i (Suc n) f @ [CHR 0x0A] = format_loop delim (i + 1) n (f @ [delim, CHR 0x7B, CHR 0x7D]) @ [CHR 0x0A]"
    using Suc.prems by simp
  also have "\<dots> = f @ [delim, CHR 0x7B, CHR 0x7D] @ (if n = 0 then [CHR 0x0A] else delim # format_of (line_pieces delim n))"
    by (subst Suc.IH) (use Suc.prems in simp_all)
  finally show ?case using Suc.prems by (cases n) (simp_all add: brace_def)
qed simp

lemma DeliminatedFormatter_pieces:
  "0 < n \<Longrightarrow> \<not> brace delim \<Longrightarrow> DeliminatedFormatter delim n = format_of (line_pieces delim n)"
proof (cases n)
  case (Suc m)
  assume "\<not> brace delim"
  then show ?thesis using Suc format_loop_pieces [of 1 delim m "[CHR 0x7B, CHR 0x7D]"]
    by (cases m) (simp_all add: DeliminatedFormatter_def brace_def)
qed simp

lemma line_pieces_writable:
  "delim \<noteq> CHR 0x5C \<Longrightarrow> writable (line_pieces delim n) \<and> n_fields (line_pieces delim n) = n"
proof (induction delim n rule: line_pieces.induct)
  case (3 delim n)
  then show ?case by (cases n) simp_all
qed simp_all

lemma LineWriter_filled:
  "ds \<noteq> [] \<Longrightarrow> LineWriter delim buf ds = buf @ filled (line_pieces delim (length ds)) ds"
  by (induction delim buf ds rule: LineWriter.induct) simp_all

text \<open>
  The two line formatters write the same line: the format string of \<^verbatim>\<open>DeliminatedFormatter\<close>, filled
  with the fields, is what \<^verbatim>\<open>LineWriter\<close> appends, for every separator that is not a brace or a
  backslash.
\<close>

lemma line_formatters_agree:
  assumes "ds \<noteq> []" "\<not> brace delim" "delim \<noteq> CHR 0x5C"
  shows "Append buf (DeliminatedFormatter delim (length ds)) ds = Some (LineWriter delim buf ds)"
proof -
  have "DeliminatedFormatter delim (length ds) = format_of (line_pieces delim (length ds))"
    using assms(1,2) by (intro DeliminatedFormatter_pieces) simp_all
  then show ?thesis
    using MyPrintf_pieces [of "line_pieces delim (length ds)" ds buf] line_pieces_writable [OF assms(3), of "length ds"]
      LineWriter_filled [OF assms(1)] by (simp add: Append_def)
qed

lemma line_formatters_agree_witness:
  "Append ''> '' (DeliminatedFormatter CHR '','' 2) [''12'', ''ab''] = Some (''> 12,ab'' @ [CHR 0x0A])"
  using line_formatters_agree [of "[''12'', ''ab'']" "CHR '',''" "''> ''"] by (simp add: brace_def numeral_2_eq_2)

end
