(* ===== verification/Text_Writer.thy ===== *)
theory Text_Writer
  imports Pipeline_Stage Text_Format Text_Parser
begin

text \<open>
  \<^verbatim>\<open>text_writer.h\<close>: a table is written by a pipeline of two stages. The writer thread takes a free part of
  the workspace, sets the rows it stands for and pushes it; the first stage turns parts into text, several
  at a time; the second appends the texts to the file, one at a time, and gives the parts back. The state
  joins two stages of \<^verbatim>\<open>pipeline.h\<close>; a step is an iteration of the writer thread, the run of a
  task's function on a worker, or the critical section in which the worker ends the task.
\<close>

section \<open>The writer\<close>

text \<open>\<^verbatim>\<open>WriteTuple\<close> collects the fields of a row from the last column to the first.\<close>

fun write_tuple :: "nat \<Rightarrow> 'v list list \<Rightarrow> nat \<Rightarrow> 'v list \<Rightarrow> 'v list" where
  "write_tuple 0 ptrs off args = args"
| "write_tuple (Suc n) ptrs off args = write_tuple n ptrs off ((ptrs ! n) ! off # args)"

record data_part =
  dp_off :: nat
  dp_size :: nat
  dp_buf :: string

text \<open>\<open>tw_ran1\<close> and \<open>tw_ran2\<close> are the tasks whose function has run, in the two stages; \<open>tw_next\<close> is the first
  row that has not been given to a part.\<close>

record 'v writer =
  tw_ptrs :: "'v list list"
  tw_rows :: nat
  tw_chunk :: nat
  tw_next :: nat
  tw_workspace :: "data_part list"
  tw_free :: "nat list"
  tw_textify :: "(nat, nat) stage"
  tw_output :: "(nat, nat) stage"
  tw_file :: string
  tw_ran1 :: "nat set"
  tw_ran2 :: "nat set"

definition TextWriter :: "nat \<Rightarrow> nat \<Rightarrow> 'v list list \<Rightarrow> nat \<Rightarrow> string \<Rightarrow> 'v writer" where
  "TextWriter n_writers chunk_size data n file =
     \<lparr>tw_ptrs = data, tw_rows = n, tw_chunk = chunk_size, tw_next = 0,
      tw_workspace = replicate n_writers \<lparr>dp_off = 0, dp_size = 0, dp_buf = []\<rparr>, tw_free = [0..<n_writers],
      tw_textify = PipelineStage n_writers n_writers False, tw_output = PipelineStage 1 (2 ^ 64 - 1) False,
      tw_file = file, tw_ran1 = {}, tw_ran2 = {}\<rparr>"

text \<open>\<^verbatim>\<open>PartToText\<close> and \<^verbatim>\<open>WriteToFile\<close>.\<close>

fun text_loop :: "('v list \<Rightarrow> string) \<Rightarrow> 'v list list \<Rightarrow> nat \<Rightarrow> nat \<Rightarrow> nat \<Rightarrow> string \<Rightarrow> string" where
  "text_loop write_line ptrs off i 0 buf = buf"
| "text_loop write_line ptrs off i (Suc n) buf =
     text_loop write_line ptrs off (i + 1) n (buf @ write_line (write_tuple (length ptrs) ptrs (i + off) []))"

definition PartToText :: "('v list \<Rightarrow> string) \<Rightarrow> nat \<Rightarrow> 'v writer \<Rightarrow> 'v writer" where
  "PartToText write_line b s =
     (let p = tw_workspace s ! b
      in s\<lparr>tw_workspace := (tw_workspace s)[b := p\<lparr>dp_buf := text_loop write_line (tw_ptrs s) (dp_off p) 0 (dp_size p) (dp_buf p)\<rparr>]\<rparr>)"

definition WriteToFile :: "nat \<Rightarrow> 'v writer \<Rightarrow> 'v writer" where
  "WriteToFile b s =
     (let p = tw_workspace s ! b
      in s\<lparr>tw_file := tw_file s @ dp_buf p, tw_workspace := (tw_workspace s)[b := p\<lparr>dp_buf := []\<rparr>]\<rparr>)"

text \<open>One iteration of \<^verbatim>\<open>Write\<close>; it waits while no part is free.\<close>

definition push_part :: "'v writer \<Rightarrow> 'v writer" where
  "push_part s =
     (let b = hd (tw_free s); p = tw_workspace s ! b
      in s\<lparr>tw_free := tl (tw_free s),
           tw_workspace := (tw_workspace s)[b := p\<lparr>dp_off := tw_next s, dp_size := min (tw_chunk s) (tw_rows s - tw_next s)\<rparr>],
           tw_textify := snd (StagePush b (tw_textify s)), tw_next := tw_next s + tw_chunk s\<rparr>)"

text \<open>What a stage sends is pushed to the next one while its mutex is held.\<close>

definition new_outputs :: "(nat, nat) stage \<Rightarrow> (nat, nat) stage \<Rightarrow> nat list" where
  "new_outputs st st' = map the (drop (length (sent st)) (sent st'))"

definition end_textify :: "nat \<times> nat \<Rightarrow> 'v writer \<Rightarrow> 'v writer" where
  "end_textify job s =
     (let st' = pool_runs id job (tw_textify s)
      in s\<lparr>tw_textify := st',
           tw_output := fold (\<lambda>b st. snd (StagePush b st)) (new_outputs (tw_textify s) st') (tw_output s)\<rparr>)"

definition end_output :: "nat \<times> nat \<Rightarrow> 'v writer \<Rightarrow> 'v writer" where
  "end_output job s =
     (let st' = pool_runs id job (tw_output s)
      in s\<lparr>tw_output := st', tw_free := tw_free s @ new_outputs (tw_output s) st'\<rparr>)"

definition task_input :: "nat \<Rightarrow> (nat, nat) stage \<Rightarrow> nat" where
  "task_input i st = input (the (find_node i st))"

inductive writer_step :: "('v list \<Rightarrow> string) \<Rightarrow> 'v writer \<Rightarrow> 'v writer \<Rightarrow> bool" for write_line s where
  w_push: "tw_next s < tw_rows s \<Longrightarrow> tw_free s \<noteq> [] \<Longrightarrow> writer_step write_line s (push_part s)"
| w_text: "(seq, i) \<in> set (scheduled (tw_textify s)) \<Longrightarrow> i \<notin> tw_ran1 s \<Longrightarrow>
    writer_step write_line s ((PartToText write_line (task_input i (tw_textify s)) s)\<lparr>tw_ran1 := insert i (tw_ran1 s)\<rparr>)"
| w_text_end: "(seq, i) \<in> set (scheduled (tw_textify s)) \<Longrightarrow> i \<in> tw_ran1 s \<Longrightarrow>
    writer_step write_line s (end_textify (seq, i) s)"
| w_file: "(seq, i) \<in> set (scheduled (tw_output s)) \<Longrightarrow> i \<notin> tw_ran2 s \<Longrightarrow>
    writer_step write_line s ((WriteToFile (task_input i (tw_output s)) s)\<lparr>tw_ran2 := insert i (tw_ran2 s)\<rparr>)"
| w_file_end: "(seq, i) \<in> set (scheduled (tw_output s)) \<Longrightarrow> i \<in> tw_ran2 s \<Longrightarrow>
    writer_step write_line s (end_output (seq, i) s)"

text \<open>\<^verbatim>\<open>Write\<close> returns when all parts are pushed and it has found the first and then the second stage
  clear. It takes the number of rows from the first column.\<close>

definition Write_returns :: "'v writer \<Rightarrow> bool" where
  "Write_returns s \<longleftrightarrow> \<not> tw_next s < tw_rows s \<and> WaitTillClear_returns (tw_textify s) \<and> WaitTillClear_returns (tw_output s)"

definition Write_vectors :: "nat \<Rightarrow> nat \<Rightarrow> 'v list list \<Rightarrow> string \<Rightarrow> 'v writer" where
  "Write_vectors n_writers chunk_size data file = TextWriter n_writers chunk_size data (length (hd data)) file"

text \<open>\<^verbatim>\<open>WriteDelimitedText\<close> takes a chunk size that it does not pass on.\<close>

definition DEFAULT_CHUNK_SIZE :: nat where
  "DEFAULT_CHUNK_SIZE = 2 ^ 16"

definition WriteDelimitedText :: "nat \<Rightarrow> nat \<Rightarrow> 'v list list \<Rightarrow> string \<Rightarrow> 'v writer" where
  "WriteDelimitedText n_threads chunk_size data file = Write_vectors n_threads DEFAULT_CHUNK_SIZE data file"

section \<open>Stages in order\<close>

text \<open>In a stage that keeps the order the buffer holds the inputs that were not sent, in their order, and
  a task is named by the position of its input.\<close>

definition in_order :: "(nat, nat) stage \<Rightarrow> bool" where
  "in_order st \<longleftrightarrow> \<not> killed st \<and> \<not> out_of_order st \<and> stage_inv id st \<and> length (sent st) \<le> length (accepted st) \<and>
     map node (input_buffer st) = [length (sent st)..<length (accepted st)]"

lemma in_order_core: "in_order st \<Longrightarrow> core id None st \<and> settled st"
  by (simp add: in_order_def stage_inv_def)

lemma in_order_sent: "in_order st \<Longrightarrow> map Some (accepted st) = sent st @ map (Some \<circ> input) (input_buffer st)"
  using in_order_core [of st] unfolding core_def in_order_def by (simp add: comp_def)

lemma schedule_new_nodes:
  fixes st :: "(nat, nat) stage"
  assumes "\<not> killed st"
  shows "map node (input_buffer (schedule_new st)) = map node (input_buffer st)"
    "map input (input_buffer (schedule_new st)) = map input (input_buffer st)"
    "map finished (input_buffer (schedule_new st)) = map finished (input_buffer st)"
    "sent (schedule_new st) = sent st" "input_buffer_size (schedule_new st) = input_buffer_size st"
    "max_active_tasks (schedule_new st) = max_active_tasks st"
proof -
  obtain buf seq jobs where sch: "schedule (max_active_tasks st) False (next_seq st) (input_buffer st) = (buf, seq, jobs)"
    using prod_cases3 by blast
  have buf: "buf = map start (take (max_active_tasks st) (input_buffer st)) @ drop (max_active_tasks st) (input_buffer st)"
    using schedule_alive [OF sch] by blast
  have same: "map g buf = map g (input_buffer st)" if "\<And>t. g (start t) = g t" for g :: "(nat, nat) task_instance \<Rightarrow> 'x"
    using that by (simp add: buf o_def take_map [symmetric] drop_map [symmetric])
  show "map node (input_buffer (schedule_new st)) = map node (input_buffer st)"
    "map input (input_buffer (schedule_new st)) = map input (input_buffer st)"
    "map finished (input_buffer (schedule_new st)) = map finished (input_buffer st)"
    "sent (schedule_new st) = sent st" "input_buffer_size (schedule_new st) = input_buffer_size st"
    "max_active_tasks (schedule_new st) = max_active_tasks st"
    using assms same [of node] same [of input] same [of finished] sch by (simp_all add: schedule_new_def)
qed

text \<open>The tasks of a stage that are finished but not sent.\<close>

definition done_nodes :: "(nat, nat) stage \<Rightarrow> nat set" where
  "done_nodes st = {k. \<exists>t \<in> set (input_buffer st). node t = k \<and> finished t}"

lemma done_nodes_cong:
  fixes b :: "(nat, nat) task_instance list"
  assumes "map node b = map node (input_buffer st)" "map finished b = map finished (input_buffer st)"
  shows "{k. \<exists>t \<in> set b. node t = k \<and> finished t} = done_nodes st"
proof -
  have key: "{k. \<exists>t \<in> set xs. node t = k \<and> finished t} = {k. (k, True) \<in> set (zip (map node xs) (map finished xs))}"
    for xs :: "(nat, nat) task_instance list"
    by (induction xs) auto
  show ?thesis unfolding done_nodes_def key assms ..
qed

lemma StagePush_in_order:
  fixes st :: "(nat, nat) stage" and b :: nat
  assumes ord: "in_order st" and room: "\<not> Push_must_wait st"
  defines "st' \<equiv> snd (StagePush b st)"
  shows "in_order st'" "accepted st' = accepted st @ [b]" "sent st' = sent st" "done_nodes st' = done_nodes st"
    "input_buffer_size st' = input_buffer_size st" "max_active_tasks st' = max_active_tasks st"
proof -
  have alive: "\<not> killed st" and "\<not> out_of_order st" using ord by (simp_all add: in_order_def)
  let ?t = "\<lparr>node = length (accepted st), input = b, result = None, state = NEW_TASK\<rparr>"
  let ?s = "st\<lparr>input_buffer := input_buffer st @ [?t], accepted := accepted st @ [b]\<rparr>"
  have st': "st' = schedule_new (retire_front ?s)"
    using alive by (simp add: st'_def StagePush_def CheckQueueNolock_def retire_def)
  have head: "takeWhile finished (input_buffer ?s) = []" "dropWhile finished (input_buffer ?s) = input_buffer ?s"
    using in_order_core [OF ord] by (cases "input_buffer st"; simp add: settled_def)+
  have r: "retire_front ?s = ?s" using retire_front_alive [of ?s] alive head by simp
  note n = schedule_new_nodes [of ?s]
  have fin: "map finished (input_buffer st') = map finished (input_buffer ?s)" "map node (input_buffer st') = map node (input_buffer ?s)"
    using n alive by (simp_all add: st' r)
  have "stage_inv id st'"
    using stage_inv_step [OF _ st_push [OF room], of id b] ord by (simp add: in_order_def st'_def)
  moreover show "accepted st' = accepted st @ [b]" "sent st' = sent st"
      "input_buffer_size st' = input_buffer_size st" "max_active_tasks st' = max_active_tasks st"
    using alive n unfolding st' r by (simp_all add: schedule_new_def case_prod_beta)
  moreover have "killed st' = killed st" "out_of_order st' = out_of_order st"
    unfolding st' r by (simp_all add: schedule_new_def case_prod_beta)
  ultimately show "in_order st'" using ord fin(2) by (simp add: in_order_def)
  have "done_nodes st' = {k. \<exists>t \<in> set (input_buffer ?s). node t = k \<and> finished t}"
    using done_nodes_cong [of "input_buffer ?s" st'] fin by simp
  then show "done_nodes st' = done_nodes st" by (auto simp: done_nodes_def)
qed

lemma scheduled_running:
  assumes "in_order st" "(seq, i) \<in> set (scheduled st)"
  obtains t where "t \<in> set (input_buffer st)" "node t = i" "state t = RUNNING"
proof -
  have c: "mset (map snd (scheduled st)) = mset (map node (filter (\<lambda>t. state t = RUNNING) (input_buffer st)))"
    using in_order_core [OF assms(1)] unfolding core_def by blast
  have "i \<in># mset (map snd (scheduled st))" using assms(2) by force
  then have "i \<in># mset (map node (filter (\<lambda>t. state t = RUNNING) (input_buffer st)))" using c by metis
  then show ?thesis using that by auto
qed

lemma scheduled_node:
  assumes "in_order st" "(seq, i) \<in> set (scheduled st)"
  shows "length (sent st) \<le> i" "i < length (accepted st)" "i \<notin> done_nodes st" "task_input i st = accepted st ! i"
proof -
  have c: "distinct (map node (input_buffer st))" using in_order_core [OF assms(1)] unfolding core_def by blast
  obtain t where t: "t \<in> set (input_buffer st)" "node t = i" "state t = RUNNING" using scheduled_running [OF assms] .
  have nodes: "map node (input_buffer st) = [length (sent st)..<length (accepted st)]" using assms(1) by (simp add: in_order_def)
  have "i \<in> set (map node (input_buffer st))" using t by auto
  then show i: "length (sent st) \<le> i" "i < length (accepted st)" unfolding nodes by simp_all
  have uniq: "u = t" if "u \<in> set (input_buffer st)" "node u = i" for u
    using that t c by (metis distinct_map inj_onD)
  then show "i \<notin> done_nodes st" using t(3) by (auto simp: done_nodes_def)
  have "find_node i st = Some t"
    unfolding find_node_def using t uniq by (metis (mono_tags, lifting) find_None_iff find_Some_iff nth_mem option.exhaust)
  moreover obtain k where k: "k < length (input_buffer st)" "input_buffer st ! k = t" using t(1) by (metis in_set_conv_nth)
  moreover have "i = length (sent st) + k"
  proof -
    have "map node (input_buffer st) ! k = i" using k t(2) by simp
    moreover have "k < length (accepted st) - length (sent st)" using k(1) nodes by (metis length_map length_upt)
    ultimately show ?thesis unfolding nodes by simp
  qed
  moreover have "map Some (accepted st) ! (length (sent st) + k) = (Some \<circ> input) (input_buffer st ! k)"
    unfolding in_order_sent [OF assms(1)] using k(1) by (simp add: nth_append)
  ultimately show "task_input i st = accepted st ! i" using i by (simp add: task_input_def)
qed

lemma find_finished:
  assumes "find_node i st = Some t"
  shows "retire (Some i) st = (if out_of_order st \<and> finished t
    then (OutputToNextStage (result t) st)\<lparr>input_buffer := filter (\<lambda>u. node u \<noteq> node t) (input_buffer st)\<rparr> else retire_front st)"
  using assms by (simp add: retire_def)

lemma pool_runs_in_order:
  fixes st :: "(nat, nat) stage" and i :: nat
  assumes ord: "in_order st" and job: "(seq, i) \<in> set (scheduled st)"
  defines "st' \<equiv> pool_runs id (seq, i) st"
  shows "in_order st'" "accepted st' = accepted st" "length (sent st) \<le> length (sent st')"
    "done_nodes st' \<subseteq> insert i (done_nodes st)" "{length (sent st)..<length (sent st')} \<subseteq> insert i (done_nodes st)"
    "new_outputs st st' = drop (length (sent st)) (take (length (sent st')) (accepted st))"
    "unfinished st' + 1 = unfinished st" "input_buffer_size st' = input_buffer_size st" "max_active_tasks st' = max_active_tasks st"
    "i = length (sent st) \<Longrightarrow> length (sent st) < length (sent st')"
proof -
  have alive: "\<not> killed st" and ooo: "\<not> out_of_order st" using ord by (simp_all add: in_order_def)
  let ?B = "map (finish_task id i) (input_buffer st)"
  let ?s = "st\<lparr>scheduled := remove1 (seq, i) (scheduled st), input_buffer := ?B\<rparr>"
  let ?F = "takeWhile finished ?B" and ?R = "dropWhile finished ?B"
  obtain t where t: "find_node i ?s = Some t" using core_finish(2) [OF _ job, of id] in_order_core [OF ord] by auto
  have ret: "retire (Some i) ?s = retire_front ?s"
    unfolding find_finished [OF t] using ooo by simp
  have r: "retire_front ?s = ?s\<lparr>sent := sent ?s @ map result ?F, input_buffer := ?R\<rparr>"
    using retire_front_alive [of ?s] alive by simp
  let ?r = "?s\<lparr>sent := sent ?s @ map result ?F, input_buffer := ?R\<rparr>"
  have st': "st' = schedule_new ?r"
    unfolding st'_def pool_runs_def RunTask_def CheckQueueNolock_def
    using ret r by simp
  have alive_r: "\<not> killed ?r" using alive by simp
  note n = schedule_new_nodes [OF alive_r]
  have sent: "sent st' = sent st @ map result ?F" using n(4) by (simp add: st')
  have nodes: "map node (input_buffer st) = [length (sent st)..<length (accepted st)]" using ord by (simp add: in_order_def)
  have nB: "map node ?B = [length (sent st)..<length (accepted st)]" using nodes by (simp add: comp_def)
  have split: "map node ?F @ map node ?R = [length (sent st)..<length (accepted st)]"
    using nB by (metis map_append takeWhile_dropWhile_id)
  have lenF: "length ?F \<le> length (accepted st) - length (sent st)"
    using arg_cong [OF split, of length] by simp
  have "length (sent st) \<le> length (accepted st)" using ord by (simp add: in_order_def)
  then have total_le: "length (sent st) + length ?F \<le> length (accepted st)" using lenF by linarith
  have nF: "map node ?F = [length (sent st)..<length (sent st) + length ?F]"
  proof -
    have "map node ?F = take (length ?F) (map node ?F @ map node ?R)" by simp
    then show ?thesis using total_le unfolding split by (simp add: take_upt)
  qed
  have nR: "map node ?R = [length (sent st) + length ?F..<length (accepted st)]"
  proof -
    have "map node ?R = drop (length ?F) (map node ?F @ map node ?R)" by simp
    then show ?thesis unfolding split by simp
  qed
  have inv: "stage_inv id st'"
    unfolding st'_def using stage_inv_step [OF _ st_run [OF job]] ord by (simp add: in_order_def)
  have frame: "killed st' = killed st" "out_of_order st' = out_of_order st" "accepted st' = accepted st"
    unfolding st' by (simp_all add: schedule_new_def case_prod_beta)
  then show acc: "accepted st' = accepted st" by blast
  show ord': "in_order st'"
    using inv frame alive ooo n(1) nR total_le by (simp add: in_order_def sent) (simp add: st')
  show "length (sent st) \<le> length (sent st')" by (simp add: sent)
  show "input_buffer_size st' = input_buffer_size st" "max_active_tasks st' = max_active_tasks st" using n(5,6) by (simp_all add: st')
  have finB: "t \<in> set ?B \<Longrightarrow> finished t \<Longrightarrow> node t \<in> insert i (done_nodes st)" for t
    by (auto simp: done_nodes_def finish_task_def split: if_splits)
  have dn: "done_nodes st' = {k. \<exists>t \<in> set ?R. node t = k \<and> finished t}"
    using done_nodes_cong [of ?R st'] n(1,3) by (simp add: st')
  show "done_nodes st' \<subseteq> insert i (done_nodes st)"
    unfolding dn using finB by (fastforce dest: set_dropWhileD)
  show "{length (sent st)..<length (sent st')} \<subseteq> insert i (done_nodes st)"
  proof
    fix k assume "k \<in> {length (sent st)..<length (sent st')}"
    then have "k \<in> set (map node ?F)" unfolding nF sent by simp
    then obtain t where "t \<in> set ?F" "node t = k" by auto
    then show "k \<in> insert i (done_nodes st)" using finB [of t] set_takeWhileD [of t finished ?B] by auto
  qed
  have pre: "sent st' = map Some (take (length (sent st')) (accepted st))"
  proof -
    have "map Some (accepted st) = sent st' @ map (Some \<circ> input) (input_buffer st')"
      using in_order_sent [OF ord'] acc by simp
    then show ?thesis by (metis append_eq_conv_conj take_map)
  qed
  show "new_outputs st st' = drop (length (sent st)) (take (length (sent st')) (accepted st))"
    unfolding new_outputs_def by (subst pre) (simp add: drop_map [symmetric] comp_def)
  have "run_step id st st'" unfolding st'_def run_step_def using job by blast
  then show "unfinished st' + 1 = unfinished st" using unfinished_run(1) [of id st st'] ord by (simp add: in_order_def)
  show "length (sent st) < length (sent st')" if "i = length (sent st)"
  proof -
    have "i < length (accepted st)" using scheduled_node(2) [OF ord job] .
    then have up: "[length (sent st)..<length (accepted st)] = i # [Suc i..<length (accepted st)]"
      using that by (simp add: upt_conv_Cons)
    then have ne: "input_buffer st \<noteq> []" using nodes by auto
    have "node (hd (input_buffer st)) = i" using nodes ne unfolding up by (cases "input_buffer st") auto
    then have "finished (hd ?B)" using ne by (simp add: hd_map finish_task_def)
    then have "?F \<noteq> []" using ne by (cases "input_buffer st") auto
    then show ?thesis by (simp add: sent)
  qed
qed

text \<open>A stage with one active task.\<close>

lemma single_task:
  assumes "in_order st" "max_active_tasks st = 1"
  shows "done_nodes st = {}" "(seq, i) \<in> set (scheduled st) \<Longrightarrow> i = length (sent st)"
proof -
  have c: "\<forall>t \<in> set (drop 1 (input_buffer st)). state t = NEW_TASK" "input_buffer st \<noteq> [] \<longrightarrow> \<not> finished (hd (input_buffer st))"
    using in_order_core [OF assms(1)] assms(2) unfolding core_def settled_def by auto
  have nodes: "map node (input_buffer st) = [length (sent st)..<length (accepted st)]" using assms(1) by (simp add: in_order_def)
  show "done_nodes st = {}" using c by (cases "input_buffer st") (auto simp: done_nodes_def)
  show "i = length (sent st)" if job: "(seq, i) \<in> set (scheduled st)"
  proof -
    obtain t where t: "t \<in> set (input_buffer st)" "node t = i" "state t = RUNNING"
      using scheduled_running [OF assms(1) job] .
    then have "t = hd (input_buffer st)" using c(1) by (cases "input_buffer st") auto
    moreover have "length (sent st) < length (accepted st)" using t(1) nodes by (cases "length (sent st) < length (accepted st)") auto
    ultimately show ?thesis using nodes t by (cases "input_buffer st") (auto simp: upt_conv_Cons)
  qed
qed

lemma in_order_length: "in_order st \<Longrightarrow> length (input_buffer st) = length (accepted st) - length (sent st)"
  unfolding in_order_def by (metis length_map length_upt)

lemma push_all:
  assumes "in_order st" "length (accepted st) + length bs \<le> length (sent st) + input_buffer_size st"
  defines "st' \<equiv> fold (\<lambda>b st. snd (StagePush b st)) bs st"
  shows "in_order st' \<and> accepted st' = accepted st @ bs \<and> sent st' = sent st \<and> input_buffer_size st' = input_buffer_size st \<and>
    max_active_tasks st' = max_active_tasks st"
  using assms(1,2) unfolding assms(3)
proof (induction bs arbitrary: st)
  case (Cons b bs)
  have "\<not> Push_must_wait st" using in_order_length [OF Cons.prems(1)] Cons.prems(1,2) by (auto simp: Push_must_wait_def in_order_def)
  note p = StagePush_in_order [OF Cons.prems(1) this, of b]
  show ?case using Cons.IH [OF p(1)] Cons.prems(2) p by simp
qed simp

section \<open>The invariant of a writer\<close>

lemma write_tuple_map: "n \<le> length ptrs \<Longrightarrow> write_tuple n ptrs off args = map (\<lambda>c. c ! off) (take n ptrs) @ args"
  by (induction n arbitrary: args) (simp_all add: take_Suc_conv_app_nth)

definition row :: "'v list list \<Rightarrow> nat \<Rightarrow> 'v list" where
  "row ptrs i = map (\<lambda>c. c ! i) ptrs"

lemma text_loop_rows:
  "text_loop write_line ptrs off i n buf = buf @ concat (map (\<lambda>j. write_line (row ptrs (j + off))) [i..<i + n])"
proof (induction n arbitrary: i buf)
  case (Suc n)
  have "[i..<i + Suc n] = i # [Suc i..<Suc i + n]" by (simp add: upt_conv_Cons)
  then show ?case using Suc by (simp add: write_tuple_map row_def)
qed simp

definition part_text :: "('v list \<Rightarrow> string) \<Rightarrow> 'v writer \<Rightarrow> nat \<Rightarrow> string" where
  "part_text write_line s k =
     concat (map (\<lambda>j. write_line (row (tw_ptrs s) j)) [k * tw_chunk s..<k * tw_chunk s + min (tw_chunk s) (tw_rows s - k * tw_chunk s)])"

definition part_of :: "('v list \<Rightarrow> string) \<Rightarrow> 'v writer \<Rightarrow> nat \<Rightarrow> data_part" where
  "part_of write_line s k = \<lparr>dp_off = k * tw_chunk s, dp_size = min (tw_chunk s) (tw_rows s - k * tw_chunk s),
     dp_buf = (if k \<in> tw_ran2 s then [] else if k \<in> tw_ran1 s then part_text write_line s k else [])\<rparr>"

text \<open>Parts are numbered in the order in which they are pushed. Between the parts that were given back and
  those that were pushed every part has its own place in the workspace, and the other places are free.\<close>

definition flow_inv :: "'v writer \<Rightarrow> bool" where
  "flow_inv s \<longleftrightarrow> in_order (tw_textify s) \<and> in_order (tw_output s) \<and>
     accepted (tw_output s) = take (length (sent (tw_textify s))) (accepted (tw_textify s)) \<and>
     max_active_tasks (tw_output s) = 1 \<and>
     input_buffer_size (tw_textify s) = length (tw_workspace s) \<and> input_buffer_size (tw_output s) = 2 ^ 64 - 1 \<and>
     length (tw_workspace s) < 2 ^ 64 \<and> 0 < length (tw_workspace s) \<and>
     distinct (tw_free s @ drop (length (sent (tw_output s))) (accepted (tw_textify s))) \<and>
     set (tw_free s @ drop (length (sent (tw_output s))) (accepted (tw_textify s))) = {..<length (tw_workspace s)}"

definition ran_inv :: "'v writer \<Rightarrow> bool" where
  "ran_inv s \<longleftrightarrow> done_nodes (tw_textify s) \<subseteq> tw_ran1 s \<and> {..<length (sent (tw_textify s))} \<subseteq> tw_ran1 s \<and>
     tw_ran1 s \<subseteq> {..<length (accepted (tw_textify s))} \<and>
     (tw_ran2 s = {..<length (sent (tw_output s))} \<or>
      tw_ran2 s = {..<Suc (length (sent (tw_output s)))} \<and> length (sent (tw_output s)) < length (sent (tw_textify s)))"

definition text_inv :: "('v list \<Rightarrow> string) \<Rightarrow> string \<Rightarrow> 'v writer \<Rightarrow> bool" where
  "text_inv write_line file s \<longleftrightarrow> 0 < tw_chunk s \<and> tw_next s = length (accepted (tw_textify s)) * tw_chunk s \<and>
     (\<forall>k < length (accepted (tw_textify s)). k * tw_chunk s < tw_rows s) \<and>
     (\<forall>b \<in> set (tw_free s). dp_buf (tw_workspace s ! b) = []) \<and>
     (\<forall>k. length (sent (tw_output s)) \<le> k \<and> k < length (accepted (tw_textify s)) \<longrightarrow>
        tw_workspace s ! (accepted (tw_textify s) ! k) = part_of write_line s k) \<and>
     tw_file s = file @ concat (map (part_text write_line s) [0..<card (tw_ran2 s)])"

lemma init_inv:
  assumes "0 < n_writers" "n_writers < 2 ^ 64" "0 < chunk_size"
  shows "flow_inv (TextWriter n_writers chunk_size data n file)" "ran_inv (TextWriter n_writers chunk_size data n file)"
    "text_inv write_line file (TextWriter n_writers chunk_size data n file)"
proof -
  have o1: "in_order (PipelineStage n_writers n_writers False)" "in_order (PipelineStage 1 (2 ^ 64 - 1) False)"
    using stage_inv_init [of n_writers id n_writers False] stage_inv_init [of "2 ^ 64 - 1" id 1 False] assms(1)
    by (simp_all add: in_order_def PipelineStage_def)
  then show "flow_inv (TextWriter n_writers chunk_size data n file)"
    using assms by (auto simp: flow_inv_def TextWriter_def PipelineStage_def)
  show "ran_inv (TextWriter n_writers chunk_size data n file)"
    by (simp add: ran_inv_def TextWriter_def PipelineStage_def done_nodes_def)
  show "text_inv write_line file (TextWriter n_writers chunk_size data n file)"
    using assms by (simp add: text_inv_def TextWriter_def PipelineStage_def)
qed

definition writer_inv :: "('v list \<Rightarrow> string) \<Rightarrow> string \<Rightarrow> 'v writer \<Rightarrow> bool" where
  "writer_inv write_line file s \<longleftrightarrow> flow_inv s \<and> ran_inv s \<and> text_inv write_line file s"

text \<open>Bounds that follow.\<close>

lemma flow_bounds:
  assumes "flow_inv s"
  defines "N \<equiv> length (accepted (tw_textify s))" and "M \<equiv> length (sent (tw_textify s))" and "J \<equiv> length (sent (tw_output s))"
  shows "M \<le> N" "length (accepted (tw_output s)) = M" "J \<le> M" "length (tw_free s) + (N - J) = length (tw_workspace s)"
    "\<And>k. J \<le> k \<Longrightarrow> k < N \<Longrightarrow> accepted (tw_textify s) ! k \<in> set (drop J (accepted (tw_textify s)))"
    "\<And>k l. J \<le> k \<Longrightarrow> k < N \<Longrightarrow> J \<le> l \<Longrightarrow> l < N \<Longrightarrow> accepted (tw_textify s) ! k = accepted (tw_textify s) ! l \<longleftrightarrow> k = l"
proof -
  let ?a = "accepted (tw_textify s)"
  show 1: "M \<le> N" using assms(1) by (simp add: flow_inv_def in_order_def M_def N_def)
  then show 2: "length (accepted (tw_output s)) = M" using assms(1) by (simp add: flow_inv_def M_def N_def)
  show 3: "J \<le> M" using assms(1) 2 unfolding flow_inv_def in_order_def J_def by simp
  let ?l = "tw_free s @ drop J ?a"
  have d: "distinct ?l" "set ?l = {..<length (tw_workspace s)}" using assms(1) by (auto simp: flow_inv_def J_def)
  have "length ?l = length (tw_workspace s)" using distinct_card [OF d(1)] unfolding d(2) by simp
  then show "length (tw_free s) + (N - J) = length (tw_workspace s)" by (simp add: N_def)
  have nth: "?a ! k = drop J ?a ! (k - J)" "k - J < length (drop J ?a)" if "J \<le> k" "k < N" for k
    using that by (simp_all add: N_def)
  show "?a ! k \<in> set (drop J ?a)" if "J \<le> k" "k < N" for k using nth [OF that] by (metis nth_mem)
  show "?a ! k = ?a ! l \<longleftrightarrow> k = l" if "J \<le> k" "k < N" "J \<le> l" "l < N" for k l
  proof -
    have dd: "distinct (drop J ?a)" using d(1) by simp
    have "?a ! k = ?a ! l \<longleftrightarrow> k - J = l - J"
      unfolding nth(1) [OF that(1,2)] nth(1) [OF that(3,4)] using nth_eq_iff_index_eq [OF dd nth(2) [OF that(1,2)] nth(2) [OF that(3,4)]] .
    then show ?thesis using that by auto
  qed
qed

lemma free_not_used:
  assumes "flow_inv s" "b \<in> set (tw_free s)" "length (sent (tw_output s)) \<le> k" "k < length (accepted (tw_textify s))"
  shows "accepted (tw_textify s) ! k \<noteq> b" "b < length (tw_workspace s)"
proof -
  have "distinct (tw_free s @ drop (length (sent (tw_output s))) (accepted (tw_textify s)))"
      "set (tw_free s @ drop (length (sent (tw_output s))) (accepted (tw_textify s))) = {..<length (tw_workspace s)}"
    using assms(1) by (auto simp: flow_inv_def)
  then show "accepted (tw_textify s) ! k \<noteq> b" "b < length (tw_workspace s)"
    using flow_bounds(5) [OF assms(1,3,4)] assms(2) by auto
qed

lemma used_place:
  assumes "flow_inv s" "length (sent (tw_output s)) \<le> k" "k < length (accepted (tw_textify s))"
  shows "accepted (tw_textify s) ! k < length (tw_workspace s)"
proof -
  have "set (tw_free s @ drop (length (sent (tw_output s))) (accepted (tw_textify s))) = {..<length (tw_workspace s)}"
    using assms(1) by (simp only: flow_inv_def)
  then show ?thesis using flow_bounds(5) [OF assms] by auto
qed

lemma push_part_inv:
  assumes inv: "writer_inv write_line file s" and "tw_next s < tw_rows s" "tw_free s \<noteq> []"
  shows "writer_inv write_line file (push_part s)" "\<not> Push_must_wait (tw_textify s)"
proof -
  have f: "flow_inv s" and r: "ran_inv s" and t: "text_inv write_line file s" using inv by (simp_all add: writer_inv_def)
  obtain b fr where free: "tw_free s = b # fr" using assms(3) by (cases "tw_free s") auto
  let ?a = "accepted (tw_textify s)" and ?J = "length (sent (tw_output s))" and ?M = "length (sent (tw_textify s))"
  note bd = flow_bounds [OF f]
  have ord: "in_order (tw_textify s)" using f by (simp add: flow_inv_def)
  have size: "input_buffer_size (tw_textify s) = length (tw_workspace s)" using f by (simp add: flow_inv_def)
  have "length ?a - ?M < length (tw_workspace s)" using bd(1,3,4) free by simp
  then show room: "\<not> Push_must_wait (tw_textify s)" using in_order_length [OF ord] size by (simp add: Push_must_wait_def)
  note p = StagePush_in_order [OF ord room, of b]
  let ?p = "(tw_workspace s ! b)\<lparr>dp_off := tw_next s, dp_size := min (tw_chunk s) (tw_rows s - tw_next s)\<rparr>"
  let ?st = "snd (StagePush b (tw_textify s))" and ?w = "(tw_workspace s)[b := ?p]"
  define s' where "s' = push_part s"
  have sel: "tw_free s' = fr" "tw_workspace s' = ?w" "tw_textify s' = ?st" "tw_next s' = tw_next s + tw_chunk s"
      "tw_output s' = tw_output s" "tw_ran1 s' = tw_ran1 s" "tw_ran2 s' = tw_ran2 s" "tw_ptrs s' = tw_ptrs s"
      "tw_rows s' = tw_rows s" "tw_chunk s' = tw_chunk s" "tw_file s' = tw_file s"
    by (simp_all add: s'_def push_part_def free Let_def)
  have JN: "?J \<le> length ?a" using bd(1,3) by simp
  have d: "distinct (b # fr @ drop ?J ?a)" "set (b # fr @ drop ?J ?a) = {..<length (tw_workspace s)}"
    using f by (simp_all add: flow_inv_def free)
  have "flow_inv s'"
    using f p d JN bd(1) unfolding flow_inv_def sel by (auto simp: free)
  moreover have "ran_inv s'" using r unfolding ran_inv_def sel p(2,3,4) by auto
  moreover have "text_inv write_line file s'"
  proof -
    have part: "part_of write_line s' k = part_of write_line s k" "part_text write_line s' k = part_text write_line s k" for k
      by (simp_all add: part_of_def part_text_def sel)
    have nxt: "tw_next s = length ?a * tw_chunk s" using t by (simp add: text_inv_def)
    have b: "dp_buf (tw_workspace s ! b) = []" "b < length (tw_workspace s)" using t d(2) free by (auto simp: text_inv_def)
    have last: "?w ! b = part_of write_line s (length ?a)"
    proof -
      have "length ?a \<notin> tw_ran1 s" using r by (auto simp: ran_inv_def)
      then show ?thesis using b by (simp add: part_of_def nxt)
    qed
    have "?w ! ((?a @ [b]) ! k) = part_of write_line s k" if "?J \<le> k" "k < Suc (length ?a)" for k
    proof (cases "k = length ?a")
      case True
      then show ?thesis using last by simp
    next
      case False
      then have k: "k < length ?a" using that by simp
      have "?a ! k \<noteq> b" using free_not_used(1) [OF f _ that(1) k, of b] free by simp
      then show ?thesis using t that(1) k by (simp add: text_inv_def nth_append)
    qed
    moreover have "dp_buf (?w ! c) = []" if "c \<in> set fr" for c
      using t that b free by (cases "c = b") (auto simp: text_inv_def nth_list_update)
    ultimately show ?thesis
      using t assms(2) nxt unfolding text_inv_def sel part p(2,3) by (auto simp: less_Suc_eq)
  qed
  ultimately show "writer_inv write_line file (push_part s)" by (simp add: writer_inv_def s'_def)
qed

lemma ran_bounds:
  assumes "flow_inv s" "ran_inv s"
  shows "tw_ran2 s \<subseteq> {..<length (sent (tw_textify s))}" "k < length (sent (tw_textify s)) \<Longrightarrow> k \<in> tw_ran1 s"
proof -
  have "length (sent (tw_output s)) \<le> length (sent (tw_textify s))" using flow_bounds(3) [OF assms(1)] .
  then show "tw_ran2 s \<subseteq> {..<length (sent (tw_textify s))}"
    using assms(2) unfolding ran_inv_def by (elim conjE disjE) (simp_all add: subset_iff)
  show "k < length (sent (tw_textify s)) \<Longrightarrow> k \<in> tw_ran1 s" using assms(2) by (auto simp: ran_inv_def)
qed

lemma text_step_inv:
  assumes inv: "writer_inv write_line file s" and job: "(seq, i) \<in> set (scheduled (tw_textify s))" and new: "i \<notin> tw_ran1 s"
  shows "writer_inv write_line file ((PartToText write_line (task_input i (tw_textify s)) s)\<lparr>tw_ran1 := insert i (tw_ran1 s)\<rparr>)"
    (is "writer_inv write_line file ?s'")
proof -
  have f: "flow_inv s" and r: "ran_inv s" and t: "text_inv write_line file s" using inv by (simp_all add: writer_inv_def)
  let ?a = "accepted (tw_textify s)" and ?J = "length (sent (tw_output s))" and ?M = "length (sent (tw_textify s))"
  note bd = flow_bounds [OF f]
  have ord: "in_order (tw_textify s)" using f by (simp add: flow_inv_def)
  note nd = scheduled_node [OF ord job]
  have Ji: "?J \<le> i" using bd(3) nd(1) by simp
  have old: "tw_workspace s ! (?a ! i) = part_of write_line s i" using t nd(2) Ji by (simp add: text_inv_def)
  have i2: "i \<notin> tw_ran2 s" using ran_bounds(1) [OF f r] nd(1) by auto
  have place: "?a ! i < length (tw_workspace s)" using used_place [OF f Ji nd(2)] .
  have part: "part_text write_line ?s' k = part_text write_line s k" for k
    by (simp add: part_text_def PartToText_def Let_def)
  have same: "part_of write_line ?s' k = part_of write_line s k" if "k \<noteq> i" for k
    using that unfolding part_of_def part by (simp add: PartToText_def Let_def)
  have "flow_inv ?s'" using f by (simp add: flow_inv_def PartToText_def Let_def)
  moreover have "ran_inv ?s'" using r nd(2) by (auto simp: ran_inv_def PartToText_def Let_def)
  moreover have "text_inv write_line file ?s'"
  proof -
    have here: "tw_workspace ?s' ! (?a ! i) = part_of write_line ?s' i"
      using old i2 new place unfolding part_of_def part
      by (simp add: PartToText_def Let_def nd(4) text_loop_rows part_text_def)
        (rule arg_cong [where f = concat], rule nth_equalityI, simp_all add: algebra_simps)
    have "tw_workspace ?s' ! (?a ! k) = part_of write_line ?s' k" if k: "?J \<le> k" "k < length ?a" for k
    proof (cases "k = i")
      case True
      then show ?thesis using here by simp
    next
      case False
      then have "?a ! k \<noteq> ?a ! i" using bd(6) [OF k Ji nd(2)] by simp
      then have "tw_workspace ?s' ! (?a ! k) = tw_workspace s ! (?a ! k)" by (simp add: PartToText_def Let_def nd(4))
      then show ?thesis using t k same [OF False] by (simp add: text_inv_def)
    qed
    moreover have "dp_buf (tw_workspace ?s' ! c) = []" if "c \<in> set (tw_free s)" for c
      using free_not_used(1) [OF f that Ji nd(2)] t that by (simp add: text_inv_def PartToText_def Let_def nd(4))
    ultimately show ?thesis using t unfolding text_inv_def part by (simp add: PartToText_def Let_def)
  qed
  ultimately show ?thesis by (simp add: writer_inv_def)
qed

lemma text_end_inv:
  assumes inv: "writer_inv write_line file s" and job: "(seq, i) \<in> set (scheduled (tw_textify s))" and ran: "i \<in> tw_ran1 s"
  shows "writer_inv write_line file (end_textify (seq, i) s)"
    "unfinished (tw_textify (end_textify (seq, i) s)) + 1 = unfinished (tw_textify s)"
    "sent (tw_output (end_textify (seq, i) s)) = sent (tw_output s)"
proof -
  have f: "flow_inv s" and r: "ran_inv s" and t: "text_inv write_line file s" using inv by (simp_all add: writer_inv_def)
  let ?a = "accepted (tw_textify s)" and ?J = "length (sent (tw_output s))" and ?M = "length (sent (tw_textify s))"
  note bd = flow_bounds [OF f]
  have ord: "in_order (tw_textify s)" "in_order (tw_output s)" using f by (simp_all add: flow_inv_def)
  let ?st = "pool_runs id (seq, i) (tw_textify s)"
  let ?M' = "length (sent ?st)" and ?bs = "new_outputs (tw_textify s) ?st"
  note p = pool_runs_in_order [OF ord(1) job]
  have MN: "?M' \<le> length ?a" using p(1,2) by (simp add: in_order_def)
  have bs: "?bs = drop ?M (take ?M' ?a)" by (rule p(6))
  have lbs: "length ?bs = ?M' - ?M" using MN unfolding bs by simp
  have room: "length (accepted (tw_output s)) + length ?bs \<le> ?J + input_buffer_size (tw_output s)"
  proof -
    have "input_buffer_size (tw_output s) = 2 ^ 64 - 1" "length (tw_workspace s) < 2 ^ 64" using f by (simp_all add: flow_inv_def)
    then show ?thesis using bd(2,3,4) MN p(3) unfolding lbs by simp
  qed
  note o2 = push_all [OF ord(2) room]
  define s' where "s' = end_textify (seq, i) s"
  let ?out = "fold (\<lambda>b st. snd (StagePush b st)) ?bs (tw_output s)"
  have sel: "tw_textify s' = ?st" "tw_output s' = ?out" "tw_free s' = tw_free s" "tw_workspace s' = tw_workspace s"
      "tw_ran1 s' = tw_ran1 s" "tw_ran2 s' = tw_ran2 s" "tw_ptrs s' = tw_ptrs s" "tw_rows s' = tw_rows s"
      "tw_chunk s' = tw_chunk s" "tw_next s' = tw_next s" "tw_file s' = tw_file s"
    by (simp_all add: s'_def end_textify_def Let_def)
  have "accepted ?out = take ?M' ?a"
  proof -
    have "accepted ?out = take ?M ?a @ drop ?M (take ?M' ?a)" using o2 bs f by (simp add: flow_inv_def)
    also have "take ?M ?a = take ?M (take ?M' ?a)" using p(3) by (simp add: min_absorb1)
    finally show ?thesis by (simp only: append_take_drop_id)
  qed
  then have "flow_inv s'" using f o2 p(1,2,8) unfolding flow_inv_def sel by simp
  moreover have "ran_inv s'"
  proof -
    have "{..<?M'} \<subseteq> tw_ran1 s"
    proof
      fix k assume "k \<in> {..<?M'}"
      then have "k < ?M \<or> k \<in> {?M..<?M'}" by auto
      then show "k \<in> tw_ran1 s" using r p(5) ran by (auto simp: ran_inv_def)
    qed
    moreover have "done_nodes ?st \<subseteq> tw_ran1 s" using p(4) r ran by (auto simp: ran_inv_def)
    moreover have "?J < ?M \<Longrightarrow> ?J < ?M'" using p(3) by simp
    ultimately show ?thesis using r o2 p(2) unfolding ran_inv_def sel by auto
  qed
  moreover have "text_inv write_line file s'"
  proof -
    have "part_of write_line s' = part_of write_line s" "part_text write_line s' = part_text write_line s"
      by (simp_all add: part_of_def part_text_def sel fun_eq_iff)
    then show ?thesis using t o2 p(2) unfolding text_inv_def sel by simp
  qed
  ultimately show "writer_inv write_line file (end_textify (seq, i) s)" by (simp add: writer_inv_def s'_def)
  show "unfinished (tw_textify (end_textify (seq, i) s)) + 1 = unfinished (tw_textify s)"
    using p(7) by (simp add: end_textify_def Let_def)
  show "sent (tw_output (end_textify (seq, i) s)) = sent (tw_output s)" using o2 by (simp add: end_textify_def Let_def)
qed

lemma file_step_inv:
  assumes inv: "writer_inv write_line file s" and job: "(seq, i) \<in> set (scheduled (tw_output s))" and new: "i \<notin> tw_ran2 s"
  shows "writer_inv write_line file ((WriteToFile (task_input i (tw_output s)) s)\<lparr>tw_ran2 := insert i (tw_ran2 s)\<rparr>)"
    (is "writer_inv write_line file ?s'")
    "card (insert i (tw_ran2 s)) = Suc (card (tw_ran2 s))"
proof -
  have f: "flow_inv s" and r: "ran_inv s" and t: "text_inv write_line file s" using inv by (simp_all add: writer_inv_def)
  let ?a = "accepted (tw_textify s)" and ?J = "length (sent (tw_output s))" and ?M = "length (sent (tw_textify s))"
  note bd = flow_bounds [OF f]
  have ord: "in_order (tw_output s)" "max_active_tasks (tw_output s) = 1" using f by (simp_all add: flow_inv_def)
  have i: "i = ?J" using single_task(2) [OF ord job] .
  have JM: "?J < ?M" using scheduled_node(2) [OF ord(1) job] bd(2) i by simp
  then have JN: "?J < length ?a" using bd(1) by simp
  have ran2: "tw_ran2 s = {..<?J}" using r new i by (auto simp: ran_inv_def)
  then show "card (insert i (tw_ran2 s)) = Suc (card (tw_ran2 s))" by (simp add: i)
  have input: "task_input i (tw_output s) = ?a ! ?J"
    using scheduled_node(4) [OF ord(1) job] f JM by (simp add: i flow_inv_def)
  have part: "part_text write_line ?s' = part_text write_line s"
    by (simp add: part_text_def WriteToFile_def Let_def fun_eq_iff)
  have same: "part_of write_line ?s' k = part_of write_line s k" if "k \<noteq> ?J" for k
    using that i unfolding part_of_def part by (simp add: WriteToFile_def Let_def)
  have old: "tw_workspace s ! (?a ! ?J) = part_of write_line s ?J" using t JN by (simp add: text_inv_def)
  have ran1: "?J \<in> tw_ran1 s" using ran_bounds(2) [OF f r JM] .
  have place: "?a ! ?J < length (tw_workspace s)" using used_place [OF f _ JN] by simp
  have ins: "insert ?J {..<?J} = {..<Suc ?J}" by auto
  have "flow_inv ?s'" using f by (simp add: flow_inv_def WriteToFile_def Let_def)
  moreover have "ran_inv ?s'" using r ran2 i JM ins by (simp add: ran_inv_def WriteToFile_def Let_def)
  moreover have "text_inv write_line file ?s'"
  proof -
    have here: "tw_workspace ?s' ! (?a ! ?J) = part_of write_line ?s' ?J"
      using old place i unfolding part_of_def part by (simp add: WriteToFile_def Let_def input [unfolded i])
    have "tw_workspace ?s' ! (?a ! k) = part_of write_line ?s' k" if k: "?J \<le> k" "k < length ?a" for k
    proof (cases "k = ?J")
      case True
      then show ?thesis using here by simp
    next
      case False
      then have "?a ! k \<noteq> ?a ! ?J" using bd(6) [OF k _ JN] by simp
      then have "tw_workspace ?s' ! (?a ! k) = tw_workspace s ! (?a ! k)" by (simp add: WriteToFile_def Let_def input)
      then show ?thesis using t k same [OF False] by (simp add: text_inv_def)
    qed
    moreover have "dp_buf (tw_workspace ?s' ! c) = []" if "c \<in> set (tw_free s)" for c
      using free_not_used(1) [OF f that _ JN] t that by (simp add: text_inv_def WriteToFile_def Let_def input)
    moreover have "tw_file ?s' = file @ concat (map (part_text write_line s) [0..<card (tw_ran2 ?s')])"
    proof -
      have "tw_file s = file @ concat (map (part_text write_line s) [0..<?J])" using t ran2 by (simp add: text_inv_def)
      moreover have "dp_buf (tw_workspace s ! (?a ! ?J)) = part_text write_line s ?J"
        using ran1 ran2 unfolding old by (simp add: part_of_def)
      ultimately show ?thesis by (simp add: WriteToFile_def Let_def input [unfolded i] ran2 i ins)
    qed
    ultimately show ?thesis using t unfolding text_inv_def part by (simp add: WriteToFile_def Let_def)
  qed
  ultimately show "writer_inv write_line file ?s'" by (simp add: writer_inv_def)
qed

lemma file_end_inv:
  assumes inv: "writer_inv write_line file s" and job: "(seq, i) \<in> set (scheduled (tw_output s))" and ran: "i \<in> tw_ran2 s"
  shows "writer_inv write_line file (end_output (seq, i) s)"
    "length (sent (tw_output (end_output (seq, i) s))) = Suc (length (sent (tw_output s)))"
proof -
  have f: "flow_inv s" and r: "ran_inv s" and t: "text_inv write_line file s" using inv by (simp_all add: writer_inv_def)
  let ?a = "accepted (tw_textify s)" and ?J = "length (sent (tw_output s))" and ?M = "length (sent (tw_textify s))"
  note bd = flow_bounds [OF f]
  have ord: "in_order (tw_output s)" "max_active_tasks (tw_output s) = 1" using f by (simp_all add: flow_inv_def)
  have i: "i = ?J" using single_task(2) [OF ord job] .
  have JM: "?J < ?M" using scheduled_node(2) [OF ord(1) job] bd(2) i by simp
  then have JN: "?J < length ?a" using bd(1) by simp
  have ran2: "tw_ran2 s = {..<Suc ?J}" using r ran i by (auto simp: ran_inv_def)
  let ?st = "pool_runs id (seq, i) (tw_output s)"
  note p = pool_runs_in_order [OF ord(1) job]
  have J': "length (sent ?st) = Suc ?J"
  proof -
    have "{?J..<length (sent ?st)} \<subseteq> {?J}" using p(5) single_task(1) [OF ord] i by simp
    moreover have "?J < length (sent ?st)" using p(10) i by simp
    ultimately show ?thesis by (auto simp: subset_iff) (metis Suc_lessI atLeastLessThan_iff lessI less_imp_le n_not_Suc_n)
  qed
  then show "length (sent (tw_output (end_output (seq, i) s))) = Suc ?J" by (simp add: end_output_def Let_def)
  have ac: "accepted (tw_output s) = take ?M ?a" using f by (simp add: flow_inv_def)
  have bs: "new_outputs (tw_output s) ?st = [?a ! ?J]"
    unfolding p(6) J' ac using JM JN by (simp add: min_def take_Suc_conv_app_nth)
  define s' where "s' = end_output (seq, i) s"
  have sel: "tw_textify s' = tw_textify s" "tw_output s' = ?st" "tw_free s' = tw_free s @ [?a ! ?J]" "tw_workspace s' = tw_workspace s"
      "tw_ran1 s' = tw_ran1 s" "tw_ran2 s' = tw_ran2 s" "tw_ptrs s' = tw_ptrs s" "tw_rows s' = tw_rows s"
      "tw_chunk s' = tw_chunk s" "tw_next s' = tw_next s" "tw_file s' = tw_file s"
    by (simp_all add: s'_def end_output_def Let_def bs)
  have "drop ?J ?a = ?a ! ?J # drop (Suc ?J) ?a" using JN by (simp add: Cons_nth_drop_Suc)
  then have "flow_inv s'" using f p(1,2,8,9) ac unfolding flow_inv_def sel J' by simp
  moreover have "ran_inv s'" using r ran2 unfolding ran_inv_def sel J' by simp
  moreover have "text_inv write_line file s'"
  proof -
    have "part_of write_line s' = part_of write_line s" "part_text write_line s' = part_text write_line s"
      by (simp_all add: part_of_def part_text_def sel fun_eq_iff)
    moreover have "dp_buf (tw_workspace s ! (?a ! ?J)) = []"
      using t JN ran2 by (simp add: text_inv_def part_of_def)
    ultimately show ?thesis using t unfolding text_inv_def sel J' by simp
  qed
  ultimately show "writer_inv write_line file (end_output (seq, i) s)" by (simp add: writer_inv_def s'_def)
qed

lemma writer_inv_step: "writer_inv write_line file s \<Longrightarrow> writer_step write_line s s' \<Longrightarrow> writer_inv write_line file s'"
  by (erule writer_step.cases)
    (simp_all add: push_part_inv(1) text_step_inv text_end_inv(1) file_step_inv(1) file_end_inv(1))

lemma writer_inv_reachable:
  assumes "(writer_step write_line)\<^sup>*\<^sup>* (TextWriter n_writers chunk_size data n file) s"
    and "0 < n_writers" "n_writers < 2 ^ 64" "0 < chunk_size"
  shows "writer_inv write_line file s"
  using assms(1)
proof (induction rule: rtranclp_induct)
  case base
  then show ?case using assms(2-4) by (simp add: writer_inv_def init_inv)
next
  case (step s s')
  then show ?case by (blast intro: writer_inv_step)
qed

section \<open>Progress\<close>

text \<open>What is left to do: a part that is not pushed takes five steps.\<close>

definition parts :: "'v writer \<Rightarrow> nat" where
  "parts s = (tw_rows s + tw_chunk s - 1) div tw_chunk s"

definition work_left :: "'v writer \<Rightarrow> nat" where
  "work_left s = 5 * (parts s - length (accepted (tw_textify s))) +
     (length (accepted (tw_textify s)) - card (tw_ran1 s)) + unfinished (tw_textify s) +
     (length (accepted (tw_textify s)) - card (tw_ran2 s)) + (length (accepted (tw_textify s)) - length (sent (tw_output s)))"

lemma parts_less: "0 < tw_chunk s \<Longrightarrow> N * tw_chunk s < tw_rows s \<longleftrightarrow> N < parts s"
proof -
  assume c: "0 < tw_chunk s"
  have "N < parts s \<longleftrightarrow> Suc N * tw_chunk s \<le> tw_rows s + tw_chunk s - 1"
    using less_eq_div_iff_mult_less_eq [OF c, of "Suc N" "tw_rows s + tw_chunk s - 1"] by (simp add: parts_def Suc_le_eq)
  then show ?thesis using c by auto
qed

lemma pushed_all:
  assumes "text_inv write_line file s"
  shows "length (accepted (tw_textify s)) \<le> parts s" "tw_next s < tw_rows s \<longleftrightarrow> length (accepted (tw_textify s)) < parts s"
proof -
  let ?N = "length (accepted (tw_textify s))"
  have c: "0 < tw_chunk s" "tw_next s = ?N * tw_chunk s" "\<And>k. k < ?N \<Longrightarrow> k * tw_chunk s < tw_rows s"
    using assms by (simp_all add: text_inv_def)
  show "tw_next s < tw_rows s \<longleftrightarrow> ?N < parts s" using parts_less [OF c(1)] c(2) by simp
  have "k < parts s" if "k < ?N" for k using parts_less [OF c(1)] c(3) that by blast
  then show "?N \<le> parts s" by (meson not_le order.irrefl)
qed

lemma parts_same: "writer_step write_line s s' \<Longrightarrow> parts s' = parts s"
  by (erule writer_step.cases)
    (simp_all add: parts_def push_part_def PartToText_def WriteToFile_def end_textify_def end_output_def Let_def)

lemma ran_cards:
  assumes "flow_inv s" "ran_inv s"
  shows "finite (tw_ran1 s)" "card (tw_ran1 s) \<le> length (accepted (tw_textify s))"
    "finite (tw_ran2 s)" "card (tw_ran2 s) \<le> length (accepted (tw_textify s))"
proof -
  have s1: "tw_ran1 s \<subseteq> {..<length (accepted (tw_textify s))}" using assms(2) by (simp add: ran_inv_def)
  have s2: "tw_ran2 s \<subseteq> {..<length (accepted (tw_textify s))}"
    using ran_bounds(1) [OF assms] flow_bounds(1) [OF assms(1)] by (auto simp: subset_iff)
  show "finite (tw_ran1 s)" "finite (tw_ran2 s)" using s1 s2 finite_subset by blast+
  show "card (tw_ran1 s) \<le> length (accepted (tw_textify s))" "card (tw_ran2 s) \<le> length (accepted (tw_textify s))"
    using card_mono [OF _ s1] card_mono [OF _ s2] by simp_all
qed

lemma unfinished_push:
  fixes st :: "(nat, nat) stage" and b :: nat
  assumes ord: "in_order st"
  shows "unfinished (snd (StagePush b st)) = Suc (unfinished st)"
proof -
  have alive: "\<not> killed st" using ord by (simp add: in_order_def)
  let ?t = "\<lparr>node = length (accepted st), input = b, result = None, state = NEW_TASK\<rparr>"
  let ?s = "st\<lparr>input_buffer := input_buffer st @ [?t], accepted := accepted st @ [b]\<rparr>"
  have st': "snd (StagePush b st) = schedule_new (retire_front ?s)"
    using alive by (simp add: StagePush_def CheckQueueNolock_def retire_def)
  have head: "takeWhile finished (input_buffer ?s) = []" "dropWhile finished (input_buffer ?s) = input_buffer ?s"
    using in_order_core [OF ord] by (cases "input_buffer st"; simp add: settled_def)+
  have r: "retire_front ?s = ?s" using retire_front_alive [of ?s] alive head by simp
  show ?thesis unfolding st' r using unfinished_schedule [of ?s] alive by (simp add: unfinished_def)
qed

lemma step_work:
  assumes inv: "writer_inv write_line file s" and step: "writer_step write_line s s'"
  shows "work_left s = Suc (work_left s')"
proof -
  have f: "flow_inv s" and r: "ran_inv s" and t: "text_inv write_line file s" using inv by (simp_all add: writer_inv_def)
  have inv': "writer_inv write_line file s'" by (rule writer_inv_step [OF inv step])
  then have f': "flow_inv s'" and r': "ran_inv s'" by (simp_all add: writer_inv_def)
  have ord: "in_order (tw_textify s)" using f by (simp add: flow_inv_def)
  note bd = flow_bounds [OF f] and bd' = flow_bounds [OF f'] and rc = ran_cards [OF f r] and rc' = ran_cards [OF f' r']
  note same = parts_same [OF step]
  show ?thesis using step
  proof (cases rule: writer_step.cases)
    case w_push
    obtain b where b: "tw_textify s' = snd (StagePush b (tw_textify s))" using w_push by (simp add: push_part_def Let_def)
    have room: "\<not> Push_must_wait (tw_textify s)" using push_part_inv(2) [OF inv w_push(2,3)] .
    have N: "length (accepted (tw_textify s')) = Suc (length (accepted (tw_textify s)))"
      using StagePush_in_order(2) [OF ord room, of b] b by simp
    have less: "length (accepted (tw_textify s)) < parts s" using pushed_all(2) [OF t] w_push by simp
    have sel: "tw_ran1 s' = tw_ran1 s" "tw_ran2 s' = tw_ran2 s" "tw_output s' = tw_output s"
      using w_push by (simp_all add: push_part_def Let_def)
    show ?thesis
      unfolding work_left_def same N sel unfolding b unfinished_push [OF ord] using less rc(2,4) bd(1,3) by linarith
  next
    case (w_text seq i)
    have "tw_textify s' = tw_textify s" "tw_output s' = tw_output s" "tw_ran1 s' = insert i (tw_ran1 s)" "tw_ran2 s' = tw_ran2 s"
      using w_text by (simp_all add: PartToText_def Let_def)
    moreover from this have "Suc (card (tw_ran1 s)) \<le> length (accepted (tw_textify s))" using rc(1) rc'(2) w_text by simp
    ultimately show ?thesis unfolding work_left_def same using rc(1) w_text by simp
  next
    case (w_text_end seq i)
    note e = text_end_inv [OF inv w_text_end(2,3)]
    have "tw_ran1 s' = tw_ran1 s" "tw_ran2 s' = tw_ran2 s" "accepted (tw_textify s') = accepted (tw_textify s)"
      using w_text_end pool_runs_in_order(2) [OF ord w_text_end(2)] by (simp_all add: end_textify_def Let_def)
    then show ?thesis unfolding work_left_def same using e(2,3) w_text_end by simp
  next
    case (w_file seq i)
    have "tw_textify s' = tw_textify s" "tw_output s' = tw_output s" "tw_ran2 s' = insert i (tw_ran2 s)" "tw_ran1 s' = tw_ran1 s"
      using w_file by (simp_all add: WriteToFile_def Let_def)
    moreover from this have "Suc (card (tw_ran2 s)) \<le> length (accepted (tw_textify s))"
      using file_step_inv(2) [OF inv w_file(2,3)] rc'(4) by simp
    ultimately show ?thesis unfolding work_left_def same using file_step_inv(2) [OF inv w_file(2,3)] by simp
  next
    case (w_file_end seq i)
    have "tw_textify s' = tw_textify s" "tw_ran2 s' = tw_ran2 s" "tw_ran1 s' = tw_ran1 s"
      using w_file_end by (simp_all add: end_output_def Let_def)
    moreover have "length (sent (tw_output s')) = Suc (length (sent (tw_output s)))"
      using file_end_inv(2) [OF inv w_file_end(2,3)] w_file_end by simp
    moreover from this calculation have "Suc (length (sent (tw_output s))) \<le> length (accepted (tw_textify s))"
      using bd'(1,3) by simp
    ultimately show ?thesis unfolding work_left_def same by simp
  qed
qed

text \<open>A writer that can take no step has returned.\<close>

lemma stuck_returns:
  assumes inv: "writer_inv write_line file s" and stuck: "\<nexists>s'. writer_step write_line s s'"
  shows "Write_returns s"
proof -
  have f: "flow_inv s" and t: "text_inv write_line file s" using inv by (simp_all add: writer_inv_def)
  have ord: "in_order (tw_textify s)" "in_order (tw_output s)" using f by (simp_all add: flow_inv_def)
  have "\<not> (seq, i) \<in> set (scheduled (tw_textify s))" "\<not> (seq, i) \<in> set (scheduled (tw_output s))" for seq i
    using stuck w_text w_text_end w_file w_file_end by metis+
  then have "scheduled (tw_textify s) = []" "scheduled (tw_output s) = []" by (metis list.set_intros(1) neq_Nil_conv surj_pair)+
  then have clear: "input_buffer (tw_textify s) = []" "input_buffer (tw_output s) = []"
    using settled_idle in_order_core ord by blast+
  have NM: "length (sent (tw_textify s)) = length (accepted (tw_textify s))" "length (sent (tw_output s)) = length (accepted (tw_output s))"
    using in_order_length ord clear unfolding in_order_def by fastforce+
  have "tw_free s \<noteq> []"
    using flow_bounds(2,4) [OF f] NM f by (cases "tw_free s") (auto simp: flow_inv_def)
  then have "\<not> tw_next s < tw_rows s" using stuck w_push by blast
  then show ?thesis using clear by (simp add: Write_returns_def WaitTillClear_returns_def)
qed

section \<open>Properties\<close>

lemma frame_reachable:
  assumes "(writer_step write_line)\<^sup>*\<^sup>* s s'"
  shows "tw_ptrs s' = tw_ptrs s \<and> tw_rows s' = tw_rows s \<and> tw_chunk s' = tw_chunk s"
  using assms
proof (induction rule: rtranclp_induct)
  case (step t u)
  have "tw_ptrs u = tw_ptrs t \<and> tw_rows u = tw_rows t \<and> tw_chunk u = tw_chunk t"
    using step(2) by (cases rule: writer_step.cases)
      (simp_all add: push_part_def PartToText_def WriteToFile_def end_textify_def end_output_def Let_def)
  then show ?case using step.IH by simp
qed simp

lemma parts_text:
  "concat (map (part_text write_line s) [0..<k]) =
    concat (map (\<lambda>i. write_line (row (tw_ptrs s) i)) [0..<min (tw_rows s) (k * tw_chunk s)])"
proof (induction k)
  case (Suc k)
  let ?c = "tw_chunk s" and ?n = "tw_rows s"
  have up: "[0..<min ?n (Suc k * ?c)] = [0..<min ?n (k * ?c)] @ [k * ?c..<k * ?c + min ?c (?n - k * ?c)]"
  proof (cases "k * ?c \<le> ?n")
    case True
    then have "min ?n (k * ?c) = k * ?c" by simp
    moreover have "min ?n (Suc k * ?c) = k * ?c + min ?c (?n - k * ?c)" using True unfolding mult_Suc by linarith
    ultimately show ?thesis by (metis upt_add_eq_append zero_le)
  qed simp
  have "[0..<Suc k] = [0..<k] @ [k]" by simp
  then show ?case by (simp only: up map_append concat_append Suc.IH) (simp add: part_text_def)
qed simp

lemma written_text:
  assumes "(writer_step write_line)\<^sup>*\<^sup>* (TextWriter n_writers chunk_size data n file) s"
    and "0 < n_writers" "n_writers < 2 ^ 64" "0 < chunk_size"
  shows "\<exists>k. tw_file s = file @ concat (map (\<lambda>i. write_line (row data i)) [0..<min n (k * chunk_size)])"
    and "Write_returns s \<Longrightarrow> tw_file s = file @ concat (map (\<lambda>i. write_line (row data i)) [0..<n])"
proof -
  have inv: "writer_inv write_line file s" by (rule writer_inv_reachable [OF assms])
  have f: "flow_inv s" and r: "ran_inv s" and t: "text_inv write_line file s" using inv by (simp_all add: writer_inv_def)
  have fr: "tw_ptrs s = data" "tw_rows s = n" "tw_chunk s = chunk_size"
    using frame_reachable [OF assms(1)] by (simp_all add: TextWriter_def)
  have sofar: "tw_file s = file @ concat (map (\<lambda>i. write_line (row data i)) [0..<min n (card (tw_ran2 s) * chunk_size)])"
    using t parts_text [of write_line s "card (tw_ran2 s)"] fr by (simp add: text_inv_def)
  then show "\<exists>k. tw_file s = file @ concat (map (\<lambda>i. write_line (row data i)) [0..<min n (k * chunk_size)])" by blast
  assume "Write_returns s"
  then have w: "\<not> tw_next s < tw_rows s" "input_buffer (tw_textify s) = []" "input_buffer (tw_output s) = []"
    by (simp_all add: Write_returns_def WaitTillClear_returns_def)
  have ord: "in_order (tw_textify s)" "in_order (tw_output s)" using f by (simp_all add: flow_inv_def)
  have "length (sent (tw_textify s)) = length (accepted (tw_textify s))" "length (sent (tw_output s)) = length (accepted (tw_output s))"
    using in_order_length ord w unfolding in_order_def by fastforce+
  then have J: "length (sent (tw_output s)) = length (accepted (tw_textify s))" "length (sent (tw_textify s)) = length (sent (tw_output s))"
    using flow_bounds(2) [OF f] by simp_all
  then have "tw_ran2 s = {..<length (accepted (tw_textify s))}" using r by (simp add: ran_inv_def)
  then have "n \<le> card (tw_ran2 s) * chunk_size" using t w fr by (simp add: text_inv_def)
  then show "tw_file s = file @ concat (map (\<lambda>i. write_line (row data i)) [0..<n])" using sofar by (simp add: min_absorb1)
qed

text \<open>
  C30. \<^verbatim>\<open>Write\<close> appends the lines of all rows to the file in the order of the rows, in every interleaving of
  the writer thread and the workers of the two stages and for every chunk size and number of workers:
  at any moment the file holds the lines of a whole number of chunks, and when \<^verbatim>\<open>Write\<close> returns it
  holds them all.
\<close>

theorem rows_written_in_order:
  assumes "(writer_step write_line)\<^sup>*\<^sup>* (TextWriter n_writers chunk_size data n file) s"
    and "0 < n_writers" "n_writers < 2 ^ 64" "0 < chunk_size"
  shows "(\<exists>k. tw_file s = file @ concat (map (\<lambda>i. write_line (row data i)) [0..<min n (k * chunk_size)])) \<and>
    (Write_returns s \<longrightarrow> tw_file s = file @ concat (map (\<lambda>i. write_line (row data i)) [0..<n]))"
  using written_text [OF assms] by blast

text \<open>Three rows in chunks of two, on two workers; the second part is turned into text first.\<close>

definition a_line_of :: "string list \<Rightarrow> string" where
  "a_line_of = LineWriter CHR '','' []"

definition table :: "string list list" where
  "table = [[''1'', ''2'', ''3''], [''a'', ''b'', ''c'']]"

definition text_run :: "('v list \<Rightarrow> string) \<Rightarrow> nat \<Rightarrow> 'v writer \<Rightarrow> 'v writer" where
  "text_run f i s = end_textify (i, i)
     ((PartToText f (task_input i (tw_textify s)) s)\<lparr>tw_ran1 := insert i (tw_ran1 s)\<rparr>)"

definition file_run :: "nat \<Rightarrow> 'v writer \<Rightarrow> 'v writer" where
  "file_run i s = end_output (i, i)
     ((WriteToFile (task_input i (tw_output s)) s)\<lparr>tw_ran2 := insert i (tw_ran2 s)\<rparr>)"

definition example_writer :: "string writer" where
  "example_writer = push_part (push_part (TextWriter 2 2 table 3 []))"

lemmas run_defs = push_part_def TextWriter_def PipelineStage_def StagePush_def CheckQueueNolock_def retire_def
  retire_front.simps schedule_new_def pool_runs_def RunTask_def finish_task_def find_node_def new_outputs_def
  end_textify_def end_output_def task_input_def OutputToNextStage_def PartToText_def WriteToFile_def
  numeral_2_eq_2 numeral_3_eq_3 table_def a_line_of_def Let_def

lemma writer_path: "writer_step f s s' \<Longrightarrow> (writer_step f)\<^sup>*\<^sup>* s' s'' \<Longrightarrow> (writer_step f)\<^sup>*\<^sup>* s s''"
  by (rule converse_rtranclp_into_rtranclp)

lemma text_run_step:
  "(i, i) \<in> set (scheduled (tw_textify s)) \<Longrightarrow> i \<notin> tw_ran1 s \<Longrightarrow> (writer_step f)\<^sup>*\<^sup>* s (text_run f i s)"
  unfolding text_run_def
  by (rule writer_path [OF w_text], assumption, assumption, rule r_into_rtranclp, rule w_text_end)
    (simp_all add: PartToText_def Let_def)

lemma file_run_step:
  "(i, i) \<in> set (scheduled (tw_output s)) \<Longrightarrow> i \<notin> tw_ran2 s \<Longrightarrow> (writer_step f)\<^sup>*\<^sup>* s (file_run i s)"
  unfolding file_run_def
  by (rule writer_path [OF w_file], assumption, assumption, rule r_into_rtranclp, rule w_file_end)
    (simp_all add: WriteToFile_def Let_def)

definition example_written :: "string writer" where
  "example_written = file_run 1 (file_run 0 (text_run a_line_of 0 (text_run a_line_of 1 example_writer)))"

lemma example_writer_reachable: "(writer_step a_line_of)\<^sup>*\<^sup>* (TextWriter 2 2 table 3 []) example_writer"
  unfolding example_writer_def
  by (rule writer_path [OF w_push], simp add: run_defs, simp add: run_defs, rule r_into_rtranclp, rule w_push)
    (simp_all add: run_defs)

lemma example_written_reachable: "(writer_step a_line_of)\<^sup>*\<^sup>* (TextWriter 2 2 table 3 []) example_written"
  unfolding example_written_def
  by (rule rtranclp_trans [OF rtranclp_trans [OF rtranclp_trans [OF rtranclp_trans
        [OF example_writer_reachable text_run_step] text_run_step] file_run_step] file_run_step])
    (simp_all add: run_defs example_writer_def text_run_def file_run_def)

theorem rows_written_in_order_witness:
  "tw_file example_written = ''1,a'' @ CHR 0x0A # ''2,b'' @ CHR 0x0A # ''3,c'' @ [CHR 0x0A]"
proof -
  have "Write_returns example_written"
    by (simp add: Write_returns_def WaitTillClear_returns_def example_written_def run_defs example_writer_def text_run_def file_run_def)
  then have "tw_file example_written = concat (map (\<lambda>i. a_line_of (row table i)) [0..<3])"
    using rows_written_in_order [OF example_written_reachable] by simp
  also have "\<dots> = ''1,a'' @ CHR 0x0A # ''2,b'' @ CHR 0x0A # ''3,c'' @ [CHR 0x0A]" by code_simp
  finally show ?thesis .
qed



definition int_line :: "int_type list \<Rightarrow> int list \<Rightarrow> string" where
  "int_line ts vs = LineWriter CHR '','' [] (map2 (\<lambda>t v. the (ToString_int t v)) ts vs)"

lemma int_line_row:
  assumes "length ts = length vs" "ts \<noteq> []"
  shows "int_line ts vs = row_line (map FInteger ts) (map VInt vs)"
proof -
  have "LineWriter CHR '','' buf (map2 (\<lambda>t v. the (ToString_int t v)) ts vs) = buf @ row_line (map FInteger ts) (map VInt vs)" for buf
    using assms
  proof (induction ts vs arbitrary: buf rule: list_induct2)
    case (Cons t ts v vs)
    show ?case
    proof (cases ts)
      case Nil
      then show ?thesis using Cons.hyps by (simp add: row_line_def)
    next
      case ts: (Cons t' ts')
      then obtain v' vs' where vs: "vs = v' # vs'" using Cons.hyps by (cases vs) auto
      show ?thesis using Cons.IH [of "buf @ the (ToString_int t v) @ '',''"] by (simp add: ts vs row_line_def)
    qed
  qed simp
  then show ?thesis by (simp add: int_line_def)
qed

text \<open>
  C32. What the writer writes the text parser reads: columns of integers are written as a CSV file by any
  interleaving of the writer's threads, and the read and the parse stage of the parser, with any
  block size, give back the rows.
\<close>

theorem written_then_parsed:
  assumes "(writer_step (int_line ts))\<^sup>*\<^sup>* (TextWriter n_writers chunk_size data n []) s" "Write_returns s"
    and "0 < n_writers" "n_writers < 2 ^ 64" "0 < chunk_size" "0 < bs"
    and "ts \<noteq> []" "\<forall>i < n. list_all2 (\<lambda>t v. field_ok (FInteger t) (VInt v)) ts (row data i)"
  shows "\<exists>bufs. all_blocks MemRead MemGood bs [] (InputMemoryStream (tw_file s)) = Some bufs \<and>
    concat (map (fst \<circ> parse_loop (TupleParser True (map FInteger ts))) bufs) = map (\<lambda>i. map VInt (row data i)) [0..<n]"
proof -
  let ?rows = "map (\<lambda>i. map VInt (row data i)) [0..<n]"
  have "int_line ts (row data i) = row_line (map FInteger ts) (map VInt (row data i))" if "i < n" for i
    using int_line_row [OF _ assms(7)] assms(8) that list_all2_lengthD by blast
  then have "map (\<lambda>i. int_line ts (row data i)) [0..<n] = map (row_line (map FInteger ts)) ?rows" by simp
  then have content: "tw_file s = concat (map (row_line (map FInteger ts)) ?rows)"
    using written_text(2) [OF assms(1,3-5,2)] by (simp del: map_map)
  have ok: "list_all (list_all2 field_ok (map FInteger ts)) ?rows"
    using assms(8) by (simp add: list_all_iff list_all2_map1 list_all2_map2 del: field_ok.simps)
  obtain bufs where "all_blocks MemRead MemGood bs [] (InputMemoryStream (tw_file s)) = Some bufs"
      "concat bufs = tw_file s" "block_list bufs"
    using mem.all_blocks_spec [OF assms(6), of "[]" "InputMemoryStream (tw_file s)"] by auto
  then show ?thesis using parse_blocks [OF ok _ \<open>block_list bufs\<close>] assms(7) content by auto
qed

definition number_writer :: "int writer" where
  "number_writer = file_run 0 (text_run (int_line [Int8, Int64]) 0 (push_part (TextWriter 1 4 [[12], [- 3]] 1 [])))"

lemma number_writer_reachable:
  "(writer_step (int_line [Int8, Int64]))\<^sup>*\<^sup>* (TextWriter 1 4 [[12], [- 3]] 1 []) number_writer"
  unfolding number_writer_def
  by (rule writer_path [OF w_push rtranclp_trans [OF text_run_step file_run_step]])
    (simp_all add: run_defs text_run_def)

theorem written_then_parsed_witness:
  "\<exists>bufs. all_blocks MemRead MemGood 3 [] (InputMemoryStream (tw_file number_writer)) = Some bufs \<and>
    concat (map (fst \<circ> parse_loop (TupleParser True [FInteger Int8, FInteger Int64])) bufs) = [[VInt 12, VInt (- 3)]]"
proof -
  have "Write_returns number_writer"
    by (simp add: Write_returns_def WaitTillClear_returns_def number_writer_def run_defs text_run_def file_run_def)
  then show ?thesis
    using written_then_parsed [OF number_writer_reachable, of 3] by (simp add: row_def)
qed

end
