(* ===== verification/Timed_Tasks.thy ===== *)
theory Timed_Tasks
  imports Interleaving "HOL-Library.Multiset"
begin

text \<open>
  \<^verbatim>\<open>timed_task.h\<close>: functions that run at a time or at an interval on the threads of a scheduler. Tasks are
  shared objects, named by their place in a list; the priority queue is a list of names of which one with
  the earliest time is on top. A step is a critical section of the scheduler's or of a task's mutex, a
  ts_wake-up of a sleeping thread, or the passing of time.
\<close>

section \<open>Tasks and the scheduler\<close>

text \<open>A task is a \<^verbatim>\<open>RecurringTask\<close> when it has an interval. Whether \<^verbatim>\<open>func_\<close> is set is all that the scheduler
  knows of the function. \<open>tt_first\<close> logs the time the task was made for.\<close>

record timed_task =
  tt_tp :: nat
  tt_func :: bool
  tt_executed :: bool
  tt_interval :: "nat option"
  tt_first :: nat

text \<open>A worker is about to take the mutex, asleep on the condition without or with a deadline, about to
  run a task it has popped, inside its function, or back from \<^verbatim>\<open>Run\<close>.\<close>

datatype worker = Ready | Waiting | Sleeping nat | Popped nat | InFunc nat | RunDone | Exited

text \<open>\<open>ts_waiting\<close> and \<open>ts_woken\<close> are the threads in \<^verbatim>\<open>WaitTillClear\<close>, asleep and notified. \<open>ts_runs\<close> logs each
  start of a function: the task, the time it was scheduled for and the time it was started at.
  \<open>ts_joining\<close> says that the destructor has come to its joins.\<close>

record scheduler =
  ts_objs :: "timed_task list"
  ts_workers :: "worker list"
  ts_tasks :: "nat list"
  ts_n_running :: nat
  ts_exit :: bool
  ts_now :: nat
  ts_waiting :: nat
  ts_woken :: nat
  ts_joining :: bool
  ts_runs :: "(nat \<times> nat \<times> nat) list"

definition TimedTask :: "nat \<Rightarrow> timed_task" where
  "TimedTask tp = \<lparr>tt_tp = tp, tt_func = True, tt_executed = False, tt_interval = None, tt_first = tp\<rparr>"

definition RecurringTask :: "nat \<Rightarrow> nat \<Rightarrow> timed_task" where
  "RecurringTask now interval = (TimedTask now)\<lparr>tt_interval := Some interval\<rparr>"

definition TimedTaskScheduler :: "nat \<Rightarrow> scheduler" where
  "TimedTaskScheduler now =
     \<lparr>ts_objs = [], ts_workers = [Ready], ts_tasks = [], ts_n_running = 0, ts_exit = False, ts_now = now,
      ts_waiting = 0, ts_woken = 0, ts_joining = False, ts_runs = []\<rparr>"

definition task :: "nat \<Rightarrow> scheduler \<Rightarrow> timed_task" where
  "task i s = ts_objs s ! i"

definition ScheduledTime :: "nat \<Rightarrow> scheduler \<Rightarrow> nat" where
  "ScheduledTime i s = tt_tp (task i s)"

definition Executed :: "nat \<Rightarrow> scheduler \<Rightarrow> bool" where
  "Executed i s = tt_executed (task i s)"

text \<open>\<^verbatim>\<open>TaskPtrCmp\<close>: the top of the queue is a task that no other one precedes.\<close>

definition earliest :: "nat \<Rightarrow> scheduler \<Rightarrow> bool" where
  "earliest i s \<longleftrightarrow> i \<in> set (ts_tasks s) \<and> (\<forall>j \<in> set (ts_tasks s). ScheduledTime i s \<le> ScheduledTime j s)"

fun ts_wake :: "worker \<Rightarrow> worker" where
  "ts_wake Waiting = Ready"
| "ts_wake (Sleeping d) = Ready"
| "ts_wake w = w"

definition notify_all :: "scheduler \<Rightarrow> scheduler" where
  "notify_all s = s\<lparr>ts_workers := map ts_wake (ts_workers s), ts_waiting := 0, ts_woken := ts_woken s + ts_waiting s\<rparr>"

text \<open>One more worker is started when all of them are running tasks.\<close>

definition ScheduleTask :: "nat \<Rightarrow> scheduler \<Rightarrow> scheduler" where
  "ScheduleTask i s =
     (if ts_exit s then s
      else let s = notify_all (s\<lparr>ts_tasks := i # ts_tasks s\<rparr>)
           in if ts_n_running s \<ge> length (ts_workers s) then s\<lparr>ts_workers := ts_workers s @ [Ready]\<rparr> else s)"

definition schedule_new_task :: "timed_task \<Rightarrow> scheduler \<Rightarrow> nat \<times> scheduler" where
  "schedule_new_task t s = (length (ts_objs s), ScheduleTask (length (ts_objs s)) (s\<lparr>ts_objs := ts_objs s @ [t]\<rparr>))"

definition RunAtTimePoint :: "nat \<Rightarrow> scheduler \<Rightarrow> nat \<times> scheduler" where
  "RunAtTimePoint tp s = schedule_new_task (TimedTask tp) s"

definition RunAfterDuration :: "nat \<Rightarrow> scheduler \<Rightarrow> nat \<times> scheduler" where
  "RunAfterDuration milliseconds s = schedule_new_task (TimedTask (ts_now s + milliseconds)) s"

definition ScheduleReccurringTask :: "nat \<Rightarrow> scheduler \<Rightarrow> nat \<times> scheduler" where
  "ScheduleReccurringTask interval_milliseconds s =
     schedule_new_task (RecurringTask (ts_now s) interval_milliseconds) s"

text \<open>\<^verbatim>\<open>TimedTask::Run\<close> keeps the mutex of the task while its function runs, so \<^verbatim>\<open>Cancel\<close> has to wait for the
  end of the function, also when the function itself calls it.\<close>

definition Cancel_blocks :: "nat \<Rightarrow> scheduler \<Rightarrow> bool" where
  "Cancel_blocks i s \<longleftrightarrow> InFunc i \<in> set (ts_workers s) \<and> tt_interval (task i s) = None"

definition Cancel :: "nat \<Rightarrow> scheduler \<Rightarrow> scheduler" where
  "Cancel i s = s\<lparr>ts_objs := (ts_objs s)[i := (task i s)\<lparr>tt_func := False\<rparr>]\<rparr>"

definition CancelAll :: "scheduler \<Rightarrow> scheduler" where
  "CancelAll s = notify_all (s\<lparr>ts_tasks := []\<rparr>)"

definition ts_clear :: "scheduler \<Rightarrow> bool" where
  "ts_clear s \<longleftrightarrow> \<not> (ts_n_running s > 0 \<or> ts_tasks s \<noteq> [])"

text \<open>One look of a thread in \<^verbatim>\<open>WaitTillClear\<close>: it returns or goes to sleep.\<close>

definition WaitTillClear :: "scheduler \<Rightarrow> scheduler" where
  "WaitTillClear s = (if ts_clear s then s else s\<lparr>ts_waiting := ts_waiting s + 1\<rparr>)"

text \<open>The destructor sets the flag, then removes the tasks and wakes all threads, then joins the workers.\<close>

definition set_exit_flag :: "scheduler \<Rightarrow> scheduler" where
  "set_exit_flag s = s\<lparr>ts_exit := True\<rparr>"

definition cancel_and_join :: "scheduler \<Rightarrow> scheduler" where
  "cancel_and_join s = (notify_all (CancelAll s))\<lparr>ts_joining := True\<rparr>"

definition join_returns :: "scheduler \<Rightarrow> bool" where
  "join_returns s \<longleftrightarrow> (\<forall>w \<in> set (ts_workers s). w = Exited)"

section \<open>The workers\<close>

definition set_worker :: "nat \<Rightarrow> worker \<Rightarrow> scheduler \<Rightarrow> scheduler" where
  "set_worker w x s = s\<lparr>ts_workers := (ts_workers s)[w := x]\<rparr>"

text \<open>\<^verbatim>\<open>TaskRunnerThread\<close> from the head of its loop until it gives the mutex up; \<open>first\<close> is the task on top.\<close>

definition runner_loop :: "nat \<Rightarrow> nat \<Rightarrow> scheduler \<Rightarrow> scheduler" where
  "runner_loop w first s =
     (if ts_exit s then set_worker w Exited s
      else if ts_tasks s = [] then set_worker w Waiting s
      else if ScheduledTime first s \<le> ts_now s
      then set_worker w (Popped first) (s\<lparr>ts_tasks := remove1 first (ts_tasks s), ts_n_running := ts_n_running s + 1\<rparr>)
      else set_worker w (Sleeping (ScheduledTime first s)) s)"

text \<open>\<^verbatim>\<open>Run\<close> up to the function, and behind it; \<open>threw\<close> says that the function ended with an exception.\<close>

definition begin_run :: "nat \<Rightarrow> nat \<Rightarrow> scheduler \<Rightarrow> scheduler" where
  "begin_run w i s =
     (if tt_func (task i s)
      then set_worker w (InFunc i) (s\<lparr>ts_runs := ts_runs s @ [(i, ScheduledTime i s, ts_now s)]\<rparr>)
      else if tt_interval (task i s) = None
      then set_worker w RunDone (s\<lparr>ts_objs := (ts_objs s)[i := (task i s)\<lparr>tt_executed := True\<rparr>]\<rparr>)
      else set_worker w RunDone s)"

definition end_run :: "nat \<Rightarrow> nat \<Rightarrow> bool \<Rightarrow> scheduler \<Rightarrow> scheduler" where
  "end_run w i threw s =
     (case tt_interval (task i s) of
        None \<Rightarrow>
          if threw then set_worker w RunDone s
          else set_worker w RunDone (s\<lparr>ts_objs := (ts_objs s)[i := (task i s)\<lparr>tt_executed := True\<rparr>]\<rparr>)
      | Some interval \<Rightarrow>
          ScheduleTask i (set_worker w RunDone (s\<lparr>ts_objs := (ts_objs s)
            [i := (task i s)\<lparr>tt_executed := True, tt_tp := tt_tp (task i s) + interval\<rparr>]\<rparr>)))"

definition after_run :: "nat \<Rightarrow> nat \<Rightarrow> scheduler \<Rightarrow> scheduler" where
  "after_run w first s = runner_loop w first (notify_all (s\<lparr>ts_n_running := ts_n_running s - 1\<rparr>))"

definition worker_is :: "nat \<Rightarrow> worker \<Rightarrow> scheduler \<Rightarrow> bool" where
  "worker_is w x s \<longleftrightarrow> w < length (ts_workers s) \<and> ts_workers s ! w = x"

inductive worker_step :: "scheduler \<Rightarrow> scheduler \<Rightarrow> bool" for s where
  ws_loop: "worker_is w Ready s \<Longrightarrow> ts_tasks s \<noteq> [] \<longrightarrow> earliest first s \<Longrightarrow> worker_step s (runner_loop w first s)"
| ws_spurious: "worker_is w Waiting s \<Longrightarrow> worker_step s (set_worker w Ready s)"
| ws_wakes: "worker_is w (Sleeping d) s \<Longrightarrow> worker_step s (set_worker w Ready s)"
| ws_begin: "worker_is w (Popped i) s \<Longrightarrow> worker_step s (begin_run w i s)"
| ws_end: "worker_is w (InFunc i) s \<Longrightarrow> worker_step s (end_run w i threw s)"
| ws_after: "worker_is w RunDone s \<Longrightarrow> ts_tasks s \<noteq> [] \<longrightarrow> earliest first s \<Longrightarrow> worker_step s (after_run w first s)"

inductive client_step :: "scheduler \<Rightarrow> scheduler \<Rightarrow> bool" for s where
  cs_at: "client_step s (snd (RunAtTimePoint tp s))"
| cs_after: "client_step s (snd (RunAfterDuration ms s))"
| cs_recurring: "client_step s (snd (ScheduleReccurringTask ms s))"
| cs_cancel: "i < length (ts_objs s) \<Longrightarrow> \<not> Cancel_blocks i s \<Longrightarrow> client_step s (Cancel i s)"
| cs_cancel_all: "client_step s (CancelAll s)"
| cs_wait: "client_step s (WaitTillClear s)"
| cs_woken: "ts_woken s > 0 \<Longrightarrow> client_step s (WaitTillClear (s\<lparr>ts_woken := ts_woken s - 1\<rparr>))"
| cs_tick: "client_step s (s\<lparr>ts_now := ts_now s + d\<rparr>)"
| cs_exit: "client_step s (set_exit_flag s)"
| cs_join: "ts_exit s \<Longrightarrow> client_step s (cancel_and_join s)"

definition timed_step :: "scheduler \<Rightarrow> scheduler \<Rightarrow> bool" where
  "timed_step s s' \<longleftrightarrow> worker_step s s' \<or> client_step s s'"

text \<open>\<^verbatim>\<open>AutoCancelTimedTask\<close> holds a task or nothing; its \<^verbatim>\<open>Cancel\<close> follows a null pointer when it holds nothing.\<close>

definition auto_destroy :: "nat option \<Rightarrow> scheduler \<Rightarrow> scheduler" where
  "auto_destroy t s = (case t of Some i \<Rightarrow> Cancel i s | None \<Rightarrow> s)"

definition auto_Cancel :: "nat option \<Rightarrow> scheduler \<Rightarrow> scheduler option" where
  "auto_Cancel t s = map_option (\<lambda>i. Cancel i s) t"

definition AssignTask :: "nat \<Rightarrow> nat option \<Rightarrow> nat option" where
  "AssignTask i t = Some i"

section \<open>The invariant\<close>

fun held :: "worker \<Rightarrow> nat multiset" where
  "held (Popped i) = {#i#}"
| "held (InFunc i) = {#i#}"
| "held _ = {#}"

fun busy :: "worker \<Rightarrow> bool" where
  "busy (Popped i) \<longleftrightarrow> True"
| "busy (InFunc i) \<longleftrightarrow> True"
| "busy RunDone \<longleftrightarrow> True"
| "busy _ \<longleftrightarrow> False"

definition all_held :: "worker list \<Rightarrow> nat multiset" where
  "all_held ws = sum_list (map held ws)"

definition n_busy :: "worker list \<Rightarrow> nat" where
  "n_busy ws = length (filter busy ws)"

lemma ts_wake_simps [simp]: "held (ts_wake w) = held w" "busy (ts_wake w) = busy w" "ts_wake w \<noteq> Waiting" "ts_wake w \<noteq> Sleeping d"
    "ts_wake w = Popped i \<longleftrightarrow> w = Popped i" "ts_wake w = InFunc i \<longleftrightarrow> w = InFunc i" "ts_wake w = Exited \<longleftrightarrow> w = Exited"
    "Popped i = ts_wake w \<longleftrightarrow> w = Popped i" "InFunc i = ts_wake w \<longleftrightarrow> w = InFunc i" "Exited = ts_wake w \<longleftrightarrow> w = Exited"
    "Waiting \<noteq> ts_wake w" "Sleeping d \<noteq> ts_wake w"
  by (cases w; auto)+

lemma all_held_simps [simp]: "all_held [] = {#}" "all_held (w # ws) = held w + all_held ws"
    "all_held (ws @ vs) = all_held ws + all_held vs" "all_held (map ts_wake ws) = all_held ws"
  by (simp_all add: all_held_def o_def)

lemma n_busy_simps [simp]: "n_busy [] = 0" "n_busy (w # ws) = (if busy w then 1 else 0) + n_busy ws"
    "n_busy (ws @ vs) = n_busy ws + n_busy vs" "n_busy (map ts_wake ws) = n_busy ws"
  by (simp_all add: n_busy_def filter_map o_def)

lemma all_held_update: "w < length ws \<Longrightarrow> all_held (ws[w := x]) + held (ws ! w) = all_held ws + held x"
proof (induction ws arbitrary: w)
  case (Cons v ws)
  then show ?case by (cases w) (simp_all add: ac_simps)
qed simp

lemma n_busy_update:
  "w < length ws \<Longrightarrow> n_busy (ws[w := x]) + (if busy (ws ! w) then 1 else 0) = n_busy ws + (if busy x then 1 else 0)"
proof (induction ws arbitrary: w)
  case (Cons v ws)
  then show ?case by (cases w) simp_all
qed simp

lemma held_mem: "x \<in> set ws \<Longrightarrow> held x \<subseteq># all_held ws"
  by (induction ws) (auto intro: subset_mset.order_trans)

lemma n_busy_le: "n_busy ws \<le> length ws"
  by (simp add: n_busy_def)

text \<open>Every task is in one place: in the queue, or with one worker until its function has returned.\<close>

definition places :: "scheduler \<Rightarrow> nat multiset" where
  "places s = mset (ts_tasks s) + all_held (ts_workers s)"

definition place_inv :: "scheduler \<Rightarrow> bool" where
  "place_inv s \<longleftrightarrow> ts_n_running s = n_busy (ts_workers s) \<and> (\<forall>i. count (places s) i \<le> 1) \<and>
     (\<forall>i \<in># places s. i < length (ts_objs s)) \<and> ts_workers s \<noteq> []"

text \<open>No worker sleeps too long, and no thread waits for a clear scheduler that is clear.\<close>

definition sleep_inv :: "scheduler \<Rightarrow> bool" where
  "sleep_inv s \<longleftrightarrow> (Waiting \<in> set (ts_workers s) \<longrightarrow> ts_tasks s = []) \<and>
     (\<forall>d i. Sleeping d \<in> set (ts_workers s) \<longrightarrow> i \<in> set (ts_tasks s) \<longrightarrow> d \<le> ScheduledTime i s) \<and>
     (ts_waiting s > 0 \<longrightarrow> \<not> ts_clear s) \<and> (Exited \<in> set (ts_workers s) \<longrightarrow> ts_exit s) \<and>
     (ts_joining s \<longrightarrow> ts_exit s \<and> ts_tasks s = [] \<and>
        (\<forall>x \<in> set (ts_workers s). x \<noteq> Waiting \<and> (\<forall>d. x \<noteq> Sleeping d)))"

text \<open>What the log says of the runs of one task.\<close>

definition starts :: "nat \<Rightarrow> scheduler \<Rightarrow> nat list" where
  "starts i s = map (fst \<circ> snd) (filter (\<lambda>r. fst r = i) (ts_runs s))"

definition pending :: "nat \<Rightarrow> scheduler \<Rightarrow> bool" where
  "pending i s \<longleftrightarrow> i \<in> set (ts_tasks s) \<or> Popped i \<in> set (ts_workers s)"

definition task_inv :: "nat \<Rightarrow> scheduler \<Rightarrow> bool" where
  "task_inv i s \<longleftrightarrow>
     (case tt_interval (task i s) of
        None \<Rightarrow> tt_tp (task i s) = tt_first (task i s) \<and>
          (starts i s = [] \<or> starts i s = [tt_first (task i s)] \<and> \<not> pending i s)
      | Some d \<Rightarrow> starts i s = map (\<lambda>k. tt_first (task i s) + k * d) [0..<length (starts i s)] \<and>
          tt_tp (task i s) + (if InFunc i \<in> set (ts_workers s) then d else 0) = tt_first (task i s) + length (starts i s) * d)"

definition run_inv :: "scheduler \<Rightarrow> bool" where
  "run_inv s \<longleftrightarrow> (\<forall>i < length (ts_objs s). task_inv i s) \<and> (\<forall>(i, planned, at) \<in> set (ts_runs s). planned \<le> at \<and> i < length (ts_objs s)) \<and>
     (\<forall>i. Popped i \<in> set (ts_workers s) \<longrightarrow> ScheduledTime i s \<le> ts_now s)"

definition timed_inv :: "scheduler \<Rightarrow> bool" where
  "timed_inv s \<longleftrightarrow> place_inv s \<and> sleep_inv s \<and> run_inv s"

lemma count_one: "count A i \<le> 1 \<Longrightarrow> A = B + {#i#} \<Longrightarrow> i \<notin># B"
  by (simp add: not_in_iff)

lemma worker_leaves:
  assumes p: "place_inv s" and w: "worker_is w old s" and old: "held old = {#i#}" and x: "i \<notin># held x"
  shows "i \<notin># all_held ((ts_workers s)[w := x])" "i \<notin> set (ts_tasks s)" "i < length (ts_objs s)"
proof -
  let ?ws = "ts_workers s"
  have a: "all_held (?ws[w := x]) + {#i#} = all_held ?ws + held x"
    using all_held_update [of w ?ws x] w old by (simp add: worker_is_def)
  have c: "count (mset (ts_tasks s)) i + count (all_held ?ws) i \<le> 1"
    using p by (simp add: place_inv_def places_def)
  have in': "count (all_held ?ws) i \<ge> 1"
    using held_mem [of old ?ws] w old by (auto simp: worker_is_def)
  have "count (all_held (?ws[w := x])) i + 1 = count (all_held ?ws) i"
    using arg_cong [OF a, of "\<lambda>A. count A i"] x by (simp add: not_in_iff)
  then show "i \<notin># all_held (?ws[w := x])" using c by (simp add: not_in_iff)
  have "count (mset (ts_tasks s)) i = 0" using c in' by linarith
  then show "i \<notin> set (ts_tasks s)" by (simp add: count_eq_zero_iff)
  show "i < length (ts_objs s)" using p in' unfolding place_inv_def places_def
    by (metis count_greater_eq_one_iff union_iff)
qed

lemma held_worker: "x \<in> set ws \<Longrightarrow> i \<in># held x \<Longrightarrow> i \<in># all_held ws"
  using held_mem by (meson mset_subset_eqD)

lemma no_held: "i \<notin># all_held ws \<Longrightarrow> InFunc i \<notin> set ws" "i \<notin># all_held ws \<Longrightarrow> Popped i \<notin> set ws"
  using held_worker [of "InFunc i" ws i] held_worker [of "Popped i" ws i] by auto

lemma in_update: "w < length ws \<Longrightarrow> y \<noteq> ws ! w \<Longrightarrow> y \<in> set (ws[w := x]) \<longleftrightarrow> y = x \<or> y \<in> set ws"
proof (induction ws arbitrary: w)
  case (Cons v ws)
  show ?case
  proof (cases w)
    case 0
    then show ?thesis using Cons.prems(2) by simp
  next
    case (Suc k)
    then have "y \<in> set (ws[k := x]) \<longleftrightarrow> y = x \<or> y \<in> set ws" using Cons.IH [of k] Cons.prems by simp
    then show ?thesis by (simp add: Suc disj_commute disj_left_commute)
  qed
qed simp

lemma starts_simps [simp]:
  "starts i (s\<lparr>ts_objs := a\<rparr>) = starts i s" "starts i (s\<lparr>ts_workers := b\<rparr>) = starts i s"
  "starts i (s\<lparr>ts_tasks := c\<rparr>) = starts i s" "starts i (s\<lparr>ts_n_running := n\<rparr>) = starts i s"
  "starts i (s\<lparr>ts_waiting := n\<rparr>) = starts i s" "starts i (s\<lparr>ts_woken := n\<rparr>) = starts i s"
  "starts i (s\<lparr>ts_exit := e\<rparr>) = starts i s" "starts i (s\<lparr>ts_joining := e\<rparr>) = starts i s" "starts i (s\<lparr>ts_now := n\<rparr>) = starts i s"
  by (simp_all add: starts_def)

lemma starts_run [simp]:
  "starts j (s\<lparr>ts_runs := ts_runs s @ [(i, a, b)]\<rparr>) = starts j s @ (if j = i then [a] else [])"
  by (simp add: starts_def)

lemma notify_simps [simp]: "ts_objs (notify_all s) = ts_objs s" "ts_tasks (notify_all s) = ts_tasks s"
    "ts_workers (notify_all s) = map ts_wake (ts_workers s)" "ts_n_running (notify_all s) = ts_n_running s"
    "ts_exit (notify_all s) = ts_exit s" "ts_now (notify_all s) = ts_now s" "ts_runs (notify_all s) = ts_runs s"
    "ts_joining (notify_all s) = ts_joining s" "ts_waiting (notify_all s) = 0" "starts i (notify_all s) = starts i s"
  by (simp_all add: notify_all_def)

lemma set_worker_simps [simp]: "ts_objs (set_worker w x s) = ts_objs s" "ts_tasks (set_worker w x s) = ts_tasks s"
    "ts_workers (set_worker w x s) = (ts_workers s)[w := x]" "ts_n_running (set_worker w x s) = ts_n_running s"
    "ts_exit (set_worker w x s) = ts_exit s" "ts_now (set_worker w x s) = ts_now s" "ts_runs (set_worker w x s) = ts_runs s"
    "ts_joining (set_worker w x s) = ts_joining s" "ts_waiting (set_worker w x s) = ts_waiting s" "starts i (set_worker w x s) = starts i s"
  by (simp_all add: set_worker_def)

text \<open>What an invariant looks at.\<close>

lemma same_tasks:
  assumes "ts_objs s' = ts_objs s" "ts_runs s' = ts_runs s" "ts_now s \<le> ts_now s'"
    and "\<And>i. pending i s' \<Longrightarrow> pending i s" "\<And>i. InFunc i \<in> set (ts_workers s') \<longleftrightarrow> InFunc i \<in> set (ts_workers s)"
    and "\<And>i. Popped i \<in> set (ts_workers s') \<Longrightarrow> Popped i \<in> set (ts_workers s) \<or> ScheduledTime i s \<le> ts_now s"
    and "run_inv s"
  shows "run_inv s'"
proof -
  have st: "starts i s' = starts i s" for i using assms(2) by (simp add: starts_def)
  have tk: "task i s' = task i s" for i using assms(1) by (simp add: task_def)
  have "task_inv i s \<Longrightarrow> task_inv i s'" for i
    unfolding task_inv_def st tk assms(5) using assms(4) by (auto split: option.splits)
  moreover have "ScheduledTime i s' = ScheduledTime i s" for i by (simp add: ScheduledTime_def tk)
  moreover have "ScheduledTime i s \<le> ts_now s'" if "Popped i \<in> set (ts_workers s')" for i
    using assms(3,7) assms(6) [OF that] by (auto simp: run_inv_def)
  ultimately show ?thesis using assms(1,2,7) by (simp add: run_inv_def)
qed

lemma notify_inv: "timed_inv s \<Longrightarrow> timed_inv (notify_all s)"
proof -
  assume inv: "timed_inv s"
  have "run_inv (notify_all s)"
    by (rule same_tasks [of _ s]) (use inv in \<open>auto simp: timed_inv_def pending_def image_iff\<close>)
  moreover have "place_inv (notify_all s)" using inv by (simp add: timed_inv_def place_inv_def places_def)
  moreover have "sleep_inv (notify_all s)" using inv by (auto simp: timed_inv_def sleep_inv_def)
  ultimately show ?thesis by (simp add: timed_inv_def)
qed

lemma schedule_inv:
  assumes inv: "timed_inv s" and i: "i < length (ts_objs s)" "i \<notin># places s" "tt_interval (task i s) = None \<Longrightarrow> starts i s = []"
  shows "timed_inv (ScheduleTask i s)"
proof (cases "ts_exit s")
  case True
  then show ?thesis using inv by (simp add: ScheduleTask_def)
next
  case False
  let ?s = "notify_all (s\<lparr>ts_tasks := i # ts_tasks s\<rparr>)"
  have p: "place_inv s" and sl: "sleep_inv s" and r: "run_inv s" using inv by (simp_all add: timed_inv_def)
  have out: "InFunc i \<notin> set (ts_workers s)" using i(2) no_held(1) by (auto simp: places_def)
  have "place_inv ?s" using p i(1,2) by (auto simp: place_inv_def places_def not_in_iff)
  moreover have "sleep_inv ?s" using sl False by (auto simp: sleep_inv_def)
  moreover have "run_inv ?s"
  proof -
    have "task_inv j ?s" if "task_inv j s" for j
    proof (cases "j = i")
      case True
      then show ?thesis using that i(3) out
        by (auto simp: task_inv_def task_def pending_def image_iff split: option.splits)
    next
      case False
      then show ?thesis using that by (auto simp: task_inv_def task_def pending_def image_iff split: option.splits)
    qed
    then show ?thesis using r by (auto simp: run_inv_def ScheduledTime_def task_def image_iff)
  qed
  ultimately have n: "timed_inv ?s" by (simp add: timed_inv_def)
  moreover have "timed_inv (?s\<lparr>ts_workers := ts_workers ?s @ [Ready]\<rparr>)"
  proof -
    have "run_inv (?s\<lparr>ts_workers := ts_workers ?s @ [Ready]\<rparr>)"
      by (rule same_tasks [of _ ?s]) (use n in \<open>auto simp: timed_inv_def pending_def\<close>)
    moreover have "place_inv (?s\<lparr>ts_workers := ts_workers ?s @ [Ready]\<rparr>)"
      using n by (auto simp: timed_inv_def place_inv_def places_def)
    moreover have "sleep_inv (?s\<lparr>ts_workers := ts_workers ?s @ [Ready]\<rparr>)"
      using n by (auto simp: timed_inv_def sleep_inv_def ts_clear_def)
    ultimately show ?thesis by (simp add: timed_inv_def)
  qed
  ultimately show ?thesis using False by (simp add: ScheduleTask_def Let_def)
qed

text \<open>A worker that neither has nor gets a task.\<close>

lemma idle_swap:
  assumes inv: "timed_inv s" and w: "worker_is w old s" and idle: "held old = {#}" "\<not> busy old" "held x = {#}" "\<not> busy x"
    and ok: "x = Waiting \<Longrightarrow> ts_tasks s = [] \<and> \<not> ts_joining s" "x = Exited \<Longrightarrow> ts_exit s"
    and deadline: "\<And>d i. x = Sleeping d \<Longrightarrow> i \<in> set (ts_tasks s) \<Longrightarrow> d \<le> ScheduledTime i s"
      "\<And>d. x = Sleeping d \<Longrightarrow> \<not> ts_joining s"
  shows "timed_inv (set_worker w x s)"
proof -
  let ?ws = "ts_workers s" and ?s = "set_worker w x s"
  have len: "w < length ?ws" "?ws ! w = old" using w by (simp_all add: worker_is_def)
  have held: "all_held (?ws[w := x]) = all_held ?ws" using all_held_update [of w ?ws x] len idle by simp
  have nb: "n_busy (?ws[w := x]) = n_busy ?ws" using n_busy_update [of w ?ws x] len idle by simp
  have run: "InFunc i \<in> set (?ws[w := x]) \<longleftrightarrow> InFunc i \<in> set ?ws" "Popped i \<in> set (?ws[w := x]) \<longleftrightarrow> Popped i \<in> set ?ws" for i
  proof -
    have "InFunc i \<noteq> old" "Popped i \<noteq> old" "InFunc i \<noteq> x" "Popped i \<noteq> x" using idle by auto
    then show "InFunc i \<in> set (?ws[w := x]) \<longleftrightarrow> InFunc i \<in> set ?ws" "Popped i \<in> set (?ws[w := x]) \<longleftrightarrow> Popped i \<in> set ?ws"
      using in_update [of w ?ws "InFunc i" x] in_update [of w ?ws "Popped i" x] len by simp_all
  qed
  have sub: "y \<in> set (?ws[w := x]) \<Longrightarrow> y = x \<or> y \<in> set ?ws" for y
    using set_update_subset_insert [of ?ws w x] by auto
  have "place_inv ?s" using inv nb by (auto simp: timed_inv_def place_inv_def places_def held)
  moreover have "sleep_inv ?s"
  proof -
    have sl: "sleep_inv s" using inv by (simp add: timed_inv_def)
    have st: "ScheduledTime i ?s = ScheduledTime i s" for i by (simp add: ScheduledTime_def task_def)
    have "ts_tasks s = []" if "Waiting \<in> set (?ws[w := x])" using sub [OF that] ok(1) sl by (auto simp: sleep_inv_def)
    moreover have "d \<le> ScheduledTime i s" if "Sleeping d \<in> set (?ws[w := x])" "i \<in> set (ts_tasks s)" for d i
      using sub [OF that(1)] deadline(1) [of d i] that(2) sl by (auto simp: sleep_inv_def)
    moreover have "ts_exit s" if "Exited \<in> set (?ws[w := x])" using sub [OF that] ok(2) sl by (auto simp: sleep_inv_def)
    moreover have "y \<noteq> Waiting \<and> (\<forall>d. y \<noteq> Sleeping d)" if "ts_joining s" "y \<in> set (?ws[w := x])" for y
      using sub [OF that(2)] ok(1) deadline(2) that(1) sl by (auto simp: sleep_inv_def)
    ultimately show ?thesis using sl unfolding sleep_inv_def st by (simp add: ts_clear_def)
  qed
  moreover have "run_inv ?s"
    by (rule same_tasks [of _ s]) (use inv run in \<open>auto simp: timed_inv_def pending_def\<close>)
  ultimately show ?thesis by (simp add: timed_inv_def)
qed

lemma runner_loop_inv:
  assumes inv: "timed_inv s" and w: "worker_is w Ready s" and first: "ts_tasks s \<noteq> [] \<longrightarrow> earliest first s"
  shows "timed_inv (runner_loop w first s)"
proof (cases "\<not> ts_exit s \<and> ts_tasks s \<noteq> [] \<and> ScheduledTime first s \<le> ts_now s")
  case False
  have j: "\<not> ts_exit s \<Longrightarrow> \<not> ts_joining s" using inv by (auto simp: timed_inv_def sleep_inv_def)
  consider "ts_exit s" | "\<not> ts_exit s" "ts_tasks s = []"
    | "\<not> ts_exit s" "ts_tasks s \<noteq> []" "\<not> ScheduledTime first s \<le> ts_now s" using False by blast
  then show ?thesis
  proof cases
    case 1
    then show ?thesis using idle_swap [OF inv w, of Exited] by (simp add: runner_loop_def)
  next
    case 2
    then show ?thesis using idle_swap [OF inv w, of Waiting] j by (simp add: runner_loop_def)
  next
    case 3
    then have le: "\<forall>i \<in> set (ts_tasks s). ScheduledTime first s \<le> ScheduledTime i s" using first by (simp add: earliest_def)
    have "timed_inv (set_worker w (Sleeping (ScheduledTime first s)) s)"
      by (rule idle_swap [OF inv w]) (use 3 le j in auto)
    then show ?thesis using 3 by (simp add: runner_loop_def)
  qed
next
  case True
  let ?ws = "ts_workers s"
  let ?t = "s\<lparr>ts_tasks := remove1 first (ts_tasks s), ts_n_running := ts_n_running s + 1\<rparr>"
  let ?s = "set_worker w (Popped first) ?t"
  have top: "first \<in> set (ts_tasks s)" using True first by (simp add: earliest_def)
  have len: "w < length ?ws" "?ws ! w = Ready" using w by (simp_all add: worker_is_def)
  have held: "all_held (?ws[w := Popped first]) = all_held ?ws + {#first#}" using all_held_update [of w ?ws "Popped first"] len by simp
  have nb: "n_busy (?ws[w := Popped first]) = Suc (n_busy ?ws)" using n_busy_update [of w ?ws "Popped first"] len by simp
  have pl: "places ?s = places s" using top by (simp add: places_def held)
  have run: "InFunc i \<in> set (?ws[w := Popped first]) \<longleftrightarrow> InFunc i \<in> set ?ws"
    "Popped i \<in> set (?ws[w := Popped first]) \<longleftrightarrow> i = first \<or> Popped i \<in> set ?ws" for i
    using in_update [of w ?ws "InFunc i" "Popped first"] in_update [of w ?ws "Popped i" "Popped first"] len by auto
  have sub: "y \<in> set (?ws[w := Popped first]) \<Longrightarrow> y = Popped first \<or> y \<in> set ?ws" for y
    using set_update_subset_insert [of ?ws w "Popped first"] by auto
  have "place_inv ?s" using inv nb pl by (simp add: timed_inv_def place_inv_def)
  moreover have "sleep_inv ?s"
    using inv top by (auto simp: timed_inv_def sleep_inv_def ts_clear_def ScheduledTime_def task_def dest!: sub set_remove1_subset [THEN subsetD])
  moreover have "run_inv ?s"
    by (rule same_tasks [of _ s])
      (use inv run top True in \<open>auto simp: timed_inv_def pending_def dest!: set_remove1_subset [THEN subsetD]\<close>)
  ultimately show ?thesis using True by (simp add: timed_inv_def runner_loop_def)
qed

text \<open>A worker that gives a task up without a change of what the others see.\<close>

lemma leave_inv:
  assumes inv: "place_inv s" "sleep_inv s" and w: "worker_is w old s" and old: "held old = {#i#}" "busy old"
    and same: "ts_workers t = ts_workers s" "ts_tasks t = ts_tasks s" "ts_n_running t = ts_n_running s" "ts_exit t = ts_exit s"
      "ts_joining t = ts_joining s" "ts_waiting t = ts_waiting s" "length (ts_objs t) = length (ts_objs s)"
    and tp: "\<forall>j. j \<noteq> i \<longrightarrow> task j t = task j s"
  shows "place_inv (set_worker w RunDone t)" "sleep_inv (set_worker w RunDone t)" "i \<notin># places (set_worker w RunDone t)"
    "\<And>j. j \<noteq> i \<Longrightarrow> InFunc j \<in> set ((ts_workers s)[w := RunDone]) \<longleftrightarrow> InFunc j \<in> set (ts_workers s)"
    "\<And>j. j \<noteq> i \<Longrightarrow> Popped j \<in> set ((ts_workers s)[w := RunDone]) \<longleftrightarrow> Popped j \<in> set (ts_workers s)"
    "InFunc i \<notin> set ((ts_workers s)[w := RunDone])" "Popped i \<notin> set ((ts_workers s)[w := RunDone])"
proof -
  let ?ws = "ts_workers s" and ?s = "set_worker w RunDone t"
  have len: "w < length ?ws" "?ws ! w = old" using w by (simp_all add: worker_is_def)
  have held: "all_held (?ws[w := RunDone]) + {#i#} = all_held ?ws" using all_held_update [of w ?ws RunDone] len old by simp
  have nb: "n_busy (?ws[w := RunDone]) = n_busy ?ws" using n_busy_update [of w ?ws RunDone] len old by simp
  have pl: "places s = places ?s + {#i#}" using held by (simp add: places_def same)
  have c: "count (places ?s) j \<le> 1" for j
    using inv(1) unfolding place_inv_def pl by (metis add_leE count_union)
  show "place_inv ?s" using inv(1) nb c unfolding place_inv_def by (simp add: same pl)
  show out: "i \<notin># places ?s" using count_one [OF _ pl] inv(1) by (simp add: place_inv_def)
  then have q: "i \<notin># all_held (?ws[w := RunDone])" "i \<notin> set (ts_tasks s)" by (simp_all add: places_def same)
  show "InFunc i \<notin> set (?ws[w := RunDone])" "Popped i \<notin> set (?ws[w := RunDone])" using no_held [OF q(1)] .
  show "InFunc j \<in> set (?ws[w := RunDone]) \<longleftrightarrow> InFunc j \<in> set ?ws" "Popped j \<in> set (?ws[w := RunDone]) \<longleftrightarrow> Popped j \<in> set ?ws"
    if "j \<noteq> i" for j
  proof -
    have "InFunc j \<noteq> old" "Popped j \<noteq> old" using old that by auto
    then show "InFunc j \<in> set (?ws[w := RunDone]) \<longleftrightarrow> InFunc j \<in> set ?ws" "Popped j \<in> set (?ws[w := RunDone]) \<longleftrightarrow> Popped j \<in> set ?ws"
      using in_update [of w ?ws "InFunc j" RunDone] in_update [of w ?ws "Popped j" RunDone] len by simp_all
  qed
  have sub: "y \<in> set (?ws[w := RunDone]) \<Longrightarrow> y = RunDone \<or> y \<in> set ?ws" for y
    using set_update_subset_insert [of ?ws w RunDone] by auto
  have st: "ScheduledTime j ?s = ScheduledTime j s" if "j \<in> set (ts_tasks s)" for j
  proof -
    have "j \<noteq> i" using that q(2) by auto
    then show ?thesis using tp by (simp add: ScheduledTime_def task_def)
  qed
  show "sleep_inv ?s" using inv(2) st by (auto simp: sleep_inv_def ts_clear_def same dest!: sub)
qed

lemma task_inv_cong:
  assumes "task_inv j s" "tt_tp (task j t) = tt_tp (task j s)" "tt_first (task j t) = tt_first (task j s)"
    "tt_interval (task j t) = tt_interval (task j s)" "starts j t = starts j s" "pending j t \<Longrightarrow> pending j s"
    "InFunc j \<in> set (ts_workers t) \<longleftrightarrow> InFunc j \<in> set (ts_workers s)"
  shows "task_inv j t"
  using assms unfolding task_inv_def by (auto split: option.splits)

text \<open>\<^verbatim>\<open>Run\<close> returns without having called the function again.\<close>

lemma run_returns_inv:
  assumes inv: "timed_inv s" and w: "worker_is w old s" and old: "held old = {#i#}" "busy old" and i: "i < length (ts_objs s)"
    and t: "t = s\<lparr>ts_objs := (ts_objs s)[i := v]\<rparr>"
    and v: "tt_interval v = tt_interval (task i s)" "tt_first v = tt_first (task i s)"
      "tt_tp v = tt_tp (task i s) + (if old = InFunc i then case tt_interval v of None \<Rightarrow> 0 | Some d \<Rightarrow> d else 0)"
  shows "timed_inv (set_worker w RunDone t)" "i \<notin># places (set_worker w RunDone t)"
proof -
  let ?s = "set_worker w RunDone t"
  have tk: "task j t = (if j = i then v else task j s)" for j
    using i by (simp add: t task_def nth_list_update)
  have sel: "ts_workers t = ts_workers s" "ts_tasks t = ts_tasks s" "ts_n_running t = ts_n_running s" "ts_exit t = ts_exit s"
      "ts_joining t = ts_joining s" "ts_waiting t = ts_waiting s" "length (ts_objs t) = length (ts_objs s)"
    by (simp_all add: t)
  have p: "place_inv s" "sleep_inv s" and r: "run_inv s" using inv by (simp_all add: timed_inv_def)
  have "\<forall>j. j \<noteq> i \<longrightarrow> task j t = task j s" using tk by simp
  note l = leave_inv [OF p w old sel this]
  show "i \<notin># places ?s" by (rule l(3))
  have old': "old = InFunc i \<or> old = Popped i" using old by (cases old) auto
  have inf: "InFunc i \<in> set (ts_workers s) \<longleftrightarrow> old = InFunc i"
  proof
    assume a: "InFunc i \<in> set (ts_workers s)"
    show "old = InFunc i"
    proof (rule ccontr)
      assume "old \<noteq> InFunc i"
      then have "InFunc i \<in> set ((ts_workers s)[w := RunDone])"
        using in_update [of w "ts_workers s" "InFunc i" RunDone] w a by (auto simp: worker_is_def)
      then show False using l(6) by blast
    qed
  next
    assume "old = InFunc i"
    then show "InFunc i \<in> set (ts_workers s)" using w nth_mem [of w "ts_workers s"] by (simp add: worker_is_def)
  qed
  have "task_inv j ?s" if "task_inv j s" for j
  proof (cases "j = i")
    case True
    have "\<not> pending i ?s" using l(3,7) sel by (auto simp: pending_def places_def)
    moreover have "task i ?s = v" "starts i ?s = starts i s" using tk by (simp_all add: task_def t)
    moreover have "InFunc i \<notin> set (ts_workers ?s)" using l(6) sel by simp
    ultimately show ?thesis
      using that v inf True unfolding task_inv_def by (auto split: option.splits if_splits)
  next
    case False
    have "task j ?s = task j s" using tk False by (simp add: task_def)
    then show ?thesis
      by (intro task_inv_cong [OF that]) (use l(4,5) [OF False] sel in \<open>auto simp: pending_def t\<close>)
  qed
  moreover have "ScheduledTime j ?s \<le> ts_now s" if "Popped j \<in> set (ts_workers ?s)" for j
  proof -
    have "j \<noteq> i" using that l(7) sel by auto
    then have "Popped j \<in> set (ts_workers s)" "ScheduledTime j ?s = ScheduledTime j s"
      using that l(5) sel tk by (auto simp: ScheduledTime_def task_def)
    then show ?thesis using r by (auto simp: run_inv_def)
  qed
  ultimately have "run_inv ?s" using r by (auto simp: run_inv_def t)
  then show "timed_inv ?s" using l(1,2) by (simp add: timed_inv_def)
qed

lemma held_known:
  assumes "place_inv s" "worker_is w old s" "held old = {#i#}"
  shows "i < length (ts_objs s)"
  using worker_leaves(3) [OF assms, of RunDone] by simp

lemma begin_run_inv:
  assumes inv: "timed_inv s" and w: "worker_is w (Popped i) s"
  shows "timed_inv (begin_run w i s)"
proof (cases "tt_func (task i s)")
  case False
  have i: "i < length (ts_objs s)" using held_known [OF _ w] inv by (simp add: timed_inv_def)
  have "s\<lparr>ts_objs := (ts_objs s)[i := task i s]\<rparr> = s" by (simp add: task_def)
  then show ?thesis
    using run_returns_inv(1) [OF inv w _ _ i refl, of "(task i s)\<lparr>tt_executed := True\<rparr>"]
      run_returns_inv(1) [OF inv w _ _ i refl, of "task i s"] False
    by (simp add: begin_run_def)
next
  case True
  let ?ws = "ts_workers s" and ?t = "s\<lparr>ts_runs := ts_runs s @ [(i, ScheduledTime i s, ts_now s)]\<rparr>"
  let ?s = "set_worker w (InFunc i) ?t"
  have p: "place_inv s" "sleep_inv s" and r: "run_inv s" using inv by (simp_all add: timed_inv_def)
  have i: "i < length (ts_objs s)" using held_known [OF p(1) w] by simp
  have len: "w < length ?ws" "?ws ! w = Popped i" using w by (simp_all add: worker_is_def)
  have pop: "Popped i \<in> set ?ws" using len by (metis nth_mem)
  have held: "all_held (?ws[w := InFunc i]) = all_held ?ws" using all_held_update [of w ?ws "InFunc i"] len by simp
  have nb: "n_busy (?ws[w := InFunc i]) = n_busy ?ws" using n_busy_update [of w ?ws "InFunc i"] len by simp
  have gone: "i \<notin># all_held (?ws[w := RunDone])" "i \<notin> set (ts_tasks s)"
    using worker_leaves(1) [OF p(1) w, of i RunDone] worker_leaves(2) [OF p(1) w, of i RunDone] by simp_all
  have uniq: "InFunc i \<notin> set ?ws"
    using in_update [of w ?ws "InFunc i" RunDone] no_held(1) [OF gone(1)] len by auto
  have unpop: "Popped i \<notin> set (?ws[w := InFunc i])"
  proof
    assume "Popped i \<in> set (?ws[w := InFunc i])"
    then obtain k where k: "k < length ?ws" "?ws[w := InFunc i] ! k = Popped i" by (auto simp: in_set_conv_nth)
    then have "k \<noteq> w" using len by auto
    then have "?ws[w := RunDone] ! k = Popped i" using k by simp
    then have "Popped i \<in> set (?ws[w := RunDone])" using k(1) by (metis length_list_update nth_mem)
    then show False using no_held(2) [OF gone(1)] by blast
  qed
  have run: "InFunc j \<in> set (?ws[w := InFunc i]) \<longleftrightarrow> j = i \<or> InFunc j \<in> set ?ws" for j
    using in_update [of w ?ws "InFunc j" "InFunc i"] len by auto
  have pops: "Popped j \<in> set (?ws[w := InFunc i]) \<longleftrightarrow> j \<noteq> i \<and> Popped j \<in> set ?ws" for j
    using in_update [of w ?ws "Popped j" "InFunc i"] len unpop by auto
  have sub: "y \<in> set (?ws[w := InFunc i]) \<Longrightarrow> y = InFunc i \<or> y \<in> set ?ws" for y
    using set_update_subset_insert [of ?ws w "InFunc i"] by auto
  have "place_inv ?s" using p(1) nb by (auto simp: place_inv_def places_def held)
  moreover have "sleep_inv ?s" using p(2) by (auto simp: sleep_inv_def ts_clear_def ScheduledTime_def task_def dest!: sub)
  moreover have "run_inv ?s"
  proof -
    have tk: "task j ?s = task j s" for j by (simp add: task_def)
    have st: "starts j ?s = (if j = i then starts j s @ [ScheduledTime i s] else starts j s)" for j by simp
    have sched: "ScheduledTime j ?s = ScheduledTime j s" for j by (simp add: ScheduledTime_def task_def)
    have "task_inv j ?s" if "task_inv j s" for j
    proof (cases "j = i")
      case True
      have "pending i s" "\<not> pending i ?s" using pop gone(2) unpop by (auto simp: pending_def)
      then show ?thesis
        using that True uniq unfolding task_inv_def tk st
        by (auto simp: run ScheduledTime_def tk split: option.splits)
    next
      case False
      then show ?thesis by (intro task_inv_cong [OF that]) (auto simp: tk st run pops pending_def)
    qed
    moreover have "ScheduledTime i s \<le> ts_now s" using r pop by (auto simp: run_inv_def)
    ultimately show ?thesis using r i by (auto simp: run_inv_def pops sched)
  qed
  ultimately show ?thesis using True by (simp add: timed_inv_def begin_run_def)
qed

lemma end_run_inv:
  assumes inv: "timed_inv s" and w: "worker_is w (InFunc i) s"
  shows "timed_inv (end_run w i threw s)"
proof (cases "tt_interval (task i s)")
  case None
  have i: "i < length (ts_objs s)" using held_known [OF _ w] inv by (simp add: timed_inv_def)
  have "s\<lparr>ts_objs := (ts_objs s)[i := task i s]\<rparr> = s" by (simp add: task_def)
  then show ?thesis
    using run_returns_inv(1) [OF inv w _ _ i refl, of "(task i s)\<lparr>tt_executed := True\<rparr>"]
      run_returns_inv(1) [OF inv w _ _ i refl, of "task i s"] None
    by (simp add: end_run_def)
next
  case (Some d)
  have i: "i < length (ts_objs s)" using held_known [OF _ w] inv by (simp add: timed_inv_def)
  let ?v = "(task i s)\<lparr>tt_executed := True, tt_tp := tt_tp (task i s) + d\<rparr>"
  let ?t = "set_worker w RunDone (s\<lparr>ts_objs := (ts_objs s)[i := ?v]\<rparr>)"
  have "timed_inv ?t" "i \<notin># places ?t"
    using run_returns_inv [OF inv w _ _ i refl, of ?v] Some by simp_all
  moreover have "tt_interval (task i ?t) = Some d" using i Some by (simp add: task_def)
  ultimately show ?thesis using schedule_inv [of ?t i] i Some by (simp add: end_run_def)
qed

lemma after_run_inv:
  assumes inv: "timed_inv s" and w: "worker_is w RunDone s" and first: "ts_tasks s \<noteq> [] \<longrightarrow> earliest first s"
  shows "timed_inv (after_run w first s)"
proof -
  let ?s = "notify_all (set_worker w Ready (s\<lparr>ts_n_running := ts_n_running s - 1\<rparr>))"
  let ?ws = "ts_workers s"
  have len: "w < length ?ws" "?ws ! w = RunDone" using w by (simp_all add: worker_is_def)
  have held: "all_held (?ws[w := Ready]) = all_held ?ws" using all_held_update [of w ?ws Ready] len by simp
  have nb: "Suc (n_busy (?ws[w := Ready])) = n_busy ?ws" using n_busy_update [of w ?ws Ready] len by simp
  have run: "InFunc i \<in> set (?ws[w := Ready]) \<longleftrightarrow> InFunc i \<in> set ?ws" "Popped i \<in> set (?ws[w := Ready]) \<longleftrightarrow> Popped i \<in> set ?ws" for i
    using in_update [of w ?ws "InFunc i" Ready] in_update [of w ?ws "Popped i" Ready] len by auto
  have sub: "y \<in> set (?ws[w := Ready]) \<Longrightarrow> y = Ready \<or> y \<in> set ?ws" for y
    using set_update_subset_insert [of ?ws w Ready] by auto
  have p: "place_inv s" "sleep_inv s" and r: "run_inv s" using inv by (simp_all add: timed_inv_def)
  have "place_inv ?s" using p(1) nb by (auto simp: place_inv_def places_def held)
  moreover have "sleep_inv ?s" using p(2) by (auto simp: sleep_inv_def dest!: sub)
  moreover have "run_inv ?s"
    by (rule same_tasks [OF _ _ _ _ _ _ r]) (use run in \<open>auto simp: pending_def image_iff\<close>)
  ultimately have inv': "timed_inv ?s" by (simp add: timed_inv_def)
  have "worker_is w Ready ?s" using len by (simp add: worker_is_def)
  moreover have "ts_tasks ?s \<noteq> [] \<longrightarrow> earliest first ?s" using first by (simp add: earliest_def ScheduledTime_def task_def)
  ultimately have "timed_inv (runner_loop w first ?s)" by (rule runner_loop_inv [OF inv'])
  moreover have "runner_loop w first ?s = after_run w first s"
    by (simp add: after_run_def runner_loop_def set_worker_def notify_all_def map_update ScheduledTime_def task_def)
  ultimately show ?thesis by simp
qed

text \<open>The clients.\<close>

lemma new_task_inv:
  assumes inv: "timed_inv s" and t: "tt_tp t = tt_first t"
  shows "timed_inv (snd (schedule_new_task t s))"
proof -
  let ?n = "length (ts_objs s)" and ?t = "s\<lparr>ts_objs := ts_objs s @ [t]\<rparr>"
  have p: "place_inv s" "sleep_inv s" and r: "run_inv s" using inv by (simp_all add: timed_inv_def)
  have old: "task j ?t = task j s" if "j < ?n" for j using that by (simp add: task_def nth_append)
  have new: "task ?n ?t = t" by (simp add: task_def)
  have out: "?n \<notin># places s" using p(1) by (auto simp: place_inv_def)
  have none: "starts ?n s = []" using r by (auto simp: run_inv_def starts_def filter_empty_conv)
  have unused: "InFunc ?n \<notin> set (ts_workers s)" "\<not> pending ?n s"
    using out no_held [of ?n "ts_workers s"] by (auto simp: places_def pending_def)
  have known: "i < ?n" if "i \<in># places s" for i using p(1) that by (simp add: place_inv_def)
  have st: "ScheduledTime i ?t = ScheduledTime i s" if "i \<in># places s" for i
    using old [OF known [OF that]] by (simp add: ScheduledTime_def)
  have "place_inv ?t" using p(1) by (auto simp: place_inv_def places_def less_Suc_eq)
  moreover have "sleep_inv ?t" using p(2) st by (auto simp: sleep_inv_def ts_clear_def places_def)
  moreover have "run_inv ?t"
  proof -
    have "task_inv j ?t" if "j < ?n" "task_inv j s" for j
      by (rule task_inv_cong [OF that(2)]) (simp_all add: old [OF that(1)] pending_def)
    moreover have "task_inv ?n ?t"
      using t none unused by (simp add: task_inv_def new split: option.splits)
    ultimately have "\<forall>i < Suc ?n. task_inv i ?t" using r by (auto simp: run_inv_def less_Suc_eq)
    moreover have "ScheduledTime i ?t = ScheduledTime i s" if "Popped i \<in> set (ts_workers s)" for i
      using st [of i] held_worker [OF that, of i] by (simp add: places_def)
    ultimately show ?thesis using r by (auto simp: run_inv_def)
  qed
  ultimately have "timed_inv ?t" by (simp add: timed_inv_def)
  moreover have "?n \<notin># places ?t" using out by (simp add: places_def)
  ultimately show ?thesis using schedule_inv [of ?t ?n] none by (simp add: schedule_new_task_def)
qed

lemma Cancel_inv:
  assumes inv: "timed_inv s" and i: "i < length (ts_objs s)"
  shows "timed_inv (Cancel i s)"
proof -
  have tk: "task j (Cancel i s) = (if j = i then (task i s)\<lparr>tt_func := False\<rparr> else task j s)" for j
    using i by (simp add: Cancel_def task_def nth_list_update)
  have st: "ScheduledTime j (Cancel i s) = ScheduledTime j s" for j by (simp add: ScheduledTime_def tk)
  have sel: "ts_workers (Cancel i s) = ts_workers s" "ts_tasks (Cancel i s) = ts_tasks s" "ts_runs (Cancel i s) = ts_runs s"
      "ts_now (Cancel i s) = ts_now s" "length (ts_objs (Cancel i s)) = length (ts_objs s)" "ts_n_running (Cancel i s) = ts_n_running s"
      "ts_exit (Cancel i s) = ts_exit s" "ts_joining (Cancel i s) = ts_joining s" "ts_waiting (Cancel i s) = ts_waiting s"
    by (simp_all add: Cancel_def)
  have "place_inv (Cancel i s)" using inv by (simp add: timed_inv_def place_inv_def places_def sel)
  moreover have "sleep_inv (Cancel i s)" using inv by (simp add: timed_inv_def sleep_inv_def ts_clear_def sel st)
  moreover have "task_inv j (Cancel i s)" if "task_inv j s" for j
    by (rule task_inv_cong [OF that]) (auto simp: tk sel starts_def pending_def)
  ultimately show ?thesis using inv by (simp add: timed_inv_def run_inv_def sel st)
qed

lemma CancelAll_inv: "timed_inv s \<Longrightarrow> timed_inv (CancelAll s)"
proof -
  assume inv: "timed_inv s"
  let ?t = "notify_all (s\<lparr>ts_tasks := []\<rparr>)"
  have le: "count (all_held (ts_workers s)) i \<le> 1" for i
    using inv by (simp add: timed_inv_def place_inv_def places_def) (meson add_leE)
  have "place_inv ?t" using inv le by (auto simp: timed_inv_def place_inv_def places_def)
  moreover have "sleep_inv ?t" using inv by (auto simp: timed_inv_def sleep_inv_def)
  moreover have "run_inv ?t"
    by (rule same_tasks [of _ s]) (use inv in \<open>auto simp: timed_inv_def pending_def image_iff\<close>)
  ultimately show ?thesis by (simp add: timed_inv_def CancelAll_def)
qed

lemma wait_inv: "timed_inv s \<Longrightarrow> timed_inv (WaitTillClear (s\<lparr>ts_woken := k\<rparr>))"
proof -
  assume inv: "timed_inv s"
  let ?s = "WaitTillClear (s\<lparr>ts_woken := k\<rparr>)"
  have sel: "ts_workers ?s = ts_workers s" "ts_tasks ?s = ts_tasks s" "ts_runs ?s = ts_runs s" "ts_now ?s = ts_now s"
      "ts_objs ?s = ts_objs s" "ts_n_running ?s = ts_n_running s" "ts_exit ?s = ts_exit s" "ts_joining ?s = ts_joining s"
    by (simp_all add: WaitTillClear_def)
  have "run_inv ?s" by (rule same_tasks [of _ s]) (use inv in \<open>auto simp: timed_inv_def pending_def sel\<close>)
  moreover have "place_inv ?s" using inv by (simp add: timed_inv_def place_inv_def places_def sel)
  moreover have "sleep_inv ?s"
    using inv by (auto simp: timed_inv_def sleep_inv_def WaitTillClear_def ts_clear_def ScheduledTime_def task_def)
  ultimately show ?thesis by (simp add: timed_inv_def)
qed

lemma timed_init: "timed_inv (TimedTaskScheduler now)"
  by (simp add: timed_inv_def place_inv_def places_def sleep_inv_def run_inv_def TimedTaskScheduler_def)

lemma wakes_inv: "timed_inv s \<Longrightarrow> worker_is w x s \<Longrightarrow> x = Waiting \<or> x = Sleeping d \<Longrightarrow> timed_inv (set_worker w Ready s)"
  by (rule idle_swap [where old = x]) auto

lemma worker_inv: "timed_inv s \<Longrightarrow> worker_step s s' \<Longrightarrow> timed_inv s'"
  by (erule worker_step.cases)
    (simp_all add: runner_loop_inv begin_run_inv end_run_inv after_run_inv wakes_inv [where x = Waiting] wakes_inv [where x = "Sleeping d" for d])

text \<open>Only the clock or the switches differ.\<close>

lemma same_inv:
  assumes "timed_inv s" "ts_objs t = ts_objs s" "ts_workers t = ts_workers s" "ts_tasks t = ts_tasks s"
    "ts_n_running t = ts_n_running s" "ts_waiting t = ts_waiting s" "ts_runs t = ts_runs s" "ts_now s \<le> ts_now t"
    "ts_exit s \<Longrightarrow> ts_exit t" "ts_joining t \<Longrightarrow> ts_joining s \<or> ts_exit t \<and> ts_tasks s = [] \<and> (\<forall>x \<in> set (ts_workers s). x \<noteq> Waiting \<and> (\<forall>d. x \<noteq> Sleeping d))"
  shows "timed_inv t"
proof -
  have "run_inv t" by (rule same_tasks [of _ s]) (use assms in \<open>simp_all add: timed_inv_def pending_def\<close>)
  moreover have "place_inv t" using assms by (simp add: timed_inv_def place_inv_def places_def)
  moreover have "sleep_inv t"
  proof -
    have sl: "sleep_inv s" using assms(1) by (simp add: timed_inv_def)
    have st: "ScheduledTime i t = ScheduledTime i s" for i using assms(2) by (simp add: ScheduledTime_def task_def)
    have "ts_clear t = ts_clear s" using assms(4,5) by (simp add: ts_clear_def)
    moreover have "Exited \<in> set (ts_workers s) \<longrightarrow> ts_exit t" using sl assms(9) by (simp add: sleep_inv_def)
    moreover have "ts_joining t \<longrightarrow> ts_exit t \<and> ts_tasks s = [] \<and> (\<forall>x \<in> set (ts_workers s). x \<noteq> Waiting \<and> (\<forall>d. x \<noteq> Sleeping d))"
      using sl assms(9,10) by (auto simp: sleep_inv_def)
    ultimately show ?thesis using sl unfolding sleep_inv_def st assms(3,4,6) by simp
  qed
  ultimately show ?thesis by (simp add: timed_inv_def)
qed

lemma join_inv: "timed_inv s \<Longrightarrow> ts_exit s \<Longrightarrow> timed_inv (cancel_and_join s)"
proof -
  assume inv: "timed_inv s" and e: "ts_exit s"
  have c: "timed_inv (notify_all (CancelAll s))" using inv by (simp add: CancelAll_inv notify_inv)
  show ?thesis by (rule same_inv [OF c]) (use e in \<open>auto simp: cancel_and_join_def CancelAll_def\<close>)
qed

lemma client_inv: "timed_inv s \<Longrightarrow> client_step s s' \<Longrightarrow> timed_inv s'"
proof (erule client_step.cases)
  assume "timed_inv s" "s' = WaitTillClear s"
  then show "timed_inv s'" using wait_inv [of s "ts_woken s"] by simp
next
  fix d assume inv: "timed_inv s" and s': "s' = s\<lparr>ts_now := ts_now s + d\<rparr>"
  show "timed_inv s'" unfolding s' by (rule same_inv [OF inv]) simp_all
next
  assume inv: "timed_inv s" and s': "s' = set_exit_flag s"
  show "timed_inv s'" unfolding s' set_exit_flag_def by (rule same_inv [OF inv]) simp_all
qed (simp_all add: RunAtTimePoint_def RunAfterDuration_def ScheduleReccurringTask_def new_task_inv TimedTask_def
    RecurringTask_def Cancel_inv CancelAll_inv wait_inv join_inv)

interpretation timed: invariant_system "\<lambda>s. \<exists>now. s = TimedTaskScheduler now" timed_step timed_inv
  by unfold_locales (auto simp: timed_init timed_step_def intro: worker_inv client_inv)

section \<open>Properties\<close>

lemma one_in_func: "length (filter (\<lambda>x. x = InFunc i) ws) \<le> count (all_held ws) i"
  by (induction ws) auto

lemma reachable_inv: "timed_step\<^sup>*\<^sup>* (TimedTaskScheduler now) s \<Longrightarrow> timed_inv s"
  by (rule timed.inv_reachable) auto

text \<open>The objects keep their kind, and one without a function stays without.\<close>

definition dead :: "nat \<Rightarrow> scheduler \<Rightarrow> bool" where
  "dead i s \<longleftrightarrow> i < length (ts_objs s) \<and> \<not> tt_func (task i s)"

lemma schedule_frame [simp]: "ts_objs (ScheduleTask i s) = ts_objs s" "ts_runs (ScheduleTask i s) = ts_runs s"
  by (simp_all add: ScheduleTask_def Let_def)

lemma runner_frame [simp]: "ts_objs (runner_loop w first s) = ts_objs s" "ts_runs (runner_loop w first s) = ts_runs s"
  by (simp_all add: runner_loop_def)

lemma func_update: "tt_func v = tt_func (xs ! k) \<Longrightarrow> tt_func (xs[k := v] ! i) = tt_func (xs ! i)"
  by (cases "k < length xs"; cases "k = i") (simp_all add: list_update_beyond)

lemma dead_step:
  assumes "timed_step s s'" "dead i s"
  shows "dead i s' \<and> starts i s' = starts i s"
  using assms(1) unfolding timed_step_def
proof (elim disjE)
  assume "worker_step s s'"
  then show ?thesis using assms(2)
    by (cases rule: worker_step.cases)
      (auto simp: dead_def starts_def task_def begin_run_def end_run_def after_run_def func_update split: option.splits)
next
  assume "client_step s s'"
  then show ?thesis using assms(2)
    by (cases rule: client_step.cases)
      (auto simp: dead_def starts_def task_def RunAtTimePoint_def RunAfterDuration_def ScheduleReccurringTask_def
        schedule_new_task_def nth_append Cancel_def CancelAll_def WaitTillClear_def set_exit_flag_def cancel_and_join_def nth_list_update)
qed

lemma dead_path: "timed_step\<^sup>*\<^sup>* s s' \<Longrightarrow> dead i s \<Longrightarrow> starts i s' = starts i s"
proof -
  assume "timed_step\<^sup>*\<^sup>* s s'" "dead i s"
  then have "dead i s' \<and> starts i s' = starts i s"
    by (induction rule: rtranclp_induct) (use dead_step in fastforce)+
  then show ?thesis by blast
qed


text \<open>A task every 10 ms from time 3 on: the first run is late, the second is on time.\<close>

definition run_once :: "scheduler \<Rightarrow> scheduler" where
  "run_once s = end_run 0 0 False (begin_run 0 0 (runner_loop 0 0 s))"

definition example_scheduler :: scheduler where
  "example_scheduler = (run_once ((snd (ScheduleReccurringTask 10 (TimedTaskScheduler 3)))\<lparr>ts_now := 5\<rparr>))\<lparr>ts_now := 13\<rparr>"

definition example_scheduler_2 :: scheduler where
  "example_scheduler_2 = begin_run 0 0 (after_run 0 0 example_scheduler)"

lemma timed_path:
  "worker_step s s' \<Longrightarrow> timed_step\<^sup>*\<^sup>* s' t \<Longrightarrow> timed_step\<^sup>*\<^sup>* s t" "client_step s s' \<Longrightarrow> timed_step\<^sup>*\<^sup>* s' t \<Longrightarrow> timed_step\<^sup>*\<^sup>* s t"
  by (auto simp: timed_step_def intro: converse_rtranclp_into_rtranclp)

lemma tick_path: "ts_now s \<le> n \<Longrightarrow> timed_step\<^sup>*\<^sup>* (s\<lparr>ts_now := n\<rparr>) t \<Longrightarrow> timed_step\<^sup>*\<^sup>* s t"
  using timed_path(2) [OF cs_tick [of s "n - ts_now s"], of t] by simp

lemma example_scheduler_reachable: "timed_step\<^sup>*\<^sup>* (TimedTaskScheduler 3) example_scheduler_2"
  unfolding example_scheduler_2_def example_scheduler_def run_once_def
  apply (rule timed_path(2) [OF cs_recurring [where ms = 10]])
  apply (rule tick_path [where n = 5], code_simp)
  apply (rule timed_path(1) [OF ws_loop [where w = 0 and first = 0]], code_simp, code_simp)
  apply (rule timed_path(1) [OF ws_begin [where w = 0 and i = 0]], code_simp)
  apply (rule timed_path(1) [OF ws_end [where w = 0 and i = 0 and threw = False]], code_simp)
  apply (rule tick_path [where n = 13], code_simp)
  apply (rule timed_path(1) [OF ws_after [where w = 0 and first = 0]], code_simp, code_simp)
  apply (rule timed_path(1) [OF ws_begin [where w = 0 and i = 0]], code_simp)
  apply (rule rtranclp.rtrancl_refl)
  done



definition due_scheduler :: scheduler where
  "due_scheduler = (runner_loop 0 0 (snd (RunAtTimePoint 4 (TimedTaskScheduler 3))))\<lparr>ts_now := 6\<rparr>"

lemma due_scheduler_reachable: "timed_step\<^sup>*\<^sup>* (TimedTaskScheduler 3) due_scheduler"
  unfolding due_scheduler_def
  apply (rule timed_path(2) [OF cs_at [where tp = 4]])
  apply (rule timed_path(1) [OF ws_loop [where w = 0 and first = 0]], code_simp, code_simp)
  apply (rule tick_path [where n = 6], code_simp)
  apply (rule rtranclp.rtrancl_refl)
  done


text \<open>A worker is started when a task is scheduled while all are running, and only then: two tasks that are scheduled
  while one worker is idle share it, so the second, though due, does not start before the first has returned.\<close>

definition shared_worker :: scheduler where
  "shared_worker = begin_run 0 0 (runner_loop 0 0 (snd (RunAtTimePoint 3 (snd (RunAtTimePoint 3 (TimedTaskScheduler 3))))))"

lemma worker_not_started:
  "timed_step\<^sup>*\<^sup>* (TimedTaskScheduler 3) shared_worker \<and> ts_workers shared_worker = [InFunc 0] \<and> earliest 1 shared_worker \<and>
    ScheduledTime 1 shared_worker \<le> ts_now shared_worker"
proof (intro conjI)
  show "timed_step\<^sup>*\<^sup>* (TimedTaskScheduler 3) shared_worker"
    unfolding shared_worker_def
    apply (rule timed_path(2) [OF cs_at [where tp = 3]])
    apply (rule timed_path(2) [OF cs_at [where tp = 3]])
    apply (rule timed_path(1) [OF ws_loop [where w = 0 and first = 0]], code_simp, code_simp)
    apply (rule timed_path(1) [OF ws_begin [where w = 0 and i = 0]], code_simp)
    apply (rule rtranclp.rtrancl_refl)
    done
qed code_simp+

text \<open>The steps a worker may still take once the destructor has come to its joins.\<close>

fun worker_rank :: "worker \<Rightarrow> nat" where
  "worker_rank (Popped i) = 3"
| "worker_rank (InFunc i) = 2"
| "worker_rank RunDone = 1"
| "worker_rank Ready = 1"
| "worker_rank _ = 0"

definition steps_left :: "scheduler \<Rightarrow> nat" where
  "steps_left s = sum_list (map worker_rank (ts_workers s))"

lemma rank_update:
  "w < length ws \<Longrightarrow> sum_list (map worker_rank (ws[w := x])) + worker_rank (ws ! w) = sum_list (map worker_rank ws) + worker_rank x"
proof (induction ws arbitrary: w)
  case (Cons v ws)
  then show ?case by (cases w) simp_all
qed simp

lemma steps_left_set: "worker_is w old s \<Longrightarrow> steps_left (set_worker w x s) + worker_rank old = steps_left s + worker_rank x"
  using rank_update [of w "ts_workers s" x] by (simp add: steps_left_def worker_is_def)

lemma steps_left_objs [simp]: "steps_left (set_worker w x (s\<lparr>ts_objs := a\<rparr>)) = steps_left (set_worker w x s)"
    "steps_left (set_worker w x (s\<lparr>ts_runs := b\<rparr>)) = steps_left (set_worker w x s)"
  by (simp_all add: steps_left_def)

lemma joining_step:
  assumes inv: "timed_inv s" "ts_joining s" and step: "worker_step s s'"
  shows "Suc (steps_left s') \<le> steps_left s \<and> ts_joining s'"
proof -
  have sl: "ts_exit s" "ts_tasks s = []" "\<And>x. x \<in> set (ts_workers s) \<Longrightarrow> x \<noteq> Waiting \<and> (\<forall>d. x \<noteq> Sleeping d)"
    using inv by (auto simp: timed_inv_def sleep_inv_def)
  have mem: "x \<in> set (ts_workers s)" if "worker_is w x s" for w x
    using that by (auto simp: worker_is_def)
  have keep: "ts_joining s'"
    using step inv(2) by (cases rule: worker_step.cases)
      (simp_all add: runner_loop_def begin_run_def end_run_def after_run_def ScheduleTask_def Let_def split: option.splits)
  have wk: "map ts_wake (ts_workers s) = ts_workers s"
    by (rule map_idI) (metis sl(3) ts_wake.simps(3-7) worker.exhaust)
  show ?thesis using step
  proof (cases rule: worker_step.cases)
    case (ws_loop w first)
    then show ?thesis using steps_left_set [OF ws_loop(2), of Exited] sl keep by (simp add: runner_loop_def)
  next
    case (ws_spurious w)
    then show ?thesis using mem sl(3) by blast
  next
    case (ws_wakes w d)
    then show ?thesis using mem sl(3) by blast
  next
    case (ws_begin w i)
    then show ?thesis using steps_left_set [OF ws_begin(2), of "InFunc i"] steps_left_set [OF ws_begin(2), of RunDone] keep
      by (auto simp: begin_run_def)
  next
    case (ws_end w i threw)
    then show ?thesis using steps_left_set [OF ws_end(2), of RunDone] sl(1) keep
      by (auto simp: end_run_def ScheduleTask_def split: option.splits)
  next
    case (ws_after w first)
    have "steps_left s' = steps_left (set_worker w Exited s)"
      using ws_after(1) sl(1) wk by (simp add: after_run_def runner_loop_def steps_left_def)
    then show ?thesis using steps_left_set [OF ws_after(2), of Exited] keep by simp
  qed
qed

lemma joining_stuck:
  assumes inv: "timed_inv s" "ts_joining s"
  shows "(\<nexists>s'. worker_step s s') \<longleftrightarrow> join_returns s"
proof
  assume stuck: "\<nexists>s'. worker_step s s'"
  have e: "ts_tasks s = []" using inv by (auto simp: timed_inv_def sleep_inv_def)
  show "join_returns s"
    unfolding join_returns_def
  proof
    fix x assume "x \<in> set (ts_workers s)"
    then obtain w where w: "worker_is w x s" by (auto simp: worker_is_def in_set_conv_nth)
    show "x = Exited"
      using stuck w e ws_loop ws_spurious ws_wakes ws_begin ws_end ws_after by (cases x) blast+
  qed
next
  assume "join_returns s"
  then have "x = Exited" if "worker_is w x s" for w x using that by (auto simp: join_returns_def worker_is_def)
  then show "\<nexists>s'. worker_step s s'" by (auto elim!: worker_step.cases)
qed


definition closing_scheduler :: scheduler where
  "closing_scheduler = cancel_and_join (set_exit_flag shared_worker)"

lemma closing_scheduler_reachable: "timed_step\<^sup>*\<^sup>* (TimedTaskScheduler 3) closing_scheduler"
proof -
  have "ts_exit (set_exit_flag shared_worker)" by code_simp
  then have "timed_step\<^sup>*\<^sup>* shared_worker closing_scheduler"
    unfolding closing_scheduler_def by (rule timed_path(2) [OF cs_exit timed_path(2) [OF cs_join rtranclp.rtrancl_refl]])
  then show ?thesis using worker_not_started by (meson rtranclp_trans)
qed


end
