(* ===== verification/File_Paths.thy ===== *)
theory File_Paths
  imports String_Util
begin

text \<open>
  \<^verbatim>\<open>FilePath\<close> of \<^verbatim>\<open>file_system.h\<close>: the scheme, host, port and path of a URI, the directory and the name of a
  file, and the choice of the file system.
\<close>

section \<open>Paths\<close>

datatype scheme = LOCAL | HDFS | MYSQL | SQLSERVER

record file_path =
  fp_scheme :: scheme
  fp_uri :: string
  fp_path :: string
  fp_host :: string
  fp_port :: nat

text \<open>\<^verbatim>\<open>atoi\<close>: blanks, a sign and digits; a value that does not fit is what the conversion of the C
  library (\<^verbatim>\<open>strtol\<close>, which stops at the limits of 64 bits) leaves of it in the 16 bits of a port.\<close>

definition c_space :: "char \<Rightarrow> bool" where
  "c_space c \<longleftrightarrow> c = CHR 0x20 \<or> 9 \<le> uchar c \<and> uchar c \<le> 13"

definition strtol :: "string \<Rightarrow> int" where
  "strtol s =
     (let s = dropWhile c_space s;
          neg = (s \<noteq> [] \<and> hd s = CHR ''-'');
          s = (if s \<noteq> [] \<and> (hd s = CHR ''-'' \<or> hd s = CHR ''+'') then tl s else s);
          v = dec_from 0 (takeWhile IsDigits s)
      in if neg then max (- v) (int_min 64) else min v (int_max 64))"

definition atoi_port :: "string \<Rightarrow> nat" where
  "atoi_port s = nat (strtol s mod 2 ^ 16)"

definition HDFS_PATH_START :: string where "HDFS_PATH_START = ''hdfs://''"
definition WEBHDFS_PATH_START :: string where "WEBHDFS_PATH_START = ''webhdfs://''"
definition MYSQL_PATH_START :: string where "MYSQL_PATH_START = ''mysql://''"
definition SQLSERVER_PATH_START :: string where "SQLSERVER_PATH_START = ''sqlserver://''"

definition uri_scheme :: "string \<Rightarrow> scheme" where
  "uri_scheme uri =
     (if StartsWith uri HDFS_PATH_START False \<or> StartsWith uri WEBHDFS_PATH_START False then HDFS
      else if StartsWith uri MYSQL_PATH_START False then MYSQL
      else if StartsWith uri SQLSERVER_PATH_START False then SQLSERVER
      else LOCAL)"

definition FromString :: "string \<Rightarrow> file_path \<Rightarrow> bool \<times> file_path" where
  "FromString uri fp =
     (let fp = fp\<lparr>fp_uri := uri, fp_scheme := uri_scheme uri\<rparr> in
      if fp_scheme fp = LOCAL then (True, fp\<lparr>fp_path := uri\<rparr>)
      else if fp_scheme fp = HDFS then
        let scheme_size = (if StartsWith uri HDFS_PATH_START False then 7 else 10);
            rest = drop scheme_size uri
        in if CHR ''/'' \<notin> set rest then (False, fp)
           else
             let nn = takeWhile (\<lambda>c. c \<noteq> CHR ''/'') rest;
                 host = takeWhile (\<lambda>c. c \<noteq> CHR '':'') nn;
                 host = (if host = [] then ''default'' else host);
                 port = (if CHR '':'' \<in> set nn then atoi_port (tl (dropWhile (\<lambda>c. c \<noteq> CHR '':'') nn)) else 0)
             in (True, fp\<lparr>fp_host := host, fp_port := port, fp_path := dropWhile (\<lambda>c. c \<noteq> CHR ''/'') rest\<rparr>)
      else (True, fp))"

text \<open>The constructor leaves the scheme open until the URI is read.\<close>

definition FilePath :: "string \<Rightarrow> file_path" where
  "FilePath uri = snd (FromString uri \<lparr>fp_scheme = LOCAL, fp_uri = [], fp_path = [], fp_host = [], fp_port = 0\<rparr>)"

definition Name :: "string \<Rightarrow> string" where
  "Name uri = (if CHR ''/'' \<in> set uri then rev (takeWhile (\<lambda>c. c \<noteq> CHR ''/'') (rev uri)) else uri)"

definition Dir :: "string \<Rightarrow> string" where
  "Dir uri = (if CHR ''/'' \<in> set uri then rev (tl (dropWhile (\<lambda>c. c \<noteq> CHR ''/'') (rev uri))) else [])"

definition GetFileNameFromPath :: "string \<Rightarrow> string" where
  "GetFileNameFromPath path = Name path"

definition PathSeparater :: string where
  "PathSeparater = ''/''"

section \<open>File systems\<close>

datatype file_system = LocalFileSystem | HdfsFileSystem | SQLFileSystem

definition GetFileSystem :: "scheme \<Rightarrow> file_system" where
  "GetFileSystem s = (case s of LOCAL \<Rightarrow> LocalFileSystem | HDFS \<Rightarrow> HdfsFileSystem | MYSQL \<Rightarrow> SQLFileSystem | SQLSERVER \<Rightarrow> SQLFileSystem)"

definition GetFileSystem_uri :: "string \<Rightarrow> file_system" where
  "GetFileSystem_uri uri = GetFileSystem (fp_scheme (FilePath uri))"

section \<open>Lemmas\<close>

lemma Name_no_slash: "CHR ''/'' \<notin> set (Name p)"
  by (auto simp: Name_def dest: set_takeWhileD)

lemma Dir_Name: "CHR ''/'' \<in> set p \<Longrightarrow> Dir p @ ''/'' @ Name p = p"
proof -
  assume s: "CHR ''/'' \<in> set p"
  let ?t = "takeWhile (\<lambda>c. c \<noteq> CHR ''/'') (rev p)" and ?d = "dropWhile (\<lambda>c. c \<noteq> CHR ''/'') (rev p)"
  have ne: "?d \<noteq> []" using s by simp
  then have "?d = CHR ''/'' # tl ?d" using hd_dropWhile [OF ne] by (cases ?d) auto
  then have "rev p = ?t @ CHR ''/'' # tl ?d" by (metis takeWhile_dropWhile_id)
  then have "p = rev (?t @ CHR ''/'' # tl ?d)" by (metis rev_rev_ident)
  then show ?thesis using s by (simp add: Dir_def Name_def)
qed

lemma Name_join: "CHR ''/'' \<notin> set n \<Longrightarrow> Name (d @ ''/'' @ n) = n \<and> Dir (d @ ''/'' @ n) = d"
proof -
  assume n: "CHR ''/'' \<notin> set n"
  have "takeWhile (\<lambda>c. c \<noteq> CHR ''/'') (rev n @ CHR ''/'' # rev d) = rev n"
    using n by (intro takeWhile_stop) auto
  moreover have "dropWhile (\<lambda>c. c \<noteq> CHR ''/'') (rev n @ CHR ''/'' # rev d) = CHR ''/'' # rev d"
    using n by (intro dropWhile_stop) auto
  ultimately show ?thesis by (simp add: Name_def Dir_def)
qed

lemma StartsWith_lower: "ToLower_str p = ToLower_str pat \<Longrightarrow> StartsWith (p @ rest) pat False"
  unfolding StartsWith_norm norm_simps ToLower_str_def by simp

lemma strtol_digits:
  assumes "ds \<noteq> []" "\<forall>c \<in> set ds. IsDigits c" "dec_from 0 ds < 2 ^ 16"
  shows "atoi_port ds = nat (dec_from 0 ds)"
proof -
  obtain c cs where ds: "ds = c # cs" using assms(1) by (cases ds) auto
  have c: "48 \<le> uchar c" "uchar c \<le> 57" using assms(2) by (auto simp: ds IsDigits_uchar)
  then have "\<not> c_space c" "c \<noteq> CHR ''-''" "c \<noteq> CHR ''+''" by (auto simp: c_space_def uchar_def)
  moreover have "takeWhile IsDigits ds = ds" using assms(2) by (simp add: takeWhile_all)
  moreover have "0 \<le> dec_from 0 ds" using assms(2) by (intro dec_from_ge) auto
  ultimately show ?thesis using assms(3) by (simp add: atoi_port_def strtol_def Let_def ds int_max_def)
qed

text \<open>
  An HDFS URI is taken apart as it was put together, with either prefix in any case: the host, or
  \<^verbatim>\<open>default\<close> when it is left out, the port, or 0, and the path with its slash; and the directory and
  the name of any path with a slash are joined to the path again, the name having no slash.
\<close>

lemma uri_taken_apart:
  assumes "ToLower_str pre = HDFS_PATH_START \<or> ToLower_str pre = WEBHDFS_PATH_START"
    and "set host \<inter> {CHR ''/'', CHR '':''} = {}" "\<forall>c \<in> set ds. IsDigits c" "dec_from 0 ds < 2 ^ 16"
  shows "FilePath (pre @ host @ (if ds = [] then [] else '':'' @ ds) @ ''/'' @ p) =
      \<lparr>fp_scheme = HDFS, fp_uri = pre @ host @ (if ds = [] then [] else '':'' @ ds) @ ''/'' @ p, fp_path = ''/'' @ p,
       fp_host = (if host = [] then ''default'' else host), fp_port = nat (dec_from 0 ds)\<rparr> \<and>
    (CHR ''/'' \<in> set uri \<longrightarrow> Dir uri @ ''/'' @ Name uri = uri \<and> CHR ''/'' \<notin> set (Name uri))"
proof -
  let ?nn = "host @ (if ds = [] then [] else '':'' @ ds)" and ?port = "if ds = [] then [] else '':'' @ ds"
  let ?uri = "pre @ ?nn @ ''/'' @ p"
  have lower: "ToLower_str HDFS_PATH_START = HDFS_PATH_START" "ToLower_str WEBHDFS_PATH_START = WEBHDFS_PATH_START"
    by code_simp+
  have nn: "CHR ''/'' \<notin> set ?nn" using assms(2,3) by (auto simp: IsDigits_uchar uchar_def)
  have scheme: "uri_scheme ?uri = HDFS"
    using assms(1) StartsWith_lower [of pre HDFS_PATH_START "?nn @ ''/'' @ p"]
      StartsWith_lower [of pre WEBHDFS_PATH_START "?nn @ ''/'' @ p"] unfolding lower uri_scheme_def by auto
  have size: "drop (if StartsWith ?uri HDFS_PATH_START False then 7 else 10) ?uri = ?nn @ ''/'' @ p"
  proof (cases "ToLower_str pre = HDFS_PATH_START")
    case True
    then have "StartsWith ?uri HDFS_PATH_START False" using StartsWith_lower lower(1) by metis
    moreover have "length pre = 7" using arg_cong [OF True, of length] by (simp add: HDFS_PATH_START_def ToLower_str_def)
    ultimately show ?thesis by simp
  next
    case False
    then have w: "ToLower_str pre = WEBHDFS_PATH_START" using assms(1) by blast
    have "length pre = length (ToLower_str pre)" by (simp add: ToLower_str_def)
    also have "\<dots> = 10" by (simp add: w WEBHDFS_PATH_START_def)
    finally have "length pre = 10" .
    moreover have "\<not> StartsWith ?uri HDFS_PATH_START False"
    proof -
      have "ToLower_str ?uri = WEBHDFS_PATH_START @ ToLower_str (?nn @ ''/'' @ p)" unfolding w [symmetric] by (simp add: ToLower_str_def)
      then show ?thesis
        unfolding StartsWith_norm norm_simps lower by (simp add: HDFS_PATH_START_def WEBHDFS_PATH_START_def)
    qed
    ultimately show ?thesis by simp
  qed
  have cut: "takeWhile (\<lambda>c. c \<noteq> CHR ''/'') (?nn @ ''/'' @ p) = ?nn" "dropWhile (\<lambda>c. c \<noteq> CHR ''/'') (?nn @ ''/'' @ p) = ''/'' @ p"
    using nn by (intro takeWhile_stop dropWhile_stop; auto)+
  have host: "takeWhile (\<lambda>c. c \<noteq> CHR '':'') ?nn = host" "dropWhile (\<lambda>c. c \<noteq> CHR '':'') ?nn = ?port"
    using assms(2) by (intro takeWhile_stop dropWhile_stop; auto)+
  have port: "(if CHR '':'' \<in> set ?nn then atoi_port (tl (dropWhile (\<lambda>c. c \<noteq> CHR '':'') ?nn)) else 0) = nat (dec_from 0 ds)"
  proof -
    have "CHR '':'' \<notin> set host" using assms(2) by auto
    then show ?thesis unfolding host(2) using strtol_digits [OF _ assms(3,4)] by auto
  qed
  have "CHR ''/'' \<in> set (?nn @ ''/'' @ p)" by simp
  then have "FilePath ?uri = \<lparr>fp_scheme = HDFS, fp_uri = ?uri, fp_path = ''/'' @ p,
       fp_host = (if host = [] then ''default'' else host), fp_port = nat (dec_from 0 ds)\<rparr>"
    unfolding FilePath_def FromString_def Let_def by (simp only: scheme size cut host(1) port) simp
  then show ?thesis unfolding append_assoc using Dir_Name Name_no_slash by blast
qed

theorem uri_taken_apart_witness:
  "FilePath (''HDFS://nn:9000/data/x'') = \<lparr>fp_scheme = HDFS, fp_uri = ''HDFS://nn:9000/data/x'', fp_path = ''/data/x'',
     fp_host = ''nn'', fp_port = 9000\<rparr>"
proof -
  have "dec_from 0 ''9000'' = 9000" "ToLower_str ''HDFS://'' = HDFS_PATH_START" "\<forall>c \<in> set ''9000''. IsDigits c" by code_simp+
  then show ?thesis using uri_taken_apart [of "''HDFS://''" "''nn''" "''9000''" "''data/x''" "[]"] by simp
qed

text \<open>Reading a second URI into the same object keeps the host of the first, and the path of a database URI is
  left as it was.\<close>

lemma host_kept:
  "fp_host (snd (FromString ''/tmp/x'' (FilePath ''hdfs://nn/x''))) = ''nn'' \<and> fp_path (FilePath ''mysql://db/t'') = []"
  by code_simp

end
