(* ===== verification/Rotating_Files.thy ===== *)
theory Rotating_Files
  imports Log_Files File_Paths "HOL-Library.Multiset"
begin

text \<open>
  \<^verbatim>\<open>rotating_files.h\<close>: files with increasing numbers in one directory, of which the last is written until it
  has reached its size. The directory is the list of its regular files as in \<open>Log_Files\<close>; the files are kept
  by their paths. The order in which \<^verbatim>\<open>std::sort\<close> leaves the files is an argument of the constructor that
  its comparison has to allow. A file holds what has been written to its stream, whether or not the stream has
  been flushed; whether a file opens and whether the directory is there or can be made are arguments.
\<close>

section \<open>The names\<close>

record name_generator =
  ng_prefix :: string
  ng_fid :: int

text \<open>\<^verbatim>\<open>TryParseFileName\<close>, with the number it leaves in its argument; no result when the number overflows.\<close>

definition TryParseFileName :: "string \<Rightarrow> string \<Rightarrow> int \<Rightarrow> (bool \<times> int) option" where
  "TryParseFileName pre fname idx =
     (if length fname < length pre then Some (False, idx)
      else if take (length pre) fname \<noteq> pre then Some (False, idx)
      else let suffix = drop (length pre) fname
           in map_option (\<lambda>(r, idx). (r = length suffix, idx)) (ParseInt64 suffix idx))"

definition GetNextFileName :: "name_generator \<Rightarrow> (string \<times> name_generator) option" where
  "GetNextFileName g =
     (if in_range 64 (ng_fid g + 1) then Some (ng_prefix g @ PrintUintToBuffer (ng_fid g), g\<lparr>ng_fid := ng_fid g + 1\<rparr>)
      else None)"

text \<open>The second call parses the left name again.\<close>

definition NameCompareLess :: "string \<Rightarrow> string \<Rightarrow> string \<Rightarrow> bool option" where
  "NameCompareLess pre lhs rhs =
     Option.bind (TryParseFileName pre lhs 0) (\<lambda>(_, a).
       map_option (\<lambda>(_, a). a < 0) (TryParseFileName pre lhs a))"

definition IsMyFile :: "string \<Rightarrow> string \<Rightarrow> bool option" where
  "IsMyFile pre fname = map_option fst (TryParseFileName pre fname 0)"

fun check_loop :: "string \<Rightarrow> string list \<Rightarrow> int \<Rightarrow> string list \<Rightarrow> (int \<times> string list) option" where
  "check_loop pre [] fid ret = Some (fid, ret)"
| "check_loop pre (f # fs) fid ret =
     (case TryParseFileName pre f 0 of
        None \<Rightarrow> None
      | Some (False, _) \<Rightarrow> check_loop pre fs fid ret
      | Some (True, idx) \<Rightarrow> check_loop pre fs (max fid idx) (ret @ [f]))"

definition CheckFileNamesAndInit :: "string list \<Rightarrow> name_generator \<Rightarrow> (string list \<times> name_generator) option" where
  "CheckFileNamesAndInit files g =
     Option.bind (check_loop (ng_prefix g) files (- 1) []) (\<lambda>(fid, ret).
       if in_range 64 (fid + 1) then Some (ret, g\<lparr>ng_fid := fid + 1\<rparr>) else None)"

definition ShouldDelete :: "string \<Rightarrow> bool" where
  "ShouldDelete files = False"

section \<open>The files\<close>

datatype rotating_error = CreateDirFailed string | OpenFailed string | NumberOverflow

record rotating_files =
  rf_dirname :: string
  rf_gen :: name_generator
  rf_max :: nat
  rf_paths :: "string list"
  rf_curr :: string
  rf_size :: nat
  rf_dir :: directory

definition GetFullPath :: "string \<Rightarrow> string \<Rightarrow> string" where
  "GetFullPath dirname name = dirname @ PathSeparater @ name"

text \<open>A file that is opened is emptied, or made.\<close>

definition open_trunc :: "string \<Rightarrow> directory \<Rightarrow> directory" where
  "open_trunc name dir =
     (if name \<in> fst ` set dir then map (\<lambda>(n, c). (n, if n = name then [] else c)) dir else dir @ [(name, [])])"

definition OpenNewFileNoLock :: "(string \<Rightarrow> bool) \<Rightarrow> rotating_files \<Rightarrow> rotating_error + rotating_files" where
  "OpenNewFileNoLock can_open s =
     (case GetNextFileName (rf_gen s) of
        None \<Rightarrow> Inl NumberOverflow
      | Some (name, g) \<Rightarrow>
          let path = GetFullPath (rf_dirname s) name in
          if \<not> can_open path then Inl (OpenFailed path)
          else Inr (s\<lparr>rf_gen := g, rf_dir := open_trunc name (rf_dir s), rf_curr := name, rf_size := 0,
                      rf_paths := rf_paths s @ [path]\<rparr>))"

definition RotatingFiles_Write :: "(string \<Rightarrow> bool) \<Rightarrow> string \<Rightarrow> rotating_files \<Rightarrow> rotating_error + rotating_files" where
  "RotatingFiles_Write can_open msg s =
     (let s = s\<lparr>rf_dir := append_file (rf_curr s) msg (rf_dir s), rf_size := rf_size s + length msg\<rparr>
      in if rf_size s \<ge> rf_max s then OpenNewFileNoLock can_open s else Inr s)"

definition DeleteExistingFiles :: "(string \<Rightarrow> bool) \<Rightarrow> rotating_files \<Rightarrow> rotating_error + rotating_files" where
  "DeleteExistingFiles can_open s =
     OpenNewFileNoLock can_open
       (s\<lparr>rf_dir := filter (\<lambda>(n, c). GetFullPath (rf_dirname s) n \<notin> set (rf_paths s)) (rf_dir s), rf_paths := []\<rparr>)"

definition RotatingFiles_ListFiles :: "rotating_files \<Rightarrow> string list" where
  "RotatingFiles_ListFiles s = rf_paths s"

text \<open>What \<^verbatim>\<open>std::sort\<close> may return: a rearrangement in which nothing is less than something before it.\<close>

definition sort_allows :: "('x \<Rightarrow> 'x \<Rightarrow> bool) \<Rightarrow> 'x list \<Rightarrow> 'x list \<Rightarrow> bool" where
  "sort_allows lt xs ys \<longleftrightarrow> mset ys = mset xs \<and> sorted_wrt (\<lambda>a b. \<not> lt b a) ys"

definition RotatingFiles ::
  "(string \<Rightarrow> bool) \<Rightarrow> (string \<Rightarrow> bool) \<Rightarrow> (string \<Rightarrow> bool) \<Rightarrow> string \<Rightarrow> string \<Rightarrow> nat \<Rightarrow> directory \<Rightarrow>
    (string list \<Rightarrow> string list) \<Rightarrow> rotating_error + rotating_files" where
  "RotatingFiles can_open is_dir mkdir dirname pre max_file_size dir srt =
     (if \<not> is_dir dirname \<and> \<not> mkdir dirname then Inl (CreateDirFailed dirname)
      else case CheckFileNamesAndInit (map fst dir) \<lparr>ng_prefix = pre, ng_fid = 0\<rparr> of
        None \<Rightarrow> Inl NumberOverflow
      | Some (files, g) \<Rightarrow>
          OpenNewFileNoLock can_open
            \<lparr>rf_dirname = dirname, rf_gen = g, rf_max = max_file_size, rf_paths = map (GetFullPath dirname) (srt files),
             rf_curr = [], rf_size = 0, rf_dir = dir\<rparr>)"

fun write_files :: "(string \<Rightarrow> bool) \<Rightarrow> string list \<Rightarrow> rotating_files \<Rightarrow> rotating_error + rotating_files" where
  "write_files can_open [] s = Inr s"
| "write_files can_open (m # ms) s =
     (case RotatingFiles_Write can_open m s of Inl e \<Rightarrow> Inl e | Inr s \<Rightarrow> write_files can_open ms s)"

section \<open>Names and numbers\<close>

definition file_name :: "string \<Rightarrow> int \<Rightarrow> string" where
  "file_name pre i = pre @ PrintUintToBuffer i"

lemma TryParse_name:
  assumes "0 \<le> i" "i \<le> int_max 64"
  shows "TryParseFileName pre (file_name pre i) d = Some (True, i)"
proof -
  note u = PrintUint_nonempty [OF assms(1)] PrintUint_digits [OF assms(1)] PrintUint_value [OF assms(1)]
  have "ParseInt64 (PrintUintToBuffer i) d = Some (length (PrintUintToBuffer i), i)"
    using ParseInt64_signed_digits [OF u(1,2), of "[]" False d] u(3) assms(2) by simp
  then show ?thesis by (simp add: TryParseFileName_def file_name_def)
qed

lemma file_name_inject:
  assumes "0 \<le> i" "0 \<le> j"
  shows "file_name pre i = file_name pre j \<longleftrightarrow> i = j"
proof
  assume "file_name pre i = file_name pre j"
  then have "PrintUintToBuffer i = PrintUintToBuffer j" by (simp add: file_name_def)
  then show "i = j" using PrintUint_value [OF assms(1)] PrintUint_value [OF assms(2)] by metis
qed simp

lemma check_loop_Cons:
  "check_loop pre (f # fs) fid ret = Some res \<Longrightarrow>
     (\<exists>i. TryParseFileName pre f 0 = Some (False, i) \<and> check_loop pre fs fid ret = Some res) \<or>
     (\<exists>i. TryParseFileName pre f 0 = Some (True, i) \<and> check_loop pre fs (max fid i) (ret @ [f]) = Some res)"
  by (cases "TryParseFileName pre f 0") (auto split: bool.splits)

lemma check_loop_ge: "check_loop pre fs fid ret = Some (fid', ret') \<Longrightarrow> fid \<le> fid'"
proof (induction fs arbitrary: fid ret)
  case (Cons f fs)
  from check_loop_Cons [OF Cons.prems] show ?case
  proof (elim disjE exE conjE)
    fix i
    assume "check_loop pre fs (max fid i) (ret @ [f]) = Some (fid', ret')"
    from Cons.IH [OF this] show ?thesis by simp
  qed (rule Cons.IH)
qed simp

lemma check_loop_max:
  "check_loop pre fs fid ret = Some (fid', ret') \<Longrightarrow> f \<in> set fs \<Longrightarrow> TryParseFileName pre f 0 = Some (True, i) \<Longrightarrow> i \<le> fid'"
proof (induction fs arbitrary: fid ret)
  case (Cons g fs)
  show ?case
  proof (cases "f = g")
    case True
    then have "check_loop pre fs (max fid i) (ret @ [g]) = Some (fid', ret')" using Cons.prems by simp
    from check_loop_ge [OF this] show ?thesis by simp
  next
    case False
    then have "f \<in> set fs" using Cons.prems(2) by simp
    then show ?thesis using check_loop_Cons [OF Cons.prems(1)] Cons.IH Cons.prems(3) by blast
  qed
qed simp

lemma fresh_names:
  assumes "CheckFileNamesAndInit (map fst dir) \<lparr>ng_prefix = pre, ng_fid = 0\<rparr> = Some (files, g)"
  shows "ng_prefix g = pre" "0 \<le> ng_fid g" "\<And>i. ng_fid g \<le> i \<Longrightarrow> i \<le> int_max 64 \<Longrightarrow> file_name pre i \<notin> fst ` set dir"
proof -
  obtain fid where f: "check_loop pre (map fst dir) (- 1) [] = Some (fid, files)" "g = \<lparr>ng_prefix = pre, ng_fid = fid + 1\<rparr>"
    using assms by (auto simp: CheckFileNamesAndInit_def split: Option.bind_splits if_splits)
  show "ng_prefix g = pre" by (simp add: f(2))
  have "- 1 \<le> fid" using check_loop_ge [OF f(1)] .
  then show "0 \<le> ng_fid g" by (simp add: f(2))
  show "file_name pre i \<notin> fst ` set dir" if "ng_fid g \<le> i" "i \<le> int_max 64" for i
  proof
    assume "file_name pre i \<in> fst ` set dir"
    then have "i \<le> fid"
      using check_loop_max [OF f(1), of "file_name pre i" i] TryParse_name [of i pre 0] that \<open>- 1 \<le> fid\<close> by (simp add: f(2))
    then show False using that by (simp add: f(2))
  qed
qed

text \<open>The files made since the start, with the numbers from \<open>n\<close> on.\<close>

fun numbered :: "string \<Rightarrow> int \<Rightarrow> string list \<Rightarrow> directory" where
  "numbered pre n [] = []"
| "numbered pre n (c # cs) = (file_name pre n, c) # numbered pre (n + 1) cs"

lemma numbered_append: "numbered pre n (cs @ ds) = numbered pre n cs @ numbered pre (n + int (length cs)) ds"
  by (induction cs arbitrary: n) (simp_all add: algebra_simps)

lemma numbered_names: "x \<in> fst ` set (numbered pre n cs) \<Longrightarrow> \<exists>i. n \<le> i \<and> i < n + int (length cs) \<and> x = file_name pre i"
proof (induction cs arbitrary: n)
  case (Cons c cs)
  show ?case
  proof (cases "x = file_name pre n")
    case False
    then obtain i where "n + 1 \<le> i" "i < n + 1 + int (length cs)" "x = file_name pre i" using Cons by auto
    then show ?thesis by (intro exI [of _ i]) auto
  qed auto
qed simp

definition files_inv :: "string \<Rightarrow> nat \<Rightarrow> string \<Rightarrow> string list \<Rightarrow> directory \<Rightarrow> int \<Rightarrow> string list \<Rightarrow> rotating_files \<Rightarrow> bool" where
  "files_inv dirname mx pre old dir0 n0 cs s \<longleftrightarrow>
     cs \<noteq> [] \<and> rf_dirname s = dirname \<and> rf_max s = mx \<and> rf_gen s = \<lparr>ng_prefix = pre, ng_fid = n0 + int (length cs)\<rparr> \<and>
     rf_dir s = dir0 @ numbered pre n0 cs \<and> rf_curr s = file_name pre (n0 + int (length cs) - 1) \<and>
     rf_size s = length (last cs) \<and> rf_paths s = old @ map (GetFullPath dirname \<circ> fst) (numbered pre n0 cs) \<and>
     (\<forall>c \<in> set (butlast cs). mx \<le> length c) \<and> (length (last cs) < mx \<or> last cs = [])"

lemma append_other: "x \<notin> fst ` set d \<Longrightarrow> append_file x p d = d"
proof (induction d)
  case (Cons nc d)
  then show ?case by (cases nc) (auto simp: append_file_def)
qed (simp add: append_file_def)

lemma append_last:
  assumes "cs \<noteq> []" "0 \<le> n0" "file_name pre (n0 + int (length cs) - 1) \<notin> fst ` set dir0"
  shows "append_file (file_name pre (n0 + int (length cs) - 1)) p (dir0 @ numbered pre n0 cs) =
    dir0 @ numbered pre n0 (butlast cs @ [last cs @ p])"
proof -
  let ?n = "file_name pre (n0 + int (length cs) - 1)"
  have keep: "append_file ?n p d = d" if "?n \<notin> fst ` set d" for d
    using that by (rule append_other)
  have bl: "n0 + int (length (butlast cs)) = n0 + int (length cs) - 1" using assms(1) by (cases cs) simp_all
  have "?n \<notin> fst ` set (numbered pre n0 (butlast cs))"
  proof
    assume "?n \<in> fst ` set (numbered pre n0 (butlast cs))"
    from numbered_names [OF this] obtain i
      where i: "n0 \<le> i" "i < n0 + int (length (butlast cs))" "?n = file_name pre i" by blast
    then show False using file_name_inject [of "n0 + int (length cs) - 1" i pre] assms(2) bl by simp
  qed
  then have k: "append_file ?n p (numbered pre n0 (butlast cs)) = numbered pre n0 (butlast cs)" by (rule keep)
  have app: "append_file ?n p (d @ e) = append_file ?n p d @ append_file ?n p e" for d e by (simp add: append_file_def)
  have "numbered pre n0 cs = numbered pre n0 (butlast cs) @ [(?n, last cs)]"
    using numbered_append [of pre n0 "butlast cs" "[last cs]"] unfolding bl append_butlast_last_id [OF assms(1)] by simp
  moreover have "numbered pre n0 (butlast cs @ [last cs @ p]) = numbered pre n0 (butlast cs) @ [(?n, last cs @ p)]"
    using numbered_append [of pre n0 "butlast cs" "[last cs @ p]"] unfolding bl by simp
  moreover have "append_file ?n p [(?n, last cs)] = [(?n, last cs @ p)]" by (simp add: append_file_def)
  ultimately show ?thesis using app k keep [OF assms(3)] by simp
qed

lemma open_new_inv:
  assumes base: "rf_dirname s = dirname" "rf_max s = mx" "rf_gen s = \<lparr>ng_prefix = pre, ng_fid = n0 + int (length cs)\<rparr>"
      "rf_dir s = dir0 @ numbered pre n0 cs" "rf_paths s = old @ map (GetFullPath dirname \<circ> fst) (numbered pre n0 cs)"
    and n0: "0 \<le> n0" "n0 + int (length cs) < int_max 64"
    and fresh: "\<And>i. n0 \<le> i \<Longrightarrow> i \<le> int_max 64 \<Longrightarrow> file_name pre i \<notin> fst ` set dir0"
    and full: "\<forall>c \<in> set cs. mx \<le> length c" and ok: "\<forall>p. can_open p"
  shows "\<exists>s'. OpenNewFileNoLock can_open s = Inr s' \<and> files_inv dirname mx pre old dir0 n0 (cs @ [[]]) s'"
proof -
  let ?i = "n0 + int (length cs)"
  have r: "in_range 64 (?i + 1)" using n0 by (simp add: int_max_def)
  have "file_name pre ?i \<notin> fst ` set (numbered pre n0 cs)"
  proof
    assume "file_name pre ?i \<in> fst ` set (numbered pre n0 cs)"
    then obtain j where "n0 \<le> j" "j < ?i" "file_name pre ?i = file_name pre j" using numbered_names by blast
    then show False using file_name_inject [of ?i j pre] n0(1) by simp
  qed
  then have new: "file_name pre ?i \<notin> fst ` set (rf_dir s)" using fresh [of ?i] n0 base(4) by auto
  let ?s = "s\<lparr>rf_gen := \<lparr>ng_prefix = pre, ng_fid = ?i + 1\<rparr>, rf_dir := rf_dir s @ [(file_name pre ?i, [])],
    rf_curr := file_name pre ?i, rf_size := 0, rf_paths := rf_paths s @ [GetFullPath dirname (file_name pre ?i)]\<rparr>"
  have "OpenNewFileNoLock can_open s = Inr ?s"
    using r new ok base(1,3) by (simp add: OpenNewFileNoLock_def GetNextFileName_def open_trunc_def file_name_def Let_def)
  moreover have "files_inv dirname mx pre old dir0 n0 (cs @ [[]]) ?s"
    using base full numbered_append [of pre n0 cs "[[]]"] by (simp add: files_inv_def algebra_simps)
  ultimately show ?thesis by blast
qed

lemma write_inv:
  assumes inv: "files_inv dirname mx pre old dir0 n0 cs s"
    and n0: "0 \<le> n0" "n0 + int (length cs) < int_max 64"
    and fresh: "\<And>i. n0 \<le> i \<Longrightarrow> i \<le> int_max 64 \<Longrightarrow> file_name pre i \<notin> fst ` set dir0" and ok: "\<forall>p. can_open p"
  shows "\<exists>s' cs'. RotatingFiles_Write can_open m s = Inr s' \<and> files_inv dirname mx pre old dir0 n0 cs' s' \<and>
    concat cs' = concat cs @ m \<and> length cs' \<le> length cs + 1"
proof -
  let ?cs = "butlast cs @ [last cs @ m]"
  have cs: "cs \<noteq> []" "0 < length cs" using inv by (auto simp: files_inv_def)
  have len: "length ?cs = length cs" using cs(2) by simp
  have cat: "concat ?cs = concat cs @ m" using append_butlast_last_id [OF cs(1)] by (metis append.assoc concat.simps(1,2) concat_append append_Nil2)
  let ?s = "s\<lparr>rf_dir := append_file (rf_curr s) m (rf_dir s), rf_size := rf_size s + length m\<rparr>"
  have names: "map fst (numbered pre n0 ?cs) = map fst (numbered pre n0 cs)"
  proof -
    have "length as = length bs \<Longrightarrow> map fst (numbered pre n as) = map fst (numbered pre n bs)" for as bs n
      by (induction as bs arbitrary: n rule: list_induct2) simp_all
    then show ?thesis using len by blast
  qed
  have "file_name pre (n0 + int (length cs) - 1) \<notin> fst ` set dir0" using fresh [of "n0 + int (length cs) - 1"] n0 cs(2) by simp
  from append_last [OF cs(1) n0(1) this, of m]
  have dir: "rf_dir ?s = dir0 @ numbered pre n0 ?cs" using inv by (simp add: files_inv_def)
  have paths: "map (GetFullPath dirname \<circ> fst) (numbered pre n0 cs) = map (GetFullPath dirname \<circ> fst) (numbered pre n0 ?cs)"
    using names by (metis map_map)
  show ?thesis
  proof (cases "rf_size ?s \<ge> mx")
    case True
    have "\<forall>c \<in> set ?cs. mx \<le> length c" using inv True by (auto simp: files_inv_def)
    then have "\<exists>s'. OpenNewFileNoLock can_open ?s = Inr s' \<and> files_inv dirname mx pre old dir0 n0 (?cs @ [[]]) s'"
      using inv dir paths len n0 fresh ok by (intro open_new_inv) (simp_all add: files_inv_def)
    then obtain s' where "OpenNewFileNoLock can_open ?s = Inr s'" "files_inv dirname mx pre old dir0 n0 (?cs @ [[]]) s'" by blast
    moreover have "RotatingFiles_Write can_open m s = OpenNewFileNoLock can_open ?s"
      using True inv by (simp add: RotatingFiles_Write_def Let_def files_inv_def)
    moreover have "concat (?cs @ [[]]) = concat cs @ m" "length (?cs @ [[]]) \<le> length cs + 1" using cat len by simp_all
    ultimately show ?thesis by metis
  next
    case False
    have "files_inv dirname mx pre old dir0 n0 ?cs ?s"
      using inv dir paths len False by (simp add: files_inv_def)
    moreover have "RotatingFiles_Write can_open m s = Inr ?s"
      using False inv by (simp add: RotatingFiles_Write_def Let_def files_inv_def)
    moreover have "length ?cs \<le> length cs + 1" using len by simp
    ultimately show ?thesis using cat by metis
  qed
qed

lemma write_files_inv:
  assumes "files_inv dirname mx pre old dir0 n0 cs s" "0 \<le> n0" "n0 + int (length cs) + int (length ms) < int_max 64"
    and "\<And>i. n0 \<le> i \<Longrightarrow> i \<le> int_max 64 \<Longrightarrow> file_name pre i \<notin> fst ` set dir0" "\<forall>p. can_open p"
  shows "\<exists>s' cs'. write_files can_open ms s = Inr s' \<and> files_inv dirname mx pre old dir0 n0 cs' s' \<and> concat cs' = concat cs @ concat ms"
  using assms(1,3)
proof (induction ms arbitrary: cs s)
  case (Cons m ms)
  have lt: "n0 + int (length cs) < int_max 64" using Cons.prems(2) by simp
  obtain t cs1 where t: "RotatingFiles_Write can_open m s = Inr t" "files_inv dirname mx pre old dir0 n0 cs1 t"
      "concat cs1 = concat cs @ m" "length cs1 \<le> length cs + 1"
    using write_inv [OF Cons.prems(1) assms(2) lt assms(4,5), where m = m] by blast
  moreover have "n0 + int (length cs1) + int (length ms) < int_max 64" using Cons.prems(2) t(4) by simp
  ultimately show ?case using Cons.IH [OF t(2)] by simp
qed auto

section \<open>Properties\<close>


definition old_files :: directory where
  "old_files = [(''wal10'', ''x''), (''notes'', ''n''), (''wal2'', ''y'')]"


text \<open>The comparison of the names never holds for two files with numbers that are not negative, so sorting may
  leave them in any order; a file whose name is the prefix alone counts as number 0.\<close>

lemma names_not_compared:
  "NameCompareLess ''wal'' ''wal2'' ''wal10'' = Some False \<and>
    sort_allows (\<lambda>a b. the (NameCompareLess ''wal'' a b)) [''wal2'', ''wal10''] [''wal10'', ''wal2''] \<and>
    IsMyFile ''wal'' ''wal'' = Some True"
proof (intro conjI)
  show "sort_allows (\<lambda>a b. the (NameCompareLess ''wal'' a b)) [''wal2'', ''wal10''] [''wal10'', ''wal2'']"
  proof -
    have "NameCompareLess ''wal'' ''wal2'' ''wal10'' = Some False" by code_simp
    then show ?thesis by (simp add: sort_allows_def)
  qed
qed code_simp+

end
