(* ===== verification/File_Streams.thy ===== *)
theory File_Streams
  imports Stream_Buffers File_Paths
begin

text \<open>
  \<^verbatim>\<open>file_stream.h\<close>, \<^verbatim>\<open>local_file_stream.h\<close>, \<^verbatim>\<open>piped_hdfs_stream.h\<close>, \<^verbatim>\<open>buffered_file_stream.h\<close> and
  \<^verbatim>\<open>fma_stream.h\<close>: files in memory, files on disk with and without a buffer, and the streams that choose by
  the scheme of a URI. The files are a map from paths to contents; a file does not change while it is open for
  reading, and the disk has room for what is written. No result (\<^const>\<open>None\<close>) stands for an exception, for a
  program that aborts, for a null or uninitialised pointer that is followed, and for two threads that use one stream at the same time.
\<close>

type_synonym files = "string \<Rightarrow> string option"

section \<open>Files in memory\<close>

record memory_file =
  mf_data :: string
  mf_offset :: nat

definition InputMemoryFileStream :: "string \<Rightarrow> memory_file" where
  "InputMemoryFileStream str = \<lparr>mf_data = str, mf_offset = 0\<rparr>"

definition MemFile_Read :: "nat \<Rightarrow> memory_file \<Rightarrow> string \<times> memory_file" where
  "MemFile_Read n s =
     (if mf_offset s \<ge> length (mf_data s) then ([], s)
      else let rs = min (length (mf_data s) - mf_offset s) n
           in (take rs (drop (mf_offset s) (mf_data s)), s\<lparr>mf_offset := mf_offset s + rs\<rparr>))"

definition MemFile_Good :: "memory_file \<Rightarrow> bool" where
  "MemFile_Good s \<longleftrightarrow> mf_offset s < length (mf_data s)"

definition MemFile_Close :: "memory_file \<Rightarrow> memory_file" where
  "MemFile_Close s = \<lparr>mf_data = [], mf_offset = 0\<rparr>"

definition MemFile_Seek :: "nat \<Rightarrow> memory_file \<Rightarrow> bool \<times> memory_file" where
  "MemFile_Seek offset s =
     (if offset \<le> length (mf_data s) then (True, s\<lparr>mf_offset := offset\<rparr>) else (False, s))"

record memory_output =
  mo_path :: string
  mo_buffer :: string

definition OutputMemoryFileStream_Open :: "string \<Rightarrow> memory_output \<Rightarrow> memory_output" where
  "OutputMemoryFileStream_Open path s = s\<lparr>mo_path := path, mo_buffer := []\<rparr>"

definition OutputMemoryFileStream_Write :: "string \<Rightarrow> memory_output \<Rightarrow> memory_output" where
  "OutputMemoryFileStream_Write data s = s\<lparr>mo_buffer := mo_buffer s @ data\<rparr>"

definition OutputMemoryFileStream_Close :: "memory_output \<Rightarrow> memory_output" where
  "OutputMemoryFileStream_Close s = s\<lparr>mo_buffer := []\<rparr>"

section \<open>UnbufferedInputLocalFileStream\<close>

text \<open>\<open>li_fail\<close> is the state of the \<^verbatim>\<open>ifstream\<close> after a read that met the end of the file.\<close>

record local_input =
  li_path :: string
  li_file :: "string option"
  li_pos :: nat
  li_fail :: bool
  li_size :: nat

definition LocalIn_Close :: "local_input \<Rightarrow> local_input" where
  "LocalIn_Close s = s\<lparr>li_path := [], li_file := None, li_size := 0\<rparr>"

definition LocalIn_Open :: "files \<Rightarrow> string \<Rightarrow> local_input \<Rightarrow> local_input" where
  "LocalIn_Open fs path s =
     (case fs path of
        None \<Rightarrow> LocalIn_Close s
      | Some text \<Rightarrow> \<lparr>li_path = path, li_file = Some text, li_pos = 0, li_fail = False, li_size = length text\<rparr>)"

definition LocalIn_IsOpen :: "local_input \<Rightarrow> bool" where
  "LocalIn_IsOpen s \<longleftrightarrow> li_file s \<noteq> None"

text \<open>\<^verbatim>\<open>read\<close> does nothing on a stream that is not good; a read that gets less than it asked for sets the flags.\<close>

definition LocalIn_Read :: "nat \<Rightarrow> local_input \<Rightarrow> (string \<times> local_input) option" where
  "LocalIn_Read n s =
     (case li_file s of
        None \<Rightarrow> None
      | Some text \<Rightarrow>
          if li_fail s then Some ([], s)
          else let data = take n (drop (li_pos s) text)
               in Some (data, s\<lparr>li_pos := li_pos s + length data, li_fail := length data < n\<rparr>))"

definition LocalIn_Good :: "local_input \<Rightarrow> bool" where
  "LocalIn_Good s \<longleftrightarrow> li_file s \<noteq> None \<and> \<not> li_fail s"

definition LocalIn_Size :: "local_input \<Rightarrow> nat option" where
  "LocalIn_Size s = (if LocalIn_IsOpen s then Some (li_size s) else None)"

text \<open>\<open>lim\<close> is the greatest offset that the file system can seek to.\<close>

definition LocalIn_Seek :: "nat \<Rightarrow> nat \<Rightarrow> local_input \<Rightarrow> (bool \<times> local_input) option" where
  "LocalIn_Seek lim offset s =
     (if \<not> LocalIn_IsOpen s then None
      else if offset \<le> lim then Some (True, s\<lparr>li_pos := offset, li_fail := False\<rparr>)
      else Some (False, s\<lparr>li_fail := True\<rparr>))"

text \<open>\<^verbatim>\<open>tellg\<close> of a stream that has failed is -1.\<close>

definition LocalIn_Offset :: "local_input \<Rightarrow> nat option" where
  "LocalIn_Offset s =
     (if \<not> LocalIn_IsOpen s then None else Some (if li_fail s then 2 ^ 64 - 1 else li_pos s))"

section \<open>UnbufferedInputHdfsStream\<close>

text \<open>The command that prints the file is a parameter, with the size that \<^verbatim>\<open>-ls\<close> tells and the bytes that come
  through the pipe; what is left of them is \<open>hi_pipe\<close>.\<close>

record hdfs_input =
  hi_pipe :: "string option"
  hi_size :: nat
  hi_path :: string
  hi_read_bytes :: nat

definition HdfsIn_Open :: "(string \<Rightarrow> nat option) \<Rightarrow> (string \<Rightarrow> string) \<Rightarrow> string \<Rightarrow> hdfs_input \<Rightarrow> hdfs_input" where
  "HdfsIn_Open file_size cat path s =
     (case file_size path of
        None \<Rightarrow> s\<lparr>hi_size := 0\<rparr>
      | Some n \<Rightarrow> \<lparr>hi_pipe = Some (cat path), hi_size = n, hi_path = path, hi_read_bytes = 0\<rparr>)"

definition HdfsIn_Read :: "nat \<Rightarrow> hdfs_input \<Rightarrow> (string \<times> hdfs_input) option" where
  "HdfsIn_Read n s =
     (case hi_pipe s of
        None \<Rightarrow> None
      | Some text \<Rightarrow> Some (take n text, s\<lparr>hi_pipe := Some (drop n text), hi_read_bytes := hi_read_bytes s + length (take n text)\<rparr>))"

definition HdfsIn_Good :: "hdfs_input \<Rightarrow> bool" where
  "HdfsIn_Good s \<longleftrightarrow> hi_pipe s \<noteq> None"

definition HdfsIn_Close :: "hdfs_input \<Rightarrow> hdfs_input" where
  "HdfsIn_Close s =
     (if hi_pipe s = None then s else \<lparr>hi_pipe = None, hi_size = 0, hi_path = [], hi_read_bytes = 0\<rparr>)"

definition HdfsIn_Seek :: "nat \<Rightarrow> hdfs_input \<Rightarrow> (bool \<times> hdfs_input) option" where
  "HdfsIn_Seek offset s = None"

section \<open>InputBufferedFileStream\<close>

text \<open>The member functions of the class \<^verbatim>\<open>StreamT\<close>. The prefetching stage reads the stream only while it is open.\<close>

record 's stream_ops =
  so_open :: "string \<Rightarrow> 's \<Rightarrow> 's"
  so_read :: "nat \<Rightarrow> 's \<Rightarrow> (string \<times> 's) option"
  so_good :: "'s \<Rightarrow> bool"
  so_seek :: "nat \<Rightarrow> 's \<Rightarrow> (bool \<times> 's) option"
  so_size :: "'s \<Rightarrow> nat option"
  so_close :: "'s \<Rightarrow> 's"

definition local_ops :: "files \<Rightarrow> nat \<Rightarrow> local_input stream_ops" where
  "local_ops fs lim =
     \<lparr>so_open = LocalIn_Open fs, so_read = LocalIn_Read, so_good = LocalIn_Good, so_seek = LocalIn_Seek lim,
      so_size = LocalIn_Size, so_close = LocalIn_Close\<rparr>"

definition hdfs_ops :: "(string \<Rightarrow> nat option) \<Rightarrow> (string \<Rightarrow> string) \<Rightarrow> hdfs_input stream_ops" where
  "hdfs_ops file_size cat =
     \<lparr>so_open = HdfsIn_Open file_size cat, so_read = HdfsIn_Read, so_good = HdfsIn_Good, so_seek = HdfsIn_Seek,
      so_size = (\<lambda>s. Some (hi_size s)), so_close = HdfsIn_Close\<rparr>"

definition total_read :: "(nat \<Rightarrow> 's \<Rightarrow> (string \<times> 's) option) \<Rightarrow> nat \<Rightarrow> 's \<Rightarrow> string \<times> 's" where
  "total_read rd n s = (case rd n s of None \<Rightarrow> ([], s) | Some r \<Rightarrow> r)"

text \<open>The buffer and the class share one stream object: its state is in the buffer once that has been opened.
  A buffer that has never been opened has no pointer to a stream yet.\<close>

record 's input_file =
  if_stream :: 's
  if_buffer :: "'s prefetch_buffer option"
  if_buf_size :: nat

definition cur_stream :: "'s input_file \<Rightarrow> 's" where
  "cur_stream f =
     (case if_buffer f of None \<Rightarrow> if_stream f
      | Some b \<Rightarrow> (case pf_stream b of None \<Rightarrow> if_stream f | Some s \<Rightarrow> s))"

definition the_buffer :: "'s input_file \<Rightarrow> 's prefetch_buffer" where
  "the_buffer f = (case if_buffer f of None \<Rightarrow> prefetch_null | Some b \<Rightarrow> b)"

text \<open>Opening again without closing replaces the file while the prefetching thread may be reading it.\<close>

definition InputFile_Open :: "'s stream_ops \<Rightarrow> string \<Rightarrow> nat \<Rightarrow> 's input_file \<Rightarrow> 's input_file option" where
  "InputFile_Open ops path buf_size f =
     (if pf_running (the_buffer f) then None
      else let s = so_open ops path (cur_stream f) in
        if so_good ops s then
          map_option (\<lambda>n. f\<lparr>if_stream := s, if_buf_size := buf_size,
              if_buffer := Some (Prefetch_Open (total_read (so_read ops)) (so_good ops) s (min buf_size n) (the_buffer f))\<rparr>)
            (so_size ops s)
        else Some (f\<lparr>if_stream := s, if_buf_size := buf_size,
              if_buffer := map_option (\<lambda>b. b\<lparr>pf_stream := Some s\<rparr>) (if_buffer f)\<rparr>))"

definition InputFile_Read :: "'s stream_ops \<Rightarrow> nat \<Rightarrow> 's input_file \<Rightarrow> (string \<times> 's input_file) option" where
  "InputFile_Read ops n f =
     (case if_buffer f of
        None \<Rightarrow> None
      | Some b \<Rightarrow> map_option (\<lambda>(data, b). (data, f\<lparr>if_buffer := Some b\<rparr>)) (Prefetch_Read (total_read (so_read ops)) n b))"

definition InputFile_Good :: "'s input_file \<Rightarrow> bool" where
  "InputFile_Good f = Prefetch_Good (the_buffer f)"

definition InputFile_Close :: "'s stream_ops \<Rightarrow> 's input_file \<Rightarrow> 's input_file" where
  "InputFile_Close ops f =
     (let s = so_close ops (cur_stream f) in
      f\<lparr>if_stream := s, if_buf_size := 0,
        if_buffer := map_option (\<lambda>b. (Prefetch_Close b)\<lparr>pf_stream := Some s\<rparr>) (if_buffer f)\<rparr>)"

definition InputFile_Seek :: "'s stream_ops \<Rightarrow> nat \<Rightarrow> 's input_file \<Rightarrow> (bool \<times> 's input_file) option" where
  "InputFile_Seek ops offset f =
     (let b = Prefetch_Close (the_buffer f) in
      case so_seek ops offset (cur_stream f) of
        None \<Rightarrow> None
      | Some (False, s) \<Rightarrow>
          Some (False, f\<lparr>if_stream := s, if_buffer := map_option (\<lambda>_. b\<lparr>pf_stream := Some s\<rparr>) (if_buffer f)\<rparr>)
      | Some (True, s) \<Rightarrow>
          Some (True, f\<lparr>if_stream := s,
            if_buffer := Some (Prefetch_Open (total_read (so_read ops)) (so_good ops) s (if_buf_size f) b)\<rparr>))"

definition InputFile_Size :: "'s stream_ops \<Rightarrow> 's input_file \<Rightarrow> nat option" where
  "InputFile_Size ops f = so_size ops (cur_stream f)"

definition InputFile_Offset :: "'s input_file \<Rightarrow> nat" where
  "InputFile_Offset f = Prefetch_Offset (the_buffer f)"

definition input_closed :: "'s \<Rightarrow> 's input_file" where
  "input_closed s = \<lparr>if_stream = s, if_buffer = None, if_buf_size = 0\<rparr>"

definition local_closed :: local_input where
  "local_closed = \<lparr>li_path = [], li_file = None, li_pos = 0, li_fail = False, li_size = 0\<rparr>"

definition hdfs_closed :: hdfs_input where
  "hdfs_closed = \<lparr>hi_pipe = None, hi_size = 0, hi_path = [], hi_read_bytes = 0\<rparr>"

section \<open>UnbufferedOutputLocalFileStream\<close>

text \<open>The \<^verbatim>\<open>ofstream\<close> is open or not; what it is given is in the file, as after a flush. Whether a path can be
  opened is an argument; \<open>app\<close> is the mode \<^verbatim>\<open>ofstream::app\<close>, any other mode empties the file.\<close>

record local_output =
  lo_open :: bool
  lo_path :: string
  lo_size :: nat

definition text_at :: "files \<Rightarrow> string \<Rightarrow> string" where
  "text_at fs path = (case fs path of None \<Rightarrow> [] | Some t \<Rightarrow> t)"

definition LocalOut_Close :: "local_output \<Rightarrow> local_output" where
  "LocalOut_Close s = \<lparr>lo_open = False, lo_path = [], lo_size = 0\<rparr>"

definition LocalOut_Open :: "(string \<Rightarrow> bool) \<Rightarrow> string \<Rightarrow> bool \<Rightarrow> files \<times> local_output \<Rightarrow> files \<times> local_output" where
  "LocalOut_Open can_open path app = (\<lambda>(fs, s).
     let s = (if lo_open s then LocalOut_Close s else s) in
     if \<not> can_open path then (fs, s\<lparr>lo_path := path, lo_open := False\<rparr>)
     else let t = (if app then text_at fs path else [])
          in (fs(path \<mapsto> t), \<lparr>lo_open = True, lo_path = path, lo_size = length t\<rparr>))"

definition LocalOut_Write :: "string \<Rightarrow> files \<times> local_output \<Rightarrow> (files \<times> local_output) option" where
  "LocalOut_Write data = (\<lambda>(fs, s).
     if \<not> lo_open s then None
     else Some (fs(lo_path s \<mapsto> text_at fs (lo_path s) @ data), s\<lparr>lo_size := lo_size s + length data\<rparr>))"

definition LocalOut_Size :: "local_output \<Rightarrow> nat option" where
  "LocalOut_Size s = (if lo_open s then Some (lo_size s) else None)"

definition LocalOut_Good :: "local_output \<Rightarrow> bool" where
  "LocalOut_Good s = lo_open s"

definition LocalOut_Flush :: "local_output \<Rightarrow> local_output option" where
  "LocalOut_Flush s = (if lo_open s then Some s else None)"

section \<open>OutputBufferedFileStream\<close>

record output_file =
  of_stream :: local_output
  of_buffer :: output_buffer
  of_size :: nat

text \<open>An operation of the buffer: what it gives to its stream during the operation is written to the file.\<close>

definition with_buffer :: "(output_buffer \<Rightarrow> output_buffer) \<Rightarrow> files \<times> output_file \<Rightarrow> (files \<times> output_file) option" where
  "with_buffer f = (\<lambda>(fs, s).
     let b = f ((of_buffer s)\<lparr>ob_file := []\<rparr>) in
     if ob_file b = [] then Some (fs, s\<lparr>of_buffer := b\<rparr>)
     else map_option (\<lambda>(fs, t). (fs, s\<lparr>of_buffer := b\<lparr>ob_file := []\<rparr>, of_stream := t\<rparr>))
            (LocalOut_Write (ob_file b) (fs, of_stream s)))"

text \<open>The writing thread runs; opening while it has something to write replaces the file under it.\<close>

definition OutputFile_writer :: "files \<times> output_file \<Rightarrow> (files \<times> output_file) option" where
  "OutputFile_writer = with_buffer writer_runs"

definition OutputFile_Open ::
  "(string \<Rightarrow> bool) \<Rightarrow> string \<Rightarrow> nat \<Rightarrow> bool \<Rightarrow> files \<times> output_file \<Rightarrow> (files \<times> output_file) option" where
  "OutputFile_Open can_open path buf_size app = (\<lambda>(fs, f).
     if ob_pending (of_buffer f) \<noteq> None then None
     else let (fs, s) = LocalOut_Open can_open path app (fs, of_stream f); f = f\<lparr>of_stream := s\<rparr> in
       map_option (\<lambda>(fs, f). (fs, f\<lparr>of_size := 0\<rparr>))
         (if LocalOut_Good s then with_buffer (Output_Open buf_size) (fs, f) else Some (fs, f)))"

text \<open>A buffer that was never opened has no stream; one that was closed has no room, and writes at once.\<close>

definition OutputFile_Write :: "string \<Rightarrow> files \<times> output_file \<Rightarrow> (files \<times> output_file) option" where
  "OutputFile_Write data = (\<lambda>(fs, f).
     if \<not> ob_open (of_buffer f) then None
     else if ob_capacity (of_buffer f) = 0 \<and> \<not> lo_open (of_stream f) then None
     else map_option (\<lambda>(fs, f). (fs, f\<lparr>of_size := of_size f + length data\<rparr>)) (with_buffer (Output_Write data) (fs, f)))"

definition OutputFile_Good :: "output_file \<Rightarrow> bool" where
  "OutputFile_Good f = LocalOut_Good (of_stream f)"

definition OutputFile_Flush :: "files \<times> output_file \<Rightarrow> (files \<times> output_file) option" where
  "OutputFile_Flush x =
     Option.bind (with_buffer Output_Flush x) (\<lambda>(fs, f).
       map_option (\<lambda>s. (fs, f\<lparr>of_stream := s\<rparr>)) (LocalOut_Flush (of_stream f)))"

definition OutputFile_Close :: "files \<times> output_file \<Rightarrow> (files \<times> output_file) option" where
  "OutputFile_Close x =
     map_option (\<lambda>(fs, f). (fs, f\<lparr>of_stream := LocalOut_Close (of_stream f), of_size := 0\<rparr>)) (with_buffer Output_Close x)"

definition OutputFile_Size :: "output_file \<Rightarrow> nat" where
  "OutputFile_Size f = of_size f"

definition no_output_file :: output_file where
  "no_output_file = \<lparr>of_stream = \<lparr>lo_open = False, lo_path = [], lo_size = 0\<rparr>, of_buffer = output_closed, of_size = 0\<rparr>"

section \<open>InputFmaStream\<close>

datatype fma_input = NoInput | LocalInput "local_input input_file" | HdfsInput "hdfs_input input_file"

text \<open>Without the MySQL and snappy libraries, asking for them is logged as fatal, which aborts; the old file is
  closed before a new one is opened.\<close>

definition InputFma_Open ::
  "local_input stream_ops \<Rightarrow> hdfs_input stream_ops \<Rightarrow> string \<Rightarrow> nat \<Rightarrow> bool \<Rightarrow> fma_input option" where
  "InputFma_Open lops hops path buf_size snappy_compressed =
     (if snappy_compressed then None
      else case fp_scheme (FilePath path) of
          LOCAL \<Rightarrow> map_option LocalInput (InputFile_Open lops path buf_size (input_closed local_closed))
        | HDFS \<Rightarrow> map_option HdfsInput (InputFile_Open hops path buf_size (input_closed hdfs_closed))
        | MYSQL \<Rightarrow> None
        | SQLSERVER \<Rightarrow> None)"

definition InputFma_Read ::
  "local_input stream_ops \<Rightarrow> hdfs_input stream_ops \<Rightarrow> nat \<Rightarrow> fma_input \<Rightarrow> (string \<times> fma_input) option" where
  "InputFma_Read lops hops n st =
     (case st of
        NoInput \<Rightarrow> Some ([], NoInput)
      | LocalInput f \<Rightarrow> map_option (\<lambda>(d, f). (d, LocalInput f)) (InputFile_Read lops n f)
      | HdfsInput f \<Rightarrow> map_option (\<lambda>(d, f). (d, HdfsInput f)) (InputFile_Read hops n f))"

definition InputFma_Good :: "fma_input \<Rightarrow> bool" where
  "InputFma_Good st =
     (case st of NoInput \<Rightarrow> False | LocalInput f \<Rightarrow> InputFile_Good f | HdfsInput f \<Rightarrow> InputFile_Good f)"

definition InputFma_Close :: "fma_input \<Rightarrow> fma_input" where
  "InputFma_Close st = NoInput"

definition InputFma_Seek ::
  "local_input stream_ops \<Rightarrow> hdfs_input stream_ops \<Rightarrow> nat \<Rightarrow> fma_input \<Rightarrow> (bool \<times> fma_input) option" where
  "InputFma_Seek lops hops off st =
     (case st of
        NoInput \<Rightarrow> Some (False, NoInput)
      | LocalInput f \<Rightarrow> map_option (\<lambda>(r, f). (r, LocalInput f)) (InputFile_Seek lops off f)
      | HdfsInput f \<Rightarrow> map_option (\<lambda>(r, f). (r, HdfsInput f)) (InputFile_Seek hops off f))"

definition InputFma_Size :: "local_input stream_ops \<Rightarrow> hdfs_input stream_ops \<Rightarrow> fma_input \<Rightarrow> nat option" where
  "InputFma_Size lops hops st =
     (if \<not> InputFma_Good st then Some 0
      else case st of NoInput \<Rightarrow> Some 0 | LocalInput f \<Rightarrow> InputFile_Size lops f | HdfsInput f \<Rightarrow> InputFile_Size hops f)"

section \<open>OutputFmaStream\<close>

text \<open>A URI that is not local is given to the HDFS stream, with a buffer that is never small.\<close>

datatype output_kind = PlainLocal | BufferedLocal nat | BufferedHdfs nat

definition fma_output_kind :: "string \<Rightarrow> nat \<Rightarrow> output_kind" where
  "fma_output_kind path buf_size =
     (if fp_scheme (FilePath path) = LOCAL then if buf_size = 0 then PlainLocal else BufferedLocal buf_size
      else BufferedHdfs (max buf_size (4 * 2 ^ 20)))"

text \<open>The streams on local files: opening makes a new one on an object that has none.\<close>

datatype fma_output = NoOutput | PlainOutput local_output | BufferedOutput output_file

definition OpenNoSnappy ::
  "(string \<Rightarrow> bool) \<Rightarrow> string \<Rightarrow> nat \<Rightarrow> bool \<Rightarrow> files \<Rightarrow> (files \<times> fma_output) option" where
  "OpenNoSnappy can_open path buf_size app fs =
     (case fma_output_kind path buf_size of
        PlainLocal \<Rightarrow>
          Some (map_prod id PlainOutput (LocalOut_Open can_open path app (fs, of_stream no_output_file)))
      | BufferedLocal n \<Rightarrow>
          map_option (map_prod id BufferedOutput) (OutputFile_Open can_open path n app (fs, no_output_file))
      | BufferedHdfs n \<Rightarrow> None)"

definition FmaOut_Write :: "string \<Rightarrow> files \<times> fma_output \<Rightarrow> (files \<times> fma_output) option" where
  "FmaOut_Write data = (\<lambda>(fs, st).
     case st of
       NoOutput \<Rightarrow> Some (fs, NoOutput)
     | PlainOutput s \<Rightarrow> map_option (map_prod id PlainOutput) (LocalOut_Write data (fs, s))
     | BufferedOutput f \<Rightarrow> map_option (map_prod id BufferedOutput) (OutputFile_Write data (fs, f)))"

definition FmaOut_Good :: "fma_output \<Rightarrow> bool" where
  "FmaOut_Good st = (case st of NoOutput \<Rightarrow> False | PlainOutput s \<Rightarrow> LocalOut_Good s | BufferedOutput f \<Rightarrow> OutputFile_Good f)"

definition FmaOut_Flush :: "files \<times> fma_output \<Rightarrow> (files \<times> fma_output) option" where
  "FmaOut_Flush = (\<lambda>(fs, st).
     case st of
       NoOutput \<Rightarrow> Some (fs, NoOutput)
     | PlainOutput s \<Rightarrow> map_option (\<lambda>s. (fs, PlainOutput s)) (LocalOut_Flush s)
     | BufferedOutput f \<Rightarrow> map_option (map_prod id BufferedOutput) (OutputFile_Flush (fs, f)))"

text \<open>\<^verbatim>\<open>Close\<close> flushes the file and then destroys it, which closes it; the destructor does the same.\<close>

definition FmaOut_Close :: "files \<times> fma_output \<Rightarrow> (files \<times> fma_output) option" where
  "FmaOut_Close x =
     Option.bind (FmaOut_Flush x) (\<lambda>(fs, st).
       case st of
         BufferedOutput f \<Rightarrow> map_option (\<lambda>(fs, f). (fs, NoOutput)) (OutputFile_Close (fs, f))
       | _ \<Rightarrow> Some (fs, NoOutput))"

definition FmaOut_Size :: "fma_output \<Rightarrow> nat option" where
  "FmaOut_Size st = (case st of NoOutput \<Rightarrow> Some 0 | PlainOutput s \<Rightarrow> LocalOut_Size s | BufferedOutput f \<Rightarrow> Some (OutputFile_Size f))"

text \<open>What may happen to an open output: the user writes or flushes, the writing thread runs.\<close>

definition FmaOut_writer :: "files \<times> fma_output \<Rightarrow> (files \<times> fma_output) option" where
  "FmaOut_writer = (\<lambda>(fs, st).
     case st of BufferedOutput f \<Rightarrow> map_option (map_prod id BufferedOutput) (OutputFile_writer (fs, f)) | _ \<Rightarrow> Some (fs, st))"

fun fma_events :: "output_event list \<Rightarrow> files \<times> fma_output \<Rightarrow> (files \<times> fma_output) option" where
  "fma_events [] x = Some x"
| "fma_events (O_write d # es) x = Option.bind (FmaOut_Write d x) (fma_events es)"
| "fma_events (O_flush # es) x = Option.bind (FmaOut_Flush x) (fma_events es)"
| "fma_events (O_writer # es) x = Option.bind (FmaOut_writer x) (fma_events es)"

section \<open>Every input stream gives full reads\<close>

definition memfile_rest :: "memory_file \<Rightarrow> string" where
  "memfile_rest s = drop (mf_offset s) (mf_data s)"

definition local_rest :: "local_input \<Rightarrow> string" where
  "local_rest s = (case li_file s of None \<Rightarrow> [] | Some text \<Rightarrow> if li_fail s then [] else drop (li_pos s) text)"

definition hdfs_rest :: "hdfs_input \<Rightarrow> string" where
  "hdfs_rest s = (case hi_pipe s of None \<Rightarrow> [] | Some text \<Rightarrow> text)"

interpretation memfile: full_source MemFile_Read MemFile_Good memfile_rest
  by unfold_locales
     (auto simp: MemFile_Read_def MemFile_Good_def memfile_rest_def Let_def min_def split: if_splits)

lemma local_read:
  "fst (total_read LocalIn_Read n s) = take n (local_rest s)"
  "local_rest (snd (total_read LocalIn_Read n s)) = drop n (local_rest s)"
  "li_file (snd (total_read LocalIn_Read n s)) = li_file s"
  by (auto simp: total_read_def LocalIn_Read_def local_rest_def Let_def min_def add.commute split: option.splits)

interpretation local_file: full_source "total_read LocalIn_Read" LocalIn_Good local_rest
proof
  show "\<not> LocalIn_Good s \<Longrightarrow> local_rest s = []" for s
    by (auto simp: LocalIn_Good_def local_rest_def split: option.splits)
qed (auto simp: local_read)

lemma hdfs_read:
  "fst (total_read HdfsIn_Read n s) = take n (hdfs_rest s)"
  "hdfs_rest (snd (total_read HdfsIn_Read n s)) = drop n (hdfs_rest s)"
  by (auto simp: total_read_def HdfsIn_Read_def hdfs_rest_def split: option.splits)

interpretation hdfs_file: full_source "total_read HdfsIn_Read" HdfsIn_Good hdfs_rest
proof
  show "\<not> HdfsIn_Good s \<Longrightarrow> hdfs_rest s = []" for s
    by (auto simp: HdfsIn_Good_def hdfs_rest_def split: option.splits)
qed (auto simp: hdfs_read)

section \<open>A buffered file is a cursor\<close>

text \<open>What every read of the stream keeps, the buffer keeps.\<close>

lemma push_prefetch_stream:
  "pf_stream (push_prefetch rd stop s b) = Some (if stop then s else snd (rd (pf_capacity b) s))"
  by (auto simp: push_prefetch_def PrefetchBlock_def split_def Let_def)

lemma read_from_keeps:
  assumes keep: "\<And>n s. P s \<Longrightarrow> P (snd (rd n s))"
  shows "read_from rd n got s b = Some r \<Longrightarrow> pf_stream b = Some s \<Longrightarrow> P s \<Longrightarrow>
    \<exists>s'. pf_stream (snd (snd r)) = Some s' \<and> P s'"
proof (induction n arbitrary: got s b r rule: less_induct)
  case (less n)
  have push: "\<exists>s'. pf_stream (push_prefetch rd stop s b) = Some s' \<and> P s'" if "P s" for stop s b
    using that keep by (simp add: push_prefetch_stream)
  have copy: "\<exists>s'. pf_stream (snd (snd r)) = Some s' \<and> P s'"
    if r: "read_from rd n got s b = Some r" "pf_stream b = Some s" "P s" and left: "n \<noteq> 0" "pf_offset b < pf_size b"
    for got s b r
  proof -
    let ?k = "min n (pf_size b - pf_offset b)"
    have "read_from rd (n - ?k) (got @ take ?k (drop (pf_offset b) (pf_buf b))) s (b\<lparr>pf_offset := pf_offset b + ?k\<rparr>) = Some r"
      using r(1) left by (simp add: read_from.simps [of rd n got s b] Let_def)
    moreover have "n - ?k < n" using left by simp
    ultimately show ?thesis using less.IH r(2,3) by fastforce
  qed
  show ?case
  proof (cases "n = 0 \<or> pf_offset b < pf_size b")
    case True
    then show ?thesis
    proof (cases "n = 0")
      case True
      then show ?thesis using less.prems by (auto simp: read_from.simps [of rd 0 got s b])
    next
      case False
      with True show ?thesis using copy less.prems by blast
    qed
  next
    case False
    then have e: "n \<noteq> 0" "pf_offset b \<ge> pf_size b" by auto
    obtain data where d: "pf_running b" "pf_ahead b = Some data"
      using less.prems(1) e by (auto simp: read_from.simps [of rd n got s b] split: if_splits option.splits)
    let ?b = "b\<lparr>pf_buf := data, pf_size := length data, pf_offset := 0\<rparr>" and ?stop = "length data \<noteq> pf_capacity b"
    consider "data = []" | "data \<noteq> []" "n > pf_capacity b" | "data \<noteq> []" "\<not> n > pf_capacity b" by blast
    then show ?thesis
    proof cases
      case 1
      then have "r = (got, True, (push_prefetch rd True s b)\<lparr>pf_good := False\<rparr>)"
        using less.prems(1) e d by (simp add: read_from.simps [of rd n got s b])
      then show ?thesis using push [OF less.prems(3), of True b] by simp
    next
      case 2
      then have "snd (snd r) = push_prefetch rd ?stop (snd (rd (n - length data) s)) (?b\<lparr>pf_offset := length data\<rparr>)"
        using less.prems(1) e d by (auto simp: read_from.simps [of rd n got s b] Let_def split_def)
      then show ?thesis using push keep [OF less.prems(3)] by metis
    next
      case 3
      let ?e = "push_prefetch rd ?stop s ?b"
      obtain s' where s': "pf_stream ?e = Some s'" "P s'" using push [OF less.prems(3)] by blast
      have "read_from rd n got s' ?e = Some r"
        using less.prems(1) e d 3 s'(1) by (simp add: read_from.simps [of rd n got s b] Let_def)
      moreover have "pf_offset ?e < pf_size ?e" using 3 by (simp add: push_prefetch_def split_def Let_def)
      ultimately show ?thesis using copy s' e(1) by blast
    qed
  qed
qed

lemma Prefetch_Read_keeps:
  assumes "\<And>n s. P s \<Longrightarrow> P (snd (rd n s))" "Prefetch_Read rd n b = Some (data, b')" "pf_stream b = Some s" "P s"
  shows "\<exists>s'. pf_stream b' = Some s' \<and> P s'"
proof -
  obtain data early c where c: "read_from rd n [] s b = Some (data, early, c)"
      "b' = (if early then c else c\<lparr>pf_file_pos := pf_file_pos c + length data\<rparr>)"
    using assms(2,3) by (auto simp: Prefetch_Read_def)
  from read_from_keeps [where P = P, OF assms(1) c(1) assms(3,4)] show ?thesis using c(2) by auto
qed

datatype file_op = Read_op nat | Seek_op nat
datatype file_result = Data string | Sought bool

fun run_file :: "'s stream_ops \<Rightarrow> file_op list \<Rightarrow> 's input_file \<Rightarrow> file_result list option" where
  "run_file ops [] f = Some []"
| "run_file ops (Read_op n # os) f =
     Option.bind (InputFile_Read ops n f) (\<lambda>(data, f). map_option (\<lambda>rs. Data data # rs) (run_file ops os f))"
| "run_file ops (Seek_op off # os) f =
     Option.bind (InputFile_Seek ops off f) (\<lambda>(ok, f). map_option (\<lambda>rs. Sought ok # rs) (run_file ops os f))"

text \<open>The specification: a position in the text.\<close>

fun cursor :: "string \<Rightarrow> nat \<Rightarrow> file_op list \<Rightarrow> file_result list" where
  "cursor text pos [] = []"
| "cursor text pos (Read_op n # os) = Data (take n (drop pos text)) # cursor text (pos + n) os"
| "cursor text pos (Seek_op off # os) = Sought True # cursor text off os"

definition at_pos :: "string \<Rightarrow> nat \<Rightarrow> local_input input_file \<Rightarrow> bool" where
  "at_pos text pos f \<longleftrightarrow> (\<exists>b s. if_buffer f = Some b \<and> pf_stream b = Some s \<and> li_file s = Some text \<and>
     buffer_inv local_rest b \<and> remaining local_rest b = drop pos text)"

lemma open_at_pos:
  assumes "li_file s = Some text" "\<not> li_fail s" "li_pos s = pos"
    and "if_buffer f = Some (Prefetch_Open (total_read LocalIn_Read) LocalIn_Good s n b)"
  shows "at_pos text pos f"
proof -
  let ?b = "Prefetch_Open (total_read LocalIn_Read) LocalIn_Good s n b"
  have good: "LocalIn_Good s" using assms by (simp add: LocalIn_Good_def)
  have "remaining local_rest ?b = drop pos text"
    using local_file.Prefetch_Open_spec(2) [OF good] assms(1-3) by (simp add: local_rest_def)
  moreover have "\<exists>s'. pf_stream ?b = Some s' \<and> li_file s' = Some text"
    using good assms(1) by (simp add: Prefetch_Open_def Let_def push_prefetch_stream local_read)
  ultimately show ?thesis using local_file.Prefetch_Open_spec(1) [OF good] assms(4) by (auto simp: at_pos_def)
qed

lemma read_at_pos:
  assumes "at_pos text pos f"
  shows "\<exists>f'. InputFile_Read (local_ops fs lim) n f = Some (take n (drop pos text), f') \<and> at_pos text (pos + n) f'"
proof -
  obtain b s where b: "if_buffer f = Some b" "pf_stream b = Some s" "li_file s = Some text" "buffer_inv local_rest b"
      "remaining local_rest b = drop pos text" using assms by (auto simp: at_pos_def)
  obtain b' where b': "Prefetch_Read (total_read LocalIn_Read) n b = Some (take n (drop pos text), b')"
      "buffer_inv local_rest b'" "remaining local_rest b' = drop n (drop pos text)"
    using local_file.Prefetch_Read_spec [OF b(4), of n] b(5) by auto
  have "\<exists>s'. pf_stream b' = Some s' \<and> li_file s' = Some text"
    by (rule Prefetch_Read_keeps [where P = "\<lambda>s. li_file s = Some text", OF _ b'(1) b(2,3)]) (simp add: local_read)
  then show ?thesis using b(1) b' by (auto simp: InputFile_Read_def local_ops_def at_pos_def add.commute)
qed

lemma seek_at_pos:
  assumes "at_pos text pos f" "off \<le> lim"
  shows "\<exists>f'. InputFile_Seek (local_ops fs lim) off f = Some (True, f') \<and> at_pos text off f'"
proof -
  obtain b s where b: "if_buffer f = Some b" "pf_stream b = Some s" "li_file s = Some text"
    using assms(1) by (auto simp: at_pos_def)
  let ?s = "s\<lparr>li_pos := off, li_fail := False\<rparr>"
  let ?f = "f\<lparr>if_stream := ?s, if_buffer := Some (Prefetch_Open (total_read LocalIn_Read) LocalIn_Good ?s (if_buf_size f)
    (Prefetch_Close b))\<rparr>"
  have "InputFile_Seek (local_ops fs lim) off f = Some (True, ?f)"
    using b assms(2) by (simp add: InputFile_Seek_def local_ops_def cur_stream_def the_buffer_def LocalIn_Seek_def LocalIn_IsOpen_def)
  moreover have "at_pos text off ?f" using b by (intro open_at_pos [of ?s]) simp_all
  ultimately show ?thesis by blast
qed

lemma run_at_pos:
  "at_pos t pos f \<Longrightarrow> \<forall>off. Seek_op off \<in> set os \<longrightarrow> off \<le> lim \<Longrightarrow>
    run_file (local_ops fs lim) os f = Some (cursor t pos os)"
proof (induction t pos os arbitrary: f rule: cursor.induct)
  case (2 t pos n os)
  from read_at_pos [OF 2(2), of fs lim n] 2 show ?case by auto
next
  case (3 t pos off os)
  have "off \<le> lim" using 3(3) by simp
  from seek_at_pos [OF 3(2) this, of fs] 3 show ?case by auto
qed simp

lemma open_cursor:
  assumes "fs path = Some text"
  shows "\<exists>f. InputFile_Open (local_ops fs lim) path n (input_closed local_closed) = Some f \<and> InputFile_Good f \<and> at_pos text 0 f"
proof -
  let ?s = "LocalIn_Open fs path local_closed"
  have s: "li_file ?s = Some text" "\<not> li_fail ?s" "li_pos ?s = 0" "li_size ?s = length text"
    using assms by (simp_all add: LocalIn_Open_def)
  let ?f = "(input_closed local_closed)\<lparr>if_stream := ?s, if_buf_size := n, if_buffer := Some
    (Prefetch_Open (total_read LocalIn_Read) LocalIn_Good ?s (min n (length text)) prefetch_null)\<rparr>"
  have "InputFile_Open (local_ops fs lim) path n (input_closed local_closed) = Some ?f"
    using s by (simp add: InputFile_Open_def local_ops_def input_closed_def the_buffer_def cur_stream_def prefetch_null_def
        LocalIn_Good_def LocalIn_Size_def LocalIn_IsOpen_def Let_def)
  moreover have "at_pos text 0 ?f" using s by (intro open_at_pos [of ?s]) simp_all
  moreover have "InputFile_Good ?f"
    using s by (simp add: InputFile_Good_def the_buffer_def Prefetch_Good_def Prefetch_Open_def LocalIn_Good_def Let_def)
  ultimately show ?thesis by blast
qed

section \<open>Nothing written is lost\<close>

definition out_inv :: "files \<Rightarrow> string \<Rightarrow> string \<Rightarrow> files \<times> fma_output \<Rightarrow> bool" where
  "out_inv fs0 path t = (\<lambda>(fs, st).
     fs = fs0(path \<mapsto> text_at fs path) \<and>
     (case st of
        NoOutput \<Rightarrow> False
      | PlainOutput s \<Rightarrow> lo_open s \<and> lo_path s = path \<and> text_at fs path = t
      | BufferedOutput f \<Rightarrow>
          lo_open (of_stream f) \<and> lo_path (of_stream f) = path \<and> ob_open (of_buffer f) \<and> ob_file (of_buffer f) = [] \<and>
          text_at fs path @ given (of_buffer f) = t))"

lemma text_at_upd [simp]: "text_at (fs(p \<mapsto> t)) p = t"
  by (simp add: text_at_def)

lemma given_file: "ob_file b @ given (b\<lparr>ob_file := []\<rparr>) = given b"
  by (simp add: given_def)

lemma with_buffer_inv:
  assumes "out_inv fs0 path t (fs, BufferedOutput f)" "\<And>b. given (g b) = given b @ d" "\<And>b. ob_open (g b) = ob_open b"
  shows "\<exists>fs' f'. with_buffer g (fs, f) = Some (fs', f') \<and> out_inv fs0 path (t @ d) (fs', BufferedOutput f') \<and>
    of_buffer f' = (g (of_buffer f))\<lparr>ob_file := []\<rparr>"
proof -
  let ?b = "g (of_buffer f)"
  have i: "fs = fs0(path \<mapsto> text_at fs path)" "lo_open (of_stream f)" "lo_path (of_stream f) = path"
      "ob_open (of_buffer f)" "ob_file (of_buffer f) = []" "text_at fs path @ given (of_buffer f) = t"
    using assms(1) by (auto simp: out_inv_def)
  then have "(of_buffer f)\<lparr>ob_file := []\<rparr> = of_buffer f" by simp
  then have w: "with_buffer g (fs, f) = (if ob_file ?b = [] then Some (fs, f\<lparr>of_buffer := ?b\<rparr>)
     else map_option (\<lambda>(fs, t). (fs, f\<lparr>of_buffer := ?b\<lparr>ob_file := []\<rparr>, of_stream := t\<rparr>))
            (LocalOut_Write (ob_file ?b) (fs, of_stream f)))"
    by (simp only: with_buffer_def prod.case Let_def)
  have g: "text_at fs path @ ob_file ?b @ given (?b\<lparr>ob_file := []\<rparr>) = t @ d"
    unfolding given_file using assms(2) i(6) by (metis append.assoc)
  have upd: "fs(path \<mapsto> x) = fs0(path \<mapsto> x)" for x by (subst i(1)) simp
  show ?thesis
  proof (cases "ob_file ?b = []")
    case True
    then have c: "?b\<lparr>ob_file := []\<rparr> = ?b" by simp
    then have "text_at fs path @ given ?b = t @ d" using g unfolding c True by simp
    then show ?thesis using True i(2-5) assms(3) i(1) c by (simp add: w out_inv_def)
  next
    case False
    then show ?thesis using i(2-5) g assms(3) upd by (simp add: w out_inv_def LocalOut_Write_def)
  qed
qed

lemma given_Flush: "given (Output_Flush b) = given b" "ob_open (Output_Flush b) = ob_open b"
    "given ((Output_Flush b)\<lparr>ob_file := []\<rparr>) = []"
proof -
  show "given (Output_Flush b) = given b" "ob_open (Output_Flush b) = ob_open b" by (simp_all add: Output_Flush_def)
  show "given ((Output_Flush b)\<lparr>ob_file := []\<rparr>) = []" by (simp add: given_def Output_Flush_def)
qed

lemma Write_open: "ob_open (Output_Write d b) = ob_open b"
  by (auto simp: Output_Write_def Let_def)

lemma flush_inv:
  assumes "out_inv fs0 path t x"
  shows "\<exists>y. FmaOut_Flush x = Some y \<and> out_inv fs0 path t y"
proof (cases "snd x")
  case (BufferedOutput f)
  then obtain fs where x: "x = (fs, BufferedOutput f)" by (cases x) simp
  obtain fs' f' where f': "with_buffer Output_Flush (fs, f) = Some (fs', f')" "out_inv fs0 path (t @ []) (fs', BufferedOutput f')"
    using with_buffer_inv [OF assms [unfolded x], of Output_Flush "[]"] given_Flush by auto
  moreover have "LocalOut_Flush (of_stream f') = Some (of_stream f')"
    using f'(2) by (simp add: LocalOut_Flush_def out_inv_def)
  ultimately show ?thesis by (simp add: x FmaOut_Flush_def OutputFile_Flush_def)
qed (use assms in \<open>cases x; auto simp: out_inv_def FmaOut_Flush_def LocalOut_Flush_def\<close>)+

lemma write_inv_out:
  assumes "out_inv fs0 path t x"
  shows "\<exists>y. FmaOut_Write d x = Some y \<and> out_inv fs0 path (t @ d) y"
proof (cases "snd x")
  case (BufferedOutput f)
  then obtain fs where x: "x = (fs, BufferedOutput f)" by (cases x) simp
  have "given (Output_Write d b) = given b @ d" for b using given_op [of False "O_write d" b] by simp
  from with_buffer_inv [OF assms [unfolded x] this Write_open] obtain fs' f'
    where f': "with_buffer (Output_Write d) (fs, f) = Some (fs', f')" "out_inv fs0 path (t @ d) (fs', BufferedOutput f')"
    by blast
  have "out_inv fs0 path (t @ d) (fs', BufferedOutput (f'\<lparr>of_size := n\<rparr>))" for n
    using f'(2) by (simp add: out_inv_def)
  then show ?thesis using f'(1) assms by (simp add: x FmaOut_Write_def OutputFile_Write_def out_inv_def)
next
  case (PlainOutput s)
  then obtain fs where x: "x = (fs, PlainOutput s)" by (cases x) simp
  then have i: "fs = fs0(path \<mapsto> text_at fs path)" "lo_open s" "lo_path s = path" "text_at fs path = t"
    using assms by (auto simp: out_inv_def)
  have "fs(path \<mapsto> y) = fs0(path \<mapsto> y)" for y by (subst i(1)) simp
  then show ?thesis using i(2-4) by (simp add: x FmaOut_Write_def LocalOut_Write_def out_inv_def)
qed (use assms in \<open>cases x; simp add: out_inv_def\<close>)

lemma writer_step_inv:
  assumes "out_inv fs0 path t x"
  shows "\<exists>y. FmaOut_writer x = Some y \<and> out_inv fs0 path t y"
proof (cases "snd x")
  case (BufferedOutput f)
  then obtain fs where x: "x = (fs, BufferedOutput f)" by (cases x) simp
  obtain fs' f' where "with_buffer writer_runs (fs, f) = Some (fs', f')" "out_inv fs0 path (t @ []) (fs', BufferedOutput f')"
    using with_buffer_inv [OF assms [unfolded x], of writer_runs "[]"] by auto
  then show ?thesis by (simp add: x FmaOut_writer_def OutputFile_writer_def)
qed (use assms in \<open>cases x; auto simp: FmaOut_writer_def\<close>)+

lemma events_inv:
  "out_inv fs0 path t x \<Longrightarrow> \<exists>y. fma_events es x = Some y \<and> out_inv fs0 path (t @ concat (map op_data es)) y"
proof (induction es x arbitrary: t rule: fma_events.induct)
  case (2 d es x)
  then show ?case using write_inv_out [OF 2(2), of d] by fastforce
next
  case (3 es x)
  then show ?case using flush_inv [OF 3(2)] by fastforce
next
  case (4 es x)
  then show ?case using writer_step_inv [OF 4(2)] by fastforce
qed simp

lemma buffered_close_inv:
  assumes "out_inv fs0 path t (fs, BufferedOutput f)"
  shows "\<exists>g. OutputFile_Close (fs, f) = Some (fs0(path \<mapsto> t), g)"
proof -
  have o: "ob_open (of_buffer f)" using assms by (simp add: out_inv_def)
  have c: "given (Output_Close b) = given b @ []" "ob_open (Output_Close b) = ob_open b" for b
    by (simp_all add: Output_Close_def given_Flush given_def [of "(Output_Flush b)\<lparr>ob_capacity := 0\<rparr>"]
        given_def [of "Output_Flush b", symmetric])
  obtain fs' f' where f': "with_buffer Output_Close (fs, f) = Some (fs', f')" "out_inv fs0 path t (fs', BufferedOutput f')"
      "of_buffer f' = (Output_Close (of_buffer f))\<lparr>ob_file := []\<rparr>"
    using with_buffer_inv [OF assms, of Output_Close "[]"] c by auto
  have "given (of_buffer f') = []"
    using o f'(3) given_Flush(3) [of "of_buffer f"] by (simp add: Output_Close_def given_def)
  then have "text_at fs' path = t" using f'(2) by (simp add: out_inv_def)
  moreover have "fs' = fs0(path \<mapsto> text_at fs' path)" using f'(2) unfolding out_inv_def prod.case by blast
  ultimately have "fs' = fs0(path \<mapsto> t)" by metis
  then show ?thesis using f'(1) by (simp add: OutputFile_Close_def)
qed

lemma close_inv:
  assumes "out_inv fs0 path t x"
  shows "FmaOut_Close x = Some (fs0(path \<mapsto> t), NoOutput)"
proof -
  obtain fs st where y: "FmaOut_Flush x = Some (fs, st)" "out_inv fs0 path t (fs, st)"
    using flush_inv [OF assms] by (metis surj_pair)
  show ?thesis
  proof (cases st)
    case (BufferedOutput f)
    then show ?thesis using y buffered_close_inv [of fs0 path t fs f] by (auto simp: FmaOut_Close_def)
  qed (use y in \<open>auto simp: FmaOut_Close_def out_inv_def\<close>)
qed

lemma out_open_inv:
  assumes "can_open path"
  shows "\<exists>y. OutputFile_Open can_open path n app (fs, no_output_file) = Some y \<and>
    out_inv fs path (if app then text_at fs path else []) (fst y, BufferedOutput (snd y))"
proof -
  let ?t = "if app then text_at fs path else []"
  let ?f = "\<lparr>of_stream = \<lparr>lo_open = True, lo_path = path, lo_size = length ?t\<rparr>, of_buffer = Output_Open n output_closed, of_size = 0\<rparr>"
  have "OutputFile_Open can_open path n app (fs, no_output_file) = Some (fs(path \<mapsto> ?t), ?f)"
    using assms
    by (simp add: OutputFile_Open_def LocalOut_Open_def no_output_file_def
        LocalOut_Good_def with_buffer_def Output_Open_def Output_Close_def output_closed_def Let_def)
  moreover have "out_inv fs path ?t (fs(path \<mapsto> ?t), BufferedOutput ?f)"
    by (simp add: out_inv_def Output_Open_def Output_Close_def output_closed_def given_def)
  ultimately show ?thesis by simp
qed

lemma open_inv:
  assumes "fp_scheme (FilePath path) = LOCAL" "can_open path"
  shows "\<exists>x. OpenNoSnappy can_open path n app fs = Some x \<and> out_inv fs path (if app then text_at fs path else []) x"
proof (cases "n = 0")
  case True
  then show ?thesis using assms
    by (simp add: OpenNoSnappy_def fma_output_kind_def LocalOut_Open_def no_output_file_def out_inv_def Let_def)
next
  case False
  obtain y where y: "OutputFile_Open can_open path n app (fs, no_output_file) = Some y"
      "out_inv fs path (if app then text_at fs path else []) (fst y, BufferedOutput (snd y))"
    using out_open_inv [of can_open path n app fs] assms(2) by blast
  then show ?thesis using False assms(1)
    by (cases y) (simp add: OpenNoSnappy_def fma_output_kind_def)
qed

section \<open>Properties\<close>

text \<open>
  A buffered file is a cursor over its text: once a file that is there is opened, with a buffer of any
  size, every sequence of reads and seeks, also behind its end, gives exactly what a position that moves over the
  text would, although blocks are fetched ahead by another thread and thrown away by every seek.
\<close>

lemma buffered_file_is_cursor:
  assumes "fs path = Some text" "\<forall>off. Seek_op off \<in> set os \<longrightarrow> off \<le> lim"
  shows "\<exists>f. InputFile_Open (local_ops fs lim) path n (input_closed local_closed) = Some f \<and> InputFile_Good f \<and>
    run_file (local_ops fs lim) os f = Some (cursor text 0 os)"
  using open_cursor [of fs path "text" lim n] assms run_at_pos by blast

lemma buffered_file_is_cursor_witness:
  "\<exists>f. InputFile_Open (local_ops [''/a'' \<mapsto> ''hello''] 100) ''/a'' 10 (input_closed local_closed) = Some f \<and>
    run_file (local_ops [''/a'' \<mapsto> ''hello''] 100) [Read_op 2, Seek_op 4, Read_op 9, Seek_op 7, Read_op 1, Seek_op 0, Read_op 5] f =
      Some [Data ''he'', Sought True, Data ''o'', Sought True, Data [], Sought True, Data ''hello'']"
  using buffered_file_is_cursor [of "[''/a'' \<mapsto> ''hello'']" "''/a''" "''hello''"
      "[Read_op 2, Seek_op 4, Read_op 9, Seek_op 7, Read_op 1, Seek_op 0, Read_op 5]" 100 10]
  by auto

text \<open>
  C9. What is written to a local file is what is read from it: a stream opened on a path, with or without a
  buffer, given any data in any pieces, flushed at any time and with its writing thread running at any time, leaves
  on closing the file, emptied or appended to as the mode says, and no other file changed; and a stream that then
  reads the path is a cursor over that text.
\<close>

theorem file_written_then_read:
  assumes "fp_scheme (FilePath path) = LOCAL" "can_open path" "\<forall>off. Seek_op off \<in> set os \<longrightarrow> off \<le> lim"
  shows "\<exists>x y t f. OpenNoSnappy can_open path n app fs = Some x \<and> fma_events es x = Some y \<and>
    t = (if app then text_at fs path else []) @ concat (map op_data es) \<and>
    FmaOut_Close y = Some (fs(path \<mapsto> t), NoOutput) \<and>
    InputFma_Open (local_ops (fs(path \<mapsto> t)) lim) hops path m False = Some (LocalInput f) \<and>
    run_file (local_ops (fs(path \<mapsto> t)) lim) os f = Some (cursor t 0 os)"
proof -
  let ?t = "(if app then text_at fs path else []) @ concat (map op_data es)"
  obtain x where x: "OpenNoSnappy can_open path n app fs = Some x" "out_inv fs path (if app then text_at fs path else []) x"
    using open_inv [of path can_open n app fs] assms(1,2) by blast
  obtain y where y: "fma_events es x = Some y" "out_inv fs path ?t y" using events_inv [OF x(2)] by blast
  obtain f where f: "InputFile_Open (local_ops (fs(path \<mapsto> ?t)) lim) path m (input_closed local_closed) = Some f" "at_pos ?t 0 f"
    using open_cursor [of "fs(path \<mapsto> ?t)" path ?t lim m] by auto
  moreover have "InputFma_Open (local_ops (fs(path \<mapsto> ?t)) lim) hops path m False = Some (LocalInput f)"
    using f(1) assms(1) by (simp add: InputFma_Open_def)
  ultimately show ?thesis using x(1) y close_inv [OF y(2)] run_at_pos [OF f(2) assms(3)] by blast
qed

lemma file_written_then_read_witness:
  "\<exists>x y f. OpenNoSnappy (\<lambda>p. True) ''a'' 10 True [''a'' \<mapsto> ''x''] = Some x \<and>
    fma_events [O_write ''yz'', O_writer, O_flush, O_write ''w''] x = Some y \<and>
    FmaOut_Close y = Some ([''a'' \<mapsto> ''xyzw''], NoOutput) \<and>
    InputFma_Open (local_ops [''a'' \<mapsto> ''xyzw''] 9) (hdfs_ops (\<lambda>p. None) (\<lambda>p. [])) ''a'' 5 False = Some (LocalInput f) \<and>
    run_file (local_ops [''a'' \<mapsto> ''xyzw''] 9) [Read_op 3, Seek_op 1, Read_op 2] f = Some [Data ''xyz'', Sought True, Data ''yz'']"
proof -
  have "fp_scheme (FilePath ''a'') = LOCAL" by code_simp
  from file_written_then_read [OF this, of "\<lambda>p. True" "[Read_op 3, Seek_op 1, Read_op 2]" 9 10 True "[''a'' \<mapsto> ''x'']"
      "[O_write ''yz'', O_writer, O_flush, O_write ''w'']" "hdfs_ops (\<lambda>p. None) (\<lambda>p. [])" 5]
  show ?thesis by (auto simp: text_at_def)
qed

text \<open>
  An output stream whose file cannot be opened cannot be got rid of: the stream says that it is not good, and then
  \<^verbatim>\<open>Close\<close>, which its destructor calls too, throws, since it flushes the file that is not open; writing to it
  throws or follows a null pointer.
\<close>

lemma failed_output_throws:
  assumes "fp_scheme (FilePath path) = LOCAL" "\<not> can_open path"
  shows "\<exists>st. OpenNoSnappy can_open path n app fs = Some (fs, st) \<and> \<not> FmaOut_Good st \<and>
    FmaOut_Close (fs, st) = None \<and> FmaOut_Write data (fs, st) = None"
  using assms
  by (simp add: OpenNoSnappy_def fma_output_kind_def OutputFile_Open_def LocalOut_Open_def no_output_file_def FmaOut_Good_def
      FmaOut_Close_def FmaOut_Flush_def FmaOut_Write_def OutputFile_Flush_def OutputFile_Write_def OutputFile_Good_def
      LocalOut_Good_def LocalOut_Write_def LocalOut_Flush_def with_buffer_def output_closed_def Output_Flush_def PushToWrite_def
      writer_runs_def)

lemma failed_output_throws_witness:
  "\<exists>st. OpenNoSnappy (\<lambda>p. False) ''a'' 10 False Map.empty = Some (Map.empty, st) \<and> FmaOut_Close (Map.empty, st) = None"
proof -
  have "fp_scheme (FilePath ''a'') = LOCAL" by code_simp
  from failed_output_throws [OF this, of "\<lambda>p. False" 10 False Map.empty "[]"] show ?thesis by auto
qed

text \<open>A buffered file that is opened again without closing writes what it still holds into the second file.\<close>

lemma reopened_output_mixes:
  "Option.bind (OutputFile_Open (\<lambda>p. True) ''a'' 0 False (Map.empty, no_output_file)) (\<lambda>x.
     Option.bind (OutputFile_Write ''x'' x) (\<lambda>x.
       map_option fst (OutputFile_Open (\<lambda>p. True) ''b'' 0 False x))) = Some [''a'' \<mapsto> [], ''b'' \<mapsto> ''x'']"
  by (simp add: OutputFile_Open_def OutputFile_Write_def LocalOut_Open_def LocalOut_Close_def LocalOut_Good_def LocalOut_Write_def
      no_output_file_def with_buffer_def Output_Open_def Output_Close_def Output_Write_def Output_Flush_def PushToWrite_def
      output_closed_def writer_runs_def text_at_def Let_def)

text \<open>The size of a file that is appended to counts what was there without a buffer, and does not with one.\<close>

lemma append_size_differs:
  "map_option (FmaOut_Size \<circ> snd) (OpenNoSnappy (\<lambda>p. True) ''a'' 0 True [''a'' \<mapsto> ''xy'']) = Some (Some 2) \<and>
   map_option (FmaOut_Size \<circ> snd) (OpenNoSnappy (\<lambda>p. True) ''a'' 10 True [''a'' \<mapsto> ''xy'']) = Some (Some 0)"
proof -
  have "fp_scheme (FilePath ''a'') = LOCAL" by code_simp
  then show ?thesis
    by (simp add: OpenNoSnappy_def fma_output_kind_def OutputFile_Open_def LocalOut_Open_def LocalOut_Good_def LocalOut_Size_def
        no_output_file_def with_buffer_def Output_Open_def Output_Close_def output_closed_def text_at_def FmaOut_Size_def
        OutputFile_Size_def Let_def)
qed

text \<open>After a seek the offset counts from 0 again, and after closing the stream still calls itself good though
  reading follows the null pointer to its queue.\<close>

lemma buffered_offset_restarts:
  "LocalIn_IsOpen (cur_stream f) \<Longrightarrow> off \<le> lim \<Longrightarrow>
    \<exists>g. InputFile_Seek (local_ops fs lim) off f = Some (True, g) \<and> InputFile_Offset g = 0"
  by (auto simp: InputFile_Seek_def local_ops_def LocalIn_Seek_def InputFile_Offset_def the_buffer_def Prefetch_Offset_def
      Prefetch_Open_def Prefetch_Close_def push_prefetch_def Let_def split_def)

lemma closed_input_good:
  "InputFile_Good f \<Longrightarrow> InputFile_Good (InputFile_Close ops f)"
  "n > 0 \<Longrightarrow> InputFile_Read ops n (InputFile_Close ops f) = None"
  by (auto simp: InputFile_Good_def InputFile_Close_def InputFile_Read_def the_buffer_def Prefetch_Good_def Prefetch_Close_def
      Prefetch_Read_def prefetch_null_def read_from.simps Let_def split: option.splits)

end
