(* ===== verification/Data_Files.thy ===== *)
theory Data_Files
  imports File_Streams
begin

text \<open>
  \<^verbatim>\<open>data_file.h\<close>: a binary file with a header and an array of values of one type. A value is the string of its
  bytes in memory, all of one length, the size of the type; a file without a header is one with an empty
  header. As in \<open>File_Streams\<close> no result stands for an exception or an abort.
\<close>

section \<open>DataFileWriter\<close>

definition DataFileWriter_Open ::
  "(string \<Rightarrow> bool) \<Rightarrow> string \<Rightarrow> string \<Rightarrow> nat \<Rightarrow> files \<times> output_file \<Rightarrow> (files \<times> output_file) option" where
  "DataFileWriter_Open can_open path header block_size x =
     (if OutputFile_Good (snd x) then None
      else Option.bind (OutputFile_Open can_open path block_size False x) (OutputFile_Write header))"

definition DataFileWriter_Open_void ::
  "(string \<Rightarrow> bool) \<Rightarrow> string \<Rightarrow> nat \<Rightarrow> files \<times> output_file \<Rightarrow> (files \<times> output_file) option" where
  "DataFileWriter_Open_void can_open path block_size x =
     (if OutputFile_Good (snd x) then None else OutputFile_Open can_open path block_size False x)"

text \<open>The constructor with a header opens the file; the one for files without headers has an empty body.\<close>

definition DataFileWriter ::
  "(string \<Rightarrow> bool) \<Rightarrow> string \<Rightarrow> string \<Rightarrow> nat \<Rightarrow> files \<Rightarrow> (files \<times> output_file) option" where
  "DataFileWriter can_open path header block_size fs = DataFileWriter_Open can_open path header block_size (fs, no_output_file)"

definition DataFileWriter_void :: "string \<Rightarrow> nat \<Rightarrow> files \<Rightarrow> files \<times> output_file" where
  "DataFileWriter_void path block_size fs = (fs, no_output_file)"

definition DataFile_Write :: "string list \<Rightarrow> files \<times> output_file \<Rightarrow> (files \<times> output_file) option" where
  "DataFile_Write items x = (if \<not> OutputFile_Good (snd x) then None else OutputFile_Write (concat items) x)"

text \<open>The overload for vectors gives the number of values where the number of bytes is asked for.\<close>

definition DataFile_Write_vector :: "string list \<Rightarrow> files \<times> output_file \<Rightarrow> (files \<times> output_file) option" where
  "DataFile_Write_vector items x =
     (if \<not> OutputFile_Good (snd x) then None else OutputFile_Write (take (length items) (concat items)) x)"

definition DataFileWriter_Close :: "files \<times> output_file \<Rightarrow> (files \<times> output_file) option" where
  "DataFileWriter_Close x = OutputFile_Close x"

section \<open>DataFileReader\<close>

record data_reader =
  dr_file :: "local_input input_file"
  dr_header :: string

definition DataFileReader_Open :: "files \<Rightarrow> string \<Rightarrow> nat \<Rightarrow> data_reader option" where
  "DataFileReader_Open fs path header_size =
     Option.bind (InputFile_Open (local_ops fs 0) path 0 (input_closed local_closed)) (\<lambda>f.
       if \<not> InputFile_Good f then None
       else Option.bind (InputFile_Read (local_ops fs 0) header_size f) (\<lambda>(header, f).
         if length header \<noteq> header_size then None else Some \<lparr>dr_file = f, dr_header = header\<rparr>))"

definition DataFileReader_IsOpen :: "data_reader \<Rightarrow> bool" where
  "DataFileReader_IsOpen r = InputFile_Good (dr_file r)"

text \<open>The bytes of a batch as values.\<close>

fun batch_items :: "nat \<Rightarrow> nat \<Rightarrow> string \<Rightarrow> string list" where
  "batch_items sz 0 bytes = []"
| "batch_items sz (Suc n) bytes = take sz bytes # batch_items sz n (drop sz bytes)"

text \<open>\<^verbatim>\<open>BatchIterator::Next\<close>, which the constructor of the iterator calls as well; it aborts on a part of a value.\<close>

definition BatchIterator_Next :: "files \<Rightarrow> nat \<Rightarrow> nat \<Rightarrow> data_reader \<Rightarrow> (string list \<times> data_reader) option" where
  "BatchIterator_Next fs sz batch_size r =
     Option.bind (InputFile_Read (local_ops fs 0) (batch_size * sz) (dr_file r)) (\<lambda>(bytes, f).
       if length bytes mod sz \<noteq> 0 then None
       else Some (batch_items sz (length bytes div sz) bytes, r\<lparr>dr_file := f\<rparr>))"

definition Iterator :: "files \<Rightarrow> nat \<Rightarrow> nat \<Rightarrow> data_reader \<Rightarrow> (string list \<times> data_reader) option" where
  "Iterator fs sz batch_size r =
     (if \<not> DataFileReader_IsOpen r then None else BatchIterator_Next fs sz batch_size r)"

text \<open>The loop of a user, \<^verbatim>\<open>for (auto it = reader.Iterator(n); it; it.Next())\<close>, and the batches it sees.\<close>

partial_function (option) all_batches :: "files \<Rightarrow> nat \<Rightarrow> nat \<Rightarrow> string list \<times> data_reader \<Rightarrow> string list list option" where
  "all_batches fs sz n x =
     (if fst x = [] then Some []
      else Option.bind (BatchIterator_Next fs sz n (snd x)) (\<lambda>y. Option.bind (all_batches fs sz n y) (\<lambda>bs. Some (fst x # bs))))"

section \<open>Batches\<close>

function batches :: "nat \<Rightarrow> 'x list \<Rightarrow> 'x list list" where
  "batches n xs = (if xs = [] \<or> n = 0 then [] else take n xs # batches n (drop n xs))"
  by pat_completeness auto
termination by (relation "measure (\<lambda>(n, xs). length xs)") auto

declare batches.simps [simp del]

lemma batches_simps [simp]: "batches n [] = []" "xs \<noteq> [] \<Longrightarrow> n > 0 \<Longrightarrow> batches n xs = take n xs # batches n (drop n xs)"
  by (simp_all add: batches.simps)

lemma batches_concat: "n > 0 \<Longrightarrow> concat (batches n xs) = xs"
proof (induction n xs rule: batches.induct)
  case (1 n xs)
  then show ?case by (cases "xs = []") simp_all
qed

lemma concat_take_drop:
  assumes "\<forall>x \<in> set xs. length x = sz"
  shows "take (n * sz) (concat xs) = concat (take n xs)" "drop (n * sz) (concat xs) = concat (drop n xs)"
proof -
  have "take (n * sz) (concat xs) = concat (take n xs) \<and> drop (n * sz) (concat xs) = concat (drop n xs)"
    using assms
  proof (induction xs arbitrary: n)
    case (Cons x xs)
    then show ?case by (cases n) simp_all
  qed simp
  then show "take (n * sz) (concat xs) = concat (take n xs)" "drop (n * sz) (concat xs) = concat (drop n xs)" by auto
qed

lemma batch_items_concat: "\<forall>x \<in> set xs. length x = sz \<Longrightarrow> batch_items sz (length xs) (concat xs) = xs"
  by (induction xs) simp_all

lemma length_concat_items: "\<forall>x \<in> set xs. length x = sz \<Longrightarrow> length (concat xs) = length xs * sz"
  by (induction xs) simp_all

lemma Next_items:
  assumes "at_pos t pos (dr_file r)" "drop pos t = concat xs" "\<forall>x \<in> set xs. length x = sz" "sz > 0"
  shows "\<exists>r'. BatchIterator_Next fs sz n r = Some (take n xs, r') \<and> at_pos t (pos + n * sz) (dr_file r')"
proof -
  obtain f where f: "InputFile_Read (local_ops fs 0) (n * sz) (dr_file r) = Some (concat (take n xs), f)" "at_pos t (pos + n * sz) f"
    using read_at_pos [OF assms(1), of fs 0 "n * sz"] assms(2) concat_take_drop(1) [OF assms(3)] by auto
  have xs: "\<forall>x \<in> set (take n xs). length x = sz" using assms(3) by (meson in_set_takeD)
  show ?thesis using f batch_items_concat [OF xs] length_concat_items [OF xs] assms(4)
    by (simp add: BatchIterator_Next_def del: length_take)
qed

lemma all_batches_items:
  assumes "sz > 0" "n > 0"
  shows "at_pos t pos (dr_file r) \<Longrightarrow> drop pos t = concat xs \<Longrightarrow> \<forall>x \<in> set xs. length x = sz \<Longrightarrow>
    all_batches fs sz n (ys, r) = Some (if ys = [] then [] else ys # batches n xs)"
proof (induction "length xs" arbitrary: xs ys pos r rule: less_induct)
  case less
  show ?case
  proof (cases "ys = []")
    case True
    then show ?thesis by (subst all_batches.simps) simp
  next
    case False
    obtain r' where r': "BatchIterator_Next fs sz n r = Some (take n xs, r')" "at_pos t (pos + n * sz) (dr_file r')"
      using Next_items [OF less.prems assms(1)] by blast
    have d: "drop (pos + n * sz) t = concat (drop n xs)"
      using less.prems(2) concat_take_drop(2) [OF less.prems(3)] by (metis add.commute drop_drop)
    have xs: "\<forall>x \<in> set (drop n xs). length x = sz" using less.prems(3) by (meson in_set_dropD)
    have "all_batches fs sz n (take n xs, r') = Some (batches n xs)"
    proof (cases "xs = []")
      case True
      then show ?thesis by (subst all_batches.simps) simp
    next
      case False
      then have "length (drop n xs) < length xs" using assms(2) by simp
      from less.hyps [OF this r'(2) d xs, of "take n xs"] show ?thesis using False assms(2) by simp
    qed
    then show ?thesis using False r'(1) by (subst all_batches.simps) simp
  qed
qed

lemma read_from_good: "read_from rd n got s b = Some (d, early, b') \<Longrightarrow> \<not> early \<Longrightarrow> pf_good b' = pf_good b"
proof (induction rd n got s b rule: read_from.induct)
  case (1 rd n got s b)
  have push [simp]: "pf_good (push_prefetch rd stop s c) = pf_good c" for stop s c
    by (simp add: push_prefetch_def split_def Let_def)
  note r = 1(3) [unfolded read_from.simps [of rd n got s b]]
  show ?case
  proof (cases "n = 0 \<or> pf_offset b < pf_size b")
    case True
    then show ?thesis using r 1(2) [OF _ _ refl _ 1(4)] by (auto simp: Let_def split: if_splits)
  next
    case False
    then obtain data where e: "n \<noteq> 0" "pf_offset b \<ge> pf_size b" "pf_running b" "pf_ahead b = Some data"
      using r by (auto split: if_splits option.splits)
    show ?thesis
    proof (cases "data = [] \<or> n > pf_capacity b")
      case True
      then show ?thesis using r e 1(4) by (cases "data = []") (auto simp: Let_def split_def)
    next
      case False
      then show ?thesis using r e 1(1) [OF e(1,2) _ e(4) _ refl refl _ refl _ 1(4)] by (simp add: Let_def)
    qed
  qed
qed

lemma Read_good:
  assumes "at_pos t pos f" "n \<le> length (drop pos t)" "InputFile_Read (local_ops fs lim) n f = Some (d, f')"
  shows "InputFile_Good f' = InputFile_Good f"
proof -
  obtain b s where b: "if_buffer f = Some b" "pf_stream b = Some s" "buffer_inv local_rest b"
      "remaining local_rest b = drop pos t" using assms(1) by (auto simp: at_pos_def)
  obtain early c where c: "read_from (total_read LocalIn_Read) n [] s b = Some (take n (drop pos t), early, c)"
      "early \<longrightarrow> length (remaining local_rest b) < n"
    using local_file.read_from_spec [OF b(3,2), of n "[]"] b(4) by auto
  then have "\<not> early" using assms(2) b(4) by auto
  then have "pf_good c = pf_good b" using read_from_good [OF c(1)] by simp
  moreover have "f' = f\<lparr>if_buffer := Some (c\<lparr>pf_file_pos := pf_file_pos c + length d\<rparr>)\<rparr>"
    using assms(3) b(1,2) c(1) \<open>\<not> early\<close> by (simp add: InputFile_Read_def local_ops_def Prefetch_Read_def) auto
  ultimately show ?thesis using b(1) by (simp add: InputFile_Good_def the_buffer_def Prefetch_Good_def)
qed

section \<open>Properties\<close>

text \<open>What happens to an open writer: an array is written, or the writing thread runs.\<close>

fun write_arrays :: "string list option list \<Rightarrow> files \<times> output_file \<Rightarrow> (files \<times> output_file) option" where
  "write_arrays [] x = Some x"
| "write_arrays (Some items # es) x = Option.bind (DataFile_Write items x) (write_arrays es)"
| "write_arrays (None # es) x = Option.bind (OutputFile_writer x) (write_arrays es)"

fun written_items :: "string list option list \<Rightarrow> string list" where
  "written_items [] = []"
| "written_items (Some items # es) = items @ written_items es"
| "written_items (None # es) = written_items es"

definition writer_ok :: "files \<Rightarrow> string \<Rightarrow> string \<Rightarrow> files \<times> output_file \<Rightarrow> bool" where
  "writer_ok fs path t x = out_inv fs path t (fst x, BufferedOutput (snd x))"

lemma writer_ok_good: "writer_ok fs path t x \<Longrightarrow> OutputFile_Good (snd x)"
  by (simp add: writer_ok_def out_inv_def OutputFile_Good_def LocalOut_Good_def)

lemma writer_ok_write: "writer_ok fs path t x \<Longrightarrow> \<exists>y. OutputFile_Write d x = Some y \<and> writer_ok fs path (t @ d) y"
  using write_inv_out [of fs path t "(fst x, BufferedOutput (snd x))" d]
  by (auto simp: writer_ok_def FmaOut_Write_def)

lemma writer_ok_run: "writer_ok fs path t x \<Longrightarrow> \<exists>y. OutputFile_writer x = Some y \<and> writer_ok fs path t y"
  using writer_step_inv [of fs path t "(fst x, BufferedOutput (snd x))"]
  by (auto simp: writer_ok_def FmaOut_writer_def)

lemma write_arrays_ok:
  "writer_ok fs path t x \<Longrightarrow> \<exists>y. write_arrays es x = Some y \<and> writer_ok fs path (t @ concat (written_items es)) y"
proof (induction es x arbitrary: t rule: write_arrays.induct)
  case (2 items es x)
  obtain y where y: "DataFile_Write items x = Some y" "writer_ok fs path (t @ concat items) y"
    using writer_ok_write [OF 2(2), of "concat items"] writer_ok_good [OF 2(2)] by (auto simp: DataFile_Write_def)
  from 2(1) [OF y]  y(1) show ?case by simp
next
  case (3 es x)
  obtain y where y: "OutputFile_writer x = Some y" "writer_ok fs path t y" using writer_ok_run [OF 3(2)] by blast
  from 3(1) [OF y] y(1) show ?case by simp
qed simp

lemma writer_ok_close: "writer_ok fs path t x \<Longrightarrow> \<exists>f. DataFileWriter_Close x = Some (fs(path \<mapsto> t), f)"
  using buffered_close_inv [of fs path t "fst x" "snd x"] by (simp add: writer_ok_def DataFileWriter_Close_def)

lemma reader_opens:
  assumes "fs path = Some (hdr @ t)"
  shows "\<exists>r. DataFileReader_Open fs path (length hdr) = Some r \<and> dr_header r = hdr \<and> DataFileReader_IsOpen r \<and>
    at_pos (hdr @ t) (length hdr) (dr_file r)"
proof -
  obtain f where f: "InputFile_Open (local_ops fs 0) path 0 (input_closed local_closed) = Some f" "InputFile_Good f"
      "at_pos (hdr @ t) 0 f" using open_cursor [of fs path "hdr @ t" 0 0, OF assms] by blast
  obtain g where g: "InputFile_Read (local_ops fs 0) (length hdr) f = Some (hdr, g)" "at_pos (hdr @ t) (length hdr) g"
    using read_at_pos [OF f(3), of fs 0 "length hdr"] by auto
  have "InputFile_Good g" using Read_good [OF f(3) _ g(1)] f(2) by simp
  then show ?thesis using f(1,2) g by (simp add: DataFileReader_Open_def DataFileReader_IsOpen_def)
qed

text \<open>
  C10. A data file gives back what was written to it: with any header and block size, arrays of any lengths and the
  writing thread running at any time, a reader of the closed file has the header, and its iterator goes over
  the values in order, in batches of the size asked for of which only the last may be shorter, and ends.
\<close>

theorem data_file_roundtrip:
  assumes "can_open path" "\<forall>v \<in> set (written_items es). length v = sz" "sz > 0" "n > 0"
  shows "\<exists>x y fs' f r it. DataFileWriter can_open path hdr block_size fs = Some x \<and> write_arrays es x = Some y \<and>
    DataFileWriter_Close y = Some (fs', f) \<and> DataFileReader_Open fs' path (length hdr) = Some r \<and> dr_header r = hdr \<and>
    Iterator fs' sz n r = Some it \<and> all_batches fs' sz n it = Some (batches n (written_items es))"
proof -
  let ?xs = "written_items es"
  obtain x0 where x0: "OutputFile_Open can_open path block_size False (fs, no_output_file) = Some x0" "writer_ok fs path [] x0"
    using out_open_inv [of can_open path block_size False fs] assms(1) by (auto simp: writer_ok_def)
  obtain x where x: "OutputFile_Write hdr x0 = Some x" "writer_ok fs path hdr x" using writer_ok_write [OF x0(2), of hdr] by auto
  have "DataFileWriter can_open path hdr block_size fs = Some x"
    using x0(1) x(1) by (simp add: DataFileWriter_def DataFileWriter_Open_def OutputFile_Good_def LocalOut_Good_def no_output_file_def)
  moreover obtain y where y: "write_arrays es x = Some y" "writer_ok fs path (hdr @ concat ?xs) y"
    using write_arrays_ok [OF x(2)] by blast
  moreover obtain f where f: "DataFileWriter_Close y = Some (fs(path \<mapsto> hdr @ concat ?xs), f)"
    using writer_ok_close [OF y(2)] by blast
  moreover obtain r where r: "DataFileReader_Open (fs(path \<mapsto> hdr @ concat ?xs)) path (length hdr) = Some r" "dr_header r = hdr"
      "DataFileReader_IsOpen r" "at_pos (hdr @ concat ?xs) (length hdr) (dr_file r)"
    using reader_opens [of "fs(path \<mapsto> hdr @ concat ?xs)" path hdr "concat ?xs"] by auto
  moreover obtain r' where r': "BatchIterator_Next (fs(path \<mapsto> hdr @ concat ?xs)) sz n r = Some (take n ?xs, r')"
      "at_pos (hdr @ concat ?xs) (length hdr + n * sz) (dr_file r')"
    using Next_items [OF r(4) _ assms(2,3), of "fs(path \<mapsto> hdr @ concat ?xs)" n] by auto
  moreover have "all_batches (fs(path \<mapsto> hdr @ concat ?xs)) sz n (take n ?xs, r') = Some (batches n ?xs)"
  proof -
    have d: "drop (length hdr + n * sz) (hdr @ concat ?xs) = concat (drop n ?xs)"
      using concat_take_drop(2) [OF assms(2), of n] by simp
    have "\<forall>v \<in> set (drop n ?xs). length v = sz" using assms(2) by (meson in_set_dropD)
    from all_batches_items [OF assms(3,4) r'(2) d this, of _ "take n ?xs"] show ?thesis using assms(4) by (cases "?xs = []") simp_all
  qed
  moreover have "Iterator (fs(path \<mapsto> hdr @ concat ?xs)) sz n r = Some (take n ?xs, r')"
    using r(3) r'(1) by (simp add: Iterator_def)
  ultimately show ?thesis by blast
qed

lemma data_file_roundtrip_witness:
  "\<exists>x y fs' f r it. DataFileWriter (\<lambda>p. True) ''d'' ''HH'' 10 Map.empty = Some x \<and>
    write_arrays [Some [''ab'', ''cd''], None, Some [''ef'']] x = Some y \<and>
    DataFileWriter_Close y = Some (fs', f) \<and> DataFileReader_Open fs' ''d'' 2 = Some r \<and> dr_header r = ''HH'' \<and>
    Iterator fs' 2 2 r = Some it \<and> all_batches fs' 2 2 it = Some [[''ab'', ''cd''], [''ef'']]"
proof -
  have e: "length ''HH'' = 2" "written_items [Some [''ab'', ''cd''], None, Some [''ef'']] = [''ab'', ''cd'', ''ef'']"
    "batches 2 [''ab'', ''cd'', ''ef''] = [[''ab'', ''cd''], [''ef'']]" by simp_all
  have "\<forall>v \<in> set (written_items [Some [''ab'', ''cd''], None, Some [''ef'']]). length v = 2" by simp
  from data_file_roundtrip [where can_open = "\<lambda>p. True" and path = "''d''" and hdr = "''HH''" and block_size = 10
      and fs = Map.empty and n = 2, OF TrueI this] show ?thesis unfolding e by simp
qed

text \<open>Written as a vector, two values of two bytes leave two bytes in the file; three leave three, and reading aborts.\<close>

lemma vector_write_cut:
  "\<forall>v \<in> set items. length v = sz \<Longrightarrow> sz > 0 \<Longrightarrow> writer_ok fs path t x \<Longrightarrow>
    \<exists>y. DataFile_Write_vector items x = Some y \<and> writer_ok fs path (t @ take (length items) (concat items)) y"
  using writer_ok_write [of fs path t x "take (length items) (concat items)"] writer_ok_good [of fs path t x]
  by (simp add: DataFile_Write_vector_def)

text \<open>The constructor of a writer without a header leaves the writer closed.\<close>

lemma void_writer_closed:
  "DataFile_Write items (DataFileWriter_void path n fs) = None"
  by (simp add: DataFile_Write_def DataFileWriter_void_def OutputFile_Good_def LocalOut_Good_def no_output_file_def)

end
