(* ===== verification/Hdfs_System.thy ===== *)
theory Hdfs_System
  imports Tuple_Parser File_Paths Stream_Base
begin

text \<open>
  \<^verbatim>\<open>HdfsFileSystem\<close> of \<^verbatim>\<open>file_system.h\<close>, in the build without libhdfs: every operation runs the command
  \<^verbatim>\<open>hdfs dfs\<close>, whose exit status and output are parameters (\<open>exec\<close> and \<open>pipe\<close>), and reads the
  output. No result stands for an error that aborts the program and for an exception of the parser.
\<close>

section \<open>Commands\<close>

definition HDFS_CMD :: string where "HDFS_CMD = ''hdfs dfs ''"

definition in_quotes :: "string \<Rightarrow> string" where
  "in_quotes s = CHR 0x22 # s @ [CHR 0x22]"

text \<open>A local file at the destination is removed first; the command sees the files without it.\<close>

definition Hdfs_CopyToLocal ::
  "((string \<Rightarrow> string option) \<Rightarrow> string \<Rightarrow> int) \<Rightarrow> string \<Rightarrow> string \<Rightarrow> (string \<Rightarrow> string option) \<Rightarrow> bool" where
  "Hdfs_CopyToLocal exec src dst local_files =
     (let local_files = (if local_files dst \<noteq> None then local_files(dst := None) else local_files)
      in exec local_files (HDFS_CMD @ '' -get '' @ in_quotes src @ '' '' @ in_quotes dst) = 0)"

definition Hdfs_CopyFromLocal :: "(string \<Rightarrow> int) \<Rightarrow> string \<Rightarrow> string \<Rightarrow> bool" where
  "Hdfs_CopyFromLocal exec src remote = (exec (HDFS_CMD @ '' -put -f '' @ in_quotes src @ '' '' @ in_quotes remote) = 0)"

definition Hdfs_FileExists :: "(string \<Rightarrow> int) \<Rightarrow> string \<Rightarrow> bool" where
  "Hdfs_FileExists exec path = (exec (HDFS_CMD @ '' -test -f '' @ in_quotes path) = 0)"

definition Hdfs_Mkdir :: "(string \<Rightarrow> int) \<Rightarrow> string \<Rightarrow> bool" where
  "Hdfs_Mkdir exec path = (exec (HDFS_CMD @ '' -mkdir -p '' @ in_quotes path) = 0)"

definition Hdfs_Remove :: "(string \<Rightarrow> int) \<Rightarrow> string \<Rightarrow> bool" where
  "Hdfs_Remove exec path = (exec (HDFS_CMD @ '' -rm -f '' @ in_quotes path) = 0)"

definition Hdfs_RemoveDir :: "(string \<Rightarrow> int) \<Rightarrow> string \<Rightarrow> bool" where
  "Hdfs_RemoveDir exec path = (exec (HDFS_CMD @ '' -rm -rf '' @ in_quotes path) = 0)"

definition Hdfs_IsDir :: "(string \<Rightarrow> int) \<Rightarrow> string \<Rightarrow> bool" where
  "Hdfs_IsDir exec path = (exec (HDFS_CMD @ '' -test -d '' @ in_quotes path) = 0)"

section \<open>Listings\<close>

text \<open>The bytes that come through the pipe are read as those of a stream in memory.\<close>

definition ls_lines :: "(string \<Rightarrow> string) \<Rightarrow> string \<Rightarrow> string list option" where
  "ls_lines pipe path =
     map_option fst (ReadAllLines MemRead True
       (StreamLineReader (InputMemoryStream (pipe (HDFS_CMD @ '' -ls '' @ in_quotes path))) 1024))"

text \<open>\<^verbatim>\<open>sscanf\<close> with \<^verbatim>\<open>%lu\<close>, the parser of a \<^verbatim>\<open>size_t\<close>.\<close>

definition sscanf_lu :: "string \<Rightarrow> int option" where
  "sscanf_lu s =
     (let s = dropWhile c_space s;
          neg = (s \<noteq> [] \<and> hd s = CHR ''-'');
          s = (if s \<noteq> [] \<and> (hd s = CHR ''-'' \<or> hd s = CHR ''+'') then tl s else s);
          ds = takeWhile IsDigits s; v = dec_from 0 ds
      in if ds = [] then None
         else if v \<ge> 2 ^ 64 then Some (2 ^ 64 - 1)
         else Some (if neg then (- v) mod 2 ^ 64 else v))"

definition Hdfs_GetFileSize :: "(string \<Rightarrow> string) \<Rightarrow> string \<Rightarrow> int option" where
  "Hdfs_GetFileSize pipe path =
     (case ls_lines pipe path of
        None \<Rightarrow> None
      | Some [] \<Rightarrow> Some 0
      | Some (l # ls) \<Rightarrow>
          if StartsWith l ''Found '' True \<or> StartsWith l ''ls: '' True then Some 0
          else let fields = Split l in
            if length fields < 8 then None
            else Some (case sscanf_lu (fields ! 4) of None \<Rightarrow> 0 | Some n \<Rightarrow> n))"

definition ls_types :: "field_type list" where
  "ls_types = [FDrop, FChar, FDrop, FDrop, FInteger Int64, FDrop, FDrop, FString]"

text \<open>One line: its type, the size and the path.\<close>

definition parse_ls :: "string \<Rightarrow> (char \<times> int \<times> string) option" where
  "parse_ls l =
     (case ParseAsTuple False ls_types l of
        Inr ([_, VChar t, _, _, VInt n, _, _, VStr path], _, True) \<Rightarrow> Some (t, n, path)
      | _ \<Rightarrow> None)"

fun files_loop :: "bool \<Rightarrow> string list \<Rightarrow> (string list \<times> int list) option" where
  "files_loop full_path [] = Some ([], [])"
| "files_loop full_path (l # ls) =
     (if l = [] then files_loop full_path ls
      else case parse_ls l of
        None \<Rightarrow> None
      | Some (t, n, path) \<Rightarrow>
          map_option (\<lambda>(ps, ns).
              if t \<noteq> CHR ''-'' then ((if full_path then path else GetFileNameFromPath path) # ps, n # ns) else (ps, ns))
            (files_loop full_path ls))"

fun dirs_loop :: "bool \<Rightarrow> string list \<Rightarrow> string list option" where
  "dirs_loop full_path [] = Some []"
| "dirs_loop full_path (l # ls) =
     (if l = [] then dirs_loop full_path ls
      else case parse_ls l of
        None \<Rightarrow> None
      | Some (t, n, path) \<Rightarrow>
          map_option (\<lambda>ps. if t = CHR ''-'' then (if full_path then path else GetFileNameFromPath path) # ps else ps)
            (dirs_loop full_path ls))"

definition without_header :: "string list \<Rightarrow> string list option" where
  "without_header ls =
     (if ls = [] then None
      else if StartsWith (hd ls) ''ls: '' True then None
      else if StartsWith (hd ls) ''Found '' True then Some (tl ls) else Some ls)"

definition Hdfs_ListFiles :: "(string \<Rightarrow> string) \<Rightarrow> string \<Rightarrow> bool \<Rightarrow> (string list \<times> int list) option" where
  "Hdfs_ListFiles pipe dir full_path =
     Option.bind (ls_lines pipe dir) (\<lambda>ls.
       case without_header ls of None \<Rightarrow> Some ([], []) | Some ls \<Rightarrow> files_loop full_path ls)"

definition Hdfs_ListSubDirs :: "(string \<Rightarrow> string) \<Rightarrow> string \<Rightarrow> bool \<Rightarrow> string list option" where
  "Hdfs_ListSubDirs pipe dir full_path =
     Option.bind (ls_lines pipe dir) (\<lambda>ls.
       case without_header ls of None \<Rightarrow> Some [] | Some ls \<Rightarrow> dirs_loop full_path ls)"

section \<open>Columns\<close>

text \<open>A line of columns, each behind some blanks.\<close>

fun columns :: "(string \<times> string) list \<Rightarrow> string" where
  "columns [] = []"
| "columns ((bl, tok) # cs) = bl @ tok @ columns cs"

definition token :: "string \<Rightarrow> bool" where
  "token s \<longleftrightarrow> s \<noteq> [] \<and> (\<forall>c \<in> set s. IsGraphical c)"

definition blanks :: "string \<Rightarrow> bool" where
  "blanks s \<longleftrightarrow> (\<forall>c \<in> set s. IsBlank c)"

lemma graphical_not_blank: "IsGraphical c \<Longrightarrow> \<not> IsBlank c \<and> \<not> IsNewLine c"
  by (auto simp: IsGraphical_uchar IsBlank_uchar IsNewLine_uchar)

lemma blank_not_graphical: "IsBlank c \<Longrightarrow> \<not> IsGraphical c \<and> \<not> IsNewLine c"
  by (auto simp: IsGraphical_uchar IsBlank_uchar IsNewLine_uchar)

fun column_value :: "field_type \<Rightarrow> string \<Rightarrow> field_value" where
  "column_value FChar tok = VChar (hd tok)"
| "column_value FString tok = VStr tok"
| "column_value (FInteger i) tok = VInt (dec_from 0 tok)"
| "column_value _ tok = VDrop"

fun column_ok :: "field_type \<Rightarrow> string \<Rightarrow> bool" where
  "column_ok (FInteger i) tok \<longleftrightarrow> i = Int64 \<and> tok \<noteq> [] \<and> (\<forall>c \<in> set tok. IsDigits c) \<and> dec_from 0 tok \<le> int_max 64"
| "column_ok FChar tok \<longleftrightarrow> token tok"
| "column_ok FDrop tok \<longleftrightarrow> token tok"
| "column_ok FString tok \<longleftrightarrow> token tok"
| "column_ok _ tok \<longleftrightarrow> False"

lemma digits_graphical: "IsDigits c \<Longrightarrow> IsGraphical c"
  by (auto simp: IsGraphical_uchar IsDigits_uchar)

lemma column_token: "column_ok t tok \<Longrightarrow> token tok"
  by (cases t) (auto simp: token_def digits_graphical)

lemma column_parse:
  assumes "column_ok t tok" "rest = [] \<or> IsBlank (hd rest)"
  shows "\<exists>r. ParseT False t (tok @ rest) = Some (r, column_value t tok) \<and> 0 < r \<and> r \<le> length tok"
proof -
  have stop: "rest = [] \<or> \<not> IsGraphical (hd rest)" using assms(2) blank_not_graphical by blast
  have tok: "tok \<noteq> []" "\<And>c. c \<in> set tok \<Longrightarrow> IsGraphical c" using column_token [OF assms(1)] by (auto simp: token_def)
  have run: "takeWhile IsGraphical (tok @ rest) = tok" "dropWhile IsGraphical (tok @ rest) = rest"
    using takeWhile_stop [of tok IsGraphical rest] dropWhile_stop [of tok IsGraphical rest] tok(2) stop by auto
  show ?thesis
  proof (cases t)
    case (FInteger i)
    have d: "i = Int64" "tok \<noteq> []" "\<forall>c \<in> set tok. IsDigits c" "dec_from 0 tok \<le> int_max 64"
      using assms(1) by (simp_all add: FInteger)
    have "rest = [] \<or> \<not> IsDigits (hd rest)" using stop digits_graphical by blast
    then have "ParseInt64 (tok @ rest) 0 = Some (length tok, dec_from 0 tok)"
      using ParseInt64_signed_digits [OF d(2,3), of rest False 0] d(4) by simp
    moreover have "0 \<le> dec_from 0 tok" using d(3) by (intro dec_from_ge) auto
    ultimately have "ParseDigit Int64 (tok @ rest) 0 = Some (length tok, dec_from 0 tok)"
      using d(2,4) by (simp add: ParseDigit_def CheckValueBound_iff int_max_def)
    then show ?thesis using d(1,2) FInteger by simp
  next
    case FDrop
    then show ?thesis using run tok by (simp add: DropGraphicalField_def)
  next
    case FString
    then show ?thesis using run tok by (simp add: ParseGraphicalString_def push_while_eq)
  next
    case FChar
    then show ?thesis using tok by (cases tok) (auto simp: ParseChar_def)
  qed (use assms(1) in auto)
qed

lemma columns_parse:
  assumes "list_all2 (\<lambda>t c. column_ok t (snd c)) ts cs" "ts \<noteq> []"
    and "\<forall>c \<in> set cs. blanks (fst c)" "\<forall>c \<in> set (tl cs). fst c \<noteq> []"
  shows "\<exists>n. ParseNext False (pre @ columns cs) idx ts (length pre) = Inr (map2 column_value ts (map snd cs), n) \<and> n \<noteq> 0"
  using assms
proof (induction ts arbitrary: cs pre idx)
  case (Cons t ts)
  obtain bl tok cs1 where c: "cs = (bl, tok) # cs1" using Cons.prems(1) by (cases cs) auto
  have tok: "column_ok t tok" "tok \<noteq> []" "\<And>x. x \<in> set tok \<Longrightarrow> IsGraphical x"
    using Cons.prems(1) column_token [of t tok] by (auto simp: c token_def)
  have bl: "\<And>x. x \<in> set bl \<Longrightarrow> \<not> IsGraphical x" using Cons.prems(3) blank_not_graphical by (auto simp: c blanks_def)
  have skip: "takeWhile (\<lambda>x. \<not> IsGraphical x) (bl @ tok @ columns cs1) = bl"
    using bl tok(2,3) by (intro takeWhile_stop) auto
  show ?case
  proof (cases "ts = []")
    case True
    then have cs1: "cs1 = []" using Cons.prems(1) by (simp add: c)
    obtain r where "ParseT False t tok = Some (r, column_value t tok)" "0 < r" using column_parse [OF tok(1), of "[]"] by auto
    then show ?thesis using True skip by (simp add: c cs1 Let_def)
  next
    case False
    then obtain bl' tok' cs2 where cs1: "cs1 = (bl', tok') # cs2" using Cons.prems(1) by (cases cs1) (auto simp: c)
    then obtain x bs where bl': "bl' = x # bs" "IsBlank x" "blanks bs" using Cons.prems(3,4)
      by (cases bl') (auto simp: blanks_def c)
    let ?cs = "(bs, tok') # cs2" and ?pre = "pre @ bl @ tok @ [x]"
    have cols: "columns cs1 = x # columns ?cs" by (simp add: cs1 bl'(1))
    obtain r where r: "ParseT False t (tok @ x # columns ?cs) = Some (r, column_value t tok)" "0 < r" "r \<le> length tok"
      using column_parse [OF tok(1), of "x # columns ?cs"] bl'(2) by auto
    have "\<exists>n. ParseNext False (?pre @ columns ?cs) (idx + 1) ts (length ?pre) = Inr (map2 column_value ts (map snd ?cs), n) \<and> n \<noteq> 0"
      using Cons.prems False bl'(3) by (intro Cons.IH) (auto simp: c cs1 list_all2_Cons2)
    then obtain n where n: "ParseNext False (?pre @ columns ?cs) (idx + 1) ts (length ?pre) = Inr (map2 column_value ts (map snd cs1), n)"
        "n \<noteq> 0" by (auto simp: cs1)
    have b: "pre @ columns cs = ?pre @ columns ?cs" by (simp add: c cols)
    let ?b = "?pre @ columns ?cs"
    have d0: "drop (length pre) ?b = bl @ tok @ columns cs1" by (simp add: cols)
    have d1: "drop (length pre + length bl) ?b = tok @ x # columns ?cs" by simp
    have d2: "drop (length pre + length bl + r) ?b = drop r tok @ x # columns ?cs" using r(3) by simp
    have d3: "drop (length pre + length bl + length tok) ?b = x # columns ?cs" by simp
    have run: "takeWhile (\<lambda>c. \<not> IsBlank c \<and> \<not> IsNewLine c) (drop r tok @ x # columns ?cs) = drop r tok"
      using tok(3) graphical_not_blank bl'(2) by (intro takeWhile_stop) (auto dest: in_set_dropD)
    have len: "r + length (drop r tok) = length tok" using r(3) by simp
    have last: "length pre + length bl + (length tok + 1) = length ?pre" by simp
    have nl: "\<not> IsNewLine x" using bl'(2) blank_not_graphical by blast
    have "ParseNext False ?b idx (t # ts) (length pre) = Inr (column_value t tok # map2 column_value ts (map snd cs1), n)"
      unfolding ParseNext.simps(2) d0 skip Let_def d1 r(1) option.case prod.case if_False
      using False r(2) bl'(2) nl n(1)
      by (simp only: d2 run len d3 last list.distinct list.sel refl if_True if_False not_True_eq_False not_False_eq_True
          simp_thms neq0_conv sum.case prod.case) simp
    then show ?thesis using n(2) unfolding b by (simp add: c)
  qed
qed simp

section \<open>The output of the command\<close>

record hdfs_entry =
  he_perm :: string
  he_repl :: string
  he_owner :: string
  he_group :: string
  he_size :: int
  he_date :: string
  he_time :: string
  he_path :: string

definition entry_ok :: "hdfs_entry \<Rightarrow> bool" where
  "entry_ok e \<longleftrightarrow> token (he_perm e) \<and> hd (he_perm e) \<in> {CHR ''-'', CHR ''d''} \<and> token (he_repl e) \<and> token (he_owner e) \<and>
     token (he_group e) \<and> 0 \<le> he_size e \<and> he_size e \<le> int_max 64 \<and> token (he_date e) \<and> token (he_time e) \<and> token (he_path e)"

text \<open>The columns of an entry; \<open>pad\<close> is what the command puts before each of them to align them.\<close>

definition entry_columns :: "(nat \<Rightarrow> string) \<Rightarrow> hdfs_entry \<Rightarrow> (string \<times> string) list" where
  "entry_columns pad e =
     [([], he_perm e), (pad 1, he_repl e), (pad 2, he_owner e), (pad 3, he_group e), (pad 4, PrintUintToBuffer (he_size e)),
      (pad 5, he_date e), (pad 6, he_time e), (pad 7, he_path e)]"

definition pad_ok :: "(nat \<Rightarrow> string) \<Rightarrow> bool" where
  "pad_ok pad \<longleftrightarrow> (\<forall>i. pad i \<noteq> [] \<and> blanks (pad i))"

definition entry_line :: "(nat \<Rightarrow> string) \<Rightarrow> hdfs_entry \<Rightarrow> string" where
  "entry_line pad e = columns (entry_columns pad e)"

definition is_dir_entry :: "hdfs_entry \<Rightarrow> bool" where
  "is_dir_entry e \<longleftrightarrow> hd (he_repl e) = CHR ''-''"

lemma parse_entry:
  assumes "entry_ok e" "pad_ok pad"
  shows "parse_ls (entry_line pad e) = Some (hd (he_repl e), he_size e, he_path e)"
proof -
  have digits: "column_ok (FInteger Int64) (PrintUintToBuffer (he_size e))" "dec_from 0 (PrintUintToBuffer (he_size e)) = he_size e"
    using assms(1) PrintUint_digits [of "he_size e"] PrintUint_nonempty [of "he_size e"] PrintUint_value [of "he_size e"]
    by (simp_all add: entry_ok_def)
  have "\<exists>n. ParseNext False ([] @ columns (entry_columns pad e)) 0 ls_types (length ([] :: string)) =
      Inr (map2 column_value ls_types (map snd (entry_columns pad e)), n) \<and> n \<noteq> 0"
    using assms digits
    by (intro columns_parse) (auto simp: entry_columns_def ls_types_def entry_ok_def pad_ok_def blanks_def)
  moreover have "map2 column_value ls_types (map snd (entry_columns pad e)) =
      [VDrop, VChar (hd (he_repl e)), VDrop, VDrop, VInt (he_size e), VDrop, VDrop, VStr (he_path e)]"
    by (simp add: ls_types_def entry_columns_def digits(2))
  ultimately obtain n where n: "ParseNext False (entry_line pad e) 0 ls_types 0 =
      Inr ([VDrop, VChar (hd (he_repl e)), VDrop, VDrop, VInt (he_size e), VDrop, VDrop, VStr (he_path e)], n)" "n \<noteq> 0"
    by (auto simp: entry_line_def)
  then show ?thesis by (simp add: parse_ls_def ParseAsTuple_def TupleParser_def)
qed

lemma files_loop_entries:
  "list_all entry_ok es \<Longrightarrow> pad_ok pad \<Longrightarrow> files_loop full (map (entry_line pad) es) =
     Some (map (\<lambda>e. if full then he_path e else Name (he_path e)) (filter (\<lambda>e. \<not> is_dir_entry e) es),
       map he_size (filter (\<lambda>e. \<not> is_dir_entry e) es))"
proof (induction es)
  case (Cons e es)
  have "entry_line pad e \<noteq> []" using Cons.prems by (simp add: entry_line_def entry_columns_def entry_ok_def token_def)
  then show ?case using Cons parse_entry [of e pad] by (auto simp: is_dir_entry_def GetFileNameFromPath_def)
qed simp

lemma dirs_loop_entries:
  "list_all entry_ok es \<Longrightarrow> pad_ok pad \<Longrightarrow> dirs_loop full (map (entry_line pad) es) =
     Some (map (\<lambda>e. if full then he_path e else Name (he_path e)) (filter is_dir_entry es))"
proof (induction es)
  case (Cons e es)
  have "entry_line pad e \<noteq> []" using Cons.prems by (simp add: entry_line_def entry_columns_def entry_ok_def token_def)
  then show ?case using Cons parse_entry [of e pad] by (auto simp: is_dir_entry_def GetFileNameFromPath_def)
qed simp

text \<open>The output as lines.\<close>

definition as_text :: "string list \<Rightarrow> string" where
  "as_text ls = concat (map (\<lambda>l. l @ [CHR 0x0A]) ls)"

definition plain_line :: "string \<Rightarrow> bool" where
  "plain_line l \<longleftrightarrow> l \<noteq> [] \<and> CHR 0x0A \<notin> set l \<and> \<not> is_ending (last l)"

lemma lines_of_text: "\<forall>l \<in> set ls. plain_line l \<Longrightarrow> map (finish True) (lines_of (as_text ls)) = ls"
proof (induction ls)
  case (Cons l ls)
  have l: "l \<noteq> []" "CHR 0x0A \<notin> set l" "\<not> is_ending (last l)" using Cons.prems by (auto simp: plain_line_def)
  have t: "as_text (l # ls) = (l @ [CHR 0x0A]) @ as_text ls" by (simp add: as_text_def)
  have f: "first_line (l @ [CHR 0x0A]) = l @ [CHR 0x0A]" using takeWhile_until [OF l(2), of "[]"] by (simp add: first_line_def)
  then have a: "after_line (l @ [CHR 0x0A]) = []" by (simp add: after_line_def)
  have "first_line (as_text (l # ls)) = l @ [CHR 0x0A]" "after_line (as_text (l # ls)) = as_text ls"
    using first_line_append(1) [of "l @ [CHR 0x0A]" "as_text ls"] f a by (simp_all add: t)
  then have "lines_of (as_text (l # ls)) = (l @ [CHR 0x0A]) # lines_of (as_text ls)" by (subst lines_of_step) (simp_all add: t)
  moreover have "finish True (l @ [CHR 0x0A]) = l"
  proof -
    obtain m x where m: "l = m @ [x]" "\<not> is_ending x" using l(1,3) by (cases l rule: rev_cases) auto
    then show ?thesis by (simp add: finish_def strip_line_def is_ending_def)
  qed
  ultimately show ?case using Cons by simp
qed (simp add: as_text_def)

lemma ls_lines_text:
  assumes "pipe (HDFS_CMD @ '' -ls '' @ in_quotes dir) = as_text ls" "\<forall>l \<in> set ls. plain_line l"
  shows "ls_lines pipe dir = Some ls"
proof -
  let ?r = "StreamLineReader (InputMemoryStream (as_text ls)) 1024"
  obtain r' where "ReadAllLines MemRead True ?r = Some (map (finish True) (lines_of (pending mem_rest ?r)), r')"
    using mem.ReadAllLines_spec [of ?r True] start_reader(1) [of 1024 "InputMemoryStream (as_text ls)"] by auto
  moreover have "pending mem_rest ?r = as_text ls"
    using start_reader(2) [of 1024 mem_rest] by (simp add: mem_rest_def InputMemoryStream_def)
  ultimately show ?thesis using assms lines_of_text [OF assms(2)] by (simp add: ls_lines_def)
qed

lemma columns_plain:
  "cs \<noteq> [] \<Longrightarrow> \<forall>c \<in> set cs. blanks (fst c) \<and> token (snd c) \<Longrightarrow> plain_line (columns cs)"
proof (induction cs rule: columns.induct)
  case (2 bl tok cs)
  have t: "tok \<noteq> []" "CHR 0x0A \<notin> set tok" "\<not> is_ending (last tok)" "CHR 0x0A \<notin> set bl"
    using 2(3) graphical_not_blank blank_not_graphical by (auto simp: token_def blanks_def is_ending_def IsNewLine_def)
  then show ?case using 2 by (cases "cs = []") (auto simp: plain_line_def)
qed simp

lemma entry_plain: "entry_ok e \<Longrightarrow> pad_ok pad \<Longrightarrow> plain_line (entry_line pad e)"
  unfolding entry_line_def
  using PrintUint_digits [of "he_size e"] PrintUint_nonempty [of "he_size e"] digits_graphical
  by (intro columns_plain) (auto simp: entry_columns_def entry_ok_def pad_ok_def blanks_def token_def)

lemma StartsWith_hd: "StartsWith s (c # p) True \<Longrightarrow> hd s = c"
  unfolding StartsWith_norm norm_simps by (cases s) simp_all

lemma entry_no_header:
  assumes "entry_ok e"
  shows "\<not> StartsWith (entry_line pad e) ''ls: '' True" "\<not> StartsWith (entry_line pad e) ''Found '' True"
proof -
  have "he_perm e \<noteq> []" "hd (he_perm e) \<in> {CHR ''-'', CHR ''d''}" using assms by (simp_all add: entry_ok_def token_def)
  then have "hd (entry_line pad e) \<in> {CHR ''-'', CHR ''d''}" by (simp add: entry_line_def entry_columns_def)
  then show "\<not> StartsWith (entry_line pad e) ''ls: '' True" "\<not> StartsWith (entry_line pad e) ''Found '' True"
    using StartsWith_hd by fastforce+
qed

section \<open>Properties\<close>

text \<open>
  C38. Listings of HDFS are read as the command prints them: from the output of \<^verbatim>\<open>-ls\<close>, with or without its first line
  and padded in any way, \<^verbatim>\<open>ListFiles\<close> returns the paths or the names of exactly the files, with their sizes,
  and \<^verbatim>\<open>ListSubDirs\<close> those of exactly the directories, in order, when no column has a blank in it.
\<close>

theorem hdfs_listing:
  assumes "list_all entry_ok es" "pad_ok pad" "plain_line (''Found '' @ count)"
    and "pipe (HDFS_CMD @ '' -ls '' @ in_quotes dir) =
      as_text ((if header then [''Found '' @ count] else []) @ map (entry_line pad) es)"
  shows "Hdfs_ListFiles pipe dir full =
      Some (map (\<lambda>e. if full then he_path e else Name (he_path e)) (filter (\<lambda>e. \<not> is_dir_entry e) es),
        map he_size (filter (\<lambda>e. \<not> is_dir_entry e) es)) \<and>
    Hdfs_ListSubDirs pipe dir full =
      Some (map (\<lambda>e. if full then he_path e else Name (he_path e)) (filter is_dir_entry es))"
proof -
  let ?ls = "(if header then [''Found '' @ count] else []) @ map (entry_line pad) es"
  have "\<forall>l \<in> set ?ls. plain_line l" using assms(1-3) entry_plain by (auto simp: list_all_iff)
  then have lines: "ls_lines pipe dir = Some ?ls" using ls_lines_text [where pipe = pipe and dir = dir] assms(4) by blast
  have head: "\<not> StartsWith (''Found '' @ count) ''ls: '' True" "StartsWith (''Found '' @ count) ''Found '' True"
    using StartsWith_hd [of "''Found '' @ count" "CHR ''l''" "''s: ''"] by (auto simp: StartsWith_norm norm_simps(1))
  have "without_header ?ls = (if ?ls = [] then None else Some (map (entry_line pad) es))"
    using head assms(1) entry_no_header by (cases es) (auto simp: without_header_def)
  then show ?thesis
    using lines files_loop_entries [OF assms(1,2), of full] dirs_loop_entries [OF assms(1,2), of full]
    by (cases es) (auto simp: Hdfs_ListFiles_def Hdfs_ListSubDirs_def)
qed

definition listed_entries :: "hdfs_entry list" where
  "listed_entries =
     [\<lparr>he_perm = ''-rw-r--r--'', he_repl = ''1'', he_owner = ''hct'', he_group = ''sg'', he_size = 15429, he_date = ''2017-05-31'',
       he_time = ''13:43'', he_path = ''/a/LICENSE.txt''\<rparr>,
      \<lparr>he_perm = ''drwxr-xr-x'', he_repl = ''-'', he_owner = ''hct'', he_group = ''sg'', he_size = 0, he_date = ''2017-05-31'',
       he_time = ''13:44'', he_path = ''/a/b''\<rparr>]"

definition listing_text :: string where
  "listing_text = as_text [''Found 2 items'',
     ''-rw-r--r--   1 hct sg 15429 2017-05-31 13:43 /a/LICENSE.txt'', ''drwxr-xr-x   - hct sg 0 2017-05-31 13:44 /a/b'']"

lemma hdfs_listing_witness:
  "Hdfs_ListFiles (\<lambda>c. if c = ''hdfs dfs  -ls \"/a\"'' then listing_text else []) ''/a'' False = Some ([''LICENSE.txt''], [15429]) \<and>
   Hdfs_ListSubDirs (\<lambda>c. if c = ''hdfs dfs  -ls \"/a\"'' then listing_text else []) ''/a'' True = Some [''/a/b'']"
proof -
  let ?pipe = "\<lambda>c. if c = ''hdfs dfs  -ls \"/a\"'' then listing_text else []"
  let ?pad = "\<lambda>i. if i = 1 then ''   '' else '' ''"
  have ok: "list_all entry_ok listed_entries" by code_simp
  have pad: "pad_ok ?pad" by (simp add: pad_ok_def blanks_def IsBlank_def)
  have plain: "plain_line (''Found '' @ ''2 items'')" by code_simp
  have cmd: "HDFS_CMD @ '' -ls '' @ in_quotes ''/a'' = ''hdfs dfs  -ls \"/a\"''" by (simp add: HDFS_CMD_def in_quotes_def)
  have "map (entry_line ?pad) listed_entries = [''-rw-r--r--   1 hct sg 15429 2017-05-31 13:43 /a/LICENSE.txt'',
      ''drwxr-xr-x   - hct sg 0 2017-05-31 13:44 /a/b'']" by code_simp
  then have "?pipe (HDFS_CMD @ '' -ls '' @ in_quotes ''/a'') =
      as_text ((if True then [''Found '' @ ''2 items''] else []) @ map (entry_line ?pad) listed_entries)"
    unfolding cmd by (simp add: listing_text_def)
  from hdfs_listing [where pipe = ?pipe, OF ok pad plain this] have l: "Hdfs_ListFiles ?pipe ''/a'' full =
      Some (map (\<lambda>e. if full then he_path e else Name (he_path e)) (filter (\<lambda>e. \<not> is_dir_entry e) listed_entries),
        map he_size (filter (\<lambda>e. \<not> is_dir_entry e) listed_entries)) \<and>
    Hdfs_ListSubDirs ?pipe ''/a'' full =
      Some (map (\<lambda>e. if full then he_path e else Name (he_path e)) (filter is_dir_entry listed_entries))" for full .
  have "map (\<lambda>e. if False then he_path e else Name (he_path e)) (filter (\<lambda>e. \<not> is_dir_entry e) listed_entries) = [''LICENSE.txt'']"
    "map he_size (filter (\<lambda>e. \<not> is_dir_entry e) listed_entries) = [15429]"
    "map (\<lambda>e. if True then he_path e else Name (he_path e)) (filter is_dir_entry listed_entries) = [''/a/b'']" by code_simp+
  then show ?thesis using l [of False] l [of True] by simp
qed

text \<open>The path is read as one word, so a name with a blank is cut there.\<close>

lemma blank_cuts_path:
  "parse_ls ''-rw-r--r-- 1 hct sg 5 2017-05-31 13:43 /a/my file'' = Some (CHR ''1'', 5, ''/a/my'')"
  by code_simp

end
