(* ===== verification/Snappy_Streams.thy ===== *)
theory Snappy_Streams
  imports Binary_Codec
begin

text \<open>
  \<^verbatim>\<open>snappy_stream.h\<close> and \<^verbatim>\<open>snappy_util.h\<close>, for the build with snappy: files that are a sequence of compressed blocks. The library's
  compression is a parameter; a file is the list of its bytes, and a reader's file is what is left of it. The stages of
  the two pipelines keep the order of what is pushed (\<open>Pipeline_Stage\<close>), so a block that has been pushed and not
  yet written is in a list, and so is what has been read ahead. No result stands for an exception, an abort, a
  pointer that is not initialised, and for waiting for ever.
\<close>

section \<open>SnappyBlockHeader\<close>

record snappy_header =
  sh_magic :: u32
  sh_orig :: u64
  sh_compressed :: u64

definition MAGIC_NUM :: u32 where "MAGIC_NUM = 0x67841"

text \<open>A new header has the magic number; the sizes are what was in their memory.\<close>

definition SnappyBlockHeader :: "u64 \<Rightarrow> u64 \<Rightarrow> snappy_header" where
  "SnappyBlockHeader junk1 junk2 = \<lparr>sh_magic = MAGIC_NUM, sh_orig = junk1, sh_compressed = junk2\<rparr>"

text \<open>A short read counts as a success unless it got nothing.\<close>

definition header_Load :: "snappy_header \<Rightarrow> byte list \<Rightarrow> bool \<times> snappy_header \<times> byte list" where
  "header_Load h s =
     (let (r1, m, s) = pod_read 4 store32 load32 (sh_magic h) s; h = h\<lparr>sh_magic := m\<rparr> in
      if r1 = 0 \<or> m \<noteq> MAGIC_NUM then (False, h, s)
      else let (r2, x, s) = pod_read 8 store64 load64 (sh_orig h) s; h = h\<lparr>sh_orig := x\<rparr> in
        if r2 = 0 then (False, h, s)
        else let (r3, y, s) = pod_read 8 store64 load64 (sh_compressed h) s
             in (r3 \<noteq> 0, h\<lparr>sh_compressed := y\<rparr>, s))"

definition header_Store :: "snappy_header \<Rightarrow> byte list" where
  "header_Store h =
     snd (pod_write 4 store32 (sh_magic h)) @ snd (pod_write 8 store64 (sh_orig h)) @ snd (pod_write 8 store64 (sh_compressed h))"

section \<open>SnappyOutputStream\<close>

text \<open>\<open>so_curr\<close> are the bytes that count of the current buffer, \<open>so_pushed\<close> the buffers in the stages,
  \<open>so_file\<close> what has been written.\<close>

record snappy_output =
  so_is_open :: bool
  so_block_size :: nat
  so_buffers :: nat
  so_curr :: "byte list"
  so_pushed :: "byte list list"
  so_file :: "byte list"

text \<open>\<^verbatim>\<open>Zip\<close> and \<^verbatim>\<open>WriteBlock\<close>: the bytes of a block in the file.\<close>

definition WriteBlock :: "(byte list \<Rightarrow> byte list) \<Rightarrow> byte list \<Rightarrow> byte list" where
  "WriteBlock compress buf =
     (let zipped = compress buf;
          header = \<lparr>sh_magic = MAGIC_NUM, sh_orig = of_nat (length buf), sh_compressed = of_nat (length zipped)\<rparr>
      in header_Store header @ zipped)"

text \<open>The writing stage gets to the oldest buffer.\<close>

definition WriteStage :: "(byte list \<Rightarrow> byte list) \<Rightarrow> snappy_output \<Rightarrow> snappy_output" where
  "WriteStage compress s =
     (case so_pushed s of [] \<Rightarrow> s
      | b # bs \<Rightarrow> s\<lparr>so_pushed := bs, so_file := so_file s @ WriteBlock compress b\<rparr>)"

text \<open>With all buffers in use the caller waits until one is written.\<close>

definition PushCurrentBuffer :: "(byte list \<Rightarrow> byte list) \<Rightarrow> snappy_output \<Rightarrow> snappy_output" where
  "PushCurrentBuffer compress s =
     (if so_curr s = [] then s
      else if so_buffers s = 0 then s\<lparr>so_file := so_file s @ WriteBlock compress (so_curr s), so_curr := []\<rparr>
      else let s = (if length (so_pushed s) \<ge> so_buffers s then WriteStage compress s else s)
           in s\<lparr>so_pushed := so_pushed s @ [so_curr s], so_curr := []\<rparr>)"

text \<open>The size of the current buffer is not initialised: \<open>junk\<close> is what it makes of the buffer.\<close>

definition SnappyOut_Open :: "byte list \<Rightarrow> nat \<Rightarrow> nat \<Rightarrow> snappy_output" where
  "SnappyOut_Open junk n_buffers block_size =
     \<lparr>so_is_open = True, so_block_size = block_size, so_buffers = n_buffers, so_curr = junk, so_pushed = [], so_file = []\<rparr>"

text \<open>The size of the buffer in blocks, rounded.\<close>

definition DEFAULT_BLOCK_SIZE :: nat where "DEFAULT_BLOCK_SIZE = 64 * 1024 * 1024"

definition SnappyOut_Open_size :: "byte list \<Rightarrow> nat \<Rightarrow> snappy_output" where
  "SnappyOut_Open_size junk buf_size =
     SnappyOut_Open junk ((2 * buf_size + DEFAULT_BLOCK_SIZE) div (2 * DEFAULT_BLOCK_SIZE)) DEFAULT_BLOCK_SIZE"

text \<open>With a current buffer beyond the block size, the difference of the sizes wraps and the memory is overrun.\<close>

partial_function (option) snappy_write :: "(byte list \<Rightarrow> byte list) \<Rightarrow> byte list \<Rightarrow> snappy_output \<Rightarrow> snappy_output option" where
  "snappy_write compress data s =
     (if data = [] then Some s
      else if so_block_size s < length (so_curr s) then None
      else let k = min (length data) (so_block_size s - length (so_curr s));
               s = s\<lparr>so_curr := so_curr s @ take k data\<rparr>;
               s = (if length (so_curr s) \<ge> so_block_size s then PushCurrentBuffer compress s else s)
           in snappy_write compress (drop k data) s)"

definition SnappyOut_Write :: "(byte list \<Rightarrow> byte list) \<Rightarrow> byte list \<Rightarrow> snappy_output \<Rightarrow> snappy_output option" where
  "SnappyOut_Write compress data s = (if so_is_open s then snappy_write compress data s else None)"

text \<open>Waiting for the stages to be clear writes all that was pushed; without buffers there are no stages to wait for.\<close>

definition WaitWrite :: "(byte list \<Rightarrow> byte list) \<Rightarrow> snappy_output \<Rightarrow> snappy_output option" where
  "WaitWrite compress s =
     (if so_buffers s = 0 then None
      else Some (s\<lparr>so_file := so_file s @ concat (map (WriteBlock compress) (so_pushed s)), so_pushed := []\<rparr>))"

definition SnappyOut_Flush :: "(byte list \<Rightarrow> byte list) \<Rightarrow> snappy_output \<Rightarrow> snappy_output option" where
  "SnappyOut_Flush compress s = WaitWrite compress (PushCurrentBuffer compress s)"

definition SnappyOut_Close :: "(byte list \<Rightarrow> byte list) \<Rightarrow> snappy_output \<Rightarrow> snappy_output option" where
  "SnappyOut_Close compress s =
     (if \<not> so_is_open s then Some s
      else map_option (\<lambda>s. s\<lparr>so_buffers := 0\<rparr>) (SnappyOut_Flush compress (s\<lparr>so_is_open := False\<rparr>)))"

section \<open>SnappyInputStream\<close>

text \<open>\<open>si_ahead\<close> are the results of the two stages that wait in the queue, in the order of their requests: a block,
  or the number -1.\<close>

record snappy_input =
  si_opened :: bool
  si_file :: "byte list"
  si_prefetch :: nat
  si_ahead :: "byte list option list"
  si_curr :: "byte list"
  si_offset :: nat

text \<open>The header that is loaded begins with what is in its memory, the same every time.\<close>

definition ReadRawBlock :: "u64 \<Rightarrow> u64 \<Rightarrow> byte list \<Rightarrow> byte list option \<times> byte list" where
  "ReadRawBlock junk1 junk2 s =
     (let (ok, h, s) = header_Load (SnappyBlockHeader junk1 junk2) s in
      if \<not> ok then (None, s)
      else let n = unat (sh_compressed h)
           in (if length (take n s) = n then Some (take n s) else None, drop n s))"

text \<open>The two stages for one request: no result if the library reports an error, and for a block without
  bytes, whose place keeps the data of an earlier block.\<close>

definition ReadUnzip ::
  "(byte list \<Rightarrow> byte list option) \<Rightarrow> u64 \<Rightarrow> u64 \<Rightarrow> byte list \<Rightarrow> (byte list option \<times> byte list) option" where
  "ReadUnzip uncompress junk1 junk2 s =
     (case ReadRawBlock junk1 junk2 s of
        (None, s) \<Rightarrow> Some (None, s)
      | (Some raw, s) \<Rightarrow> if raw = [] then None else map_option (\<lambda>b. (Some b, s)) (uncompress raw))"

definition request_block ::
  "(byte list \<Rightarrow> byte list option) \<Rightarrow> u64 \<Rightarrow> u64 \<Rightarrow> snappy_input \<Rightarrow> snappy_input option" where
  "request_block uncompress junk1 junk2 s =
     map_option (\<lambda>(r, f). s\<lparr>si_file := f, si_ahead := si_ahead s @ [r]\<rparr>) (ReadUnzip uncompress junk1 junk2 (si_file s))"

fun request_blocks ::
  "(byte list \<Rightarrow> byte list option) \<Rightarrow> u64 \<Rightarrow> u64 \<Rightarrow> nat \<Rightarrow> snappy_input \<Rightarrow> snappy_input option" where
  "request_blocks uncompress junk1 junk2 0 s = Some s"
| "request_blocks uncompress junk1 junk2 (Suc n) s = Option.bind (request_block uncompress junk1 junk2 s) (request_blocks uncompress junk1 junk2 n)"

text \<open>The number of blocks to prefetch is the size of the buffer by that of the first block, rounded; infinity is not
  converted. A file that ends within the first header cannot be read after the seek back; that is left out here.\<close>

definition SnappyIn_Open ::
  "(byte list \<Rightarrow> byte list option) \<Rightarrow> u64 \<Rightarrow> u64 \<Rightarrow> nat \<Rightarrow> byte list \<Rightarrow> snappy_input option" where
  "SnappyIn_Open uncompress junk1 junk2 buf_size file_bytes =
     (let (ok, h, s) = header_Load (SnappyBlockHeader junk1 junk2) file_bytes; n = unat (sh_orig h);
          closed = \<lparr>si_opened = False, si_file = file_bytes, si_prefetch = 0, si_ahead = [], si_curr = [], si_offset = 0\<rparr>
      in if \<not> ok then Some closed
         else if n = 0 then None
         else let k = (2 * buf_size + n) div (2 * n)
              in request_blocks uncompress junk1 junk2 k (closed\<lparr>si_opened := True, si_prefetch := k\<rparr>))"

text \<open>\<^verbatim>\<open>Read(std::string&)\<close>: the next block; a -1 is not replaced by a new request.\<close>

definition next_block ::
  "(byte list \<Rightarrow> byte list option) \<Rightarrow> u64 \<Rightarrow> u64 \<Rightarrow> snappy_input \<Rightarrow> (bool \<times> snappy_input) option" where
  "next_block uncompress junk1 junk2 s =
     (if \<not> si_opened s then Some (False, s)
      else if si_prefetch s = 0 then
        (case ReadRawBlock junk1 junk2 (si_file s) of
           (None, f) \<Rightarrow> Some (False, s\<lparr>si_file := f\<rparr>)
         | (Some raw, f) \<Rightarrow> map_option (\<lambda>b. (True, s\<lparr>si_file := f, si_curr := b\<rparr>)) (uncompress raw))
      else
        (case si_ahead s of
           [] \<Rightarrow> None
         | None # rs \<Rightarrow> Some (False, s\<lparr>si_ahead := rs\<rparr>)
         | Some b # rs \<Rightarrow> map_option (\<lambda>s. (True, s)) (request_block uncompress junk1 junk2 (s\<lparr>si_ahead := rs, si_curr := b\<rparr>))))"

partial_function (option) snappy_read ::
  "(byte list \<Rightarrow> byte list option) \<Rightarrow> u64 \<Rightarrow> u64 \<Rightarrow> nat \<Rightarrow> byte list \<Rightarrow> snappy_input \<Rightarrow> (byte list \<times> snappy_input) option" where
  "snappy_read uncompress junk1 junk2 n got s =
     (if n = 0 then Some (got, s)
      else
        Option.bind (if length (si_curr s) = si_offset s
            then map_option (\<lambda>(r, s). (r, if r then s\<lparr>si_offset := 0\<rparr> else s)) (next_block uncompress junk1 junk2 s)
            else Some (True, s))
          (\<lambda>(r, s).
             if \<not> r then Some (got, s)
             else let k = min n (length (si_curr s) - si_offset s)
                  in snappy_read uncompress junk1 junk2 (n - k) (got @ take k (drop (si_offset s) (si_curr s)))
                       (s\<lparr>si_offset := si_offset s + k\<rparr>)))"

definition SnappyIn_Read ::
  "(byte list \<Rightarrow> byte list option) \<Rightarrow> u64 \<Rightarrow> u64 \<Rightarrow> nat \<Rightarrow> snappy_input \<Rightarrow> (byte list \<times> snappy_input) option" where
  "SnappyIn_Read uncompress junk1 junk2 n s =
     (if si_opened s then snappy_read uncompress junk1 junk2 n [] s else None)"

section \<open>Vectors\<close>

text \<open>\<^verbatim>\<open>snappy_util.h\<close>, for elements that are copied: \<open>n\<close> is the size of one; a check that fails aborts.\<close>

definition SnappyCompress :: "(byte list \<Rightarrow> byte list) \<Rightarrow> ('a \<Rightarrow> byte list) \<Rightarrow> 'a list \<Rightarrow> byte list" where
  "SnappyCompress compress enc xs = compress (concat (map enc xs))"

definition SnappyDecompress :: "(byte list \<Rightarrow> byte list option) \<Rightarrow> nat \<Rightarrow> (byte list \<Rightarrow> 'a) \<Rightarrow> byte list \<Rightarrow> 'a list option" where
  "SnappyDecompress uncompress n dec z =
     Option.bind (uncompress z)
       (\<lambda>b. if length b mod n \<noteq> 0 then None else Some (map dec (chunks n (length b div n) b)))"

section \<open>One block\<close>

lemma pod_read_store:
  "pod_read 4 store32 load32 d (store32 w @ s) = (4, w, s)"
  "pod_read 8 store64 load64 e (store64 v @ s) = (8, v, s)"
  by (simp_all add: pod_read_def)

lemma header_roundtrip: "sh_magic h = MAGIC_NUM \<Longrightarrow> header_Load g (header_Store h @ s) = (True, h, s)"
  by (simp add: header_Load_def header_Store_def pod_write_def pod_read_store)

lemma header_at_end: "\<exists>h. header_Load g [] = (False, h, [])"
  by (simp add: header_Load_def pod_read_def Let_def)

text \<open>What is documented of the library: compressed data is not empty, has a size, and is uncompressed again.\<close>

definition codec :: "(byte list \<Rightarrow> byte list) \<Rightarrow> (byte list \<Rightarrow> byte list option) \<Rightarrow> nat \<Rightarrow> bool" where
  "codec compress uncompress block_size \<longleftrightarrow> (\<forall>b. length b \<le> block_size \<longrightarrow>
     compress b \<noteq> [] \<and> length (compress b) < 2 ^ 64 \<and> uncompress (compress b) = Some b)"

lemma raw_block:
  assumes "codec compress uncompress n" "length b \<le> n"
  shows "ReadRawBlock junk1 junk2 (WriteBlock compress b @ s) = (Some (compress b), s)"
proof -
  have l: "length (compress b) < 2 ^ 64" using assms by (simp add: codec_def)
  then have u: "unat (of_nat (length (compress b)) :: u64) = length (compress b)" by (simp add: unat_of_nat)
  show ?thesis
    by (simp add: ReadRawBlock_def WriteBlock_def header_roundtrip Let_def u)
qed

lemma read_block:
  assumes "codec compress uncompress n" "length b \<le> n"
  shows "ReadUnzip uncompress junk1 junk2 (WriteBlock compress b @ s) = Some (Some b, s)"
  using raw_block [OF assms, of junk1 junk2 s] assms by (simp add: ReadUnzip_def codec_def)

lemma raw_end: "ReadRawBlock junk1 junk2 [] = (None, [])"
  using header_at_end [of "SnappyBlockHeader junk1 junk2"] by (auto simp: ReadRawBlock_def)

lemma read_end: "ReadUnzip uncompress junk1 junk2 [] = Some (None, [])"
  by (simp add: ReadUnzip_def raw_end)

text \<open>A vector that the library compresses is read back.\<close>

context pod_type
begin

lemma vector_roundtrip:
  assumes "uncompress (compress (concat (map enc xs))) = Some (concat (map enc xs))"
  shows "SnappyDecompress uncompress n dec (SnappyCompress compress enc xs) = Some xs"
  using assms pos chunks_concat [of xs "[]"] by (simp add: SnappyDecompress_def SnappyCompress_def concat_length)

end

section \<open>Writing\<close>

definition blocks_ok :: "nat \<Rightarrow> byte list list \<Rightarrow> bool" where
  "blocks_ok n bs \<longleftrightarrow> (\<forall>b \<in> set bs. b \<noteq> [] \<and> length b \<le> n)"

text \<open>\<open>lim\<close> bounds the current buffer, \<open>ws\<close> are the blocks in the file.\<close>

definition blocks_out :: "(byte list \<Rightarrow> byte list) \<Rightarrow> nat \<Rightarrow> nat \<Rightarrow> byte list \<Rightarrow> byte list list \<Rightarrow> snappy_output \<Rightarrow> bool" where
  "blocks_out compress lim n t ws s \<longleftrightarrow> so_is_open s \<and> so_block_size s = n \<and> 0 < so_buffers s \<and> length (so_curr s) \<le> lim \<and>
     so_file s = concat (map (WriteBlock compress) ws) \<and> blocks_ok n ws \<and> blocks_ok n (so_pushed s) \<and>
     length (so_pushed s) \<le> so_buffers s \<and> concat ws @ concat (so_pushed s) @ so_curr s = t"

definition out_ok :: "(byte list \<Rightarrow> byte list) \<Rightarrow> nat \<Rightarrow> nat \<Rightarrow> byte list \<Rightarrow> snappy_output \<Rightarrow> bool" where
  "out_ok compress lim n t s \<longleftrightarrow> (\<exists>ws. blocks_out compress lim n t ws s)"

lemma WriteStage_blocks:
  assumes "blocks_out compress lim n t ws s" "so_pushed s = b # bs"
  shows "blocks_out compress lim n t (ws @ [b]) (WriteStage compress s)"
  using assms by (auto simp: blocks_out_def WriteStage_def blocks_ok_def)

lemma WriteStage_ok: "out_ok compress lim n t s \<Longrightarrow> out_ok compress lim n t (WriteStage compress s)"
  using WriteStage_blocks [of compress lim n t _ s] unfolding out_ok_def
  by (cases "so_pushed s") (auto simp: WriteStage_def)

lemma Push_ok:
  assumes "out_ok compress n n t s"
  shows "out_ok compress 0 n t (PushCurrentBuffer compress s)"
proof (cases "so_curr s = []")
  case True
  then show ?thesis using assms by (simp add: PushCurrentBuffer_def out_ok_def blocks_out_def)
next
  case False
  obtain ws where ws: "blocks_out compress n n t ws s" using assms by (auto simp: out_ok_def)
  let ?s = "if length (so_pushed s) \<ge> so_buffers s then WriteStage compress s else s"
  have "\<exists>vs. blocks_out compress n n t vs ?s \<and> length (so_pushed ?s) < so_buffers ?s \<and> so_curr ?s = so_curr s"
  proof (cases "length (so_pushed s) \<ge> so_buffers s")
    case True
    then obtain b bs where b: "so_pushed s = b # bs" using ws by (cases "so_pushed s") (auto simp: blocks_out_def)
    have "length (so_pushed (WriteStage compress s)) < so_buffers (WriteStage compress s)"
      "so_curr (WriteStage compress s) = so_curr s"
      using ws b by (auto simp: blocks_out_def WriteStage_def)
    then show ?thesis using True WriteStage_blocks [OF ws b] by auto
  qed (use ws in auto)
  then obtain vs where "blocks_out compress n n t vs ?s" "length (so_pushed ?s) < so_buffers ?s" "so_curr ?s = so_curr s" by blast
  moreover have "so_buffers s \<noteq> 0" using ws by (simp add: blocks_out_def)
  ultimately have "blocks_out compress 0 n t vs (PushCurrentBuffer compress s)"
    using False by (simp add: PushCurrentBuffer_def Let_def blocks_out_def blocks_ok_def)
  then show ?thesis by (auto simp: out_ok_def)
qed

lemma out_ok_mono: "out_ok compress l n t s \<Longrightarrow> l \<le> m \<Longrightarrow> out_ok compress m n t s"
  unfolding out_ok_def blocks_out_def by (elim exE, rule exI) auto

lemma snappy_write_ok:
  assumes "0 < n"
  shows "out_ok compress (n - 1) n t s \<Longrightarrow> \<exists>s'. snappy_write compress data s = Some s' \<and> out_ok compress (n - 1) n (t @ data) s'"
proof (induction "length data" arbitrary: data s t rule: less_induct)
  case less
  show ?case
  proof (cases "data = []")
    case True
    then show ?thesis using less.prems by (subst snappy_write.simps) simp
  next
    case False
    have o: "so_block_size s = n" "length (so_curr s) \<le> n - 1" using less.prems by (auto simp: out_ok_def blocks_out_def)
    then have n': "\<not> n < length (so_curr s)" by simp
    let ?k = "min (length data) (n - length (so_curr s))"
    have k: "0 < ?k" "?k \<le> length data" using False o(2) assms by auto
    let ?s1 = "s\<lparr>so_curr := so_curr s @ take ?k data\<rparr>"
    have s1: "out_ok compress n n (t @ take ?k data) ?s1"
      using less.prems o assms by (auto simp: out_ok_def blocks_out_def min_def)
    let ?s2 = "if length (so_curr ?s1) \<ge> so_block_size ?s1 then PushCurrentBuffer compress ?s1 else ?s1"
    have s2: "out_ok compress (n - 1) n (t @ take ?k data) ?s2"
    proof (cases "length (so_curr ?s1) \<ge> n")
      case True
      then have e: "?s2 = PushCurrentBuffer compress ?s1" using o(1) by simp
      show ?thesis unfolding e using Push_ok [OF s1] le0 by (rule out_ok_mono)
    next
      case False
      then have "out_ok compress (n - 1) n (t @ take ?k data) ?s1" using s1 by (auto simp: out_ok_def blocks_out_def)
      moreover have "?s2 = ?s1" using False o(1) by simp
      ultimately show ?thesis by (simp only:)
    qed
    have "length data - ?k < length data" using k False by linarith
    then have "length (drop ?k data) < length data" by simp
    from less.hyps [OF this s2] obtain s' where s': "snappy_write compress (drop ?k data) ?s2 = Some s'"
        "out_ok compress (n - 1) n ((t @ take ?k data) @ drop ?k data) s'" by blast
    have "snappy_write compress data s = snappy_write compress (drop ?k data) ?s2"
      using False n' by (subst snappy_write.simps) (simp only: o(1) Let_def if_False)
    then show ?thesis using s' by simp
  qed
qed

lemma SnappyOut_Flush_ok:
  assumes "out_ok compress lim n t s" "lim \<le> n"
  shows "\<exists>s' ws. SnappyOut_Flush compress s = Some s' \<and> out_ok compress 0 n t s' \<and>
    so_file s' = concat (map (WriteBlock compress) ws) \<and> blocks_ok n ws \<and> concat ws = t"
proof -
  let ?s = "PushCurrentBuffer compress s"
  have "out_ok compress 0 n t ?s" using Push_ok out_ok_mono [OF assms] by blast
  then obtain ws where ws: "blocks_out compress 0 n t ws ?s" by (auto simp: out_ok_def)
  let ?r = "?s\<lparr>so_file := so_file ?s @ concat (map (WriteBlock compress) (so_pushed ?s)), so_pushed := []\<rparr>"
  let ?ws = "ws @ so_pushed ?s"
  have "SnappyOut_Flush compress s = Some ?r" using ws by (simp add: SnappyOut_Flush_def WaitWrite_def blocks_out_def)
  moreover have "blocks_out compress 0 n t ?ws ?r" "so_file ?r = concat (map (WriteBlock compress) ?ws)" "blocks_ok n ?ws"
      "concat ?ws = t" using ws by (auto simp: blocks_out_def blocks_ok_def)
  ultimately show ?thesis unfolding out_ok_def by (intro exI [of _ ?r] exI [of _ ?ws]) blast
qed

datatype snappy_event = SnapWrite "byte list" | SnapFlush | SnapStage

fun snappy_events :: "(byte list \<Rightarrow> byte list) \<Rightarrow> snappy_event list \<Rightarrow> snappy_output \<Rightarrow> snappy_output option" where
  "snappy_events compress [] s = Some s"
| "snappy_events compress (SnapWrite d # es) s = Option.bind (SnappyOut_Write compress d s) (snappy_events compress es)"
| "snappy_events compress (SnapFlush # es) s = Option.bind (SnappyOut_Flush compress s) (snappy_events compress es)"
| "snappy_events compress (SnapStage # es) s = snappy_events compress es (WriteStage compress s)"

fun snappy_data :: "snappy_event list \<Rightarrow> byte list" where
  "snappy_data [] = []"
| "snappy_data (SnapWrite d # es) = d @ snappy_data es"
| "snappy_data (_ # es) = snappy_data es"

lemma events_ok:
  assumes "0 < n"
  shows "out_ok compress (n - 1) n t s \<Longrightarrow>
    \<exists>s'. snappy_events compress es s = Some s' \<and> out_ok compress (n - 1) n (t @ snappy_data es) s'"
proof (induction compress es s arbitrary: t rule: snappy_events.induct)
  case (2 compress d es s)
  obtain s1 where s1: "snappy_write compress d s = Some s1" "out_ok compress (n - 1) n (t @ d) s1"
    using snappy_write_ok [OF assms 2(2), of d] by blast
  moreover have "so_is_open s" using 2(2) by (auto simp: out_ok_def blocks_out_def)
  ultimately have w: "SnappyOut_Write compress d s = Some s1" by (simp add: SnappyOut_Write_def)
  from 2(1) [OF w s1(2)] w show ?case by simp
next
  case (3 compress es s)
  obtain s1 where s1: "SnappyOut_Flush compress s = Some s1" "out_ok compress 0 n t s1"
    using SnappyOut_Flush_ok [OF 3(2)] by auto
  from 3(1) [OF s1(1) out_ok_mono [OF s1(2)]] s1(1) show ?case by simp
next
  case (4 compress es s)
  from 4(1) [OF WriteStage_ok [OF 4(2)]] show ?case by simp
qed simp

text \<open>Closing marks the stream as closed first, which flushing does not look at.\<close>

lemma Flush_closed:
  "SnappyOut_Flush compress (s\<lparr>so_is_open := False\<rparr>) = map_option (\<lambda>s. s\<lparr>so_is_open := False\<rparr>) (SnappyOut_Flush compress s)"
  by (simp add: SnappyOut_Flush_def WaitWrite_def PushCurrentBuffer_def WriteStage_def Let_def split: list.split)

lemma SnappyOut_Close_ok:
  assumes "out_ok compress lim n t s" "lim \<le> n"
  shows "\<exists>s' ws. SnappyOut_Close compress s = Some s' \<and> so_file s' = concat (map (WriteBlock compress) ws) \<and>
    blocks_ok n ws \<and> concat ws = t"
proof -
  obtain s' ws where s': "SnappyOut_Flush compress s = Some s'" "so_file s' = concat (map (WriteBlock compress) ws)"
    "blocks_ok n ws" "concat ws = t" using SnappyOut_Flush_ok [OF assms] by blast
  have "so_is_open s" using assms by (auto simp: out_ok_def blocks_out_def)
  then have "SnappyOut_Close compress s = Some (s'\<lparr>so_is_open := False, so_buffers := 0\<rparr>)" by (simp add: SnappyOut_Close_def Flush_closed s'(1))
  then show ?thesis using s' by auto
qed

section \<open>Reading\<close>

text \<open>Of the blocks that are not in the current buffer \<open>as\<close> are read ahead and \<open>bs\<close> are in the file; \<open>j\<close>
  requests have found the end.\<close>

definition ahead_ok ::
  "(byte list \<Rightarrow> byte list) \<Rightarrow> nat \<Rightarrow> byte list list \<Rightarrow> nat \<Rightarrow> byte list list \<Rightarrow> snappy_input \<Rightarrow> bool" where
  "ahead_ok compress n as j bs s \<longleftrightarrow> si_file s = concat (map (WriteBlock compress) bs) \<and>
     si_ahead s = map Some as @ replicate j None \<and> blocks_ok n as \<and> blocks_ok n bs \<and> (bs \<noteq> [] \<longrightarrow> j = 0)"

definition in_parts ::
  "(byte list \<Rightarrow> byte list) \<Rightarrow> nat \<Rightarrow> byte list list \<Rightarrow> nat \<Rightarrow> byte list list \<Rightarrow> byte list \<Rightarrow> snappy_input \<Rightarrow> bool" where
  "in_parts compress n as j bs t s \<longleftrightarrow> ahead_ok compress n as j bs s \<and> si_opened s \<and> length as + j = si_prefetch s \<and>
     si_offset s \<le> length (si_curr s) \<and> t = drop (si_offset s) (si_curr s) @ concat as @ concat bs"

definition in_ok :: "(byte list \<Rightarrow> byte list) \<Rightarrow> nat \<Rightarrow> byte list \<Rightarrow> snappy_input \<Rightarrow> bool" where
  "in_ok compress n t s \<longleftrightarrow> (\<exists>as j bs. in_parts compress n as j bs t s)"

lemma blocks_ok_Cons [simp]: "blocks_ok n (b # bs) \<longleftrightarrow> b \<noteq> [] \<and> length b \<le> n \<and> blocks_ok n bs"
  "blocks_ok n []" "blocks_ok n (as @ bs) \<longleftrightarrow> blocks_ok n as \<and> blocks_ok n bs"
  by (auto simp: blocks_ok_def)

lemma blocks_empty: "blocks_ok n bs \<Longrightarrow> concat bs = [] \<longleftrightarrow> bs = []"
  by (cases bs) auto

lemma request_block_ok:
  assumes "codec compress uncompress n" "ahead_ok compress n as j bs s"
  shows "\<exists>as' j' bs' f rs. request_block uncompress junk1 junk2 s = Some (s\<lparr>si_file := f, si_ahead := rs\<rparr>) \<and>
    ahead_ok compress n as' j' bs' (s\<lparr>si_file := f, si_ahead := rs\<rparr>) \<and> length as' + j' = Suc (length as + j) \<and>
    concat as' @ concat bs' = concat as @ concat bs"
proof (cases bs)
  case Nil
  have "ReadUnzip uncompress junk1 junk2 (si_file s) = Some (None, [])"
    using assms(2) Nil by (simp add: ahead_ok_def read_end)
  then have "request_block uncompress junk1 junk2 s = Some (s\<lparr>si_file := [], si_ahead := si_ahead s @ [None]\<rparr>)"
    by (simp add: request_block_def)
  moreover have "ahead_ok compress n as (Suc j) [] (s\<lparr>si_file := [], si_ahead := si_ahead s @ [None]\<rparr>)"
    using assms(2) Nil by (simp add: ahead_ok_def replicate_append_same)
  ultimately show ?thesis using Nil by (intro exI conjI) (assumption, assumption, simp_all)
next
  case (Cons b cs)
  let ?f = "concat (map (WriteBlock compress) cs)"
  have j: "j = 0" and b: "length b \<le> n" using assms(2) Cons by (auto simp: ahead_ok_def)
  have "ReadUnzip uncompress junk1 junk2 (si_file s) = Some (Some b, ?f)"
    using assms(2) Cons read_block [OF assms(1) b] by (simp add: ahead_ok_def)
  then have "request_block uncompress junk1 junk2 s = Some (s\<lparr>si_file := ?f, si_ahead := si_ahead s @ [Some b]\<rparr>)"
    by (simp add: request_block_def)
  moreover have "ahead_ok compress n (as @ [b]) 0 cs (s\<lparr>si_file := ?f, si_ahead := si_ahead s @ [Some b]\<rparr>)"
    using assms(2) Cons j by (simp add: ahead_ok_def)
  ultimately show ?thesis using Cons j by (intro exI conjI) (assumption, assumption, simp_all)
qed

lemma request_blocks_ok:
  assumes "codec compress uncompress n"
  shows "ahead_ok compress n as j bs s \<Longrightarrow>
    \<exists>as' j' bs' f rs. request_blocks uncompress junk1 junk2 k s = Some (s\<lparr>si_file := f, si_ahead := rs\<rparr>) \<and>
    ahead_ok compress n as' j' bs' (s\<lparr>si_file := f, si_ahead := rs\<rparr>) \<and> length as' + j' = k + (length as + j) \<and>
    concat as' @ concat bs' = concat as @ concat bs"
proof (induction k arbitrary: as j bs s)
  case 0
  have "s = s\<lparr>si_file := si_file s, si_ahead := si_ahead s\<rparr>" by simp
  then show ?case using 0 by (metis add_0 request_blocks.simps(1))
next
  case (Suc k)
  obtain as1 j1 bs1 f rs where 1: "request_block uncompress junk1 junk2 s = Some (s\<lparr>si_file := f, si_ahead := rs\<rparr>)"
    "ahead_ok compress n as1 j1 bs1 (s\<lparr>si_file := f, si_ahead := rs\<rparr>)" "length as1 + j1 = Suc (length as + j)"
    "concat as1 @ concat bs1 = concat as @ concat bs"
    using request_block_ok [OF assms Suc.prems] by blast
  from Suc.IH [OF 1(2)] obtain as2 j2 bs2 f2 rs2 where
    "request_blocks uncompress junk1 junk2 k (s\<lparr>si_file := f, si_ahead := rs\<rparr>) = Some (s\<lparr>si_file := f2, si_ahead := rs2\<rparr>)"
    "ahead_ok compress n as2 j2 bs2 (s\<lparr>si_file := f2, si_ahead := rs2\<rparr>)" "length as2 + j2 = k + (length as1 + j1)"
    "concat as2 @ concat bs2 = concat as1 @ concat bs1" by auto
  then show ?case using 1 by (intro exI conjI) (simp, assumption, simp_all)
qed

lemma next_block_end:
  assumes "in_parts compress n as j bs [] s"
  shows "\<exists>s'. next_block uncompress junk1 junk2 s = Some (False, s')"
proof -
  have "as = []" "bs = []"
    using assms blocks_empty [of n as] blocks_empty [of n bs] by (auto simp: in_parts_def ahead_ok_def)
  then show ?thesis using assms
    by (cases j) (auto simp: in_parts_def ahead_ok_def next_block_def raw_end)
qed

lemma next_block_ok:
  assumes c: "codec compress uncompress n" and i: "in_parts compress n as j bs t s"
    and o: "si_offset s = length (si_curr s)" and t: "t \<noteq> []"
  shows "\<exists>s'. next_block uncompress junk1 junk2 s = Some (True, s') \<and> in_ok compress n t (s'\<lparr>si_offset := 0\<rparr>) \<and>
    si_curr s' \<noteq> []"
proof (cases "si_prefetch s = 0")
  case True
  then have as: "as = []" "j = 0" and ct: "concat bs = t" using i o by (auto simp: in_parts_def)
  then obtain b cs where bs: "bs = b # cs" using t by (cases bs) auto
  have b: "b \<noteq> []" "length b \<le> n" "blocks_ok n cs" using i bs by (auto simp: in_parts_def ahead_ok_def)
  let ?s = "s\<lparr>si_file := concat (map (WriteBlock compress) cs), si_curr := b\<rparr>"
  have "uncompress (compress b) = Some b" using c b(2) by (simp add: codec_def)
  then have "next_block uncompress junk1 junk2 s = Some (True, ?s)"
    using i True bs raw_block [OF c b(2)] by (simp add: in_parts_def ahead_ok_def next_block_def)
  moreover have "in_parts compress n [] 0 cs t (?s\<lparr>si_offset := 0\<rparr>)"
    using i as ct bs True b by (simp add: in_parts_def ahead_ok_def)
  ultimately show ?thesis using b(1) unfolding in_ok_def by fastforce
next
  case False
  have "as \<noteq> []"
  proof
    assume as: "as = []"
    then have "bs \<noteq> []" using i o t by (auto simp: in_parts_def)
    then show False using i as False by (auto simp: in_parts_def ahead_ok_def)
  qed
  then obtain b cs where as: "as = b # cs" by (cases as) auto
  have b: "b \<noteq> []" using i as by (auto simp: in_parts_def ahead_ok_def)
  let ?s = "s\<lparr>si_ahead := map Some cs @ replicate j None, si_curr := b\<rparr>"
  have a: "ahead_ok compress n cs j bs ?s" using i as by (auto simp: in_parts_def ahead_ok_def)
  obtain as' j' bs' f rs where p: "request_block uncompress junk1 junk2 ?s = Some (?s\<lparr>si_file := f, si_ahead := rs\<rparr>)"
    "ahead_ok compress n as' j' bs' (?s\<lparr>si_file := f, si_ahead := rs\<rparr>)" "length as' + j' = Suc (length cs + j)"
    "concat as' @ concat bs' = concat cs @ concat bs"
    using request_block_ok [OF c a] by blast
  have "next_block uncompress junk1 junk2 s = Some (True, ?s\<lparr>si_file := f, si_ahead := rs\<rparr>)"
    using i as False p(1) by (simp add: in_parts_def ahead_ok_def next_block_def)
  moreover have "in_parts compress n as' j' bs' t (?s\<lparr>si_file := f, si_ahead := rs, si_offset := 0\<rparr>)"
    using i as o p(2-4) by (simp add: in_parts_def ahead_ok_def)
  ultimately show ?thesis using b unfolding in_ok_def by fastforce
qed

lemma snappy_read_ok:
  assumes c: "codec compress uncompress n"
  shows "in_ok compress n t s \<Longrightarrow> \<exists>s'. snappy_read uncompress junk1 junk2 m got s = Some (got @ take m t, s') \<and>
    (m \<le> length t \<longrightarrow> in_ok compress n (drop m t) s')"
proof (induction m arbitrary: got t s rule: less_induct)
  case (less m)
  obtain as j bs where i: "in_parts compress n as j bs t s" using less.prems by (auto simp: in_ok_def)
  consider "m = 0" | "0 < m" "t = []" | "0 < m" "t \<noteq> []" by blast
  then show ?case
  proof cases
    case 1
    then show ?thesis using less.prems by (subst snappy_read.simps) simp
  next
    case 2
    then have "si_offset s = length (si_curr s)" using i by (auto simp: in_parts_def)
    moreover obtain s' where "next_block uncompress junk1 junk2 s = Some (False, s')"
      using next_block_end [of compress n as j bs s] i 2 by blast
    ultimately show ?thesis using 2 by (subst snappy_read.simps) simp
  next
    case 3
    let ?load = "if length (si_curr s) = si_offset s
      then map_option (\<lambda>(r, s). (r, if r then s\<lparr>si_offset := 0\<rparr> else s)) (next_block uncompress junk1 junk2 s) else Some (True, s)"
    have "\<exists>s1. ?load = Some (True, s1) \<and> in_ok compress n t s1 \<and> si_offset s1 < length (si_curr s1)"
    proof (cases "length (si_curr s) = si_offset s")
      case True
      from next_block_ok [OF c i True [symmetric] 3(2)] obtain s' where
        "next_block uncompress junk1 junk2 s = Some (True, s')" "in_ok compress n t (s'\<lparr>si_offset := 0\<rparr>)" "si_curr s' \<noteq> []"
        by blast
      then show ?thesis using True by simp
    next
      case False
      then have "si_offset s < length (si_curr s)" using i by (simp add: in_parts_def)
      then show ?thesis using False less.prems by simp
    qed
    then obtain s1 where s1: "?load = Some (True, s1)" "in_ok compress n t s1" "si_offset s1 < length (si_curr s1)" by blast
    let ?d = "drop (si_offset s1) (si_curr s1)"
    let ?k = "min m (length (si_curr s1) - si_offset s1)"
    let ?s2 = "s1\<lparr>si_offset := si_offset s1 + ?k\<rparr>"
    obtain as1 j1 bs1 where i1: "in_parts compress n as1 j1 bs1 t s1" using s1(2) by (auto simp: in_ok_def)
    then have t: "t = ?d @ concat as1 @ concat bs1" by (simp add: in_parts_def)
    have k: "?k \<le> length ?d" "0 < ?k" "?k \<le> m" using s1(3) 3(1) by simp_all
    have kt: "take ?k ?d = take ?k t" "drop ?k t = drop ?k ?d @ concat as1 @ concat bs1" "?k \<le> length t"
      using k(1) by (simp_all only: t take_append drop_append length_append) simp_all
    have "in_parts compress n as1 j1 bs1 (drop ?k t) ?s2"
      using i1 k(1) s1(3) unfolding kt(2) by (simp add: in_parts_def ahead_ok_def add.commute)
    then have "in_ok compress n (drop ?k t) ?s2" unfolding in_ok_def by blast
    from less.IH [OF _ this, of "m - ?k" "got @ take ?k ?d"] k obtain s' where
      s': "snappy_read uncompress junk1 junk2 (m - ?k) (got @ take ?k ?d) ?s2 = Some ((got @ take ?k ?d) @ take (m - ?k) (drop ?k t), s')"
      "m - ?k \<le> length (drop ?k t) \<longrightarrow> in_ok compress n (drop (m - ?k) (drop ?k t)) s'" by auto
    have "take ?k t @ take (m - ?k) (drop ?k t) = take m t" using k(3) by (metis le_add_diff_inverse take_add)
    moreover have "snappy_read uncompress junk1 junk2 m got s = snappy_read uncompress junk1 junk2 (m - ?k) (got @ take ?k ?d) ?s2"
      using 3(1) by (subst snappy_read.simps) (simp only: s1(1) Let_def bind.simps, simp)
    moreover have "drop (m - ?k) (drop ?k t) = drop m t" using k(3) by (simp only: drop_drop le_add_diff_inverse2)
    moreover have "m - ?k \<le> length (drop ?k t) \<longleftrightarrow> m \<le> length t" using k(3) kt(3) by (simp only: length_drop) linarith
    ultimately show ?thesis using s' by (simp only: kt(1) append_assoc) blast
  qed
qed

fun snappy_reads ::
  "(byte list \<Rightarrow> byte list option) \<Rightarrow> u64 \<Rightarrow> u64 \<Rightarrow> nat list \<Rightarrow> snappy_input \<Rightarrow> (byte list list \<times> snappy_input) option" where
  "snappy_reads uncompress junk1 junk2 [] s = Some ([], s)"
| "snappy_reads uncompress junk1 junk2 (m # ms) s = Option.bind (SnappyIn_Read uncompress junk1 junk2 m s)
     (\<lambda>(d, s). map_option (\<lambda>(ds, s). (d # ds, s)) (snappy_reads uncompress junk1 junk2 ms s))"

fun cut_at :: "nat list \<Rightarrow> byte list \<Rightarrow> byte list list" where
  "cut_at [] t = []"
| "cut_at (m # ms) t = take m t # cut_at ms (drop m t)"

lemma in_ok_opened: "in_ok compress n t s \<Longrightarrow> si_opened s"
  by (auto simp: in_ok_def in_parts_def)

lemma snappy_reads_ok:
  assumes c: "codec compress uncompress n"
  shows "in_ok compress n t s \<Longrightarrow> sum_list (butlast ms) \<le> length t \<Longrightarrow>
    \<exists>s'. snappy_reads uncompress junk1 junk2 ms s = Some (cut_at ms t, s')"
proof (induction ms arbitrary: t s)
  case (Cons m ms)
  obtain s1 where s1: "snappy_read uncompress junk1 junk2 m [] s = Some (take m t, s1)"
    "m \<le> length t \<longrightarrow> in_ok compress n (drop m t) s1"
    using snappy_read_ok [OF c Cons.prems(1), of junk1 junk2 m "[]"] by auto
  have r: "SnappyIn_Read uncompress junk1 junk2 m s = Some (take m t, s1)"
    using in_ok_opened [OF Cons.prems(1)] s1(1) by (simp add: SnappyIn_Read_def)
  show ?case
  proof (cases "ms = []")
    case False
    then have l: "m + sum_list (butlast ms) \<le> length t" using Cons.prems(2) by simp
    then have "sum_list (butlast ms) \<le> length (drop m t)" "m \<le> length t" by simp_all
    then obtain s2 where "snappy_reads uncompress junk1 junk2 ms s1 = Some (cut_at ms (drop m t), s2)"
      using Cons.IH [of "drop m t" s1] s1(2) by blast
    then show ?thesis by (simp add: r)
  qed (simp add: r)
qed simp

lemma SnappyIn_Open_ok:
  assumes c: "codec compress uncompress n" and n: "n < 2 ^ 64" and b: "blocks_ok n bs" "bs \<noteq> []"
  shows "\<exists>r. SnappyIn_Open uncompress junk1 junk2 buf_size (concat (map (WriteBlock compress) bs)) = Some r \<and>
    in_ok compress n (concat bs) r"
proof -
  obtain a cs where bs: "bs = a # cs" using b(2) by (cases bs) auto
  let ?f = "concat (map (WriteBlock compress) bs)"
  let ?h = "\<lparr>sh_magic = MAGIC_NUM, sh_orig = of_nat (length a), sh_compressed = of_nat (length (compress a))\<rparr>"
  have h: "header_Load g ?f = (True, ?h, compress a @ concat (map (WriteBlock compress) cs))" for g
    by (simp add: bs WriteBlock_def header_roundtrip Let_def)
  have u: "unat (of_nat (length a) :: u64) = length a" "length a \<noteq> 0" using b bs n by (auto simp: unat_of_nat)
  let ?k = "(2 * buf_size + length a) div (2 * length a)"
  let ?s = "\<lparr>si_opened = True, si_file = ?f, si_prefetch = ?k, si_ahead = [], si_curr = [], si_offset = 0\<rparr>"
  have "ahead_ok compress n [] 0 bs ?s" using b by (simp add: ahead_ok_def)
  from request_blocks_ok [OF c this, of junk1 junk2 ?k] obtain as j cs f rs where
    p: "request_blocks uncompress junk1 junk2 ?k ?s = Some (?s\<lparr>si_file := f, si_ahead := rs\<rparr>)"
    "ahead_ok compress n as j cs (?s\<lparr>si_file := f, si_ahead := rs\<rparr>)" "length as + j = ?k" "concat as @ concat cs = concat bs" by auto
  have "SnappyIn_Open uncompress junk1 junk2 buf_size ?f = Some (?s\<lparr>si_file := f, si_ahead := rs\<rparr>)"
    using p(1) u by (simp add: SnappyIn_Open_def h Let_def)
  moreover have "in_parts compress n as j cs (concat bs) (?s\<lparr>si_file := f, si_ahead := rs\<rparr>)"
    using p(2-4) by (simp add: in_parts_def)
  ultimately show ?thesis unfolding in_ok_def by blast
qed

lemma SnappyOut_Open_ok: "0 < n_buffers \<Longrightarrow> out_ok compress (n - 1) n [] (SnappyOut_Open [] n_buffers n)"
  unfolding out_ok_def by (rule exI [of _ "[]"]) (simp add: blocks_out_def SnappyOut_Open_def)



end
