(* ===== verification/Thread_Ids.thy ===== *)
theory Thread_Ids
  imports Interleaving
begin

text \<open>
  \<^verbatim>\<open>thread_id.h\<close>: small numbers for threads. Every call holds the mutex, so it is one step; a thread gets its
  number when it first asks for it and gives it back when it ends.
\<close>

section \<open>ThreadIdAssigner\<close>

definition FMA_MAX_THREADS :: nat where "FMA_MAX_THREADS = 480"

function id_loop :: "nat \<Rightarrow> bool list \<Rightarrow> int \<times> bool list" where
  "id_loop i occupied =
     (if i < FMA_MAX_THREADS then
        if \<not> occupied ! i then (int i, occupied[i := True]) else id_loop (Suc i) occupied
      else (- 1, occupied))"
  by pat_completeness auto
termination by (relation "measure (\<lambda>(i, occupied). FMA_MAX_THREADS - i)") auto

declare id_loop.simps [simp del]

definition GetThreadId :: "bool list \<Rightarrow> int \<times> bool list" where
  "GetThreadId occupied = id_loop 0 occupied"

text \<open>Releasing anything else than a number of the table writes outside of it.\<close>

definition ReleaseThreadId :: "int \<Rightarrow> bool list \<Rightarrow> bool list option" where
  "ReleaseThreadId tid occupied =
     (if 0 \<le> tid \<and> nat tid < length occupied then Some (occupied[nat tid := False]) else None)"

section \<open>ThreadIdFetcher\<close>

text \<open>The table and the thread-local fetchers; the assertion of the constructor aborts the program.\<close>

record id_state =
  ti_occupied :: "bool list"
  ti_ids :: "nat \<Rightarrow> int option"

definition ThreadIdFetcher :: "nat \<Rightarrow> id_state \<Rightarrow> id_state option" where
  "ThreadIdFetcher t s =
     (let (tid, occupied) = GetThreadId (ti_occupied s)
      in if tid \<ge> 0 then Some (s\<lparr>ti_occupied := occupied, ti_ids := (ti_ids s)(t \<mapsto> tid)\<rparr>) else None)"

definition fetcher_destroyed :: "nat \<Rightarrow> id_state \<Rightarrow> id_state option" where
  "fetcher_destroyed t s =
     map_option (\<lambda>occupied. s\<lparr>ti_occupied := occupied, ti_ids := (ti_ids s)(t := None)\<rparr>)
       (ReleaseThreadId (the (ti_ids s t)) (ti_occupied s))"

definition GetMyThreadId :: "nat \<Rightarrow> id_state \<Rightarrow> (int \<times> id_state) option" where
  "GetMyThreadId t s =
     (case ti_ids s t of
        Some tid \<Rightarrow> Some (tid, s)
      | None \<Rightarrow> map_option (\<lambda>s. (the (ti_ids s t), s)) (ThreadIdFetcher t s))"

definition no_ids :: id_state where
  "no_ids = \<lparr>ti_occupied = replicate FMA_MAX_THREADS False, ti_ids = (\<lambda>t. None)\<rparr>"

inductive id_step :: "id_state \<Rightarrow> id_state \<Rightarrow> bool" where
  asks: "GetMyThreadId t s = Some (tid, s') \<Longrightarrow> id_step s s'"
| ends: "ti_ids s t \<noteq> None \<Longrightarrow> fetcher_destroyed t s = Some s' \<Longrightarrow> id_step s s'"

section \<open>The numbers in use\<close>

lemma id_loop_spec:
  "id_loop i occ =
     (if \<exists>j. i \<le> j \<and> j < FMA_MAX_THREADS \<and> \<not> occ ! j
      then let k = LEAST j. i \<le> j \<and> j < FMA_MAX_THREADS \<and> \<not> occ ! j in (int k, occ[k := True])
      else (- 1, occ))"
proof (induction i occ rule: id_loop.induct)
  case (1 i occ)
  consider "\<not> i < FMA_MAX_THREADS" | "i < FMA_MAX_THREADS" "\<not> occ ! i" | "i < FMA_MAX_THREADS" "occ ! i" by blast
  then show ?case
  proof cases
    case 2
    then have "(LEAST j. i \<le> j \<and> j < FMA_MAX_THREADS \<and> \<not> occ ! j) = i" by (intro Least_equality) auto
    then show ?thesis using 2 by (subst id_loop.simps) auto
  next
    case 3
    then have "(\<lambda>j. Suc i \<le> j \<and> j < FMA_MAX_THREADS \<and> \<not> occ ! j) = (\<lambda>j. i \<le> j \<and> j < FMA_MAX_THREADS \<and> \<not> occ ! j)"
      by (auto simp: fun_eq_iff Suc_le_eq le_less)
    note e = this
    have "id_loop i occ = id_loop (Suc i) occ" using 3 by (subst id_loop.simps) simp
    then show ?thesis using 1 3 unfolding e by simp
  qed (subst id_loop.simps, auto)
qed

definition ids_inv :: "id_state \<Rightarrow> bool" where
  "ids_inv s \<longleftrightarrow> length (ti_occupied s) = FMA_MAX_THREADS \<and>
     (\<forall>t tid. ti_ids s t = Some tid \<longrightarrow> 0 \<le> tid \<and> tid < int FMA_MAX_THREADS) \<and>
     (\<forall>i < FMA_MAX_THREADS. ti_occupied s ! i \<longleftrightarrow> (\<exists>t. ti_ids s t = Some (int i))) \<and>
     (\<forall>t u tid. ti_ids s t = Some tid \<longrightarrow> ti_ids s u = Some tid \<longrightarrow> t = u)"

lemma ids_init: "ids_inv no_ids"
  by (simp add: ids_inv_def no_ids_def)

lemma ids_invD:
  assumes "ids_inv s"
  shows "length (ti_occupied s) = FMA_MAX_THREADS"
    and "ti_ids s t = Some tid \<Longrightarrow> 0 \<le> tid \<and> tid < int FMA_MAX_THREADS"
    and "i < FMA_MAX_THREADS \<Longrightarrow> ti_occupied s ! i \<longleftrightarrow> (\<exists>t. ti_ids s t = Some (int i))"
    and "ti_ids s t = Some tid \<Longrightarrow> ti_ids s u = Some tid \<Longrightarrow> t = u"
  using assms unfolding ids_inv_def by blast+

lemma ids_invI:
  assumes "length occ = FMA_MAX_THREADS"
    and "\<And>t tid. ids t = Some tid \<Longrightarrow> 0 \<le> tid \<and> tid < int FMA_MAX_THREADS"
    and "\<And>i. i < FMA_MAX_THREADS \<Longrightarrow> occ ! i \<longleftrightarrow> (\<exists>t. ids t = Some (int i))"
    and "\<And>t u tid. ids t = Some tid \<Longrightarrow> ids u = Some tid \<Longrightarrow> t = u"
  shows "ids_inv (s\<lparr>ti_occupied := occ, ti_ids := ids\<rparr>)"
  using assms unfolding ids_inv_def by simp

lemma fetcher_inv:
  assumes "ids_inv s" "ti_ids s t = None" "ThreadIdFetcher t s = Some s'"
  shows "ids_inv s'"
proof -
  let ?P = "\<lambda>j. j < FMA_MAX_THREADS \<and> \<not> ti_occupied s ! j"
  define k where "k = (LEAST j. ?P j)"
  have ex: "\<exists>j. ?P j" using assms(3) by (auto simp: ThreadIdFetcher_def GetThreadId_def id_loop_spec [of 0] Let_def split: if_splits)
  then have k: "k < FMA_MAX_THREADS" "\<not> ti_occupied s ! k" unfolding k_def using LeastI_ex [of ?P] by auto
  have s': "s' = s\<lparr>ti_occupied := (ti_occupied s)[k := True], ti_ids := (ti_ids s)(t \<mapsto> int k)\<rparr>"
    using assms(3) ex by (simp add: ThreadIdFetcher_def GetThreadId_def id_loop_spec [of 0] Let_def k_def)
  note d = ids_invD [OF assms(1)]
  have free: "ti_ids s u \<noteq> Some (int k)" for u using d(3) [OF k(1)] k(2) by blast
  show ?thesis unfolding s'
  proof (rule ids_invI)
    fix i assume i: "i < FMA_MAX_THREADS"
    show "(ti_occupied s)[k := True] ! i \<longleftrightarrow> (\<exists>u. ((ti_ids s)(t \<mapsto> int k)) u = Some (int i))"
    proof (cases "i = k")
      case False
      then have "(\<exists>u. ((ti_ids s)(t \<mapsto> int k)) u = Some (int i)) \<longleftrightarrow> (\<exists>u. ti_ids s u = Some (int i))"
        using assms(2) by (metis fun_upd_apply of_nat_eq_iff option.distinct(1) option.inject)
      then show ?thesis using False d(3) [OF i] by simp
    qed (use k(1) d(1) in auto)
  next
    fix u v tid
    assume "((ti_ids s)(t \<mapsto> int k)) u = Some tid" "((ti_ids s)(t \<mapsto> int k)) v = Some tid"
    then show "u = v" using d(4) free by (metis fun_upd_apply option.inject)
  next
    fix u tid
    assume "((ti_ids s)(t \<mapsto> int k)) u = Some tid"
    then show "0 \<le> tid \<and> tid < int FMA_MAX_THREADS" using d(2) [of u tid] k(1) by (cases "u = t") auto
  qed (simp add: d(1))
qed

lemma release_inv:
  assumes "ids_inv s" "ti_ids s t = Some tid" "fetcher_destroyed t s = Some s'"
  shows "ids_inv s'"
proof -
  note d = ids_invD [OF assms(1)]
  obtain k where k: "tid = int k" "k < FMA_MAX_THREADS" using d(2) [OF assms(2)] by (metis nonneg_int_cases of_nat_less_iff)
  have s': "s' = s\<lparr>ti_occupied := (ti_occupied s)[k := False], ti_ids := (ti_ids s)(t := None)\<rparr>"
    using assms(2,3) k d(1) by (simp add: fetcher_destroyed_def ReleaseThreadId_def)
  show ?thesis unfolding s'
  proof (rule ids_invI)
    fix i assume i: "i < FMA_MAX_THREADS"
    show "(ti_occupied s)[k := False] ! i \<longleftrightarrow> (\<exists>u. ((ti_ids s)(t := None)) u = Some (int i))"
    proof (cases "i = k")
      case True
      then have "((ti_ids s)(t := None)) u \<noteq> Some (int i)" for u using d(4) assms(2) k(1) by (metis fun_upd_apply option.distinct(1))
      then show ?thesis using True k(2) d(1) by simp
    next
      case False
      then have "(\<exists>u. ((ti_ids s)(t := None)) u = Some (int i)) \<longleftrightarrow> (\<exists>u. ti_ids s u = Some (int i))"
        using assms(2) k(1) by (metis fun_upd_apply of_nat_eq_iff option.distinct(1) option.inject)
      then show ?thesis using False d(3) [OF i] by simp
    qed
  next
    fix u v x
    assume "((ti_ids s)(t := None)) u = Some x" "((ti_ids s)(t := None)) v = Some x"
    then show "u = v" using d(4) by (metis fun_upd_apply option.distinct(1))
  next
    fix u x
    assume "((ti_ids s)(t := None)) u = Some x"
    then show "0 \<le> x \<and> x < int FMA_MAX_THREADS" using d(2) [of u x] by (cases "u = t") auto
  qed (simp add: d(1))
qed

lemma ids_step: "ids_inv s \<Longrightarrow> id_step s s' \<Longrightarrow> ids_inv s'"
proof (erule id_step.cases)
  fix t u tid u'
  assume "ids_inv s" "s = u" "s' = u'" "GetMyThreadId t u = Some (tid, u')"
  then show "ids_inv s'" using fetcher_inv by (auto simp: GetMyThreadId_def split: option.splits)
next
  fix u t u'
  assume "ids_inv s" "s = u" "s' = u'" "ti_ids u t \<noteq> None" "fetcher_destroyed t u = Some u'"
  then show "ids_inv s'" using release_inv by blast
qed

interpretation ids: invariant_system "\<lambda>s. s = no_ids" id_step ids_inv
  by unfold_locales (auto intro: ids_init ids_step)

section \<open>Properties\<close>

text \<open>
  C40. Thread numbers are unique: whatever threads ask and end in whatever order, two live threads never have the
  same number, every number is below the limit, and a thread that has none gets the smallest number that no
  live thread has, as long as there is one.
\<close>

theorem thread_ids_unique:
  assumes "id_step\<^sup>*\<^sup>* no_ids s"
  shows "(\<forall>t u tid. ti_ids s t = Some tid \<longrightarrow> ti_ids s u = Some tid \<longrightarrow> t = u) \<and>
    (\<forall>t tid. ti_ids s t = Some tid \<longrightarrow> 0 \<le> tid \<and> tid < int FMA_MAX_THREADS) \<and>
    (\<forall>t k. k < FMA_MAX_THREADS \<longrightarrow> ti_ids s t = None \<longrightarrow> (\<forall>u. ti_ids s u \<noteq> Some (int k)) \<longrightarrow>
       (\<forall>j < k. \<exists>u. ti_ids s u = Some (int j)) \<longrightarrow> map_option fst (GetMyThreadId t s) = Some (int k))"
proof -
  have inv: "ids_inv s" using ids.inv_reachable [OF _ assms] by simp
  have "map_option fst (GetMyThreadId t s) = Some (int k)"
    if k: "k < FMA_MAX_THREADS" "ti_ids s t = None" "\<forall>u. ti_ids s u \<noteq> Some (int k)" "\<forall>j < k. \<exists>u. ti_ids s u = Some (int j)" for t k
  proof -
    have used: "ti_occupied s ! j" if "j < k" for j using ids_invD(3) [OF inv, of j] k(1,4) that by simp
    have nk: "\<not> ti_occupied s ! k" using ids_invD(3) [OF inv k(1)] k(3) by simp
    have "(LEAST j. j < FMA_MAX_THREADS \<and> \<not> ti_occupied s ! j) = k"
      using nk k(1) used by (intro Least_equality) (auto simp: not_less [symmetric])
    moreover have "\<exists>j < FMA_MAX_THREADS. \<not> ti_occupied s ! j" using nk k(1) by blast
    ultimately show ?thesis using k(2)
      by (auto simp: GetMyThreadId_def ThreadIdFetcher_def GetThreadId_def id_loop_spec [of 0] Let_def)
  qed
  then show ?thesis using inv unfolding ids_inv_def by blast
qed

lemma thread_ids_unique_witness:
  "map_option fst (GetMyThreadId 7 (no_ids\<lparr>ti_occupied := (ti_occupied no_ids)[0 := True], ti_ids := (ti_ids no_ids)(3 \<mapsto> 0)\<rparr>)) = Some 1"
proof -
  let ?s = "no_ids\<lparr>ti_occupied := (ti_occupied no_ids)[0 := True], ti_ids := (ti_ids no_ids)(3 \<mapsto> 0)\<rparr>"
  have "GetMyThreadId 3 no_ids = Some (0, ?s)"
    by (simp add: GetMyThreadId_def no_ids_def ThreadIdFetcher_def GetThreadId_def id_loop.simps FMA_MAX_THREADS_def)
  then have "id_step\<^sup>*\<^sup>* no_ids ?s" using id_step.asks by blast
  from thread_ids_unique [OF this] have "\<forall>t k. k < FMA_MAX_THREADS \<longrightarrow> ti_ids ?s t = None \<longrightarrow> (\<forall>u. ti_ids ?s u \<noteq> Some (int k)) \<longrightarrow>
       (\<forall>j < k. \<exists>u. ti_ids ?s u = Some (int j)) \<longrightarrow> map_option fst (GetMyThreadId t ?s) = Some (int k)" by blast
  from this [rule_format, of 1 7] show ?thesis by (auto simp: no_ids_def FMA_MAX_THREADS_def)
qed

text \<open>The fetcher of a thread that got no number would release -1, a write outside the table.\<close>

lemma release_minus_one: "ReleaseThreadId (- 1) occupied = None"
  by (simp add: ReleaseThreadId_def)

end
