(* ===== verification/Hard_Memory.thy ===== *)
theory Hard_Memory
  imports Byte_Words
begin

unbundle bit_operations_syntax

text \<open>
  \<^verbatim>\<open>hard_array_linux.h\<close> and \<^verbatim>\<open>hard_container.h\<close>: arrays and bitmaps in a file that is mapped into memory. The file,
  if there is one, is the list of its bytes, and the mapping is shared, so the memory is the file's contents.
  No result stands for an assertion that aborts and for an access outside the mapping.
\<close>

section \<open>HardArray\<close>

text \<open>A size of 0 stands for the size of the file. A mapping must not be empty, and one for reading must not reach
  behind the file; the file for writing is made if needed and cut or filled up with zeros.\<close>

definition HardArray :: "byte list option \<Rightarrow> bool \<Rightarrow> nat \<Rightarrow> byte list option" where
  "HardArray file_bytes read_only cnt =
     (if cnt = 0 \<and> file_bytes = None then None
      else let n = (if cnt = 0 then length (the file_bytes) else cnt) in
        if n = 0 then None
        else if read_only then
          (case file_bytes of None \<Rightarrow> None | Some bs \<Rightarrow> if n \<le> length bs then Some (take n bs) else None)
        else let bs = (case file_bytes of None \<Rightarrow> [] | Some bs \<Rightarrow> bs)
             in Some (take n bs @ replicate (n - length bs) 0))"

section \<open>HardContainer\<close>

text \<open>\<open>sz\<close> is the size of the type of the elements, which are the lists of their bytes.\<close>

record hard_container =
  hc_memory :: "byte list"
  hc_size :: nat

definition HardContainer_read :: "nat \<Rightarrow> byte list option \<Rightarrow> bool \<Rightarrow> hard_container option" where
  "HardContainer_read sz file_bytes read_only =
     map_option (\<lambda>m. \<lparr>hc_memory = m, hc_size = length m div sz\<rparr>) (HardArray file_bytes read_only 0)"

definition HardContainer :: "nat \<Rightarrow> nat \<Rightarrow> byte list option \<Rightarrow> hard_container option" where
  "HardContainer sz cnt file_bytes =
     map_option (\<lambda>m. \<lparr>hc_memory = m, hc_size = cnt\<rparr>) (HardArray file_bytes False (cnt * sz))"

definition hc_get :: "nat \<Rightarrow> nat \<Rightarrow> hard_container \<Rightarrow> byte list option" where
  "hc_get sz idx c =
     (if (idx + 1) * sz \<le> length (hc_memory c) then Some (take sz (drop (idx * sz) (hc_memory c))) else None)"

definition hc_set :: "nat \<Rightarrow> nat \<Rightarrow> byte list \<Rightarrow> hard_container \<Rightarrow> hard_container option" where
  "hc_set sz idx v c =
     (if (idx + 1) * sz \<le> length (hc_memory c)
      then Some (c\<lparr>hc_memory := take (idx * sz) (hc_memory c) @ v @ drop ((idx + 1) * sz) (hc_memory c)\<rparr>)
      else None)"

section \<open>HardBitmap\<close>

record hard_bitmap =
  hb_memory :: "byte list"
  hb_size :: nat

definition ToByte :: "nat \<Rightarrow> nat" where
  "ToByte cnt = (cnt + 7) div 8"

definition AlignTo8 :: "nat \<Rightarrow> nat" where
  "AlignTo8 cnt = (cnt + 7) div 8 * 8"

definition HardBitmap :: "nat \<Rightarrow> byte list option \<Rightarrow> hard_bitmap option" where
  "HardBitmap cnt file_bytes =
     map_option (\<lambda>m. \<lparr>hb_memory = m, hb_size = cnt\<rparr>) (HardArray file_bytes False (AlignTo8 (ToByte cnt)))"

definition GetByte :: "nat \<Rightarrow> hard_bitmap \<Rightarrow> byte option" where
  "GetByte idx b = (if idx div 8 < length (hb_memory b) then Some (hb_memory b ! (idx div 8)) else None)"

definition bitmap_index :: "nat \<Rightarrow> hard_bitmap \<Rightarrow> bool option" where
  "bitmap_index idx b = map_option (\<lambda>w. w AND push_bit (idx mod 8) 1 \<noteq> 0) (GetByte idx b)"

text \<open>The words of eight bytes, read as \<^verbatim>\<open>uint64_t\<close>.\<close>

fun any_loop :: "nat \<Rightarrow> byte list \<Rightarrow> bool" where
  "any_loop 0 m = False"
| "any_loop (Suc n) m = (if le_int (take 8 m) \<noteq> 0 then True else any_loop n (drop 8 m))"

definition Any :: "hard_bitmap \<Rightarrow> bool" where
  "Any b = any_loop (length (hb_memory b) div 8) (hb_memory b)"

definition bitmap_None :: "hard_bitmap \<Rightarrow> bool" where
  "bitmap_None b = (\<not> Any b)"

definition bitmap_Set :: "nat \<Rightarrow> hard_bitmap \<Rightarrow> hard_bitmap option" where
  "bitmap_Set idx b =
     map_option (\<lambda>w. b\<lparr>hb_memory := (hb_memory b)[idx div 8 := w OR push_bit (idx mod 8) 1]\<rparr>) (GetByte idx b)"

text \<open>The mask is the truth value of \<^verbatim>\<open>(ONE << (idx % 8)) == 0\<close>.\<close>

definition bitmap_Reset :: "nat \<Rightarrow> hard_bitmap \<Rightarrow> hard_bitmap option" where
  "bitmap_Reset idx b =
     map_option (\<lambda>w. b\<lparr>hb_memory := (hb_memory b)[idx div 8 := w AND (if push_bit (idx mod 8) (1 :: byte) = 0 then 1 else 0)]\<rparr>)
       (GetByte idx b)"

section \<open>Bits\<close>

definition bitmap_ok :: "hard_bitmap \<Rightarrow> bool" where
  "bitmap_ok b \<longleftrightarrow> length (hb_memory b) = AlignTo8 (ToByte (hb_size b))"

lemma index_in_memory: "idx < cnt \<Longrightarrow> idx div 8 < AlignTo8 (ToByte cnt)"
  unfolding AlignTo8_def ToByte_def by linarith

lemma bitmap_index_bit:
  "bitmap_ok b \<Longrightarrow> idx < hb_size b \<Longrightarrow> bitmap_index idx b = Some (bit (hb_memory b ! (idx div 8)) (idx mod 8))"
  using index_in_memory [of idx "hb_size b"]
  by (simp add: bitmap_ok_def bitmap_index_def GetByte_def bit_iff_and_push_bit_not_eq_0)

lemma le_int_zero: "le_int bs = 0 \<longleftrightarrow> (\<forall>w \<in> set bs. w = 0)"
proof (induction bs)
  case (Cons w bs)
  have "uint w + 256 * le_int bs = 0 \<longleftrightarrow> uint w = 0 \<and> le_int bs = 0"
    using byte_uint(1) [of w] le_int_range(1) [of bs] by linarith
  then show ?case using Cons by (simp add: uint_0_iff)
qed simp

lemma any_loop_iff: "length m = 8 * n \<Longrightarrow> any_loop n m \<longleftrightarrow> (\<exists>w \<in> set m. w \<noteq> 0)"
proof (induction n m rule: any_loop.induct)
  case (2 n m)
  have "set m = set (take 8 m) \<union> set (drop 8 m)" by (metis append_take_drop_id set_append)
  then show ?case using 2 le_int_zero [of "take 8 m"] by auto
qed simp

lemma byte_nonzero: "(w :: byte) \<noteq> 0 \<longleftrightarrow> (\<exists>k < 8. bit w k)"
proof -
  have "bit w k \<Longrightarrow> k < 8" for k using bit_imp_le_length [of w k] by simp
  then show ?thesis by (auto simp: bit_eq_iff)
qed

text \<open>The abstraction: the set of the bits that are on.\<close>

definition bits :: "hard_bitmap \<Rightarrow> nat set" where
  "bits b = {j. j div 8 < length (hb_memory b) \<and> bit (hb_memory b ! (j div 8)) (j mod 8)}"

definition bits_inv :: "nat \<Rightarrow> hard_bitmap \<Rightarrow> bool" where
  "bits_inv cnt b \<longleftrightarrow> hb_size b = cnt \<and> bitmap_ok b \<and> bits b \<subseteq> {..<cnt}"

lemma bit_push_one: "bit (2 ^ k :: byte) j \<longleftrightarrow> j = k \<and> k < 8"
  by (auto simp: bit_exp_iff)

lemma Set_bits:
  assumes "bits_inv cnt b" "idx < cnt"
  shows "\<exists>b'. bitmap_Set idx b = Some b' \<and> bits_inv cnt b' \<and> bits b' = insert idx (bits b)"
proof -
  let ?q = "idx div 8" and ?m = "hb_memory b"
  have q: "?q < length ?m" using assms index_in_memory [of idx cnt] by (simp add: bits_inv_def bitmap_ok_def)
  let ?b = "b\<lparr>hb_memory := ?m[?q := ?m ! ?q OR push_bit (idx mod 8) 1]\<rparr>"
  have "bitmap_Set idx b = Some ?b" using q by (simp add: bitmap_Set_def GetByte_def)
  moreover have "bits ?b = insert idx (bits b)"
  proof (rule set_eqI)
    fix j
    have "j = idx \<longleftrightarrow> j div 8 = ?q \<and> j mod 8 = idx mod 8" by (metis div_mult_mod_eq)
    then show "j \<in> bits ?b \<longleftrightarrow> j \<in> insert idx (bits b)"
      using q by (cases "j div 8 = ?q") (auto simp: bits_def bit_or_iff bit_push_one)
  qed
  moreover from this have "bits_inv cnt ?b" using assms by (auto simp: bits_inv_def bitmap_ok_def)
  ultimately show ?thesis by blast
qed

lemma Reset_bits:
  assumes "bits_inv cnt b" "idx < cnt"
  shows "\<exists>b'. bitmap_Reset idx b = Some b' \<and> bits_inv cnt b' \<and> bits b' = {j \<in> bits b. j div 8 \<noteq> idx div 8}"
proof -
  let ?q = "idx div 8" and ?m = "hb_memory b"
  have q: "?q < length ?m" using assms index_in_memory [of idx cnt] by (simp add: bits_inv_def bitmap_ok_def)
  have "bit (2 ^ (idx mod 8) :: byte) (idx mod 8)" by (simp add: bit_push_one)
  then have "(2 :: byte) ^ (idx mod 8) \<noteq> 0" by (metis bit_0_eq bot_apply bot_bool_def)
  then have "bitmap_Reset idx b = Some (b\<lparr>hb_memory := ?m[?q := 0]\<rparr>)" using q by (simp add: bitmap_Reset_def GetByte_def)
  moreover have "bits (b\<lparr>hb_memory := ?m[?q := 0]\<rparr>) = {j \<in> bits b. j div 8 \<noteq> ?q}"
    using q by (auto simp: bits_def nth_list_update split: if_splits)
  moreover from this have "bits_inv cnt (b\<lparr>hb_memory := ?m[?q := 0]\<rparr>)" using assms by (auto simp: bits_inv_def bitmap_ok_def)
  ultimately show ?thesis by blast
qed

lemma Any_bits:
  assumes "bits_inv cnt b"
  shows "Any b \<longleftrightarrow> bits b \<noteq> {}"
proof -
  have len: "length (hb_memory b) = 8 * (length (hb_memory b) div 8)"
    using assms by (auto simp: bits_inv_def bitmap_ok_def AlignTo8_def)
  have "(\<exists>w \<in> set (hb_memory b). w \<noteq> 0) \<longleftrightarrow> bits b \<noteq> {}"
  proof
    assume "\<exists>w \<in> set (hb_memory b). w \<noteq> 0"
    then obtain q k where "q < length (hb_memory b)" "k < 8" "bit (hb_memory b ! q) k"
      using byte_nonzero by (metis in_set_conv_nth)
    then have "8 * q + k \<in> bits b" by (simp add: bits_def)
    then show "bits b \<noteq> {}" by blast
  next
    assume "bits b \<noteq> {}"
    then obtain j where "j div 8 < length (hb_memory b)" "bit (hb_memory b ! (j div 8)) (j mod 8)" by (auto simp: bits_def)
    then show "\<exists>w \<in> set (hb_memory b). w \<noteq> 0" using byte_nonzero by (metis mod_less_divisor nth_mem zero_less_numeral)
  qed
  then show ?thesis using any_loop_iff [OF len] by (simp add: Any_def)
qed

lemma index_bits: "bits_inv cnt b \<Longrightarrow> j < cnt \<Longrightarrow> bitmap_index j b = Some (j \<in> bits b)"
  using bitmap_index_bit [of b j] index_in_memory [of j cnt] by (auto simp: bits_inv_def bits_def bitmap_ok_def)

lemma new_bits: "cnt > 0 \<Longrightarrow> \<exists>b. HardBitmap cnt None = Some b \<and> bits_inv cnt b \<and> bits b = {}"
proof -
  assume c: "cnt > 0"
  let ?n = "AlignTo8 (ToByte cnt)"
  have "?n \<noteq> 0" using c unfolding AlignTo8_def ToByte_def by linarith
  then have "HardBitmap cnt None = Some \<lparr>hb_memory = replicate ?n 0, hb_size = cnt\<rparr>"
    by (simp add: HardBitmap_def HardArray_def)
  then show ?thesis by (auto simp: bits_inv_def bits_def bitmap_ok_def)
qed

section \<open>Properties\<close>

datatype bitmap_op = SetOp nat | ResetOp nat

fun run_ops :: "bitmap_op list \<Rightarrow> hard_bitmap \<Rightarrow> hard_bitmap option" where
  "run_ops [] b = Some b"
| "run_ops (SetOp i # os) b = Option.bind (bitmap_Set i b) (run_ops os)"
| "run_ops (ResetOp i # os) b = Option.bind (bitmap_Reset i b) (run_ops os)"

fun set_after :: "bitmap_op list \<Rightarrow> nat set \<Rightarrow> nat set" where
  "set_after [] S = S"
| "set_after (SetOp i # os) S = set_after os (insert i S)"
| "set_after (ResetOp i # os) S = set_after os {j \<in> S. j div 8 \<noteq> i div 8}"

lemma run_ops_bits:
  "bits_inv cnt b \<Longrightarrow> \<forall>i. SetOp i \<in> set os \<or> ResetOp i \<in> set os \<longrightarrow> i < cnt \<Longrightarrow>
    \<exists>b'. run_ops os b = Some b' \<and> bits_inv cnt b' \<and> bits b' = set_after os (bits b)"
proof (induction os b rule: run_ops.induct)
  case (2 i os b)
  have "i < cnt" using 2(3) by simp
  from Set_bits [OF 2(2) this] 2 show ?case by fastforce
next
  case (3 i os b)
  have "i < cnt" using 3(3) by simp
  from Reset_bits [OF 3(2) this] 3 show ?case by fastforce
qed simp

text \<open>
  C39. A bitmap in a new file is a set of numbers below its size: after any sets and resets of valid indexes, reading
  an index tells whether it is in the set, and \<^verbatim>\<open>Any\<close> and \<^verbatim>\<open>None\<close>, which look at whole words, whether the set
  has an element; but a reset takes out all eight numbers that share a byte with its index.
\<close>

theorem bitmap_is_set:
  assumes "cnt > 0" "\<forall>i. SetOp i \<in> set os \<or> ResetOp i \<in> set os \<longrightarrow> i < cnt"
  shows "\<exists>b b'. HardBitmap cnt None = Some b \<and> run_ops os b = Some b' \<and>
    (\<forall>j < cnt. bitmap_index j b' = Some (j \<in> set_after os {})) \<and>
    (Any b' \<longleftrightarrow> set_after os {} \<noteq> {}) \<and> (bitmap_None b' \<longleftrightarrow> set_after os {} = {})"
proof -
  obtain b where b: "HardBitmap cnt None = Some b" "bits_inv cnt b" "bits b = {}" using new_bits [OF assms(1)] by blast
  obtain b' where b': "run_ops os b = Some b'" "bits_inv cnt b'" "bits b' = set_after os {}"
    using run_ops_bits [OF b(2) assms(2)] b(3) by auto
  then show ?thesis using b(1) index_bits [OF b'(2)] Any_bits [OF b'(2)] by (auto simp: bitmap_None_def)
qed

lemma bitmap_is_set_witness:
  "\<exists>b b'. HardBitmap 20 None = Some b \<and> run_ops [SetOp 3, SetOp 9, SetOp 17, ResetOp 8] b = Some b' \<and>
    bitmap_index 3 b' = Some True \<and> bitmap_index 9 b' = Some False \<and> Any b'"
proof -
  have "set_after [SetOp 3, SetOp 9, SetOp 17, ResetOp 8] {} = {3, 17}" by auto
  then show ?thesis using bitmap_is_set [of 20 "[SetOp 3, SetOp 9, SetOp 17, ResetOp 8]"] by auto
qed

text \<open>Elements of a container keep what is put into them, and leave the others alone.\<close>

lemma container_get_set:
  assumes "hc_set sz i v c = Some c'" "length v = sz"
  shows "hc_get sz j c' = (if i = j then Some v else hc_get sz j c)"
proof -
  let ?m = "hc_memory c"
  have i: "(i + 1) * sz \<le> length ?m" and c': "c' = c\<lparr>hc_memory := take (i * sz) ?m @ v @ drop ((i + 1) * sz) ?m\<rparr>"
    using assms(1) by (auto simp: hc_set_def split: if_splits)
  have len: "length (hc_memory c') = length ?m" using i assms(2) by (simp add: c')
  consider "i = j" | "j + 1 \<le> i" | "i + 1 \<le> j" by linarith
  then show ?thesis
  proof cases
    case 1
    then show ?thesis using i assms(2) len by (simp add: hc_get_def c')
  next
    case 2
    then have "(j + 1) * sz \<le> i * sz" by (rule mult_le_mono1)
    then have "take sz (drop (j * sz) (hc_memory c')) = take sz (drop (j * sz) ?m)"
      using i by (auto simp: c' drop_take min_def add.commute)
    then show ?thesis using 2 len by (simp add: hc_get_def)
  next
    case 3
    then have "(i + 1) * sz \<le> j * sz" by (rule mult_le_mono1)
    then have "drop (j * sz) (hc_memory c') = drop (j * sz) ?m"
      using 3 i assms(2) by (simp add: c' add.commute)
    then show ?thesis using 3 len by (simp add: hc_get_def)
  qed
qed

text \<open>A container that is made empty over an old file begins with what the file held.\<close>

lemma container_keeps_file: "HardContainer 1 2 (Some [5, 6, 7]) = Some \<lparr>hc_memory = [5, 6], hc_size = 2\<rparr>"
  by (simp add: HardContainer_def HardArray_def)

end
