(* ===== verification/Spec2Isabelle.thy ===== *)
theory Spec2Isabelle
  imports Char_Classes Int_Text Field_Parsers Base_Codecs Block_Cipher Message_Digest Stream_Base
    Tuple_Parser Text_Parser RW_Locks Simple_Locks Bounded_Queue Thread_Pool Pipeline_Stage
    String_Util Binary_Buffer Binary_Codec Stream_Buffers Multi_Disk Text_Dir Arg_Parser
    Logging Log_Files Text_Format Text_Writer
    Timed_Tasks File_Paths Rotating_Files Data_Files Hdfs_System Snappy_Streams Thread_Ids Hard_Memory
begin

text \<open>
  A verification library for fma-common, a collection of C++ utilities for data-processing programs.
  All files named below are under \<^verbatim>\<open>src/fma-common\<close>.

  \<^bold>\<open>The program.\<close> At the bottom are character tables, parsers and printers (\<^verbatim>\<open>text_parser.h\<close>,
  \<^verbatim>\<open>string_util.h\<close>), a binary format (\<^verbatim>\<open>binary_buffer.h\<close>, \<^verbatim>\<open>binary_read_write_helper.h\<close>), codecs and
  ciphers (\<^verbatim>\<open>encrypt.h\<close>) and locks (\<^verbatim>\<open>rw_lock.h\<close>). \<^verbatim>\<open>bounded_queue.h\<close>, \<^verbatim>\<open>thread_pool.h\<close> and
  \<^verbatim>\<open>pipeline.h\<close> move work between threads: a stage of a pipeline gives tasks to a pool and pushes its
  results to the next stage or to a queue; \<^verbatim>\<open>timed_task.h\<close> runs tasks at points in time. On these stand the readers and writers of text files: the
  text parser reads blocks from an input stream and parses them in a second stage, the text writer turns
  parts of a table into text in one stage and writes them in another, and a directory of text files is
  read as one stream of lines. \<^verbatim>\<open>stream_buffer.h\<close> and \<^verbatim>\<open>multi_disk_stream.h\<close> put prefetching, background
  writing and striping between a stream and its user. Beside them are the command line
  (\<^verbatim>\<open>option.h\<close>, \<^verbatim>\<open>configuration.h\<close>) and logging (\<^verbatim>\<open>logger.h\<close>, \<^verbatim>\<open>rotating_file_log_device.h\<close>).

  \<^bold>\<open>The theories.\<close>
    \<^item> \<open>Prelude\<close>, \<open>Byte_Words\<close>, \<open>Interleaving\<close>: what the components share: \<^verbatim>\<open>char\<close> as a number, ranges of
      machine integers, integers as bytes in memory, lists; and the locale \<open>invariant_system\<close>, a
      transition system with an invariant, of which every concurrent component gives an interpretation.
    \<^item> \<open>Char_Classes\<close>, \<open>Int_Text\<close>, \<open>Field_Parsers\<close>, \<open>Tuple_Parser\<close>: \<^verbatim>\<open>TextParserUtils\<close> from a character to a
      line. A parser is a function of the text from its \<^verbatim>\<open>beg\<close> to its \<^verbatim>\<open>end\<close>; it returns how many
      bytes it used, zero for an error as in the code, and the value.
    \<^item> \<open>Stream_Base\<close>, \<open>Text_Parser\<close>: the interface \<^verbatim>\<open>InputStreamBase\<close> as the locale \<open>byte_source\<close>, the memory
      stream that interprets it, the line reader, and the class \<^verbatim>\<open>TextParser\<close> over any byte source.
    \<^item> \<open>String_Util\<close>, \<open>Text_Format\<close>: strings, their splitting and joining, and the format strings of
      \<^verbatim>\<open>string_formatter.h\<close>.
    \<^item> \<open>Base_Codecs\<close>, \<open>Block_Cipher\<close>, \<open>Message_Digest\<close>: \<^verbatim>\<open>Base64\<close>, \<^verbatim>\<open>Base16\<close>, \<^verbatim>\<open>Blowfish\<close>, \<^verbatim>\<open>Encryptor\<close> and
      \<^verbatim>\<open>MD5\<close>, with 32-bit words of \<open>HOL-Library.Word\<close> and the tables of the source.
    \<^item> \<open>Binary_Buffer\<close>, \<open>Binary_Codec\<close>: the block with its two positions, and readers and writers of values;
      locale \<open>binary_type\<close> is the contract of a reader and its writer, and the containers' readers
      interpret it from the elements' readers.
    \<^item> \<open>RW_Locks\<close>, \<open>Simple_Locks\<close>: every atomic operation of a lock is a step of a thread; memory is
      sequentially consistent.
    \<^item> \<open>Bounded_Queue\<close>, \<open>Thread_Pool\<close>, \<open>Pipeline_Stage\<close>: monitors; a critical section is a step, and
      waiting threads are woken by notifications or spuriously.
    \<^item> \<open>Stream_Buffers\<close>, \<open>Multi_Disk\<close>, \<open>Text_Dir\<close>: streams made of streams.
    \<^item> \<open>Text_Writer\<close>: two stages of \<open>Pipeline_Stage\<close> and the thread that feeds them, as one step relation.
    \<^item> \<open>Arg_Options\<close>, \<open>Arg_Parser\<close>: one option and the command line.
    \<^item> \<open>Logging\<close>, \<open>Log_Files\<close>: loggers with their devices, and a log that is spread over numbered files.
    \<^item> \<open>Timed_Tasks\<close>: the scheduler of timed and recurring tasks, its workers and its clock, as a step relation.
    \<^item> \<open>File_Paths\<close>, \<open>File_Streams\<close>: URIs (\<^verbatim>\<open>file_system.h\<close>) and the streams on files: in memory, on disk, through
      a pipe from HDFS, with a buffer of \<open>Stream_Buffers\<close> between, and \<^verbatim>\<open>InputFmaStream\<close> and \<^verbatim>\<open>OutputFmaStream\<close>,
      which choose by the URI. Each input interprets the contract \<open>full_source\<close> of the buffer.
    \<^item> \<open>Hdfs_System\<close>: \<^verbatim>\<open>HdfsFileSystem\<close> (\<^verbatim>\<open>file_system.h\<close>), whose commands and what they print are parameters.
    \<^item> \<open>Snappy_Streams\<close>: files of compressed blocks (\<^verbatim>\<open>snappy_stream.h\<close>), written and prefetched through two stages;
      the compression is a parameter with the law \<open>codec\<close>, and the loops that may not end are partial functions.
    \<^item> \<open>Data_Files\<close>, \<open>Rotating_Files\<close>: binary files with a header (\<^verbatim>\<open>data_file.h\<close>) and data files with increasing
      numbers (\<^verbatim>\<open>rotating_files.h\<close>).
    \<^item> \<open>Thread_Ids\<close>, \<open>Hard_Memory\<close>: numbers for threads (\<^verbatim>\<open>thread_id.h\<close>), and arrays and bitmaps in mapped files
      (\<^verbatim>\<open>hard_container.h\<close>).

  \<^bold>\<open>How the code is rendered.\<close> A class is a record or, where it has no state of its own, its parameters; a
  member function is a function of the record that returns it updated. \<^verbatim>\<open>size_t\<close> counters of data in
  memory are natural numbers, integers that may overflow are kept at their width or have a range check.
  An exception, an assertion that aborts and a call that does not return are values of an option or a
  sum type. Pointers into a buffer are positions. A stream that is not in the repository is a parameter
  with the laws of the interface. Values of template types are parameters with their
  printers and readers.

  \<^bold>\<open>What the lemmas show.\<close> The round trips relate a writer of the code with its reader: integers, fields,
  rows and whole CSV files, base 64, cipher texts, binary values, striped files, command lines, and a table
  that the text writer writes and the text parser reads. Refinements and equivalences relate a component
  to a specification: a buffered or prefetching stream to its bytes, a binary buffer to a list, the
  incremental digest to the digest of the padded message, the readers of a directory to the lines of its
  files, rotating logs to a window of the last files, a bitmap to a set. Writing a file and reading it back gives
  the text for every buffer size, piece size, seek and schedule of the writing thread. For the concurrent parts there are invariants over
  all interleavings, mutual exclusion, order and completeness of results, and absence of lost wake-ups;
  that stages run empty and that writing a table returns is proved with the exact number of steps.
  The findings of the manifest are places where the code does something else than it says.

  \<^bold>\<open>Bounds and fuel.\<close> Loops over data recurse on the data or on a measure. A loop that may not end is a
  \<^theory_text>\<open>partial_function\<close> whose value \<^const>\<open>None\<close> is non-termination; where the code ends, the theorems state
  that the value is \<^const>\<open>Some\<close>. The number of threads is any number below the bound of the code.

  \<^bold>\<open>Not modelled.\<close> Vendored libraries (\<^verbatim>\<open>json.hpp\<close>, \<^verbatim>\<open>date.h\<close>), the streams over libhdfs and MySQL, and
  what asks the operating system or runs commands (\<^verbatim>\<open>hardware_info.h\<close>, \<^verbatim>\<open>env.h\<close>, the listing, making and removing
  of files); floating point text; the parts that the
  manifest lists for each component that is modelled partly.
\<close>

end
